(* ===== verification/Prelude.thy ===== *)
theory Prelude
  imports Main "HOL-Library.Word"
begin

unbundle bit_operations_syntax

section \<open>Prelude: machine types, outcomes, byte memory\<close>

text \<open>
  What every component of the kernel model shares: the C types of \<open>types.h\<close> and the
  parameters of \<open>param.h\<close> and \<open>fs.h\<close>; the outcomes a kernel function can have; byte
  memory with little-endian 32-bit loads and stores; paths through pointer fields; byte
  lists with little-endian 16- and 32-bit fields (disk blocks); and the simplification
  collections of the development.
\<close>

named_theorems res_simps \<open>equations of the outcome monad\<close>
named_theorems mem_simps \<open>loads over stores\<close>

subsection \<open>C types (types.h) and parameters (param.h, fs.h)\<close>

type_synonym uchar = "8 word"
type_synonym ushort = "16 word"
type_synonym uint = "32 word"

abbreviation (input) NPROC :: nat where "NPROC \<equiv> 64"
abbreviation (input) KSTACKSIZE :: uint where "KSTACKSIZE \<equiv> 4096"
abbreviation (input) NOFILE :: nat where "NOFILE \<equiv> 16"
abbreviation (input) NFILE :: nat where "NFILE \<equiv> 100"
abbreviation (input) NINODE :: nat where "NINODE \<equiv> 50"
abbreviation (input) NDEV :: nat where "NDEV \<equiv> 10"
abbreviation (input) ROOTDEV :: uint where "ROOTDEV \<equiv> 1"
abbreviation (input) MAXOPBLOCKS :: nat where "MAXOPBLOCKS \<equiv> 10"
abbreviation (input) LOGSIZE :: nat where "LOGSIZE \<equiv> 30"
abbreviation (input) NBUF :: nat where "NBUF \<equiv> 30"
abbreviation (input) BSIZE :: nat where "BSIZE \<equiv> 512"

subsection \<open>Outcomes of kernel functions\<close>

text \<open>
  A kernel function returns a value, calls \<open>panic\<close>, or reaches a \<open>sleep\<close> whose wake-up
  another process must provide (the channel is recorded). \<open>Fault\<close> is an access C leaves
  undefined (a null pointer, an array index out of range) and \<open>Diverge\<close> a pointer loop
  that does not come back to its end within the number of nodes there are.
\<close>

datatype chan =
  ChanBuf nat | ChanLog | ChanInode nat | ChanProc nat | ChanPipeR | ChanPipeW
| ChanTicks | ChanInput

datatype 'a res = Ret 'a | Panic string | Sleep chan | Fault string | Diverge

fun bindr :: "'a res \<Rightarrow> ('a \<Rightarrow> 'b res) \<Rightarrow> 'b res" where
  "bindr (Ret x) f = f x"
| "bindr (Panic e) f = Panic e"
| "bindr (Sleep c) f = Sleep c"
| "bindr (Fault e) f = Fault e"
| "bindr Diverge f = Diverge"

lemma bindr_eq_Ret [res_simps]: "bindr m f = Ret y \<longleftrightarrow> (\<exists>x. m = Ret x \<and> f x = Ret y)"
  by (cases m) auto

lemma bindr_RetE:
  assumes "bindr m f = Ret y"
  obtains x where "m = Ret x" and "f x = Ret y"
  using assms by (auto simp: bindr_eq_Ret)

lemma bindr_cong [fundef_cong]:
  "m = m' \<Longrightarrow> (\<And>x. m' = Ret x \<Longrightarrow> f x = f' x) \<Longrightarrow> bindr m f = bindr m' f'"
  by (cases m') auto

lemma bindr_assoc: "bindr (bindr m f) g = bindr m (\<lambda>x. bindr (f x) g)"
  by (cases m) auto

subsection \<open>Byte memory\<close>

type_synonym mem = "uint \<Rightarrow> uchar"

definition load32 :: "mem \<Rightarrow> uint \<Rightarrow> uint" where
  "load32 m a = ucast (m a) OR push_bit 8 (ucast (m (a + 1)))
     OR push_bit 16 (ucast (m (a + 2))) OR push_bit 24 (ucast (m (a + 3)))"

definition store32 :: "mem \<Rightarrow> uint \<Rightarrow> uint \<Rightarrow> mem" where
  "store32 m a v = m(a := ucast v, a + 1 := ucast (drop_bit 8 v),
     a + 2 := ucast (drop_bit 16 v), a + 3 := ucast (drop_bit 24 v))"

text \<open>The word \<open>v\<close> is the disjunction of its four bytes in place.\<close>

lemma bytes_of_word32:
  "(ucast (ucast v :: uchar) :: uint) OR push_bit 8 (ucast (ucast (drop_bit 8 v) :: uchar))
     OR push_bit 16 (ucast (ucast (drop_bit 16 v) :: uchar))
     OR push_bit 24 (ucast (ucast (drop_bit 24 v) :: uchar)) = v"
proof (rule bit_word_eqI)
  fix n assume "n < LENGTH(32)"
  then consider "n < 8" | "8 \<le> n \<and> n < 16" | "16 \<le> n \<and> n < 24" | "24 \<le> n \<and> n < 32"
    by fastforce
  then show "bit ((ucast (ucast v :: uchar) :: uint) OR push_bit 8 (ucast (ucast (drop_bit 8 v) :: uchar))
     OR push_bit 16 (ucast (ucast (drop_bit 16 v) :: uchar))
     OR push_bit 24 (ucast (ucast (drop_bit 24 v) :: uchar))) n = bit v n"
    by cases (auto simp: bit_simps)
qed

lemma word_neq_add [simp]:
  "(a::uint) \<noteq> a + 1" "a \<noteq> a + 2" "a \<noteq> a + 3"
  "a + 1 \<noteq> a + 2" "a + 1 \<noteq> a + 3" "a + 2 \<noteq> a + 3"
  by simp_all

lemma load32_store32 [simp]: "load32 (store32 m a v) a = v"
  using bytes_of_word32 [of v] by (simp add: load32_def store32_def)


text \<open>Aligned words do not overlap, and a store changes only its own four bytes.\<close>

lemma unat_add_nat_no_wrap:
  fixes a :: uint
  assumes "unat a + k < 2 ^ 32"
  shows "unat (a + of_nat k) = unat a + k"
proof -
  have "unat (of_nat k :: uint) = k"
    using assms by (simp add: unat_of_nat)
  then show ?thesis
    using assms by (simp add: unat_word_ariths)
qed

lemma unat_lt_2p32: "unat (a :: uint) < 2 ^ 32"
  using unsigned_less [of a] by simp

lemma aligned4_no_wrap: "4 dvd unat (a::uint) \<Longrightarrow> k < 4 \<Longrightarrow> unat a + k < 2 ^ 32"
  using unat_lt_2p32 [of a] by (auto elim!: dvdE)

lemma unat_aligned4_add:
  fixes a :: uint
  assumes "4 dvd unat a"
  shows "unat (a + 1) = unat a + 1" "unat (a + 2) = unat a + 2" "unat (a + 3) = unat a + 3"
  using unat_add_nat_no_wrap [OF aligned4_no_wrap [OF assms, of 1]]
    unat_add_nat_no_wrap [OF aligned4_no_wrap [OF assms, of 2]]
    unat_add_nat_no_wrap [OF aligned4_no_wrap [OF assms, of 3]] by simp_all

lemma store32_other:
  assumes "4 dvd unat a" and "unat b < unat a \<or> unat a + 4 \<le> unat b"
  shows "store32 m a v b = m b"
proof -
  have "b \<noteq> a" "b \<noteq> a + 1" "b \<noteq> a + 2" "b \<noteq> a + 3"
    using assms(2) unat_aligned4_add [OF assms(1)] by auto
  then show ?thesis by (simp add: store32_def)
qed

lemma aligned4_apart:
  assumes "4 dvd (x::nat)" and "4 dvd y" and "x \<noteq> y"
  shows "y + 4 \<le> x \<or> x + 4 \<le> y"
  using assms by (auto elim!: dvdE)

lemma load32_cong:
  assumes "4 dvd unat a" and "\<And>x. unat a \<le> unat x \<Longrightarrow> unat x < unat a + 4 \<Longrightarrow> m x = m' x"
  shows "load32 m a = load32 m' a"
  using assms(2) [of a] assms(2) [of "a + 1"] assms(2) [of "a + 2"] assms(2) [of "a + 3"]
    unat_aligned4_add [OF assms(1)] by (simp add: load32_def)

lemma load32_store32_diff [mem_simps]:
  assumes "4 dvd unat a" and "4 dvd unat b" and "a \<noteq> b"
  shows "load32 (store32 m a v) b = load32 m b"
proof (rule load32_cong [OF assms(2)])
  fix x :: uint assume x: "unat b \<le> unat x" "unat x < unat b + 4"
  have "unat a \<noteq> unat b" using assms(3) by (simp add: word_unat_eq_iff)
  from aligned4_apart [OF assms(1,2) this] x show "store32 m a v x = m x"
    by (intro store32_other [OF assms(1)]) linarith
qed

subsection \<open>Paths through a pointer field\<close>

text \<open>
  \<open>path f x xs y\<close>: following the field \<open>f\<close> from \<open>x\<close> visits exactly the nodes \<open>xs\<close> and
  then stands at \<open>y\<close>.
\<close>

primrec path :: "('p \<Rightarrow> 'p) \<Rightarrow> 'p \<Rightarrow> 'p list \<Rightarrow> 'p \<Rightarrow> bool" where
  "path f x [] y \<longleftrightarrow> x = y"
| "path f x (a # as) y \<longleftrightarrow> x = a \<and> path f (f a) as y"

lemma path_append [simp]: "path f x (as @ bs) y \<longleftrightarrow> (\<exists>z. path f x as z \<and> path f z bs y)"
  by (induction as arbitrary: x) auto

lemma path_upd [simp]: "p \<notin> set as \<Longrightarrow> path (f(p := q)) x as y \<longleftrightarrow> path f x as y"
  by (induction as arbitrary: x) auto

lemma path_cong: "(\<And>p. p \<in> set as \<Longrightarrow> f p = g p) \<Longrightarrow> path f x as y \<longleftrightarrow> path g x as y"
  by (induction as arbitrary: x) auto

lemma path_unique:
  "path f x as y \<Longrightarrow> path f x bs y \<Longrightarrow> y \<notin> set as \<Longrightarrow> y \<notin> set bs \<Longrightarrow> as = bs"
proof (induction as arbitrary: x bs)
  case Nil
  then show ?case by (cases bs) auto
next
  case (Cons a as)
  then show ?case by (cases bs) auto
qed

subsection \<open>Little-endian fields of a byte list\<close>

definition get32 :: "uchar list \<Rightarrow> nat \<Rightarrow> uint" where
  "get32 bs k = ucast (bs ! k) OR push_bit 8 (ucast (bs ! (k + 1)))
     OR push_bit 16 (ucast (bs ! (k + 2))) OR push_bit 24 (ucast (bs ! (k + 3)))"

definition put32 :: "uchar list \<Rightarrow> nat \<Rightarrow> uint \<Rightarrow> uchar list" where
  "put32 bs k v = bs[k := ucast v, k + 1 := ucast (drop_bit 8 v),
     k + 2 := ucast (drop_bit 16 v), k + 3 := ucast (drop_bit 24 v)]"

definition get16 :: "uchar list \<Rightarrow> nat \<Rightarrow> ushort" where
  "get16 bs k = ucast (bs ! k) OR push_bit 8 (ucast (bs ! (k + 1)))"

definition put16 :: "uchar list \<Rightarrow> nat \<Rightarrow> ushort \<Rightarrow> uchar list" where
  "put16 bs k v = bs[k := ucast v, k + 1 := ucast (drop_bit 8 v)]"

lemma length_put32 [simp]: "length (put32 bs k v) = length bs"
  by (simp add: put32_def)

lemma length_put16 [simp]: "length (put16 bs k v) = length bs"
  by (simp add: put16_def)

lemma get32_put32 [simp]: "k + 3 < length bs \<Longrightarrow> get32 (put32 bs k v) k = v"
  using bytes_of_word32 [of v] by (simp add: get32_def put32_def nth_list_update)

lemma nth_put32_other: "j < k \<or> k + 4 \<le> j \<Longrightarrow> put32 bs k v ! j = bs ! j"
  by (auto simp: put32_def)

lemma get32_put32_diff [mem_simps]:
  "j + 4 \<le> k \<or> k + 4 \<le> j \<Longrightarrow> get32 (put32 bs k v) j = get32 bs j"
  by (auto simp: get32_def nth_put32_other)

lemma bytes_of_word16:
  "(ucast (ucast v :: uchar) :: ushort) OR push_bit 8 (ucast (ucast (drop_bit 8 v) :: uchar)) = v"
proof (rule bit_word_eqI)
  fix n assume "n < LENGTH(16)"
  then consider "n < 8" | "8 \<le> n \<and> n < 16" by fastforce
  then show "bit ((ucast (ucast v :: uchar) :: ushort)
      OR push_bit 8 (ucast (ucast (drop_bit 8 v) :: uchar))) n = bit v n"
    by cases (auto simp: bit_simps)
qed

lemma get16_put16 [simp]: "k + 1 < length bs \<Longrightarrow> get16 (put16 bs k v) k = v"
  using bytes_of_word16 [of v] by (simp add: get16_def put16_def nth_list_update)

lemma get16_put16_diff [mem_simps]:
  "j + 2 \<le> k \<or> k + 2 \<le> j \<Longrightarrow> get16 (put16 bs k v) j = get16 bs j"
  by (auto simp: get16_def put16_def)


subsection \<open>State machines and their invariants\<close>

text \<open>
  A component that several processors or processes drive is a step relation. The states it
  can reach from its initial ones, and the contract by which a predicate is an invariant of
  it: it holds initially and every step keeps it.
\<close>

inductive reach :: "('s \<Rightarrow> bool) \<Rightarrow> ('s \<Rightarrow> 's \<Rightarrow> bool) \<Rightarrow> 's \<Rightarrow> bool"
  for init :: "'s \<Rightarrow> bool" and step :: "'s \<Rightarrow> 's \<Rightarrow> bool" where
  reach_init: "init s \<Longrightarrow> reach init step s"
| reach_step: "reach init step s \<Longrightarrow> step s t \<Longrightarrow> reach init step t"

locale step_invariant =
  fixes init :: "'s \<Rightarrow> bool"
    and step :: "'s \<Rightarrow> 's \<Rightarrow> bool"
    and inv :: "'s \<Rightarrow> bool"
  assumes inv_init: "init s \<Longrightarrow> inv s"
    and inv_step: "inv s \<Longrightarrow> step s t \<Longrightarrow> inv t"
begin

lemma reach_inv: "reach init step s \<Longrightarrow> inv s"
  by (induction rule: reach.induct) (auto intro: inv_init inv_step)

lemma reach_steps: "step\<^sup>*\<^sup>* s t \<Longrightarrow> reach init step s \<Longrightarrow> reach init step t \<and> inv t"
  by (induction rule: rtranclp_induct) (auto intro: reach_step reach_inv inv_step)

end

end
