(* ===== verification/Cstring.thy ===== *)
theory Cstring
  imports Prelude
begin

section \<open>C strings and memory blocks (string.c)\<close>

text \<open>
  The kernel's \<open>string.c\<close> over byte memory. Pointers are 32-bit addresses and pointer
  arithmetic wraps, as on the machine. A function that writes through a pointer returns
  the memory after it; the pointer result (always the destination) is left out.
  \<open>strlen\<close> has no bound, so it is a partial function: \<open>None\<close> is a scan that never stops.
\<close>

subsection \<open>memset (with x86.h's stosb and stosl)\<close>

fun stosb :: "uint \<Rightarrow> uchar \<Rightarrow> nat \<Rightarrow> mem \<Rightarrow> mem" where
  "stosb a c 0 m = m"
| "stosb a c (Suc n) m = stosb (a + 1) c n (m(a := c))"

fun stosl :: "uint \<Rightarrow> uint \<Rightarrow> nat \<Rightarrow> mem \<Rightarrow> mem" where
  "stosl a v 0 m = m"
| "stosl a v (Suc n) m = stosl (a + 4) v n (store32 m a v)"

definition memset :: "uint \<Rightarrow> uint \<Rightarrow> uint \<Rightarrow> mem \<Rightarrow> mem" where
  "memset dst c n m =
     (if dst mod 4 = 0 \<and> n mod 4 = 0
      then let c = c AND 0xFF
           in stosl dst (push_bit 24 c OR push_bit 16 c OR push_bit 8 c OR c) (unat (n div 4)) m
      else stosb dst (ucast c) (unat n) m)"

subsection \<open>memcmp\<close>

fun memcmp :: "uint \<Rightarrow> uint \<Rightarrow> nat \<Rightarrow> mem \<Rightarrow> int" where
  "memcmp s1 s2 0 m = 0"
| "memcmp s1 s2 (Suc n) m =
     (if m s1 \<noteq> m s2 then uint (m s1) - uint (m s2) else memcmp (s1 + 1) (s2 + 1) n m)"

subsection \<open>memmove\<close>

fun copy_down :: "nat \<Rightarrow> uint \<Rightarrow> uint \<Rightarrow> mem \<Rightarrow> mem" where
  "copy_down 0 d s m = m"
| "copy_down (Suc n) d s m = copy_down n (d - 1) (s - 1) (m(d - 1 := m (s - 1)))"

fun copy_up :: "nat \<Rightarrow> uint \<Rightarrow> uint \<Rightarrow> mem \<Rightarrow> mem" where
  "copy_up 0 d s m = m"
| "copy_up (Suc n) d s m = copy_up n (d + 1) (s + 1) (m(d := m s))"

definition memmove :: "uint \<Rightarrow> uint \<Rightarrow> uint \<Rightarrow> mem \<Rightarrow> mem" where
  "memmove dst src n m =
     (if src < dst \<and> src + n > dst
      then copy_down (unat n) (dst + n) (src + n) m
      else copy_up (unat n) dst src m)"

definition memcpy :: "uint \<Rightarrow> uint \<Rightarrow> uint \<Rightarrow> mem \<Rightarrow> mem" where
  "memcpy dst src n m = memmove dst src n m"

subsection \<open>strncmp, strncpy, safestrcpy, strlen\<close>

fun strncmp :: "uint \<Rightarrow> uint \<Rightarrow> nat \<Rightarrow> mem \<Rightarrow> int" where
  "strncmp p q 0 m = 0"
| "strncmp p q (Suc n) m =
     (if m p \<noteq> 0 \<and> m p = m q then strncmp (p + 1) (q + 1) n m
      else uint (m p) - uint (m q))"

text \<open>
  \<open>strncpy\<close> takes each byte off \<open>n\<close> before it copies it, so the padding loop that follows
  the copy of a NUL writes exactly the bytes left. \<open>safestrcpy\<close> advances past a copied NUL
  before its last store, which therefore lands one byte after it.
\<close>

fun strncpy :: "uint \<Rightarrow> uint \<Rightarrow> nat \<Rightarrow> mem \<Rightarrow> mem" where
  "strncpy s t 0 m = m"
| "strncpy s t (Suc n) m =
     (let m' = m(s := m t)
      in if m t \<noteq> 0 then strncpy (s + 1) (t + 1) n m' else stosb (s + 1) 0 n m')"

fun safestrcpy_loop :: "uint \<Rightarrow> uint \<Rightarrow> nat \<Rightarrow> mem \<Rightarrow> mem" where
  "safestrcpy_loop s t 0 m = m(s := 0)"
| "safestrcpy_loop s t (Suc n) m =
     (let m' = m(s := m t)
      in if m t \<noteq> 0 then safestrcpy_loop (s + 1) (t + 1) n m' else m'(s + 1 := 0))"

definition safestrcpy :: "uint \<Rightarrow> uint \<Rightarrow> int \<Rightarrow> mem \<Rightarrow> mem" where
  "safestrcpy s t n m = (if n \<le> 0 then m else safestrcpy_loop s t (nat n - 1) m)"

partial_function (option) strlen_from :: "mem \<Rightarrow> uint \<Rightarrow> nat \<Rightarrow> nat option" where
  "strlen_from m s n = (if m (s + of_nat n) = 0 then Some n else strlen_from m s (Suc n))"

definition strlen :: "uint \<Rightarrow> mem \<Rightarrow> nat option" where
  "strlen s m = strlen_from m s 0"


subsection \<open>Address arithmetic of the loops\<close>

lemma unat_minus_1_32: "unat (- 1 :: uint) = 4294967295"
  by (simp add: unsigned_minus_1_eq_mask mask_eq_exp_minus_1)

lemma unat_diff_Suc:
  fixes x a :: uint
  assumes "x \<noteq> a"
  shows "unat (x - a) = Suc (unat (x - (a + 1)))"
proof -
  have "x - a \<noteq> 0" using assms by simp
  then have "unat (x - a - 1) = unat (x - a) - 1" and "0 < unat (x - a)"
    by (simp_all add: unat_minus_one unat_gt_0)
  then show ?thesis by (simp add: algebra_simps)
qed

lemma stosb_eq:
  assumes "n \<le> 2 ^ 32"
  shows "stosb a c n m = (\<lambda>x. if unat (x - a) < n then c else m x)"
  using assms
proof (induction n arbitrary: a m)
  case 0
  then show ?case by simp
next
  case (Suc n)
  then have "stosb a c (Suc n) m
      = (\<lambda>x. if unat (x - (a + 1)) < n then c else (m(a := c)) x)"
    by simp
  also have "\<dots> = (\<lambda>x. if unat (x - a) < Suc n then c else m x)"
  proof
    fix x
    show "(if unat (x - (a + 1)) < n then c else (m(a := c)) x)
        = (if unat (x - a) < Suc n then c else m x)"
      by (cases "x = a") (auto simp: unat_diff_Suc)
  qed
  finally show ?case .
qed

lemma stosb_add: "stosb a c (j + k) m = stosb (a + of_nat j) c k (stosb a c j m)"
proof (induction j arbitrary: a m)
  case (Suc j)
  show ?case using Suc.IH [of "a + 1" "m(a := c)"] by (simp add: add.assoc del: fun_upd_apply)
qed simp

lemma store32_uniform:
  assumes "ucast v = c" "ucast (drop_bit 8 v) = c" "ucast (drop_bit 16 v) = c" "ucast (drop_bit 24 v) = c"
  shows "store32 m a v = stosb a c 4 m"
  using assms by (simp add: store32_def numeral_eq_Suc algebra_simps)

lemma stosl_uniform:
  assumes "ucast v = c" "ucast (drop_bit 8 v) = c" "ucast (drop_bit 16 v) = c" "ucast (drop_bit 24 v) = c"
  shows "stosl a v n m = stosb a c (4 * n) m"
proof (induction n arbitrary: a m)
  case (Suc n)
  then show ?case
    using stosb_add [of a c 4 "4 * n" m] by (simp add: store32_uniform [OF assms])
qed simp

lemma replicated_byte:
  fixes c :: uint
  defines "v \<equiv> push_bit 24 (c AND 0xFF) OR push_bit 16 (c AND 0xFF) OR push_bit 8 (c AND 0xFF) OR (c AND 0xFF)"
  shows "(ucast v :: uchar) = ucast c" "(ucast (drop_bit 8 v) :: uchar) = ucast c"
    "(ucast (drop_bit 16 v) :: uchar) = ucast c" "(ucast (drop_bit 24 v) :: uchar) = ucast c"
proof -
  have m: "(0xFF :: uint) = mask 8" by (simp add: mask_eq_exp_minus_1)
  show "(ucast v :: uchar) = ucast c" "(ucast (drop_bit 8 v) :: uchar) = ucast c"
    "(ucast (drop_bit 16 v) :: uchar) = ucast c" "(ucast (drop_bit 24 v) :: uchar) = ucast c"
    unfolding v_def m by (rule bit_word_eqI, auto simp: bit_simps)+
qed


subsection \<open>memset fills, memmove copies\<close>

lemma memset_stosb: "memset dst c n m = stosb dst (ucast c) (unat n) m"
proof (cases "dst mod 4 = 0 \<and> n mod 4 = 0")
  case True
  have "unat n = 4 * unat (n div 4)"
  proof -
    have "unat n mod 4 = 0"
      using True unat_mod_distrib [of n 4] by simp
    then show ?thesis by (auto simp: unat_div_distrib)
  qed
  then show ?thesis
    using True stosl_uniform [OF replicated_byte [of c], of dst "unat (n div 4)" m]
    by (simp add: memset_def Let_def)
next
  case False
  then show ?thesis unfolding memset_def by (rule if_not_P)
qed

lemma memset_eq: "memset dst c n m = (\<lambda>x. if x - dst < n then ucast c else m x)"
  using unat_lt_2p32 [of n] by (simp add: memset_stosb stosb_eq word_less_nat_alt less_imp_le)

lemma copy_up_eq:
  assumes "n < 2 ^ 32" and "d = s \<or> n \<le> unat (d - s)"
  shows "copy_up n d s m = (\<lambda>x. if unat (x - d) < n then m (s + (x - d)) else m x)"
  using assms
proof (induction n arbitrary: d s m)
  case (Suc n)
  have "copy_up (Suc n) d s m
      = (\<lambda>x. if unat (x - (d + 1)) < n then (m(d := m s)) (s + 1 + (x - (d + 1)))
             else (m(d := m s)) x)"
    using Suc.IH [of "d + 1" "s + 1" "m(d := m s)"] Suc.prems
    by (simp del: fun_upd_apply fun_upd_triv) linarith
  also have "\<dots> = (\<lambda>x. if unat (x - d) < Suc n then m (s + (x - d)) else m x)"
  proof
    fix x
    have eq: "s + 1 + (x - (d + 1)) = s + (x - d)" by simp
    show "(if unat (x - (d + 1)) < n then (m(d := m s)) (s + 1 + (x - (d + 1)))
             else (m(d := m s)) x)
        = (if unat (x - d) < Suc n then m (s + (x - d)) else m x)"
    proof (cases "x = d")
      case True
      have "unat (d - (d + 1)) = 2 ^ 32 - 1" by (simp add: unat_minus_1_32)
      with True Suc.prems show ?thesis by simp
    next
      case False
      have "s + (x - d) \<noteq> d" if "unat (x - d) < Suc n"
      proof
        assume "s + (x - d) = d"
        then have "x - d = d - s" by (metis add_diff_cancel_left')
        with that Suc.prems False show False by auto
      qed
      with False show ?thesis unfolding eq by (auto simp: unat_diff_Suc)
    qed
  qed
  finally show ?case .
qed simp

lemma copy_down_eq:
  assumes "n < 2 ^ 32" and "d = s \<or> n \<le> unat (s - d)"
  shows "copy_down n d s m = (\<lambda>x. if unat (d - 1 - x) < n then m (s - (d - x)) else m x)"
  using assms
proof (induction n arbitrary: d s m)
  case (Suc n)
  let ?m = "m(d - 1 := m (s - 1))"
  have "copy_down (Suc n) d s m
      = (\<lambda>x. if unat (d - 1 - 1 - x) < n then ?m (s - 1 - (d - 1 - x)) else ?m x)"
    using Suc.IH [of "d - 1" "s - 1" ?m] Suc.prems
    by (simp del: fun_upd_apply fun_upd_triv) linarith
  also have "\<dots> = (\<lambda>x. if unat (d - 1 - x) < Suc n then m (s - (d - x)) else m x)"
  proof
    fix x
    have eq: "s - 1 - (d - 1 - x) = s - (d - x)" by simp
    show "(if unat (d - 1 - 1 - x) < n then ?m (s - 1 - (d - 1 - x)) else ?m x)
        = (if unat (d - 1 - x) < Suc n then m (s - (d - x)) else m x)"
    proof (cases "x = d - 1")
      case True
      have "unat (d - 1 - 1 - (d - 1)) = 2 ^ 32 - 1" by (simp add: unat_minus_1_32)
      with True Suc.prems show ?thesis by simp
    next
      case False
      then have "d - 1 \<noteq> x" by simp
      then have u: "unat (d - 1 - x) = Suc (unat (d - 1 - 1 - x))"
        using unat_diff_Suc [of "d - 1" x] by (simp add: algebra_simps)
      have "s - (d - x) \<noteq> d - 1" if "unat (d - 1 - x) < Suc n"
      proof
        assume e: "s - (d - x) = d - 1"
        have "s - d = s - (d - x) - x" by simp
        then have "d - 1 - x = s - d" unfolding e by simp
        with that Suc.prems False show False by auto
      qed
      with False u show ?thesis unfolding eq by auto
    qed
  qed
  finally show ?case .
qed simp


lemma wrap_le:
  fixes a b n :: uint
  assumes "a < b" and "unat b + unat n \<le> 2 ^ 32"
  shows "unat n \<le> unat (a - b)"
proof -
  have "unat a < unat b" using assms(1) by (simp add: word_less_nat_alt)
  then have "unat (a - b) = unat a + 2 ^ 32 - unat b" by (simp add: unat_sub_if')
  then show ?thesis using assms(2) by linarith
qed

lemma memmove_eq:
  assumes "unat dst + unat n \<le> 2 ^ 32" and "unat src + unat n \<le> 2 ^ 32"
  shows "memmove dst src n m = (\<lambda>x. if x - dst < n then m (src + (x - dst)) else m x)"
proof (cases "src < dst \<and> src + n > dst")
  case True
  have "unat n \<le> unat (src + n - (dst + n))"
    using wrap_le [of src dst n] True assms(1) by simp
  then have "memmove dst src n m
      = (\<lambda>x. if unat (dst + n - 1 - x) < unat n then m (src + n - (dst + n - x)) else m x)"
    using True unat_lt_2p32 [of n] copy_down_eq [of "unat n" "dst + n" "src + n" m]
    by (simp add: memmove_def)
  also have "\<dots> = (\<lambda>x. if x - dst < n then m (src + (x - dst)) else m x)"
  proof
    fix x
    have "unat (dst + n - 1 - x) < unat n \<longleftrightarrow> x - dst < n"
    proof -
      have "dst + n - 1 - x = n - 1 - (x - dst)" by simp
      then show ?thesis by (simp add: flip: word_less_nat_alt) (uint_arith)
    qed
    then show "(if unat (dst + n - 1 - x) < unat n then m (src + n - (dst + n - x)) else m x)
        = (if x - dst < n then m (src + (x - dst)) else m x)"
      by (simp add: algebra_simps)
  qed
  finally show ?thesis .
next
  case False
  have "dst = src \<or> unat n \<le> unat (dst - src)"
  proof (cases "src < dst")
    case True
    with False have "src + n \<le> dst" by simp
    moreover have "unat src < unat dst" using True by (simp add: word_less_nat_alt)
    moreover have "unat (src + n) = unat src + unat n"
      using assms \<open>unat src < unat dst\<close> by (simp add: unat_word_ariths)
    ultimately have "unat src + unat n \<le> unat dst" by (simp add: word_le_nat_alt)
    with \<open>unat src < unat dst\<close> show ?thesis by (simp add: unat_sub_if') linarith
  next
    case False
    then show ?thesis using wrap_le [of dst src n] assms(2) by fastforce
  qed
  then show ?thesis
    using False unat_lt_2p32 [of n] copy_up_eq [of "unat n" dst src m]
    by (auto simp: memmove_def word_less_nat_alt)
qed


subsection \<open>The string functions against the strings they handle\<close>

text \<open>The C string at \<open>p\<close>, cut at \<open>n\<close> bytes: what \<open>strncmp\<close> and \<open>strncpy\<close> read.\<close>

fun cstrn :: "mem \<Rightarrow> uint \<Rightarrow> nat \<Rightarrow> uchar list" where
  "cstrn m p 0 = []"
| "cstrn m p (Suc n) = (if m p = 0 then [] else m p # cstrn m (p + 1) n)"

lemma length_cstrn: "length (cstrn m p n) \<le> n"
  by (induction n arbitrary: p) auto

lemma strncmp_0_iff: "strncmp p q n m = 0 \<longleftrightarrow> cstrn m p n = cstrn m q n"
proof (induction n arbitrary: p q)
  case (Suc n)
  show ?case
  proof (cases "m p = m q")
    case True
    with Suc show ?thesis by auto
  next
    case False
    then have "uint (m p) \<noteq> uint (m q)" by (simp add: word_uint_eq_iff)
    with False show ?thesis by auto
  qed
qed simp

lemma strncpy_eq:
  assumes "n \<le> unat (t - s)" and "n \<le> unat (s - t)"
  shows "strncpy s t n m = (\<lambda>x. if unat (x - s) < n
     then if unat (x - s) < length (cstrn m t n) then m (t + (x - s)) else 0 else m x)"
  using assms
proof (induction n arbitrary: s t m)
  case (Suc n)
  have n32: "Suc n < 2 ^ 32" using Suc.prems(1) unat_lt_2p32 [of "t - s"] by linarith
  let ?m = "m(s := m t)"
  have frame: "cstrn ?m t' k = cstrn m t' k" if "unat (s - t') \<ge> k" for t' k
    using that
  proof (induction k arbitrary: t')
    case (Suc k)
    then have "t' \<noteq> s" by auto
    with Suc unat_diff_Suc [of s t'] show ?case by auto
  qed simp
  show ?case
  proof (cases "m t = 0")
    case True
    have "strncpy s t (Suc n) m = (\<lambda>x. if unat (x - (s + 1)) < n then 0 else ?m x)"
      using True n32 by (simp add: Let_def stosb_eq fun_eq_iff)
    also have "\<dots> = (\<lambda>x. if unat (x - s) < Suc n then 0 else m x)"
    proof
      fix x
      show "(if unat (x - (s + 1)) < n then 0 else ?m x) = (if unat (x - s) < Suc n then 0 else m x)"
        by (cases "x = s") (auto simp: True unat_diff_Suc)
    qed
    finally show ?thesis using True by (simp add: fun_eq_iff)
  next
    case False
    have ne: "t \<noteq> s" using Suc.prems by auto
    have len: "cstrn ?m (t + 1) n = cstrn m (t + 1) n"
      using frame [of n "t + 1"] Suc.prems(2) ne unat_diff_Suc [of s t] by auto
    have "strncpy s t (Suc n) m = strncpy (s + 1) (t + 1) n ?m"
      using False by (simp add: Let_def)
    also have "\<dots> = (\<lambda>x. if unat (x - (s + 1)) < n
       then if unat (x - (s + 1)) < length (cstrn m (t + 1) n) then ?m (t + 1 + (x - (s + 1))) else 0
       else ?m x)"
      using Suc.IH [of "t + 1" "s + 1" ?m] Suc.prems unfolding len by (simp del: fun_upd_apply)
    also have "\<dots> = (\<lambda>x. if unat (x - s) < Suc n
     then if unat (x - s) < length (cstrn m t (Suc n)) then m (t + (x - s)) else 0 else m x)"
    proof
      fix x
      have eq: "t + 1 + (x - (s + 1)) = t + (x - s)" by simp
      have "t + (x - s) \<noteq> s" if "unat (x - s) < Suc n"
      proof
        assume "t + (x - s) = s"
        then have "x - s = s - t" by (metis add_diff_cancel_left')
        with that Suc.prems show False by simp
      qed
      moreover have "unat (s - (s + 1)) = 2 ^ 32 - 1" by (simp add: unat_minus_1_32)
      ultimately show "(if unat (x - (s + 1)) < n
         then if unat (x - (s + 1)) < length (cstrn m (t + 1) n) then ?m (t + 1 + (x - (s + 1))) else 0
         else ?m x) = (if unat (x - s) < Suc n
         then if unat (x - s) < length (cstrn m t (Suc n)) then m (t + (x - s)) else 0 else m x)"
        unfolding eq using False n32 by (cases "x = s") (auto simp: unat_diff_Suc)
    qed
    finally show ?thesis .
  qed
qed simp


text \<open>
  \<open>safestrcpy\<close> writes only the \<open>n\<close> bytes at \<open>s\<close> and leaves there a terminated string: the
  first \<open>n - 1\<close> bytes of the source string.
\<close>

lemma cstrn_frame:
  assumes "\<And>j. j < n \<Longrightarrow> m' (p + of_nat j) = m (p + of_nat j)"
  shows "cstrn m' p n = cstrn m p n"
  using assms
proof (induction n arbitrary: p)
  case (Suc n)
  have "cstrn m' (p + 1) n = cstrn m (p + 1) n"
    using Suc.prems [of "Suc _"] by (intro Suc.IH) (simp add: add.assoc)
  with Suc.prems [of 0] show ?case by simp
qed simp

lemma safestrcpy_loop_frame:
  "n < unat (x - s) \<Longrightarrow> safestrcpy_loop s t n m x = m x"
proof (induction n arbitrary: s t m)
  case (Suc n)
  then have "x \<noteq> s" by auto
  moreover have "n < unat (x - (s + 1))"
    using Suc.prems unat_diff_Suc [OF \<open>x \<noteq> s\<close>] by simp
  ultimately show ?case using Suc.IH [of "s + 1"] by (auto simp: Let_def)
qed auto

lemma safestrcpy_loop_cstrn:
  assumes "n < unat (t - s)" and "n < unat (s - t)"
  shows "cstrn (safestrcpy_loop s t n m) s (Suc n) = cstrn m t n"
  using assms
proof (induction n arbitrary: s t m)
  case (Suc n)
  let ?m = "m(s := m t)"
  have ne: "t \<noteq> s" using Suc.prems by auto
  have n32: "Suc n < 2 ^ 32" using Suc.prems(1) unat_lt_2p32 [of "t - s"] by linarith
  show ?case
  proof (cases "m t = 0")
    case True
    then show ?thesis by (simp add: Let_def)
  next
    case False
    have "n < unat (s - (s + 1))" using n32 by (simp add: unat_minus_1_32)
    then have "safestrcpy_loop (s + 1) (t + 1) n ?m s = m t"
      by (simp add: safestrcpy_loop_frame)
    moreover have "cstrn ?m (t + 1) n = cstrn m (t + 1) n"
    proof (rule cstrn_frame)
      fix j assume "j < n"
      have "s - t \<noteq> 1 + of_nat j"
      proof
        assume "s - t = 1 + of_nat j"
        then have "s - t = of_nat (Suc j)" by simp
        then have "unat (s - t) = Suc j" using \<open>j < n\<close> n32
          by (simp only: unat_of_nat) simp
        with Suc.prems(2) \<open>j < n\<close> show False by simp
      qed
      then have "t + 1 + of_nat j \<noteq> s" by (auto simp: algebra_simps)
      then show "?m (t + 1 + of_nat j) = m (t + 1 + of_nat j)" by simp
    qed
    moreover have "cstrn (safestrcpy_loop (s + 1) (t + 1) n ?m) (s + 1) (Suc n) = cstrn ?m (t + 1) n"
      using Suc.prems by (intro Suc.IH) simp_all
    moreover have "cstrn m t (Suc n) = m t # cstrn m (t + 1) n" using False by simp
    ultimately show ?thesis
      using False by (subst cstrn.simps(2)) (simp add: Let_def del: cstrn.simps)
  qed
qed simp

lemma safestrcpy_spec:
  assumes "0 < n" and "nat n \<le> unat (t - s)" and "nat n \<le> unat (s - t)"
  shows "cstrn (safestrcpy s t n m) s (nat n) = cstrn m t (nat n - 1)"
    and "nat n \<le> unat (x - s) \<Longrightarrow> safestrcpy s t n m x = m x"
proof -
  have n: "nat n = Suc (nat n - 1)" using assms(1) by simp
  show "cstrn (safestrcpy s t n m) s (nat n) = cstrn m t (nat n - 1)"
    using safestrcpy_loop_cstrn [of "nat n - 1" t s m] assms n by (simp add: safestrcpy_def)
  show "safestrcpy s t n m x = m x" if "nat n \<le> unat (x - s)"
    using that n assms(1) safestrcpy_loop_frame [of "nat n - 1" x s t m]
    by (simp add: safestrcpy_def)
qed

lemma strlen_from_Some:
  "m (s + of_nat (n + k)) = 0 \<Longrightarrow> (\<And>i. n \<le> i \<Longrightarrow> i < n + k \<Longrightarrow> m (s + of_nat i) \<noteq> 0)
   \<Longrightarrow> strlen_from m s n = Some (n + k)"
proof (induction k arbitrary: n)
  case 0
  then show ?case by (simp add: strlen_from.simps)
next
  case (Suc k)
  then have "strlen_from m s (Suc n) = Some (Suc n + k)" by (intro Suc.IH) simp_all
  moreover have "m (s + of_nat n) \<noteq> 0" using Suc.prems(2) [of n] by simp
  ultimately show ?case by (simp add: strlen_from.simps [of m s n])
qed

lemma strlen_from_SomeD:
  assumes ret: "strlen_from m s n = Some r"
  shows "n \<le> r \<and> m (s + of_nat r) = 0 \<and> (\<forall>i. n \<le> i \<longrightarrow> i < r \<longrightarrow> m (s + of_nat i) \<noteq> 0)"
proof (rule strlen_from.raw_induct [where P = "\<lambda>m s n r. n \<le> r \<and> m (s + of_nat r) = 0
      \<and> (\<forall>i. n \<le> i \<longrightarrow> i < r \<longrightarrow> m (s + of_nat i) \<noteq> 0)", OF _ ret])
  fix f m s n r
  assume IH: "\<And>m s n r. f m s n = Some r \<Longrightarrow>
      n \<le> r \<and> m (s + of_nat r) = 0 \<and> (\<forall>i. n \<le> i \<longrightarrow> i < r \<longrightarrow> m (s + of_nat i) \<noteq> 0)"
    and eq: "(if m (s + of_nat n) = 0 then Some n else f m s (Suc n)) = Some r"
  show "n \<le> r \<and> m (s + of_nat r) = 0 \<and> (\<forall>i. n \<le> i \<longrightarrow> i < r \<longrightarrow> m (s + of_nat i) \<noteq> 0)"
  proof (cases "m (s + of_nat n) = 0")
    case True
    with eq show ?thesis by simp
  next
    case False
    with eq IH [of m s "Suc n" r]
    have r: "Suc n \<le> r" "m (s + of_nat r) = 0" "\<forall>i. Suc n \<le> i \<longrightarrow> i < r \<longrightarrow> m (s + of_nat i) \<noteq> 0"
      by auto
    then have "m (s + of_nat i) \<noteq> 0" if "n \<le> i" "i < r" for i
      using False that by (cases "i = n") auto
    with r show ?thesis by auto
  qed
qed

lemma strlen_Some_iff:
  "strlen s m = Some k \<longleftrightarrow> m (s + of_nat k) = 0 \<and> (\<forall>i<k. m (s + of_nat i) \<noteq> 0)"
proof
  assume "strlen s m = Some k"
  from strlen_from_SomeD [OF this [unfolded strlen_def]]
  show "m (s + of_nat k) = 0 \<and> (\<forall>i<k. m (s + of_nat i) \<noteq> 0)" by auto
next
  assume "m (s + of_nat k) = 0 \<and> (\<forall>i<k. m (s + of_nat i) \<noteq> 0)"
  then show "strlen s m = Some k"
    using strlen_from_Some [of m s 0 k] by (simp add: strlen_def)
qed

end
