(* ===== verification/Spinlock.thy ===== *)
theory Spinlock
  imports Prelude
begin

section \<open>Spin locks and interrupt nesting (spinlock.c)\<close>

text \<open>
  \<open>struct cpu\<close> is reduced to what \<open>spinlock.c\<close> reads and writes: the nesting depth \<open>ncli\<close>,
  the saved flag \<open>intena\<close> and the processor's interrupt flag FL\_IF, which \<open>readeflags\<close>, \<open>cli\<close>
  and \<open>sti\<close> read, clear and set. \<open>ncli\<close> is a 32-bit \<open>int\<close>: a word, read as a signed number. A lock holds its word \<open>locked\<close> and its owner (the pointer
  \<open>lk->cpu\<close>, \<open>None\<close> for 0); the call stack \<open>pcs\<close> kept for debugging is the separate
  function \<open>getcallerpcs\<close>.

  \<open>acquire\<close> and \<open>release\<close> are first given as what one call does on a machine whose other
  processors stand still (a held lock then spins for ever). The second half of the theory
  runs them on all processors at once, one atomic access of shared memory per step.
\<close>

subsection \<open>pushcli and popcli\<close>

record cpu =
  cpu_id :: nat
  ncli :: uint
  intena :: bool
  fl_if :: bool

definition pushcli :: "cpu \<Rightarrow> cpu" where
  "pushcli c =
     (let eflags = fl_if c;
          c = c\<lparr>fl_if := False\<rparr>
      in if ncli c = 0 then c\<lparr>ncli := ncli c + 1, intena := eflags\<rparr>
         else c\<lparr>ncli := ncli c + 1\<rparr>)"

definition popcli :: "cpu \<Rightarrow> cpu res" where
  "popcli c =
     (if fl_if c then Panic ''popcli - interruptible''
      else let c = c\<lparr>ncli := ncli c - 1\<rparr>
           in if sint (ncli c) < 0 then Panic ''popcli''
              else Ret (if ncli c = 0 \<and> intena c then c\<lparr>fl_if := True\<rparr> else c))"

subsection \<open>initlock, holding, acquire, release\<close>

record spinlock =
  locked :: uint
  lk_name :: string
  lk_cpu :: "nat option"

definition initlock :: "spinlock \<Rightarrow> string \<Rightarrow> spinlock" where
  "initlock lk nm = lk\<lparr>lk_name := nm, locked := 0, lk_cpu := None\<rparr>"

definition holding :: "spinlock \<Rightarrow> cpu \<Rightarrow> bool" where
  "holding lk c \<longleftrightarrow> locked lk \<noteq> 0 \<and> lk_cpu lk = Some (cpu_id c)"

definition acquire :: "spinlock \<Rightarrow> cpu \<Rightarrow> (spinlock \<times> cpu) res" where
  "acquire lk c =
     (let c = pushcli c
      in if holding lk c then Panic ''acquire''
         else if locked lk \<noteq> 0 then Diverge
         else Ret (lk\<lparr>locked := 1, lk_cpu := Some (cpu_id c)\<rparr>, c))"

definition release :: "spinlock \<Rightarrow> cpu \<Rightarrow> (spinlock \<times> cpu) res" where
  "release lk c =
     (if \<not> holding lk c then Panic ''release''
      else bindr (popcli c) (\<lambda>c. Ret (lk\<lparr>lk_cpu := None, locked := 0\<rparr>, c)))"

subsection \<open>getcallerpcs\<close>

text \<open>
  The saved \<open>%ebp\<close> chain: each frame holds the caller's frame pointer and, in the next word,
  the return address. The walk stops after ten frames or at a frame pointer outside the
  kernel, and the rest of the array is zeroed.
\<close>

fun callerpcs_walk :: "mem \<Rightarrow> nat \<Rightarrow> uint \<Rightarrow> uint list" where
  "callerpcs_walk m 0 ebp = []"
| "callerpcs_walk m (Suc n) ebp =
     (if ebp = 0 \<or> ebp < 0x80000000 \<or> ebp = 0xffffffff then replicate (Suc n) 0
      else load32 m (ebp + 4) # callerpcs_walk m n (load32 m ebp))"

definition getcallerpcs :: "mem \<Rightarrow> uint \<Rightarrow> uint list" where
  "getcallerpcs m v = callerpcs_walk m 10 (v - 8)"

lemma length_callerpcs_walk: "length (callerpcs_walk m n ebp) = n"
  by (induction n arbitrary: ebp) auto

lemma length_getcallerpcs: "length (getcallerpcs m v) = 10"
  by (simp add: getcallerpcs_def length_callerpcs_walk)

subsection \<open>Nesting: a matched pair of pushcli and popcli is neutral\<close>

text \<open>
  The states a processor can be in: inside a \<open>pushcli\<close> section interrupts are off.
\<close>

definition cpu_ok :: "cpu \<Rightarrow> bool" where
  "cpu_ok c \<longleftrightarrow> 0 \<le> sint (ncli c) \<and> (ncli c \<noteq> 0 \<longrightarrow> \<not> fl_if c)"

lemma sint_plus1: "sint n + 1 < 2 ^ 31 \<Longrightarrow> sint (n + 1) = sint n + 1" for n :: uint
  using sint_greater_eq [of n] by (simp add: sint_word_ariths signed_take_bit_int_eq_self)

lemma sint_minus1: "0 < sint n \<Longrightarrow> sint (n - 1) = sint n - 1" for n :: uint
  using sint_less [of n] by (simp add: sint_word_ariths signed_take_bit_int_eq_self)

lemma pushcli_ok: "cpu_ok c \<Longrightarrow> sint (ncli c) + 1 < 2 ^ 31 \<Longrightarrow> cpu_ok (pushcli c)"
  using sint_plus1 [of "ncli c"] by (simp add: cpu_ok_def pushcli_def Let_def)

lemma pushcli_simps [simp]:
  "ncli (pushcli c) = ncli c + 1" "fl_if (pushcli c) = False" "cpu_id (pushcli c) = cpu_id c"
  by (simp_all add: pushcli_def Let_def)

lemma popcli_ok: "cpu_ok c \<Longrightarrow> popcli c = Ret c' \<Longrightarrow> cpu_ok c'"
  by (auto simp: cpu_ok_def popcli_def Let_def split: if_splits)

text \<open>
  After \<open>n\<close> further matched pairs the flag is what it was: only the outermost \<open>popcli\<close> can
  turn interrupts on, and only if they were on before the outermost \<open>pushcli\<close>.
\<close>

definition nest :: "nat \<Rightarrow> cpu \<Rightarrow> cpu" where
  "nest n = (pushcli ^^ n)"

fun unnest :: "nat \<Rightarrow> cpu \<Rightarrow> cpu res" where
  "unnest 0 c = Ret c"
| "unnest (Suc n) c = bindr (popcli c) (unnest n)"

lemma nest_fields:
  assumes "0 \<le> sint (ncli c)" and "sint (ncli c) + int n < 2 ^ 31"
  shows "sint (ncli (nest n c)) = sint (ncli c) + int n" "fl_if (nest n c) = (n = 0 \<and> fl_if c)"
    "intena (nest n c) = (if ncli c = 0 \<and> 0 < n then fl_if c else intena c)"
  using assms(2)
proof (induction n)
  case (Suc n)
  have s: "nest (Suc n) c = pushcli (nest n c)" by (simp add: nest_def)
  {
    case 1
    then show ?case using Suc.IH(1) sint_plus1 [of "ncli (nest n c)"] unfolding s by simp
  next
    case 2
    then show ?case unfolding s by simp
  next
    case 3
    have "ncli (nest n c) = 0 \<longleftrightarrow> ncli c = 0 \<and> n = 0"
    proof
      assume "ncli (nest n c) = 0"
      then have "sint (ncli c) = 0 \<and> n = 0" using Suc.IH(1) 3 assms(1) by simp
      then show "ncli c = 0 \<and> n = 0" by (simp add: signed_eq_0_iff)
    qed (simp add: nest_def)
    then show ?case using Suc.IH 3 unfolding s by (auto simp: pushcli_def Let_def nest_def)
  }
qed (simp_all add: nest_def)

lemma popcli_pushcli:
  "cpu_ok c \<Longrightarrow> popcli (pushcli c) = Ret (c\<lparr>intena := if ncli c = 0 then fl_if c else intena c\<rparr>)"
  by (auto simp: popcli_def pushcli_def cpu_ok_def Let_def)

lemma nest_ok: "cpu_ok c \<Longrightarrow> sint (ncli c) + int n < 2 ^ 31 \<Longrightarrow> cpu_ok (nest n c)"
  using nest_fields [of c n] by (cases n) (auto simp: cpu_ok_def nest_def)

lemma unnest_nest:
  assumes "cpu_ok c" and "sint (ncli c) + int n < 2 ^ 31"
  shows "unnest n (nest n c) = Ret (c\<lparr>intena := intena (nest n c)\<rparr>)"
  using assms(2)
proof (induction n)
  case 0
  then show ?case by (simp add: nest_def)
next
  case (Suc n)
  have nn: "0 \<le> sint (ncli c)" and b: "sint (ncli c) + int n < 2 ^ 31" using assms(1) Suc.prems by (simp_all add: cpu_ok_def)
  have IH: "unnest n (nest n c) = Ret (c\<lparr>intena := intena (nest n c)\<rparr>)" using Suc.IH [OF b] .
  have "unnest (Suc n) (nest (Suc n) c) = bindr (popcli (pushcli (nest n c))) (unnest n)"
    by (simp add: nest_def)
  also have "\<dots> = unnest n ((nest n c)\<lparr>intena := intena (nest (Suc n) c)\<rparr>)"
    by (simp add: popcli_pushcli nest_ok [OF assms(1) b]) (simp add: nest_def pushcli_def Let_def)
  also have "\<dots> = Ret (c\<lparr>intena := intena (nest (Suc n) c)\<rparr>)"
  proof (cases n)
    case 0
    then show ?thesis by (simp add: nest_def)
  next
    case (Suc k)
    then have "intena (nest (Suc n) c) = intena (nest n c)"
      using nest_fields(3) [OF nn b] nest_fields(3) [OF nn \<open>sint (ncli c) + int (Suc n) < 2 ^ 31\<close>] by simp
    then show ?thesis using IH by simp
  qed
  finally show ?case .
qed

subsection \<open>One lock on all processors\<close>

text \<open>
  Each processor runs \<open>acquire\<close>, its critical section and \<open>release\<close> over and over, on the
  same lock. A step is one access of shared memory by one processor: the \<open>holding\<close> test, one
  \<open>xchg\<close>, one store of \<open>lk->cpu\<close>. The program counter says which access comes next;
  \<open>Crashed\<close> is a panic. Processors may also nest sections of other locks
  (\<open>nested_push\<close>, \<open>nested_pop\<close>), fewer than \<open>2 ^ 31 - 2\<close> deep, so that \<open>ncli\<close> does not wrap, and, outside all
  sections, turn interrupts on and off.
\<close>

datatype lock_pc = Outside | Spin | Got | Inside | Leaving | Popping | Crashed

record machine =
  m_lk :: spinlock
  m_cpu :: "nat \<Rightarrow> cpu"
  m_pc :: "nat \<Rightarrow> lock_pc"

abbreviation goto :: "nat \<Rightarrow> lock_pc \<Rightarrow> machine \<Rightarrow> machine" where
  "goto i p M \<equiv> M\<lparr>m_pc := (m_pc M)(i := p)\<rparr>"

inductive lock_step :: "machine \<Rightarrow> machine \<Rightarrow> bool" where
  acquire_check: "m_pc M i = Outside \<Longrightarrow> c = pushcli (m_cpu M i) \<Longrightarrow>
    lock_step M (goto i (if holding (m_lk M) c then Crashed else Spin)
      (M\<lparr>m_cpu := (m_cpu M)(i := c)\<rparr>))"
| acquire_xchg: "m_pc M i = Spin \<Longrightarrow>
    lock_step M (goto i (if locked (m_lk M) \<noteq> 0 then Spin else Got)
      (M\<lparr>m_lk := (m_lk M)\<lparr>locked := 1\<rparr>\<rparr>))"
| acquire_own: "m_pc M i = Got \<Longrightarrow>
    lock_step M (goto i Inside (M\<lparr>m_lk := (m_lk M)\<lparr>lk_cpu := Some (cpu_id (m_cpu M i))\<rparr>\<rparr>))"
| release_check: "m_pc M i = Inside \<Longrightarrow>
    lock_step M (if holding (m_lk M) (m_cpu M i)
      then goto i Leaving (M\<lparr>m_lk := (m_lk M)\<lparr>lk_cpu := None\<rparr>\<rparr>) else goto i Crashed M)"
| release_xchg: "m_pc M i = Leaving \<Longrightarrow>
    lock_step M (goto i Popping (M\<lparr>m_lk := (m_lk M)\<lparr>locked := 0\<rparr>\<rparr>))"
| release_pop: "m_pc M i = Popping \<Longrightarrow>
    lock_step M (case popcli (m_cpu M i) of
        Ret c \<Rightarrow> goto i Outside (M\<lparr>m_cpu := (m_cpu M)(i := c)\<rparr>)
      | _ \<Rightarrow> goto i Crashed M)"
| nested_push: "m_pc M i = Outside \<or> m_pc M i = Inside \<Longrightarrow> sint (ncli (m_cpu M i)) + 2 < 2 ^ 31 \<Longrightarrow>
    lock_step M (M\<lparr>m_cpu := (m_cpu M)(i := pushcli (m_cpu M i))\<rparr>)"
| nested_pop: "m_pc M i = Outside \<and> 0 < sint (ncli (m_cpu M i)) \<or> m_pc M i = Inside \<and> 1 < sint (ncli (m_cpu M i))
    \<Longrightarrow> popcli (m_cpu M i) = Ret c \<Longrightarrow> lock_step M (M\<lparr>m_cpu := (m_cpu M)(i := c)\<rparr>)"
| interrupts: "m_pc M i = Outside \<Longrightarrow> ncli (m_cpu M i) = 0 \<Longrightarrow>
    lock_step M (M\<lparr>m_cpu := (m_cpu M)(i := (m_cpu M i)\<lparr>fl_if := b\<rparr>)\<rparr>)"

definition lock_init :: "machine \<Rightarrow> bool" where
  "lock_init M \<longleftrightarrow> (\<exists>lk nm. m_lk M = initlock lk nm) \<and>
     (\<forall>i. m_pc M i = Outside \<and> ncli (m_cpu M i) = 0 \<and> cpu_id (m_cpu M i) = i)"

text \<open>Between its \<open>xchg\<close> that took the lock and its \<open>xchg\<close> that frees it, a processor owns it.\<close>

definition pc_owners :: "(nat \<Rightarrow> lock_pc) \<Rightarrow> nat set" where
  "pc_owners pc = {i. pc i \<in> {Got, Inside, Leaving}}"

abbreviation owners :: "machine \<Rightarrow> nat set" where
  "owners M \<equiv> pc_owners (m_pc M)"

text \<open>What holds of a processor, by where it is.\<close>

definition pc_ok :: "lock_pc \<Rightarrow> cpu \<Rightarrow> bool" where
  "pc_ok p c \<longleftrightarrow> cpu_ok c \<and> p \<noteq> Crashed \<and> (if p = Outside then sint (ncli c) + 1 < 2 ^ 31 else 0 < sint (ncli c))"

definition lock_inv :: "machine \<Rightarrow> bool" where
  "lock_inv M \<longleftrightarrow>
     (\<forall>i. cpu_id (m_cpu M i) = i \<and> pc_ok (m_pc M i) (m_cpu M i)) \<and>
     (if locked (m_lk M) = 0 then owners M = {} else (\<exists>k. owners M = {k})) \<and>
     (\<forall>i. lk_cpu (m_lk M) = Some i \<longleftrightarrow> m_pc M i = Inside)"

lemma pc_owners_upd [simp]:
  "pc_owners (pc(i := p)) = (if p \<in> {Got, Inside, Leaving} then insert i (pc_owners pc) else pc_owners pc - {i})"
  by (auto simp: pc_owners_def)

lemma owners_iff: "i \<in> owners M \<longleftrightarrow> m_pc M i = Got \<or> m_pc M i = Inside \<or> m_pc M i = Leaving"
  by (auto simp: pc_owners_def)

lemma lock_init_inv: "lock_init M \<Longrightarrow> lock_inv M"
  by (auto simp: lock_init_def lock_inv_def pc_owners_def initlock_def cpu_ok_def pc_ok_def)

lemma popcli_fields:
  "popcli c = Ret c' \<Longrightarrow> ncli c' = ncli c - 1 \<and> cpu_id c' = cpu_id c"
  by (auto simp: popcli_def Let_def split: if_splits)

lemma popcli_Ret: "cpu_ok c \<Longrightarrow> 0 < sint (ncli c) \<Longrightarrow> \<exists>c'. popcli c = Ret c'"
  using sint_minus1 [of "ncli c"] by (auto simp: popcli_def cpu_ok_def Let_def)

lemma popcli_depth: "popcli c = Ret c' \<Longrightarrow> 0 < sint (ncli c) \<Longrightarrow> sint (ncli c') + 1 < 2 ^ 31 \<and> sint (ncli c') = sint (ncli c) - 1"
  using popcli_fields [of c c'] sint_minus1 [of "ncli c"] sint_less [of "ncli c"] by simp

lemma lock_inv_pc: "lock_inv M \<Longrightarrow> m_pc M i = p \<Longrightarrow> pc_ok p (m_cpu M i)"
  by (auto simp: lock_inv_def)

lemma pc_ok_push:
  "pc_ok Outside c \<Longrightarrow> p \<noteq> Outside \<Longrightarrow> p \<noteq> Crashed \<Longrightarrow> pc_ok p (pushcli c)"
  "pc_ok p c \<Longrightarrow> sint (ncli c) + 2 < 2 ^ 31 \<Longrightarrow> pc_ok p (pushcli c)"
  using sint_plus1 [of "ncli c"] pushcli_ok [of c] by (auto simp: pc_ok_def cpu_ok_def)

lemma pc_ok_pop:
  "pc_ok p c \<Longrightarrow> p \<noteq> Outside \<Longrightarrow> popcli c = Ret c' \<Longrightarrow> pc_ok Outside c'"
  "pc_ok Outside c \<and> 0 < sint (ncli c) \<or> pc_ok Inside c \<and> 1 < sint (ncli c) \<Longrightarrow> popcli c = Ret c' \<Longrightarrow> pc_ok Outside c' \<and> (1 < sint (ncli c) \<longrightarrow> pc_ok Inside c')"
  using popcli_ok [of c c'] popcli_depth [of c c'] by (auto simp: pc_ok_def)

lemma pc_ok_move: "pc_ok p c \<Longrightarrow> p \<noteq> Outside \<Longrightarrow> q \<noteq> Outside \<Longrightarrow> q \<noteq> Crashed \<Longrightarrow> pc_ok q c"
  by (simp add: pc_ok_def)

lemma sole_owner:
  assumes "lock_inv M" and "i \<in> owners M"
  shows "owners M = {i}" and "locked (m_lk M) \<noteq> 0" and "j \<noteq> i \<Longrightarrow> m_pc M j \<noteq> Inside"
proof -
  show o: "owners M = {i}" and "locked (m_lk M) \<noteq> 0"
    using assms by (auto simp: lock_inv_def split: if_splits)
  show "j \<noteq> i \<Longrightarrow> m_pc M j \<noteq> Inside" using owners_iff [of j M] o by simp
qed

lemma lock_step_inv: "lock_step M M' \<Longrightarrow> lock_inv M \<Longrightarrow> lock_inv M'"
proof (induction rule: lock_step.induct)
  case (acquire_check M i c)
  then have "i \<notin> owners M" "pc_ok Spin c" using pc_ok_push(1) [OF lock_inv_pc, of M i Spin] by (auto simp: owners_iff)
  with acquire_check show ?case by (auto simp: lock_inv_def holding_def)
next
  case (acquire_xchg M i)
  then have "i \<notin> owners M" "pc_ok Got (m_cpu M i)" using pc_ok_move [OF lock_inv_pc, of M i Spin Got] by (auto simp: owners_iff)
  moreover have "pc_ok Spin (m_cpu M i)" using acquire_xchg lock_inv_pc by blast
  ultimately show ?case using acquire_xchg by (auto simp: lock_inv_def)
next
  case (acquire_own M i)
  then have "i \<in> owners M" "pc_ok Inside (m_cpu M i)" using pc_ok_move [OF lock_inv_pc, of M i Got Inside] by (auto simp: owners_iff)
  note o = sole_owner [OF acquire_own(2) this(1)] and p = this(2)
  from o(1,2) acquire_own o(3) p show ?case by (auto simp: lock_inv_def)
next
  case (release_check M i)
  then have "i \<in> owners M" "pc_ok Leaving (m_cpu M i)" using pc_ok_move [OF lock_inv_pc, of M i Inside Leaving] by (auto simp: owners_iff)
  note o = sole_owner [OF release_check(2) this(1)] and p = this(2)
  from o(1,2) release_check o(3) p show ?case by (auto simp: lock_inv_def holding_def)
next
  case (release_xchg M i)
  then have "i \<in> owners M" "pc_ok Popping (m_cpu M i)" using pc_ok_move [OF lock_inv_pc, of M i Leaving Popping] by (auto simp: owners_iff)
  note o = sole_owner [OF release_xchg(2) this(1)] and p = this(2)
  from o(1,2) release_xchg p show ?case by (auto simp: lock_inv_def)
next
  case (release_pop M i)
  then have ok: "pc_ok Popping (m_cpu M i)" using lock_inv_pc by blast
  then obtain c where c: "popcli (m_cpu M i) = Ret c"
    using popcli_Ret [of "m_cpu M i"] by (auto simp: pc_ok_def)
  from release_pop have "i \<notin> owners M" by (simp add: owners_iff)
  with release_pop popcli_fields [OF c] pc_ok_pop(1) [OF ok _ c] c show ?case
    by (auto simp: lock_inv_def)
next
  case (nested_pop M i c)
  then have "pc_ok (m_pc M i) (m_cpu M i)" by (auto simp: lock_inv_def)
  then have "pc_ok (m_pc M i) c" using nested_pop(1) pc_ok_pop(2) [OF _ nested_pop(2)] by auto
  then show ?case using nested_pop popcli_fields [OF nested_pop(2)] by (auto simp: lock_inv_def)
next
  case (nested_push M i)
  then have "pc_ok (m_pc M i) (pushcli (m_cpu M i))" using pc_ok_push(2) by (auto simp: lock_inv_def)
  then show ?case using nested_push by (auto simp: lock_inv_def)
next
  case (interrupts M i b)
  then have "pc_ok Outside (m_cpu M i)" using lock_inv_pc by blast
  then have "pc_ok Outside ((m_cpu M i)\<lparr>fl_if := b\<rparr>)" using interrupts(2) by (auto simp: pc_ok_def cpu_ok_def)
  then show ?case using interrupts by (auto simp: lock_inv_def)
qed

interpretation spin: step_invariant lock_init lock_step lock_inv
  by unfold_locales (auto intro: lock_init_inv lock_step_inv)


text \<open>
  The one-call functions are runs of these steps: a call of \<open>acquire\<close> that returns is the
  three steps from \<open>Outside\<close> to \<open>Inside\<close>, a call of \<open>release\<close> the three steps back.
\<close>

lemma acquire_run:
  assumes "m_pc M i = Outside" and "acquire (m_lk M) (m_cpu M i) = Ret (lk, c)"
  shows "lock_step\<^sup>*\<^sup>* M (goto i Inside (M\<lparr>m_lk := lk, m_cpu := (m_cpu M)(i := c)\<rparr>))"
proof -
  have a: "\<not> holding (m_lk M) (pushcli (m_cpu M i))" "locked (m_lk M) = 0"
    "c = pushcli (m_cpu M i)" "lk = (m_lk M)\<lparr>locked := 1, lk_cpu := Some (cpu_id c)\<rparr>"
    using assms(2) by (auto simp: acquire_def Let_def split: if_splits)
  let ?M1 = "goto i Spin (M\<lparr>m_cpu := (m_cpu M)(i := c)\<rparr>)"
  let ?M2 = "goto i Got (?M1\<lparr>m_lk := (m_lk M)\<lparr>locked := 1\<rparr>\<rparr>)"
  have "lock_step M ?M1" using lock_step.acquire_check [OF assms(1) refl] a by simp
  moreover have "lock_step ?M1 ?M2" using lock_step.acquire_xchg [of ?M1 i] a(2) by simp
  moreover have "lock_step ?M2 (goto i Inside (M\<lparr>m_lk := lk, m_cpu := (m_cpu M)(i := c)\<rparr>))"
    using lock_step.acquire_own [of ?M2 i] a(4) by (cases M) simp
  ultimately show ?thesis by (meson converse_rtranclp_into_rtranclp rtranclp.rtrancl_refl)
qed

lemma release_run:
  assumes "m_pc M i = Inside" and "release (m_lk M) (m_cpu M i) = Ret (lk, c)"
  shows "lock_step\<^sup>*\<^sup>* M (goto i Outside (M\<lparr>m_lk := lk, m_cpu := (m_cpu M)(i := c)\<rparr>))"
proof -
  have a: "holding (m_lk M) (m_cpu M i)" "popcli (m_cpu M i) = Ret c"
    "lk = (m_lk M)\<lparr>lk_cpu := None, locked := 0\<rparr>"
    using assms(2) by (auto simp: release_def bindr_eq_Ret split: if_splits)
  let ?M1 = "goto i Leaving (M\<lparr>m_lk := (m_lk M)\<lparr>lk_cpu := None\<rparr>\<rparr>)"
  let ?M2 = "goto i Popping (?M1\<lparr>m_lk := lk\<rparr>)"
  have "lock_step M ?M1" using lock_step.release_check [OF assms(1)] a by simp
  moreover have "lock_step ?M1 ?M2" using lock_step.release_xchg [of ?M1 i] a(3) by simp
  moreover have "lock_step ?M2 (goto i Outside (M\<lparr>m_lk := lk, m_cpu := (m_cpu M)(i := c)\<rparr>))"
    using lock_step.release_pop [of ?M2 i] a by simp
  ultimately show ?thesis by (meson converse_rtranclp_into_rtranclp rtranclp.rtrancl_refl)
qed

text \<open>A taken and released lock is free again, and the processor's flags are restored.\<close>

lemma acquire_release:
  assumes "cpu_ok c" and "locked lk = 0"
  shows "bindr (acquire lk c) (\<lambda>(lk, c). release lk c)
    = Ret (lk\<lparr>lk_cpu := None, locked := 0\<rparr>, c\<lparr>intena := if ncli c = 0 then fl_if c else intena c\<rparr>)"
  using assms by (simp add: acquire_def release_def holding_def Let_def popcli_pushcli)

subsection \<open>Properties\<close>

text \<open>C15: Mutual exclusion. In every reachable state of the lock on all processors, at most one
  processor is between its acquire and its release, none has panicked, and the one inside
  holds the lock with interrupts off. (Other critical sections nest around it, to a depth that keeps
  \<open>ncli\<close> below \<open>2 ^ 31\<close>.)\<close>

theorem spinlock_mutual_exclusion:
  assumes "reach lock_init lock_step M"
  shows "(m_pc M i = Inside \<and> m_pc M j = Inside \<longrightarrow> i = j) \<and> m_pc M i \<noteq> Crashed
    \<and> (m_pc M i = Inside \<longrightarrow> holding (m_lk M) (m_cpu M i) \<and> \<not> fl_if (m_cpu M i))"
proof -
  have inv: "lock_inv M" by (rule spin.reach_inv [OF assms])
  have "holding (m_lk M) (m_cpu M i) \<and> \<not> fl_if (m_cpu M i)
      \<and> (m_pc M j = Inside \<longrightarrow> i = j)" if "m_pc M i = Inside"
  proof -
    have "i \<in> owners M" using that by (simp add: owners_iff)
    note o = sole_owner [OF inv this]
    have "i = j" if "m_pc M j = Inside" using o(3) [of j] that by blast
    moreover have "pc_ok Inside (m_cpu M i)" using lock_inv_pc [OF inv that] .
    then have "\<not> fl_if (m_cpu M i)" by (auto simp: pc_ok_def cpu_ok_def)
    ultimately show ?thesis using o inv that by (auto simp: lock_inv_def holding_def)
  qed
  moreover have "m_pc M i \<noteq> Crashed" using inv by (auto simp: lock_inv_def pc_ok_def)
  ultimately show ?thesis by blast
qed

definition demo_machine :: machine where
  "demo_machine = \<lparr>m_lk = \<lparr>locked = 0, lk_name = ''demo'', lk_cpu = None\<rparr>,
     m_cpu = (\<lambda>i. \<lparr>cpu_id = i, ncli = 0, intena = False, fl_if = True\<rparr>), m_pc = (\<lambda>_. Outside)\<rparr>"

lemma demo_init: "lock_init demo_machine"
proof -
  have "m_lk demo_machine = initlock (m_lk demo_machine) ''demo''"
    by (simp add: demo_machine_def initlock_def)
  then show ?thesis by (auto simp: lock_init_def demo_machine_def)
qed

theorem spinlock_mutual_exclusion_witness:
  "\<exists>M. reach lock_init lock_step M \<and> m_pc M 0 = Inside \<and> holding (m_lk M) (m_cpu M 0)
     \<and> \<not> fl_if (m_cpu M 0)"
proof -
  let ?M = "demo_machine"
  obtain lk c where a: "acquire (m_lk ?M) (m_cpu ?M 0) = Ret (lk, c)"
    by (simp add: acquire_def demo_machine_def holding_def Let_def)
  let ?N = "goto 0 Inside (?M\<lparr>m_lk := lk, m_cpu := (m_cpu ?M)(0 := c)\<rparr>)"
  have "lock_step\<^sup>*\<^sup>* ?M ?N" by (rule acquire_run [OF _ a]) (simp add: demo_machine_def)
  moreover have "reach lock_init lock_step ?M" using demo_init by (rule reach_init)
  ultimately have r: "reach lock_init lock_step ?N" using spin.reach_steps by blast
  have "m_pc ?N 0 = Inside" by simp
  with r spinlock_mutual_exclusion [OF r, of 0 0] show ?thesis by blast
qed

text \<open>C16: Nesting. As long as the depth stays below \<open>2 ^ 31\<close>, the range of the counter, matched calls of
  \<open>pushcli\<close> and \<open>popcli\<close> leave the processor's depth and interrupt flag as they were, no \<open>popcli\<close> of them panics, and
  interrupts are off inside.\<close>

theorem pushcli_popcli_nesting:
  assumes "cpu_ok c" and "sint (ncli c) + int n < 2 ^ 31"
  shows "(\<exists>c'. unnest n (nest n c) = Ret c' \<and> ncli c' = ncli c \<and> fl_if c' = fl_if c)
    \<and> (0 < n \<longrightarrow> \<not> fl_if (nest n c))"
  using unnest_nest [OF assms] nest_fields [OF _ assms(2)] assms(1) by (auto simp: cpu_ok_def)

theorem pushcli_popcli_nesting_witness:
  "\<exists>c'. unnest 3 (nest 3 \<lparr>cpu_id = 0, ncli = 0, intena = False, fl_if = True\<rparr>) = Ret c'
     \<and> ncli c' = 0 \<and> fl_if c'"
  using pushcli_popcli_nesting [of "\<lparr>cpu_id = 0, ncli = 0, intena = False, fl_if = True\<rparr>" 3]
  by (simp add: cpu_ok_def)

end
