(* ===== verification/Kalloc.thy ===== *)
theory Kalloc
  imports Cstring Spinlock
begin

section \<open>The physical page allocator (kalloc.c)\<close>

text \<open>
  The free list is threaded through the free pages themselves: the first word of a free page
  is the address of the next one. The model keeps it there, in byte memory; \<open>kmem.lock\<close> is
  taken and released exactly where the code does, once \<open>use_lock\<close> is set. \<open>kend\<close> stands for
  the linker symbol \<open>end\<close>, the first address after the kernel.

  The abstract view of the allocator is the list of its free pages (\<open>free_pages\<close>). The
  interface \<open>page_allocator\<close> states what its clients rely on; the last part runs the
  allocator as a state machine driven by clients that write to the pages they own.
\<close>

subsection \<open>memlayout.h and mmu.h\<close>

definition v2p :: "uint \<Rightarrow> uint" where "v2p a = a - 0x80000000"

definition p2v :: "uint \<Rightarrow> uint" where "p2v a = a + 0x80000000"

definition PGROUNDUP :: "uint \<Rightarrow> uint" where "PGROUNDUP sz = (sz + 4096 - 1) AND NOT (4096 - 1)"

definition PGROUNDDOWN :: "uint \<Rightarrow> uint" where "PGROUNDDOWN a = a AND NOT (4096 - 1)"

abbreviation (input) PHYSTOP :: uint where "PHYSTOP \<equiv> 0xE000000"

subsection \<open>State and operations\<close>

record kmem =
  lock :: spinlock
  use_lock :: bool
  freelist :: uint

record kst =
  kmem :: kmem
  kmem_mem :: mem
  kcpu :: cpu

definition kmem_acquire :: "kst \<Rightarrow> kst res" where
  "kmem_acquire s =
     (if use_lock (kmem s)
      then bindr (acquire (lock (kmem s)) (kcpu s))
             (\<lambda>(l, c). Ret (s\<lparr>kmem := (kmem s)\<lparr>lock := l\<rparr>, kcpu := c\<rparr>))
      else Ret s)"

definition kmem_release :: "kst \<Rightarrow> kst res" where
  "kmem_release s =
     (if use_lock (kmem s)
      then bindr (release (lock (kmem s)) (kcpu s))
             (\<lambda>(l, c). Ret (s\<lparr>kmem := (kmem s)\<lparr>lock := l\<rparr>, kcpu := c\<rparr>))
      else Ret s)"

definition kfree :: "uint \<Rightarrow> uint \<Rightarrow> kst \<Rightarrow> kst res" where
  "kfree kend v s =
     (if v mod 4096 \<noteq> 0 \<or> v < kend \<or> v2p v \<ge> PHYSTOP then Panic ''kfree''
      else let s = s\<lparr>kmem_mem := memset v 1 4096 (kmem_mem s)\<rparr> in
        bindr (kmem_acquire s) (\<lambda>s.
        let r = v;
            s = s\<lparr>kmem_mem := store32 (kmem_mem s) r (freelist (kmem s))\<rparr>;
            s = s\<lparr>kmem := (kmem s)\<lparr>freelist := r\<rparr>\<rparr>
        in kmem_release s))"

definition kalloc :: "kst \<Rightarrow> (uint \<times> kst) res" where
  "kalloc s =
     bindr (kmem_acquire s) (\<lambda>s.
     let r = freelist (kmem s);
         s = (if r \<noteq> 0 then s\<lparr>kmem := (kmem s)\<lparr>freelist := load32 (kmem_mem s) r\<rparr>\<rparr> else s)
     in bindr (kmem_release s) (\<lambda>s. Ret (r, s)))"

text \<open>
  The loop of \<open>freerange\<close> ends because \<open>kfree\<close> panics outside physical memory: a loop that ran
  past the top of the address space would stop there.
\<close>

lemma kfree_RetD: "kfree kend v s = Ret s' \<Longrightarrow> v mod 4096 = 0 \<and> kend \<le> v \<and> v2p v < PHYSTOP"
  by (auto simp: kfree_def split: if_splits)

lemma freerange_decreases:
  assumes "v2p p < PHYSTOP"
  shows "0xE001000 - unat (v2p (p + 4096)) < 0xE001000 - unat (v2p p)"
proof -
  have "unat (v2p p) < unat PHYSTOP" using assms by (simp add: word_less_nat_alt)
  then have b: "unat (v2p p) < 0xE000000" by simp
  moreover have "v2p (p + 4096) = v2p p + of_nat 4096" by (simp add: v2p_def)
  ultimately have "unat (v2p (p + 4096)) = unat (v2p p) + 4096"
    using unat_add_nat_no_wrap [of "v2p p" 4096] by simp
  with b show ?thesis by simp
qed

function freerange_loop :: "uint \<Rightarrow> uint \<Rightarrow> uint \<Rightarrow> kst \<Rightarrow> kst res" where
  "freerange_loop kend p vend s =
     (if p + 4096 \<le> vend
      then bindr (kfree kend p s) (\<lambda>s. freerange_loop kend (p + 4096) vend s)
      else Ret s)"
  by pat_completeness auto

termination
proof (relation "measure (\<lambda>(kend, p, vend, s). 0xE001000 - unat (v2p p))")
  fix kend p vend s and t :: kst
  assume "kfree kend p s = Ret t"
  from kfree_RetD [OF this] freerange_decreases
  show "((kend, p + 4096, vend, t), kend, p, vend, s)
      \<in> measure (\<lambda>(kend, p, vend, s). 0xE001000 - unat (v2p p))" by auto
qed simp

declare freerange_loop.simps [simp del]

definition freerange :: "uint \<Rightarrow> uint \<Rightarrow> uint \<Rightarrow> kst \<Rightarrow> kst res" where
  "freerange kend vstart vend s = freerange_loop kend (PGROUNDUP vstart) vend s"

definition kinit1 :: "uint \<Rightarrow> uint \<Rightarrow> uint \<Rightarrow> kst \<Rightarrow> kst res" where
  "kinit1 kend vstart vend s =
     freerange kend vstart vend
       (s\<lparr>kmem := (kmem s)\<lparr>lock := initlock (lock (kmem s)) ''kmem'', use_lock := False\<rparr>\<rparr>)"

definition kinit2 :: "uint \<Rightarrow> uint \<Rightarrow> uint \<Rightarrow> kst \<Rightarrow> kst res" where
  "kinit2 kend vstart vend s =
     bindr (freerange kend vstart vend s) (\<lambda>s. Ret (s\<lparr>kmem := (kmem s)\<lparr>use_lock := True\<rparr>\<rparr>))"

subsection \<open>Page arithmetic\<close>

text \<open>The bytes of a page, and what it takes for \<open>kfree\<close> to accept one.\<close>

definition in_page :: "uint \<Rightarrow> uint \<Rightarrow> bool" where
  "in_page p x \<longleftrightarrow> x - p < 4096"

definition page_ok :: "uint \<Rightarrow> uint \<Rightarrow> bool" where
  "page_ok kend p \<longleftrightarrow> p mod 4096 = 0 \<and> kend \<le> p \<and> v2p p < PHYSTOP"

lemma page_ok_0 [simp]: "\<not> page_ok kend 0"
  by (simp add: page_ok_def v2p_def)

lemma aligned_unat: "(p :: uint) mod 4096 = 0 \<longleftrightarrow> 4096 dvd unat p"
proof -
  have "unat (p mod 4096) = unat p mod 4096" by (simp add: unat_mod)
  then show ?thesis by (metis mod_0_imp_dvd dvd_imp_mod_0 unat_eq_zero)
qed

lemma page_aligned4: "(p :: uint) mod 4096 = 0 \<Longrightarrow> 4 dvd unat p"
  unfolding aligned_unat by (erule dvd_trans [rotated]) simp

lemma page_top: "(p :: uint) mod 4096 = 0 \<Longrightarrow> unat p + 4095 < 2 ^ 32"
  unfolding aligned_unat using unat_lt_2p32 [of p] by (auto elim!: dvdE)

lemma in_page_iff:
  assumes "p mod 4096 = 0"
  shows "in_page p x \<longleftrightarrow> unat p \<le> unat x \<and> unat x < unat p + 4096"
proof -
  have "unat (x - p) = (if unat p \<le> unat x then unat x - unat p else unat x + 2 ^ 32 - unat p)"
    by (simp add: unat_sub_if')
  moreover have "unat p < 2 ^ 32 - 4095" using page_top [OF assms] by simp
  ultimately show ?thesis
    unfolding in_page_def word_less_nat_alt by auto
qed

lemma pages_apart:
  assumes "p mod 4096 = 0" and "q mod 4096 = 0" and "p \<noteq> q" and "in_page p x"
  shows "\<not> in_page q x"
proof -
  obtain i j where "unat p = 4096 * i" "unat q = 4096 * j"
    using assms(1,2) by (auto simp: aligned_unat elim!: dvdE)
  moreover have "unat p \<noteq> unat q" using assms(3) by (simp add: word_unat_eq_iff)
  ultimately show ?thesis using assms(4) unfolding in_page_iff [OF assms(1)] in_page_iff [OF assms(2)]
    by (cases i j rule: linorder_cases) auto
qed

lemma in_page_word: "p mod 4096 = 0 \<Longrightarrow> unat p \<le> unat x \<Longrightarrow> unat x < unat p + 4 \<Longrightarrow> in_page p x"
  by (simp add: in_page_iff)

lemma load32_page_cong:
  assumes "p mod 4096 = 0" and "\<And>x. in_page p x \<Longrightarrow> m x = m' x"
  shows "load32 m p = load32 m' p"
  by (rule load32_cong [OF page_aligned4 [OF assms(1)]]) (simp add: assms in_page_word)

lemma memset_page: "memset p c 4096 m x = (if in_page p x then ucast c else m x)"
  by (simp add: memset_eq in_page_def)

lemma store32_page:
  assumes "p mod 4096 = 0" and "\<not> in_page p x"
  shows "store32 m p v x = m x"
  using assms by (intro store32_other page_aligned4) (auto simp: in_page_iff)

subsection \<open>The free list\<close>

definition lock_ready :: "kst \<Rightarrow> bool" where
  "lock_ready s \<longleftrightarrow> cpu_ok (kcpu s) \<and> locked (lock (kmem s)) = 0"

definition free_pages :: "uint \<Rightarrow> kst \<Rightarrow> uint list \<Rightarrow> bool" where
  "free_pages kend s xs \<longleftrightarrow>
     lock_ready s \<and> path (load32 (kmem_mem s)) (freelist (kmem s)) xs 0 \<and> distinct xs
     \<and> (\<forall>p \<in> set xs. page_ok kend p)"

text \<open>Taking and giving back \<open>kmem.lock\<close> around a change of the memory and the list head.\<close>

lemma kmem_lock_section:
  assumes "lock_ready s"
  shows "\<exists>t. kmem_acquire s = Ret t \<and> kmem_mem t = kmem_mem s \<and> freelist (kmem t) = freelist (kmem s)
    \<and> (\<forall>m f. \<exists>u. kmem_release (t\<lparr>kmem_mem := m, kmem := (kmem t)\<lparr>freelist := f\<rparr>\<rparr>) = Ret u
          \<and> lock_ready u \<and> kmem_mem u = m \<and> freelist (kmem u) = f
          \<and> use_lock (kmem u) = use_lock (kmem s))"
proof (cases "use_lock (kmem s)")
  case True
  let ?l = "lock (kmem s)" and ?c = "pushcli (kcpu s)"
  have c: "cpu_ok (kcpu s)" and l: "locked ?l = 0" using assms True by (auto simp: lock_ready_def)
  let ?L = "?l\<lparr>locked := 1, lk_cpu := Some (cpu_id ?c)\<rparr>"
  have a: "acquire ?l (kcpu s) = Ret (?L, ?c)"
    using l by (simp add: acquire_def holding_def Let_def)
  obtain c' where p: "popcli ?c = Ret c'" "cpu_ok c'"
    using popcli_pushcli [OF c] c by (auto simp: cpu_ok_def)
  have r: "release ?L ?c = Ret (?L\<lparr>lk_cpu := None, locked := 0\<rparr>, c')"
    using p by (simp add: release_def holding_def)
  show ?thesis using True a r p by (auto simp: kmem_acquire_def kmem_release_def lock_ready_def)
qed (use assms in \<open>auto simp: kmem_acquire_def kmem_release_def lock_ready_def\<close>)

lemma path_page_cong:
  assumes "path (load32 m) x xs 0" and "\<And>p. p \<in> set xs \<Longrightarrow> p mod 4096 = 0"
    and "\<And>p y. p \<in> set xs \<Longrightarrow> in_page p y \<Longrightarrow> m y = m' y"
  shows "path (load32 m') x xs 0"
proof -
  have "path (load32 m) x xs 0 \<longleftrightarrow> path (load32 m') x xs 0"
    by (rule path_cong) (use assms in \<open>auto intro: load32_page_cong\<close>)
  with assms(1) show ?thesis by simp
qed

lemma kalloc_spec:
  assumes "free_pages kend s xs"
  shows "\<exists>s'. kalloc s = Ret (case xs of [] \<Rightarrow> 0 | p # _ \<Rightarrow> p, s') \<and> free_pages kend s' (tl xs)
    \<and> kmem_mem s' = kmem_mem s \<and> use_lock (kmem s') = use_lock (kmem s)"
proof -
  let ?m = "kmem_mem s" and ?f = "freelist (kmem s)"
  have lr: "lock_ready s" and pt: "path (load32 ?m) ?f xs 0"
    and xs: "distinct xs" "\<forall>p \<in> set xs. page_ok kend p"
    using assms by (auto simp: free_pages_def)
  obtain t where t: "kmem_acquire s = Ret t" "kmem_mem t = ?m" "freelist (kmem t) = ?f"
    and rel: "\<And>m f. \<exists>u. kmem_release (t\<lparr>kmem_mem := m, kmem := (kmem t)\<lparr>freelist := f\<rparr>\<rparr>) = Ret u
          \<and> lock_ready u \<and> kmem_mem u = m \<and> freelist (kmem u) = f
          \<and> use_lock (kmem u) = use_lock (kmem s)"
    using kmem_lock_section [OF lr] by blast
  have self: "t\<lparr>kmem_mem := ?m, kmem := (kmem t)\<lparr>freelist := f\<rparr>\<rparr> = t\<lparr>kmem := (kmem t)\<lparr>freelist := f\<rparr>\<rparr>" for f
    using t(2) by (cases t) simp
  have self0: "t\<lparr>kmem := (kmem t)\<lparr>freelist := ?f\<rparr>\<rparr> = t" using t(3) by (cases t, cases "kmem t") simp
  show ?thesis
  proof (cases xs)
    case Nil
    then have "?f = 0" using pt by simp
    moreover have "t\<lparr>kmem_mem := ?m, kmem := (kmem t)\<lparr>freelist := ?f\<rparr>\<rparr> = t"
      unfolding self self0 ..
    ultimately obtain u where "kmem_release t = Ret u" "lock_ready u" "kmem_mem u = ?m"
        "freelist (kmem u) = 0" "use_lock (kmem u) = use_lock (kmem s)"
      using rel [where m = ?m and f = ?f] by auto
    then show ?thesis using t Nil \<open>?f = 0\<close> by (simp add: kalloc_def free_pages_def)
  next
    case (Cons p ps)
    then have "?f = p" "path (load32 ?m) (load32 ?m p) ps 0" "p \<noteq> 0" using pt xs by auto
    with rel [where m = ?m and f = "load32 ?m p"] self t xs Cons show ?thesis
      by (auto simp: kalloc_def free_pages_def)
  qed
qed

lemma kfree_spec:
  assumes "free_pages kend s xs" and "page_ok kend p" and "p \<notin> set xs"
  shows "\<exists>s'. kfree kend p s = Ret s' \<and> free_pages kend s' (p # xs)
    \<and> (\<forall>x. \<not> in_page p x \<longrightarrow> kmem_mem s' x = kmem_mem s x)
    \<and> (\<forall>x. in_page p x \<and> p + 4 \<le> x \<longrightarrow> kmem_mem s' x = 1)
    \<and> use_lock (kmem s') = use_lock (kmem s)"
proof -
  let ?old = "kmem_mem s" and ?f = "freelist (kmem s)"
  let ?junk = "memset p 1 4096 ?old"
  let ?m = "store32 ?junk p ?f"
  let ?s = "s\<lparr>kmem_mem := ?junk\<rparr>"
  have p: "p mod 4096 = 0" and a4: "4 dvd unat p"
    using assms(2) by (simp_all add: page_ok_def page_aligned4)
  have lr: "lock_ready ?s" and pt: "path (load32 ?old) ?f xs 0"
    and xs: "distinct xs" "\<forall>q \<in> set xs. page_ok kend q"
    using assms(1) by (auto simp: free_pages_def lock_ready_def)
  obtain t where t: "kmem_acquire ?s = Ret t" "kmem_mem t = ?junk" "freelist (kmem t) = ?f"
    and rel: "\<And>m f. \<exists>u. kmem_release (t\<lparr>kmem_mem := m, kmem := (kmem t)\<lparr>freelist := f\<rparr>\<rparr>) = Ret u
          \<and> lock_ready u \<and> kmem_mem u = m \<and> freelist (kmem u) = f
          \<and> use_lock (kmem u) = use_lock (kmem s)"
    using kmem_lock_section [OF lr] by auto
  obtain u where u: "kmem_release (t\<lparr>kmem_mem := ?m, kmem := (kmem t)\<lparr>freelist := p\<rparr>\<rparr>) = Ret u"
      "lock_ready u" "kmem_mem u = ?m" "freelist (kmem u) = p" "use_lock (kmem u) = use_lock (kmem s)"
    using rel by blast
  have k: "kfree kend p s = Ret u"
    using assms(2) t u(1) by (simp add: kfree_def page_ok_def Let_def not_less not_le)
  have out: "?m x = ?old x" if "\<not> in_page p x" for x
    using that store32_page [OF p that] by (simp add: memset_page)
  have "?m x = 1" if "in_page p x" "p + 4 \<le> x" for x
  proof -
    have "unat (p + of_nat 4) = unat p + 4"
      using page_top [OF p] by (intro unat_add_nat_no_wrap) simp
    then have "unat p + 4 \<le> unat x" using that(2) by (simp add: word_le_nat_alt)
    then have "?m x = ?junk x" by (intro store32_other [OF a4]) simp
    then show ?thesis using that(1) by (simp add: memset_page)
  qed
  moreover have "path (load32 ?m) ?f xs 0"
  proof (rule path_page_cong [OF pt])
    fix q y assume q: "q \<in> set xs" "in_page q y"
    then have "\<not> in_page p y"
      using xs(2) assms(3) p pages_apart [of q p y] by (auto simp: page_ok_def)
    then show "?old y = ?m y" using out by simp
  qed (use xs(2) in \<open>auto simp: page_ok_def\<close>)
  ultimately show ?thesis
    using k u out assms(2,3) xs by (auto simp: free_pages_def)
qed

subsection \<open>Rounding\<close>

lemma and_not_4095: "(a :: uint) AND - 4096 = push_bit 12 (drop_bit 12 a)"
proof -
  have "(- 4096 :: uint) = NOT (mask 12)" by (simp add: mask_eq_exp_minus_1)
  moreover have "a AND NOT (mask 12) = push_bit 12 (drop_bit 12 a)"
    by (rule bit_word_eqI) (auto simp: bit_simps)
  ultimately show ?thesis by simp
qed

lemma unat_PGROUNDDOWN: "unat (PGROUNDDOWN a) = unat a div 4096 * 4096"
proof -
  have "unat (PGROUNDDOWN a) = take_bit 32 (push_bit 12 (drop_bit 12 (unat a)))"
    by (simp add: PGROUNDDOWN_def and_not_4095 unsigned_push_bit_eq unsigned_drop_bit_eq
        take_bit_nat_eq_self [OF unat_lt_2p32])
  also have "\<dots> = take_bit 32 (unat a div 4096 * 4096)"
    by (simp add: push_bit_eq_mult drop_bit_eq_div)
  also have "\<dots> = unat a div 4096 * 4096"
  proof (rule take_bit_nat_eq_self)
    have "unat a div 4096 * 4096 \<le> unat a" by simp
    also have "\<dots> < 2 ^ 32" by (rule unat_lt_2p32)
    finally show "unat a div 4096 * 4096 < 2 ^ 32" .
  qed
  finally show ?thesis .
qed

lemma unat_PGROUNDUP:
  assumes "unat a + 4095 < 2 ^ 32"
  shows "unat (PGROUNDUP a) = (unat a + 4095) div 4096 * 4096"
proof -
  have "PGROUNDUP a = PGROUNDDOWN (a + of_nat 4095)"
    by (simp add: PGROUNDUP_def PGROUNDDOWN_def add.commute)
  then show ?thesis using unat_add_nat_no_wrap [OF assms] by (simp add: unat_PGROUNDDOWN)
qed

lemma PGROUNDDOWN_aligned: "PGROUNDDOWN a mod 4096 = 0"
  by (simp add: aligned_unat unat_PGROUNDDOWN)

lemma PGROUNDUP_aligned: "PGROUNDUP a mod 4096 = 0"
  using PGROUNDDOWN_aligned [of "a + 4096 - 1"] by (simp add: PGROUNDUP_def PGROUNDDOWN_def)

subsection \<open>freerange and the boot-time initialisation\<close>

definition range_pages :: "uint \<Rightarrow> uint \<Rightarrow> uint set" where
  "range_pages p vend = {q. q mod 4096 = 0 \<and> p \<le> q \<and> unat q + 4096 \<le> unat vend}"

lemma unat_page_next:
  "v2p p < PHYSTOP \<Longrightarrow> 0x80000000 \<le> p \<Longrightarrow> unat (p + 4096) = unat p + 4096"
proof -
  assume a: "v2p p < PHYSTOP" "0x80000000 \<le> p"
  have "unat (0x80000000 :: uint) \<le> unat p" using a(2) unfolding word_le_nat_alt .
  then have "unat (v2p p) = unat p - 0x80000000" by (simp add: v2p_def unat_sub_if')
  moreover have "unat (v2p p) < unat PHYSTOP" using a(1) unfolding word_less_nat_alt .
  ultimately have "unat p < 0x8E000000" by simp
  then show ?thesis using unat_add_nat_no_wrap [of p 4096] by simp
qed

lemma unat_v2p: "0x80000000 \<le> p \<Longrightarrow> unat (v2p p) = unat p - 0x80000000"
proof -
  assume "0x80000000 \<le> p"
  then have "unat (0x80000000 :: uint) \<le> unat p" unfolding word_le_nat_alt .
  then show ?thesis by (simp add: v2p_def unat_sub_if')
qed

lemma freerange_loop_spec:
  assumes "free_pages kend s xs" and "p mod 4096 = 0" and "kend \<le> p" and "0x80000000 \<le> p"
    and "unat vend \<le> 0x8E000000" and "set xs \<inter> range_pages p vend = {}"
    and "unat p \<le> 0x8E000000"
  shows "\<exists>s' ys. freerange_loop kend p vend s = Ret s' \<and> free_pages kend s' (ys @ xs)
    \<and> set ys = range_pages p vend \<and> use_lock (kmem s') = use_lock (kmem s)
    \<and> (\<forall>x. (\<forall>q \<in> range_pages p vend. \<not> in_page q x) \<longrightarrow> kmem_mem s' x = kmem_mem s x)"
  using assms
proof (induction kend p vend s arbitrary: xs rule: freerange_loop.induct)
  case (1 kend p vend s)
  have al: "4096 dvd unat p" using "1.prems"(2) by (simp add: aligned_unat)
  have kb: "0x80000000 \<le> unat p" using "1.prems"(4) unfolding word_le_nat_alt by simp
  show ?case
  proof (cases "unat p + 4096 \<le> unat vend")
    case True
    then have plt: "unat p < 0x8E000000" using "1.prems"(5) by simp
    then have nx: "unat (p + 4096) = unat p + 4096"
      using unat_add_nat_no_wrap [of p 4096] by simp
    have go: "p + 4096 \<le> vend" using True nx by (simp add: word_le_nat_alt)
    have "unat (v2p p) < unat PHYSTOP" using plt kb unat_v2p [OF "1.prems"(4)] by simp
    then have ok: "page_ok kend p" using "1.prems"(2,3) by (simp add: page_ok_def word_less_nat_alt)
    have pin: "p \<in> range_pages p vend" using "1.prems"(2) True by (simp add: range_pages_def)
    then have fresh: "p \<notin> set xs" using "1.prems"(6) by blast
    obtain t where t: "kfree kend p s = Ret t" "free_pages kend t (p # xs)"
        "use_lock (kmem t) = use_lock (kmem s)"
        "\<forall>x. \<not> in_page p x \<longrightarrow> kmem_mem t x = kmem_mem s x"
      using kfree_spec [OF "1.prems"(1) ok fresh] by blast
    have step: "q = p \<or> p + 4096 \<le> q" if qa: "q mod 4096 = 0" and ql: "p \<le> q" for q
    proof -
      obtain i where "unat p = 4096 * i" using al by (auto elim!: dvdE)
      moreover obtain j where "unat q = 4096 * j" using qa unfolding aligned_unat by (auto elim!: dvdE)
      ultimately show ?thesis using ql nx by (auto simp: word_le_nat_alt word_unat_eq_iff)
    qed
    have le: "p \<le> q" "q \<noteq> p" if "p + 4096 \<le> q" for q
      using that nx by (auto simp: word_le_nat_alt)
    have np: "p \<notin> range_pages (p + 4096) vend"
      using nx by (simp add: range_pages_def word_le_nat_alt)
    have rp: "range_pages p vend = insert p (range_pages (p + 4096) vend)"
    proof (rule set_eqI)
      fix q
      show "q \<in> range_pages p vend \<longleftrightarrow> q \<in> insert p (range_pages (p + 4096) vend)"
        using step [of q] le [of q] pin unfolding range_pages_def mem_Collect_eq insert_iff by metis
    qed
    have a: "(p + 4096) mod 4096 = 0" using al nx by (simp add: aligned_unat)
    have b: "kend \<le> p + 4096" "0x80000000 \<le> p + 4096"
      using "1.prems"(3,4) nx by (auto simp: word_le_nat_alt)
    have c: "set (p # xs) \<inter> range_pages (p + 4096) vend = {}"
      using "1.prems"(6) rp np by auto
    have d: "unat (p + 4096) \<le> 0x8E000000" using nx True "1.prems"(5) by simp
    obtain s' ys where "freerange_loop kend (p + 4096) vend t = Ret s'"
        "free_pages kend s' (ys @ p # xs)" "set ys = range_pages (p + 4096) vend"
        "use_lock (kmem s') = use_lock (kmem t)"
        "\<forall>x. (\<forall>q \<in> range_pages (p + 4096) vend. \<not> in_page q x) \<longrightarrow> kmem_mem s' x = kmem_mem t x"
      using "1.IH" [OF go t(1) t(2) a b "1.prems"(5) c d] by blast
    then show ?thesis
      using go t rp by (intro exI [of _ s'] exI [of _ "ys @ [p]"])
        (simp add: freerange_loop.simps [of kend p])
  next
    case False
    then have "\<not> p + 4096 \<le> vend"
      using "1.prems"(7) unat_add_nat_no_wrap [of p 4096] by (simp add: word_le_nat_alt)
    moreover have "range_pages p vend = {}"
      using False by (auto simp: range_pages_def word_le_nat_alt)
    ultimately show ?thesis using "1.prems"(1) by (auto simp: freerange_loop.simps)
  qed
qed


lemma round_up_le: "((a :: nat) + 4095) div 4096 * 4096 \<le> 4096 * j \<longleftrightarrow> a \<le> 4096 * j"
proof -
  let ?k = "(a + 4095) div 4096"
  have k: "4096 * ?k \<le> a + 4095" "a + 4095 < 4096 * ?k + 4096" by simp_all
  have "?k \<le> j" if "a \<le> 4096 * j"
  proof -
    have "4096 * ?k < 4096 * Suc j" using k(1) that by simp
    then show ?thesis by simp
  qed
  with k(2) show ?thesis by (auto simp: mult.commute)
qed

lemma freerange_spec:
  assumes "free_pages kend s xs" and "kend \<le> a" and "0x80000000 \<le> a" and "unat a \<le> 0x8E000000"
    and "unat vend \<le> 0x8E000000" and "set xs \<inter> range_pages a vend = {}"
  shows "\<exists>s' ys. freerange kend a vend s = Ret s' \<and> free_pages kend s' (ys @ xs)
    \<and> set ys = range_pages a vend \<and> use_lock (kmem s') = use_lock (kmem s)
    \<and> (\<forall>x. (\<forall>q \<in> range_pages a vend. \<not> in_page q x) \<longrightarrow> kmem_mem s' x = kmem_mem s x)"
proof -
  let ?p = "PGROUNDUP a"
  have u: "unat ?p = (unat a + 4095) div 4096 * 4096" using assms(4) by (intro unat_PGROUNDUP) simp
  have le: "a \<le> ?p" "unat ?p \<le> 0x8E000000" using u assms(4) by (auto simp: word_le_nat_alt)
  have rp: "range_pages ?p vend = range_pages a vend"
  proof -
    have "?p \<le> q \<longleftrightarrow> a \<le> q" if qa: "q mod 4096 = 0" for q
    proof -
      obtain j where "unat q = 4096 * j" using qa unfolding aligned_unat by (auto elim!: dvdE)
      then show ?thesis unfolding word_le_nat_alt u by (simp add: round_up_le)
    qed
    then show ?thesis unfolding range_pages_def by (metis (no_types, lifting))
  qed
  show ?thesis
    unfolding freerange_def rp [symmetric]
    by (rule freerange_loop_spec) (use assms le rp PGROUNDUP_aligned in \<open>auto intro: order_trans\<close>)
qed

lemma page_ok_range:
  assumes "0x80000000 \<le> kend"
  shows "page_ok kend p \<longleftrightarrow> p mod 4096 = 0 \<and> kend \<le> p \<and> unat p + 4096 \<le> 0x8E000000"
proof (cases "p mod 4096 = 0 \<and> kend \<le> p")
  case True
  then have b: "0x80000000 \<le> p" using assms by (meson order_trans)
  then have "0x80000000 \<le> unat p" unfolding word_le_nat_alt by simp
  moreover obtain i where "unat p = 4096 * i" using True unfolding aligned_unat by (auto elim!: dvdE)
  ultimately show ?thesis
    using True unat_v2p [OF b] unfolding page_ok_def word_less_nat_alt by simp linarith
qed (auto simp: page_ok_def)

text \<open>
  \<open>main\<close> calls \<open>kinit1(end, P2V(4*1024*1024))\<close> and, after the page tables and the other processors have
  taken pages, \<open>kinit2(P2V(4*1024*1024), P2V(PHYSTOP))\<close>.
\<close>

lemma kinit1_spec:
  assumes "0x80000000 \<le> kend" and "kend \<le> p2v 0x400000"
    and "freelist (kmem s) = 0" and "cpu_ok (kcpu s)"
  shows "\<exists>s' xs. kinit1 kend kend (p2v 0x400000) s = Ret s' \<and> free_pages kend s' xs
    \<and> set xs = range_pages kend (p2v 0x400000) \<and> \<not> use_lock (kmem s')"
proof -
  let ?mid = "p2v 0x400000"
  let ?s = "s\<lparr>kmem := (kmem s)\<lparr>lock := initlock (lock (kmem s)) ''kmem'', use_lock := False\<rparr>\<rparr>"
  have u: "unat ?mid = 0x80400000" by (simp add: p2v_def)
  have k: "unat kend \<le> 0x80400000" using assms(2) u by (simp add: word_le_nat_alt)
  have "free_pages kend ?s []" using assms by (simp add: free_pages_def lock_ready_def initlock_def)
  then show ?thesis
    using freerange_spec [of kend ?s "[]" kend ?mid] assms(1) k u by (auto simp: kinit1_def)
qed

lemma kinit2_spec:
  assumes "kend \<le> p2v 0x400000" and "free_pages kend s xs" and "set xs \<subseteq> range_pages kend (p2v 0x400000)"
  shows "\<exists>s' ys. kinit2 kend (p2v 0x400000) (p2v PHYSTOP) s = Ret s' \<and> free_pages kend s' (ys @ xs)
    \<and> set ys = range_pages (p2v 0x400000) (p2v PHYSTOP) \<and> use_lock (kmem s')
    \<and> (\<forall>x. unat x < 0x80400000 \<longrightarrow> kmem_mem s' x = kmem_mem s x)"
proof -
  let ?mid = "p2v 0x400000" and ?top = "p2v PHYSTOP"
  have u: "unat ?mid = 0x80400000" "unat ?top = 0x8E000000" by (simp_all add: p2v_def)
  have "set xs \<inter> range_pages ?mid ?top = {}"
    using assms(3) unfolding range_pages_def word_le_nat_alt by auto
  then obtain t ys where t: "freerange kend ?mid ?top s = Ret t" "free_pages kend t (ys @ xs)"
      "set ys = range_pages ?mid ?top"
      "\<forall>x. (\<forall>q \<in> range_pages ?mid ?top. \<not> in_page q x) \<longrightarrow> kmem_mem t x = kmem_mem s x"
    using freerange_spec [OF assms(2), of ?mid ?top] assms(1) u by (auto simp: p2v_def)
  have "\<not> in_page q x" if "q \<in> range_pages ?mid ?top" and "unat x < 0x80400000" for q x
    using that in_page_iff [of q x] u unfolding range_pages_def word_le_nat_alt by auto
  moreover have "free_pages kend (t\<lparr>kmem := (kmem t)\<lparr>use_lock := True\<rparr>\<rparr>) (ys @ xs)"
    using t(2) by (simp add: free_pages_def lock_ready_def)
  ultimately show ?thesis using t by (auto simp: kinit2_def)
qed

lemma range_pages_split:
  assumes "0x80000000 \<le> kend" and "kend \<le> p2v 0x400000"
  shows "range_pages (p2v 0x400000) (p2v PHYSTOP) \<union> range_pages kend (p2v 0x400000) = {p. page_ok kend p}"
proof -
  let ?mid = "p2v 0x400000" and ?top = "p2v PHYSTOP"
  have u: "unat ?mid = 0x80400000" "unat ?top = 0x8E000000" by (simp_all add: p2v_def)
  have "q \<in> range_pages ?mid ?top \<or> q \<in> range_pages kend ?mid \<longleftrightarrow> page_ok kend q" for q
  proof -
    have "?mid \<le> q \<or> unat q + 4096 \<le> 0x80400000" if qa: "q mod 4096 = 0"
    proof -
      obtain j where "unat q = 4096 * j" using qa unfolding aligned_unat by (auto elim!: dvdE)
      moreover have "0x80400 \<le> j \<or> j + 1 \<le> 0x80400" by linarith
      ultimately show ?thesis unfolding word_le_nat_alt u by auto
    qed
    then show ?thesis
      using assms(2) unfolding page_ok_range [OF assms(1)] range_pages_def mem_Collect_eq u word_le_nat_alt
        aligned_unat by auto
  qed
  then show ?thesis by auto
qed


subsection \<open>The allocator's interface\<close>

text \<open>
  What the clients of the allocator rely on (page tables, kernel stacks, pipes): a page handed
  out is a free one, the memory is untouched by \<open>alloc\<close> and changed only inside the page by
  \<open>free\<close>, and a write that stays away from the free pages does not disturb the allocator.
\<close>

locale page_allocator =
  fixes alloc :: "'s \<Rightarrow> (uint \<times> 's) res"
    and free :: "uint \<Rightarrow> 's \<Rightarrow> 's res"
    and pages :: "'s \<Rightarrow> uint list \<Rightarrow> bool"
    and bytes :: "'s \<Rightarrow> mem"
    and put :: "mem \<Rightarrow> 's \<Rightarrow> 's"
    and good :: "uint \<Rightarrow> bool"
  assumes alloc_none: "pages s [] \<Longrightarrow> \<exists>s'. alloc s = Ret (0, s') \<and> pages s' [] \<and> bytes s' = bytes s"
    and alloc_some: "pages s (p # ps) \<Longrightarrow> \<exists>s'. alloc s = Ret (p, s') \<and> pages s' ps \<and> bytes s' = bytes s"
    and free_page: "pages s ps \<Longrightarrow> good p \<Longrightarrow> p \<notin> set ps \<Longrightarrow>
      \<exists>s'. free p s = Ret s' \<and> pages s' (p # ps) \<and> (\<forall>x. \<not> in_page p x \<longrightarrow> bytes s' x = bytes s x)"
    and put_page: "pages s ps \<Longrightarrow> (\<And>p x. p \<in> set ps \<Longrightarrow> in_page p x \<Longrightarrow> m x = bytes s x) \<Longrightarrow>
      pages (put m s) ps \<and> bytes (put m s) = m"
    and pages_distinct: "pages s ps \<Longrightarrow> distinct ps"
    and pages_good: "pages s ps \<Longrightarrow> p \<in> set ps \<Longrightarrow> good p"
    and good_nz: "\<not> good 0"
    and good_aligned: "good p \<Longrightarrow> p mod 4096 = 0"

text \<open>
  A run of the allocator: its clients allocate, free pages they own and write into them. The
  second component of the state is the list of the pages handed out and not yet freed.
\<close>

inductive alloc_step ::
  "('s \<Rightarrow> (uint \<times> 's) res) \<Rightarrow> (uint \<Rightarrow> 's \<Rightarrow> 's res) \<Rightarrow> ('s \<Rightarrow> mem) \<Rightarrow> (mem \<Rightarrow> 's \<Rightarrow> 's)
     \<Rightarrow> 's \<times> uint list \<Rightarrow> 's \<times> uint list \<Rightarrow> bool"
  for alloc free bytes put where
  step_alloc: "alloc s = Ret (p, s') \<Longrightarrow>
     alloc_step alloc free bytes put (s, own) (s', if p = 0 then own else p # own)"
| step_free: "p \<in> set own \<Longrightarrow> free p s = Ret s' \<Longrightarrow>
     alloc_step alloc free bytes put (s, own) (s', remove1 p own)"
| step_write: "(\<And>x. (\<And>p. p \<in> set own \<Longrightarrow> \<not> in_page p x) \<Longrightarrow> m x = bytes s x) \<Longrightarrow>
     alloc_step alloc free bytes put (s, own) (put m s, own)"

definition own_init :: "('s \<Rightarrow> uint list \<Rightarrow> bool) \<Rightarrow> uint set \<Rightarrow> 's \<times> uint list \<Rightarrow> bool" where
  "own_init pages P x \<longleftrightarrow> snd x = [] \<and> (\<exists>ps. pages (fst x) ps \<and> set ps = P)"

definition own_inv :: "('s \<Rightarrow> uint list \<Rightarrow> bool) \<Rightarrow> uint set \<Rightarrow> 's \<times> uint list \<Rightarrow> bool" where
  "own_inv pages P x \<longleftrightarrow> (\<exists>ps. pages (fst x) ps \<and> distinct (snd x @ ps) \<and> set (snd x @ ps) = P)"

context page_allocator
begin

lemma alloc_cases:
  assumes "pages s ps"
  obtains s' where "alloc s = Ret (0, s')" "ps = []" "pages s' []" "bytes s' = bytes s"
  | p qs s' where "alloc s = Ret (p, s')" "ps = p # qs" "p \<noteq> 0" "good p" "pages s' qs" "bytes s' = bytes s"
proof (cases ps)
  case Nil
  then show thesis using alloc_none that(1) assms by blast
next
  case (Cons p qs)
  then have "good p" using pages_good [OF assms] by simp
  then have "p \<noteq> 0" using good_nz by auto
  then show thesis using alloc_some [of s p qs] that(2) assms Cons \<open>good p\<close> by blast
qed

lemma step_own_inv:
  assumes "alloc_step alloc free bytes put x y"
    and "\<And>p. p \<in> P \<Longrightarrow> good p" and "own_inv pages P x"
  shows "own_inv pages P y"
  using assms
proof (induction rule: alloc_step.induct)
  case (step_alloc s p s' own)
  then obtain ps where ps: "pages s ps" "distinct (own @ ps)" "set (own @ ps) = P"
    by (auto simp: own_inv_def)
  from ps(1) show ?case
  proof (cases rule: alloc_cases)
    case (1 t)
    with step_alloc.hyps ps show ?thesis by (auto simp: own_inv_def)
  next
    case (2 q qs t)
    with step_alloc.hyps ps show ?thesis by (auto simp: own_inv_def intro!: exI [of _ qs])
  qed
next
  case (step_free p own s s')
  then obtain ps where ps: "pages s ps" "distinct (own @ ps)" "set (own @ ps) = P"
    by (auto simp: own_inv_def)
  have "p \<notin> set ps" "good p" using ps step_free.hyps step_free.prems(1) by auto
  then obtain t where "free p s = Ret t" "pages t (p # ps)" using free_page [OF ps(1)] by blast
  with step_free.hyps ps show ?case by (auto simp: own_inv_def intro!: exI [of _ "p # ps"])
next
  case (step_write own m s)
  then obtain ps where ps: "pages s ps" "distinct (own @ ps)" "set (own @ ps) = P"
    by (auto simp: own_inv_def)
  have same: "m x = bytes s x" if "q \<in> set ps" "in_page q x" for q x
  proof (rule step_write.hyps)
    fix p assume p: "p \<in> set own"
    have a: "p mod 4096 = 0" "q mod 4096 = 0" "q \<noteq> p"
      using ps p that(1) step_write.prems(1) by (auto intro!: good_aligned)
    show "\<not> in_page p x" by (rule pages_apart [OF a(2,1,3) that(2)])
  qed
  have "pages (put m s) ps" using put_page [OF ps(1), of m] same by blast
  with ps show ?case by (auto simp: own_inv_def)
qed

lemma own_reach:
  assumes "reach (own_init pages P) (alloc_step alloc free bytes put) x" and "\<And>p. p \<in> P \<Longrightarrow> good p"
  shows "own_inv pages P x"
  using assms(1)
proof (induction rule: reach.induct)
  case (reach_init x)
  then show ?case by (auto simp: own_init_def own_inv_def dest: pages_distinct)
qed (rule step_own_inv [OF _ assms(2)])

text \<open>In every reachable state allocation succeeds while a page is free, with a page no client
  owns, and freeing an owned page succeeds.\<close>

lemma own_progress:
  assumes "own_inv pages P (s, own)" and "\<And>p. p \<in> P \<Longrightarrow> good p"
  shows "\<exists>p s'. alloc s = Ret (p, s') \<and> p \<notin> set own \<and> (p = 0 \<longleftrightarrow> set own = P)"
    and "p \<in> set own \<Longrightarrow> \<exists>s'. free p s = Ret s'"
proof -
  obtain ps where ps: "pages s ps" "distinct (own @ ps)" "set (own @ ps) = P"
    using assms(1) by (auto simp: own_inv_def)
  have nz: "0 \<notin> set own" using ps(3) assms(2) good_nz by auto
  from ps(1) show "\<exists>p s'. alloc s = Ret (p, s') \<and> p \<notin> set own \<and> (p = 0 \<longleftrightarrow> set own = P)"
  proof (cases rule: alloc_cases)
    case (1 t)
    with ps nz show ?thesis by auto
  next
    case (2 q qs t)
    with ps show ?thesis by auto
  qed
  show "\<exists>s'. free p s = Ret s'" if "p \<in> set own"
    using free_page [OF ps(1), of p] assms(2) ps that by auto
qed

end

interpretation ka: page_allocator kalloc "kfree kend" "free_pages kend" kmem_mem
  "\<lambda>m s. s\<lparr>kmem_mem := m\<rparr>" "page_ok kend" for kend
proof
  fix s p ps m
  show "free_pages kend s [] \<Longrightarrow>
      \<exists>s'. kalloc s = Ret (0, s') \<and> free_pages kend s' [] \<and> kmem_mem s' = kmem_mem s"
    using kalloc_spec [of kend s "[]"] by auto
  show "free_pages kend s (p # ps) \<Longrightarrow>
      \<exists>s'. kalloc s = Ret (p, s') \<and> free_pages kend s' ps \<and> kmem_mem s' = kmem_mem s"
    using kalloc_spec [of kend s "p # ps"] by auto
  show "free_pages kend s ps \<Longrightarrow> page_ok kend p \<Longrightarrow> p \<notin> set ps \<Longrightarrow>
      \<exists>s'. kfree kend p s = Ret s' \<and> free_pages kend s' (p # ps)
         \<and> (\<forall>x. \<not> in_page p x \<longrightarrow> kmem_mem s' x = kmem_mem s x)"
    using kfree_spec by blast
  assume a: "free_pages kend s ps" and b: "\<And>p x. p \<in> set ps \<Longrightarrow> in_page p x \<Longrightarrow> m x = kmem_mem s x"
  have "path (load32 m) (freelist (kmem s)) ps 0"
  proof (rule path_page_cong)
    show "path (load32 (kmem_mem s)) (freelist (kmem s)) ps 0" using a by (simp add: free_pages_def)
  qed (use a b in \<open>auto simp: free_pages_def page_ok_def\<close>)
  with a show "free_pages kend (s\<lparr>kmem_mem := m\<rparr>) ps
      \<and> kmem_mem (s\<lparr>kmem_mem := m\<rparr>) = m"
    by (auto simp: free_pages_def lock_ready_def)
qed (simp_all add: free_pages_def, simp add: page_ok_def)

subsection \<open>Properties\<close>

text \<open>C12: Page ownership. In any run of the allocator in which clients allocate, free pages they own
  and write only into them, \<open>kalloc\<close> always returns: a page that no client owns, or 0 exactly when
  every page is owned; and \<open>kfree\<close> of an owned page never panics.\<close>

theorem kalloc_never_hands_out_twice:
  assumes "reach (own_init (free_pages kend) P)
      (alloc_step kalloc (kfree kend) kmem_mem (\<lambda>m s. s\<lparr>kmem_mem := m\<rparr>)) (s, own)"
    and "P \<subseteq> {p. page_ok kend p}"
  shows "(\<exists>p s'. kalloc s = Ret (p, s') \<and> p \<notin> set own \<and> (p = 0 \<longleftrightarrow> set own = P))
    \<and> distinct own \<and> (p \<in> set own \<longrightarrow> (\<exists>s'. kfree kend p s = Ret s'))"
proof -
  have ok: "\<And>p. p \<in> P \<Longrightarrow> page_ok kend p" using assms(2) by auto
  have inv: "own_inv (free_pages kend) P (s, own)" by (rule ka.own_reach [OF assms(1) ok])
  then have "distinct own" by (auto simp: own_inv_def)
  with ka.own_progress [OF inv ok] show ?thesis by blast
qed

definition boot_kst :: kst where
  "boot_kst = \<lparr>kmem = \<lparr>lock = \<lparr>locked = 0, lk_name = [], lk_cpu = None\<rparr>, use_lock = False, freelist = 0\<rparr>,
     kmem_mem = (\<lambda>_. 0), kcpu = \<lparr>cpu_id = 0, ncli = 0, intena = False, fl_if = False\<rparr>\<rparr>"

text \<open>The state with all of memory free, which the examples below start from: both initialisations with
  nothing in between.\<close>

lemma boot_kst_boots:
  "\<exists>s xs. bindr (kinit1 0x80112000 0x80112000 (p2v 0x400000) boot_kst)
        (kinit2 0x80112000 (p2v 0x400000) (p2v PHYSTOP)) = Ret s
     \<and> free_pages 0x80112000 s xs \<and> set xs = {p. page_ok 0x80112000 p} \<and> use_lock (kmem s)"
proof -
  have k: "(0x80000000 :: uint) \<le> 0x80112000" "(0x80112000 :: uint) \<le> p2v 0x400000"
    by (simp_all add: p2v_def)
  obtain s xs where s: "kinit1 0x80112000 0x80112000 (p2v 0x400000) boot_kst = Ret s"
      "free_pages 0x80112000 s xs" "set xs = range_pages 0x80112000 (p2v 0x400000)"
    using kinit1_spec [OF k, of boot_kst] by (auto simp: boot_kst_def cpu_ok_def)
  obtain t ys where t: "kinit2 0x80112000 (p2v 0x400000) (p2v PHYSTOP) s = Ret t"
      "free_pages 0x80112000 t (ys @ xs)" "set ys = range_pages (p2v 0x400000) (p2v PHYSTOP)"
      "use_lock (kmem t)"
    using kinit2_spec [OF k(2) s(2)] s(3) by blast
  have "set (ys @ xs) = {p. page_ok 0x80112000 p}"
    using range_pages_split [OF k] s(3) t(3) by auto
  with s(1) t show ?thesis by (intro exI [of _ t] exI [of _ "ys @ xs"]) simp
qed

theorem kalloc_never_hands_out_twice_witness:
  "\<exists>s p s'. bindr (kinit1 0x80112000 0x80112000 (p2v 0x400000) boot_kst)
        (kinit2 0x80112000 (p2v 0x400000) (p2v PHYSTOP)) = Ret s \<and> kalloc s = Ret (p, s') \<and> p \<noteq> 0"
proof -
  let ?P = "{p. page_ok 0x80112000 p}"
  obtain s xs where s: "bindr (kinit1 0x80112000 0x80112000 (p2v 0x400000) boot_kst)
        (kinit2 0x80112000 (p2v 0x400000) (p2v PHYSTOP)) = Ret s" "free_pages 0x80112000 s xs" "set xs = ?P"
    using boot_kst_boots by blast
  then have "reach (own_init (free_pages 0x80112000) ?P)
      (alloc_step kalloc (kfree 0x80112000) kmem_mem (\<lambda>m s. s\<lparr>kmem_mem := m\<rparr>)) (s, [])"
    by (intro reach_init) (auto simp: own_init_def)
  then obtain p s' where "kalloc s = Ret (p, s')" "p = 0 \<longleftrightarrow> set [] = ?P"
    using kalloc_never_hands_out_twice [of "0x80112000" ?P s "[]"] by blast
  moreover have "page_ok 0x80112000 0x80200000" by (simp add: page_ok_def v2p_def)
  ultimately show ?thesis using s by auto
qed

text \<open>C13: Boot. \<open>kinit1\<close>, called as \<open>main\<close> calls it, does not panic and puts on the empty free list exactly
  the pages between the end of the kernel and 4 MB, each once, with locking off. In any later state in
  which each of these pages is still free or has been taken (the pages of \<open>own\<close>: the page tables and
  stacks of the calls in between), \<open>kinit2\<close>, called as \<open>main\<close> calls it, does not panic, turns locking on and
  leaves every page between the end of the kernel and PHYSTOP either on the free list, once, or with
  its owner; it changes no byte below 4 MB, so nothing the owners wrote.\<close>

theorem kinit_frees_all_memory:
  assumes "0x80000000 \<le> kend" and "kend \<le> p2v 0x400000"
  shows "(freelist (kmem s) = 0 \<and> cpu_ok (kcpu s) \<longrightarrow>
      (\<exists>s' xs. kinit1 kend kend (p2v 0x400000) s = Ret s' \<and> free_pages kend s' xs \<and> distinct xs
        \<and> set xs = {p. p mod 4096 = 0 \<and> kend \<le> p \<and> unat p + 4096 \<le> 0x80400000}
        \<and> \<not> use_lock (kmem s')))
    \<and> (free_pages kend t ys \<and> distinct (own @ ys)
        \<and> set (own @ ys) = {p. p mod 4096 = 0 \<and> kend \<le> p \<and> unat p + 4096 \<le> 0x80400000} \<longrightarrow>
      (\<exists>t' zs. kinit2 kend (p2v 0x400000) (p2v PHYSTOP) t = Ret t' \<and> free_pages kend t' zs
        \<and> distinct (own @ zs)
        \<and> set (own @ zs) = {p. p mod 4096 = 0 \<and> kend \<le> p \<and> unat p + 4096 \<le> 0x8E000000}
        \<and> use_lock (kmem t') \<and> (\<forall>x. unat x < 0x80400000 \<longrightarrow> kmem_mem t' x = kmem_mem t x)))"
    (is "?one \<and> (?mid \<longrightarrow> ?two)")
proof -
  have low: "range_pages kend (p2v 0x400000)
      = {p. p mod 4096 = 0 \<and> kend \<le> p \<and> unat p + 4096 \<le> 0x80400000}"
    by (simp add: range_pages_def p2v_def)
  have one: ?one
    using kinit1_spec [OF assms, of s] unfolding low by (auto simp: free_pages_def)
  have two: ?two if m: ?mid
  proof -
    have "set ys \<subseteq> range_pages kend (p2v 0x400000)" using m unfolding low by auto
    then obtain t' zs where t': "kinit2 kend (p2v 0x400000) (p2v PHYSTOP) t = Ret t'"
        "free_pages kend t' (zs @ ys)" "set zs = range_pages (p2v 0x400000) (p2v PHYSTOP)"
        "use_lock (kmem t')" "\<forall>x. unat x < 0x80400000 \<longrightarrow> kmem_mem t' x = kmem_mem t x"
      using kinit2_spec [OF assms(2)] m by blast
    have "distinct (zs @ ys)" using t'(2) by (simp add: free_pages_def)
    moreover have "set own \<inter> set zs = {}"
    proof -
      have "unat p + 4096 \<le> 0x80400000" if "p \<in> set own" for p using m that by auto
      moreover have "0x80400000 \<le> unat p" if "p \<in> set zs" for p
        using that unfolding t'(3) range_pages_def word_le_nat_alt by (simp add: p2v_def)
      ultimately show ?thesis by fastforce
    qed
    ultimately have "distinct (own @ zs @ ys)" using m by auto
    moreover have "set (own @ zs @ ys) = {p. page_ok kend p}"
      using range_pages_split [OF assms] m t'(3) unfolding low by auto
    ultimately show ?two
      using t' unfolding page_ok_range [OF assms(1)] by (intro exI [of _ t'] exI [of _ "zs @ ys"]) simp
  qed
  from one two show ?thesis by blast
qed

text \<open>The example: the page that \<open>kinit1\<close> freed last is taken before \<open>kinit2\<close> runs, and is not on
  the free list afterwards.\<close>

theorem kinit_frees_all_memory_witness:
  "\<exists>s p t t' zs. kinit1 0x80112000 0x80112000 (p2v 0x400000) boot_kst = Ret s
     \<and> kalloc s = Ret (p, t) \<and> p \<noteq> 0
     \<and> kinit2 0x80112000 (p2v 0x400000) (p2v PHYSTOP) t = Ret t' \<and> free_pages 0x80112000 t' zs
     \<and> p \<notin> set zs \<and> zs \<noteq> []"
proof -
  let ?low = "{p :: uint. p mod 4096 = 0 \<and> 0x80112000 \<le> p \<and> unat p + 4096 \<le> 0x80400000}"
  have k: "(0x80000000 :: uint) \<le> 0x80112000" "(0x80112000 :: uint) \<le> p2v 0x400000"
    by (simp_all add: p2v_def)
  have i: "freelist (kmem boot_kst) = 0 \<and> cpu_ok (kcpu boot_kst)"
    by (simp add: boot_kst_def cpu_ok_def)
  obtain s xs where s: "kinit1 0x80112000 0x80112000 (p2v 0x400000) boot_kst = Ret s"
      "free_pages 0x80112000 s xs" "distinct xs" "set xs = ?low"
    using conjunct1 [OF kinit_frees_all_memory [OF k], of boot_kst] i by blast
  have "(0x80200000 :: uint) \<in> ?low" by simp
  then obtain p ys where xs: "xs = p # ys" using s(4) by (cases xs) auto
  obtain t where t: "kalloc s = Ret (p, t)" "free_pages 0x80112000 t ys"
    using kalloc_spec [OF s(2)] xs by auto
  have m: "free_pages 0x80112000 t ys \<and> distinct ([p] @ ys) \<and> set ([p] @ ys) = ?low"
    using t(2) s(3,4) xs by simp
  obtain t' zs where t': "kinit2 0x80112000 (p2v 0x400000) (p2v PHYSTOP) t = Ret t'"
      "free_pages 0x80112000 t' zs" "distinct ([p] @ zs)"
      "set ([p] @ zs) = {p. p mod 4096 = 0 \<and> 0x80112000 \<le> p \<and> unat p + 4096 \<le> 0x8E000000}"
    using conjunct2 [OF kinit_frees_all_memory [OF k], of t ys "[p]"] m by blast
  have "p \<in> ?low" using s(4) xs by auto
  then have "p \<noteq> 0" "p \<noteq> 0x80500000" by (auto simp: word_le_nat_alt)
  moreover have "(0x80500000 :: uint) \<in> set ([p] @ zs)" unfolding t'(4) by simp
  ultimately show ?thesis using s(1) t(1) t' by auto
qed

text \<open>C14: The free list is a stack: a page freed is the next one allocated, and freeing an allocated
  page gives back the free list there was before.\<close>

theorem kfree_kalloc_lifo:
  assumes "free_pages kend s xs" and "page_ok kend p" and "p \<notin> set xs"
  shows "\<exists>s1 s2. kfree kend p s = Ret s1 \<and> kalloc s1 = Ret (p, s2) \<and> free_pages kend s2 xs
    \<and> (\<forall>x. \<not> in_page p x \<longrightarrow> kmem_mem s2 x = kmem_mem s x)"
proof -
  obtain s1 where "kfree kend p s = Ret s1" "free_pages kend s1 (p # xs)"
      "\<forall>x. \<not> in_page p x \<longrightarrow> kmem_mem s1 x = kmem_mem s x"
    using kfree_spec [OF assms] by blast
  with kalloc_spec [of kend s1 "p # xs"] show ?thesis by auto
qed

theorem kfree_kalloc_lifo_witness:
  "\<exists>s1 s2. kfree 0x80112000 0x80200000 boot_kst = Ret s1 \<and> kalloc s1 = Ret (0x80200000, s2)"
  using kfree_kalloc_lifo [of "0x80112000" boot_kst "[]" "0x80200000"]
  by (auto simp: free_pages_def lock_ready_def boot_kst_def page_ok_def v2p_def cpu_ok_def)

end
