(* ===== verification/Memide.thy ===== *)
theory Memide
  imports Prelude
begin

section \<open>Block buffers and the memory disk (buf.h, memide.c)\<close>

text \<open>
  \<open>struct buf\<close> with its three flag bits as three booleans, its links as buffer numbers, and its
  data as a list of bytes. The disk of \<open>memide.c\<close> is the file-system image in memory, addressed by
  block; \<open>dwrites\<close> records the blocks written, in order, which the crash arguments of the log
  replay. The interface \<open>disk_driver\<close> is the contract of \<open>iderw\<close> that the buffer cache relies on.
\<close>

type_synonym block = "uchar list"

record buf =
  b_busy :: bool
  b_valid :: bool
  b_dirty :: bool
  b_dev :: uint
  b_blockno :: uint
  b_prev :: nat
  b_next :: nat
  b_qnext :: "nat option"
  b_data :: block

record disk =
  memdisk :: "uint \<Rightarrow> block"
  disksize :: uint
  dwrites :: "(uint \<times> block) list"

definition ideinit :: "uchar list \<Rightarrow> disk" where
  "ideinit img = \<lparr>memdisk = (\<lambda>b. take BSIZE (drop (BSIZE * unat b) img)),
     disksize = of_nat (length img) div 512, dwrites = []\<rparr>"

definition iderw :: "buf \<Rightarrow> disk \<Rightarrow> (buf \<times> disk) res" where
  "iderw b d =
     (if \<not> b_busy b then Panic ''iderw: buf not busy''
      else if b_valid b \<and> \<not> b_dirty b then Panic ''iderw: nothing to do''
      else if b_dev b \<noteq> 1 then Panic ''iderw: request not for disk 1''
      else if b_blockno b \<ge> disksize d then Panic ''iderw: block out of range''
      else if b_dirty b
        then Ret (b\<lparr>b_dirty := False, b_valid := True\<rparr>,
                  d\<lparr>memdisk := (memdisk d)(b_blockno b := b_data b),
                    dwrites := dwrites d @ [(b_blockno b, b_data b)]\<rparr>)
        else Ret (b\<lparr>b_data := memdisk d (b_blockno b), b_valid := True\<rparr>, d))"

subsection \<open>The contract of a disk driver\<close>

locale disk_driver =
  fixes rw :: "buf \<Rightarrow> 'd \<Rightarrow> (buf \<times> 'd) res"
    and content :: "'d \<Rightarrow> uint \<Rightarrow> block"
    and ready :: "'d \<Rightarrow> bool"
    and has_block :: "'d \<Rightarrow> uint \<Rightarrow> uint \<Rightarrow> bool"
  assumes rw_write: "ready d \<Longrightarrow> b_busy b \<Longrightarrow> b_dirty b \<Longrightarrow> has_block d (b_dev b) (b_blockno b) \<Longrightarrow>
      \<exists>d'. rw b d = Ret (b\<lparr>b_dirty := False, b_valid := True\<rparr>, d') \<and> ready d'
         \<and> has_block d' = has_block d \<and> content d' = (content d)(b_blockno b := b_data b)"
    and rw_read: "ready d \<Longrightarrow> b_busy b \<Longrightarrow> \<not> b_dirty b \<Longrightarrow> \<not> b_valid b \<Longrightarrow>
      has_block d (b_dev b) (b_blockno b) \<Longrightarrow>
      \<exists>d'. rw b d = Ret (b\<lparr>b_data := content d (b_blockno b), b_valid := True\<rparr>, d') \<and> ready d'
         \<and> has_block d' = has_block d \<and> content d' = content d"
    and rw_idle: "b_busy b \<Longrightarrow> b_valid b \<Longrightarrow> \<not> b_dirty b \<Longrightarrow> \<exists>e. rw b d = Panic e"
    and rw_not_busy: "\<not> b_busy b \<Longrightarrow> \<exists>e. rw b d = Panic e"
begin

text \<open>A block written through one buffer is what another buffer of the block reads.\<close>

lemma write_read:
  assumes "ready d" and "b_busy b" and "b_dirty b" and "has_block d (b_dev b) (b_blockno b)"
    and "b_busy c" and "\<not> b_dirty c" and "\<not> b_valid c"
    and "b_dev c = b_dev b" and "b_blockno c = b_blockno b"
  shows "\<exists>d1 b1 d2. rw b d = Ret (b1, d1) \<and> rw c d1 = Ret (c\<lparr>b_data := b_data b, b_valid := True\<rparr>, d2)"
  using rw_write [OF assms(1-4)] rw_read [OF _ assms(5-7)] assms(4,8,9) by fastforce

end

interpretation md: disk_driver iderw memdisk "\<lambda>_. True" "\<lambda>d dev n. dev = 1 \<and> n < disksize d"
  by unfold_locales (auto simp: iderw_def fun_eq_iff)

end
