(* ===== verification/Bio.thy ===== *)
theory Bio
  imports Memide
begin

section \<open>The buffer cache (bio.c)\<close>

text \<open>
  The cache is NBUF buffers on a circular doubly linked list through \<open>prev\<close> and \<open>next\<close>, whose
  \<open>head\<close> is buffer number NBUF; the most recently used buffer follows the head. The list is
  traversed and spliced pointer by pointer as the code does. \<open>bcache.lock\<close> makes each of \<open>bget\<close>
  and \<open>brelse\<close> one atomic step, so the lock itself is left out; a process that finds its buffer
  busy sleeps on it (\<open>Sleep\<close>) and starts \<open>bget\<close> over, which has changed nothing so far; the
  calls of \<open>wakeup\<close> are recorded in \<open>woken\<close>.

  Lemmas: the links always form the list of all buffers in order of use; no block is cached twice;
  a buffer at rest that is not dirty agrees with the disk. Above these stands the view \<open>blk\<close>, the
  contents of each block as its next reader will see them.
\<close>

subsection \<open>Operations\<close>

record bio =
  bufs :: "nat \<Rightarrow> buf"
  bdisk :: disk
  woken :: "chan list"

abbreviation (input) head :: nat where "head \<equiv> NBUF"

definition bnext :: "bio \<Rightarrow> nat \<Rightarrow> nat" where "bnext s i = b_next (bufs s i)"

definition bprev :: "bio \<Rightarrow> nat \<Rightarrow> nat" where "bprev s i = b_prev (bufs s i)"

definition upd_buf :: "nat \<Rightarrow> (buf \<Rightarrow> buf) \<Rightarrow> bio \<Rightarrow> bio" where
  "upd_buf i f s = s\<lparr>bufs := (bufs s)(i := f (bufs s i))\<rparr>"

definition set_next :: "nat \<Rightarrow> nat \<Rightarrow> bio \<Rightarrow> bio" where
  "set_next i p = upd_buf i (\<lambda>b. b\<lparr>b_next := p\<rparr>)"

definition set_prev :: "nat \<Rightarrow> nat \<Rightarrow> bio \<Rightarrow> bio" where
  "set_prev i p = upd_buf i (\<lambda>b. b\<lparr>b_prev := p\<rparr>)"

definition binit_body :: "nat \<Rightarrow> bio \<Rightarrow> bio" where
  "binit_body b s =
     (let s = set_next b (bnext s head) s;
          s = set_prev b head s;
          s = upd_buf b (\<lambda>x. x\<lparr>b_dev := - 1\<rparr>) s;
          s = set_prev (bnext s head) b s
      in set_next head b s)"

definition binit :: "bio \<Rightarrow> bio" where
  "binit s =
     (let s = set_prev head head s;
          s = set_next head head s
      in fold binit_body [0..<NBUF] s)"

text \<open>
  The two loops of \<open>bget\<close> follow one of the links until the head, stopping at a buffer that
  passes a test. A list that did not come back to the head after NBUF buffers would be corrupt.
\<close>

fun scan :: "nat \<Rightarrow> (nat \<Rightarrow> nat) \<Rightarrow> (nat \<Rightarrow> bool) \<Rightarrow> nat \<Rightarrow> nat option res" where
  "scan 0 link test b = (if b = head then Ret None else Diverge)"
| "scan (Suc n) link test b =
     (if b = head then Ret None
      else if test b then Ret (Some b)
      else scan n link test (link b))"

definition bget :: "uint \<Rightarrow> uint \<Rightarrow> bio \<Rightarrow> (nat \<times> bio) res" where
  "bget dev blockno s =
     bindr (scan NBUF (bnext s) (\<lambda>b. b_dev (bufs s b) = dev \<and> b_blockno (bufs s b) = blockno) (bnext s head))
       (\<lambda>found. case found of
          Some b \<Rightarrow>
            if \<not> b_busy (bufs s b) then Ret (b, upd_buf b (\<lambda>x. x\<lparr>b_busy := True\<rparr>) s)
            else Sleep (ChanBuf b)
        | None \<Rightarrow>
            bindr (scan NBUF (bprev s) (\<lambda>b. \<not> b_busy (bufs s b) \<and> \<not> b_dirty (bufs s b)) (bprev s head))
              (\<lambda>found. case found of
                 Some b \<Rightarrow> Ret (b, upd_buf b (\<lambda>x. x\<lparr>b_dev := dev, b_blockno := blockno,
                             b_busy := True, b_valid := False, b_dirty := False\<rparr>) s)
               | None \<Rightarrow> Panic ''bget: no buffers''))"

definition bio_iderw :: "nat \<Rightarrow> bio \<Rightarrow> bio res" where
  "bio_iderw b s =
     bindr (iderw (bufs s b) (bdisk s))
       (\<lambda>(x, d). Ret (s\<lparr>bufs := (bufs s)(b := x), bdisk := d\<rparr>))"

definition bread :: "uint \<Rightarrow> uint \<Rightarrow> bio \<Rightarrow> (nat \<times> bio) res" where
  "bread dev blockno s =
     bindr (bget dev blockno s) (\<lambda>(b, s).
       if \<not> b_valid (bufs s b) then bindr (bio_iderw b s) (\<lambda>s. Ret (b, s))
       else Ret (b, s))"

definition bwrite :: "nat \<Rightarrow> bio \<Rightarrow> bio res" where
  "bwrite b s =
     (if \<not> b_busy (bufs s b) then Panic ''bwrite''
      else bio_iderw b (upd_buf b (\<lambda>x. x\<lparr>b_dirty := True\<rparr>) s))"

definition brelse :: "nat \<Rightarrow> bio \<Rightarrow> bio res" where
  "brelse b s =
     (if \<not> b_busy (bufs s b) then Panic ''brelse''
      else let s = set_prev (bnext s b) (bprev s b) s;
               s = set_next (bprev s b) (bnext s b) s;
               s = set_next b (bnext s head) s;
               s = set_prev b head s;
               s = set_prev (bnext s head) b s;
               s = set_next head b s;
               s = upd_buf b (\<lambda>x. x\<lparr>b_busy := False\<rparr>) s
           in Ret (s\<lparr>woken := woken s @ [ChanBuf b]\<rparr>))"

subsection \<open>The circular list\<close>

text \<open>\<open>dll nx pv a xs b\<close>: from node \<open>a\<close> the forward links lead through \<open>xs\<close> to \<open>b\<close>, and the
  backward links lead back.\<close>

fun dll :: "('p \<Rightarrow> 'p) \<Rightarrow> ('p \<Rightarrow> 'p) \<Rightarrow> 'p \<Rightarrow> 'p list \<Rightarrow> 'p \<Rightarrow> bool" where
  "dll nx pv a [] b \<longleftrightarrow> nx a = b \<and> pv b = a"
| "dll nx pv a (x # xs) b \<longleftrightarrow> nx a = x \<and> pv x = a \<and> dll nx pv x xs b"

lemma dll_append: "dll nx pv a (xs @ y # ys) b \<longleftrightarrow> dll nx pv a xs y \<and> dll nx pv y ys b"
  by (induction xs arbitrary: a) auto

lemma dll_next_upd [simp]: "p \<noteq> a \<Longrightarrow> p \<notin> set xs \<Longrightarrow> dll (nx(p := q)) pv a xs b = dll nx pv a xs b"
  by (induction xs arbitrary: a) auto

lemma dll_prev_upd [simp]: "p \<noteq> b \<Longrightarrow> p \<notin> set xs \<Longrightarrow> dll nx (pv(p := q)) a xs b = dll nx pv a xs b"
  by (induction xs arbitrary: a) auto

lemma dll_path: "dll nx pv a xs b \<Longrightarrow> path nx (nx a) xs b"
  by (induction xs arbitrary: a) auto

lemma dll_path_rev: "dll nx pv a xs b \<Longrightarrow> path pv (pv b) (rev xs) a"
  by (induction xs arbitrary: b rule: rev_induct) (auto simp: dll_append)

lemma dll_next_last: "dll nx pv a xs b \<Longrightarrow> nx (last (a # xs)) = b"
  by (induction xs arbitrary: a) auto

text \<open>Unlinking a node and linking one in after the first.\<close>

lemma dll_unlink:
  assumes "dll nx pv h (ys @ b # zs) h" and "distinct (h # ys @ b # zs)"
  shows "dll (nx(pv b := nx b)) (pv(nx b := pv b)) h (ys @ zs) h"
proof -
  have 1: "dll nx pv h ys b" "dll nx pv b zs h" using assms(1) by (auto simp: dll_append)
  show ?thesis
  proof (cases ys rule: rev_cases)
    case Nil
    then show ?thesis using 1 assms(2) by (cases zs) auto
  next
    case (snoc us u)
    then have u: "dll nx pv h us u" "nx u = b" "pv b = u" using 1 by (auto simp: dll_append)
    show ?thesis
    proof (cases zs)
      case Nil
      then show ?thesis using 1 u snoc assms(2) by (auto simp: dll_append)
    next
      case (Cons v vs)
      have "dll (nx(u := v)) (pv(v := u)) h (us @ u # v # vs) h"
        using 1 u Cons assms(2) snoc by (auto simp: dll_append)
      then show ?thesis using 1 u snoc Cons by simp
    qed
  qed
qed

lemma dll_link:
  assumes "dll nx pv h xs h" and "distinct (h # xs)" and "b \<noteq> h" and "b \<notin> set xs"
  shows "dll (nx(b := nx h, h := b)) (pv(b := h, nx h := b)) h (b # xs) h"
  using assms by (cases xs) auto

subsection \<open>Reading the links and the rest of a buffer after updates\<close>

lemma bnext_set [simp]:
  "bnext (set_next i p s) = (bnext s)(i := p)" "bprev (set_next i p s) = bprev s"
  "bnext (set_prev i p s) = bnext s" "bprev (set_prev i p s) = (bprev s)(i := p)"
  by (auto simp: bnext_def bprev_def set_next_def set_prev_def upd_buf_def fun_eq_iff)

text \<open>What a buffer holds apart from its links.\<close>

definition body :: "buf \<Rightarrow> buf" where
  "body b = b\<lparr>b_prev := 0, b_next := 0\<rparr>"

lemma body_set [simp]:
  "body (bufs (set_next i p s) j) = body (bufs s j)" "body (bufs (set_prev i p s) j) = body (bufs s j)"
  by (auto simp: body_def set_next_def set_prev_def upd_buf_def)

lemma bdisk_set [simp]:
  "bdisk (set_next i p s) = bdisk s" "bdisk (set_prev i p s) = bdisk s"
  "woken (set_next i p s) = woken s" "woken (set_prev i p s) = woken s"
  by (auto simp: set_next_def set_prev_def upd_buf_def)

lemma body_fields:
  assumes "body b = body c"
  shows "b_busy b = b_busy c" "b_valid b = b_valid c" "b_dirty b = b_dirty c" "b_dev b = b_dev c"
    "b_blockno b = b_blockno c" "b_qnext b = b_qnext c" "b_data b = b_data c"
  using assms by (cases b; cases c; simp add: body_def)+

text \<open>The buffers in order of use, most recent first.\<close>

definition lru :: "bio \<Rightarrow> nat list \<Rightarrow> bool" where
  "lru s xs \<longleftrightarrow> dll (bnext s) (bprev s) head xs head \<and> distinct xs \<and> set xs = {..<NBUF}"

lemma scan_path:
  assumes "path link b xs head" and "head \<notin> set xs" and "length xs \<le> n"
  shows "scan n link test b = Ret (find test xs)"
  using assms
proof (induction n arbitrary: b xs)
  case 0
  then show ?case by simp
next
  case (Suc n)
  then show ?case by (cases xs) auto
qed

lemma find_SomeD: "find P xs = Some x \<Longrightarrow> x \<in> set xs \<and> P x"
  by (auto simp: find_Some_iff)

lemma lru_length: "lru s xs \<Longrightarrow> length xs = NBUF"
  using distinct_card [of xs] by (auto simp: lru_def)

lemma lru_scan:
  assumes "lru s xs"
  shows "scan NBUF (bnext s) test (bnext s head) = Ret (find test xs)"
    and "scan NBUF (bprev s) test (bprev s head) = Ret (find test (rev xs))"
proof -
  have d: "dll (bnext s) (bprev s) head xs head" and x: "head \<notin> set xs"
    using assms by (simp_all add: lru_def)
  have l: "length xs = NBUF" by (rule lru_length [OF assms])
  show "scan NBUF (bnext s) test (bnext s head) = Ret (find test xs)"
    by (rule scan_path [OF dll_path [OF d] x]) (simp add: l)
  show "scan NBUF (bprev s) test (bprev s head) = Ret (find test (rev xs))"
    by (rule scan_path [OF dll_path_rev [OF d]]) (use x l in simp_all)
qed

lemma dll_cong_next: "bnext s = bnext t \<Longrightarrow> bprev s = bprev t \<Longrightarrow> lru s xs = lru t xs"
  by (simp add: lru_def)

lemma links_upd_buf:
  assumes "\<And>b. b_next (f b) = b_next b" and "\<And>b. b_prev (f b) = b_prev b"
  shows "bnext (upd_buf i f s) = bnext s" and "bprev (upd_buf i f s) = bprev s"
  using assms by (auto simp: bnext_def bprev_def upd_buf_def fun_eq_iff)

lemma upd_buf_simps [simp]:
  "bufs (upd_buf i f s) i = f (bufs s i)" "j \<noteq> i \<Longrightarrow> bufs (upd_buf i f s) j = bufs s j"
  "bdisk (upd_buf i f s) = bdisk s" "woken (upd_buf i f s) = woken s"
  by (simp_all add: upd_buf_def)

subsection \<open>What is in the cache\<close>

text \<open>
  The invariant of the cache while the buffers \<open>H\<close> are held by some process. Held buffers may be
  ahead of the disk; a buffer at rest that is clean agrees with it.
\<close>

definition buf_ok :: "disk \<Rightarrow> buf \<Rightarrow> bool" where
  "buf_ok d b \<longleftrightarrow> (b_dirty b \<longrightarrow> b_valid b)
     \<and> (b_valid b \<longrightarrow> b_dev b = 1 \<and> b_blockno b < disksize d \<and> length (b_data b) = BSIZE)
     \<and> (\<not> b_busy b \<and> b_valid b \<and> \<not> b_dirty b \<longrightarrow> b_data b = memdisk d (b_blockno b))"

definition disk_ok :: "disk \<Rightarrow> bool" where
  "disk_ok d \<longleftrightarrow> (\<forall>n < disksize d. length (memdisk d n) = BSIZE)"

definition bcache_ok :: "nat set \<Rightarrow> bio \<Rightarrow> bool" where
  "bcache_ok H s \<longleftrightarrow> (\<exists>xs. lru s xs) \<and> disk_ok (bdisk s) \<and> H = {i. i < NBUF \<and> b_busy (bufs s i)}
     \<and> (\<forall>i < NBUF. buf_ok (bdisk s) (bufs s i))
     \<and> (\<forall>i < NBUF. \<forall>j < NBUF. b_dev (bufs s i) = 1 \<and> b_dev (bufs s j) = 1
           \<and> b_blockno (bufs s i) = b_blockno (bufs s j) \<longrightarrow> i = j)"

definition caches :: "bio \<Rightarrow> uint \<Rightarrow> nat \<Rightarrow> bool" where
  "caches s n i \<longleftrightarrow> b_dev (bufs s i) = 1 \<and> b_blockno (bufs s i) = n"

definition dirty :: "bio \<Rightarrow> nat set" where
  "dirty s = {i. i < NBUF \<and> b_dirty (bufs s i)}"

text \<open>The blocks whose buffers are dirty: those the cache is ahead of the disk on.\<close>

definition dblocks :: "bio \<Rightarrow> uint set" where
  "dblocks s = (\<lambda>i. b_blockno (bufs s i)) ` dirty s"

lemma dblocks_cong:
  assumes "dirty s = dirty t" and "\<And>i. i \<in> dirty t \<Longrightarrow> b_blockno (bufs s i) = b_blockno (bufs t i)"
  shows "dblocks s = dblocks t"
  unfolding dblocks_def assms(1) by (rule image_cong) (auto simp: assms(2))

text \<open>The contents of a block as the next reader sees them.\<close>

definition blk :: "bio \<Rightarrow> uint \<Rightarrow> block" where
  "blk s n =
     (case find (\<lambda>i. caches s n i \<and> b_valid (bufs s i)) [0..<NBUF] of
        Some i \<Rightarrow> b_data (bufs s i)
      | None \<Rightarrow> memdisk (bdisk s) n)"

lemma bcache_okD:
  assumes "bcache_ok H s"
  shows "\<exists>xs. lru s xs" "disk_ok (bdisk s)" "i \<in> H \<longleftrightarrow> i < NBUF \<and> b_busy (bufs s i)"
    "i < NBUF \<Longrightarrow> buf_ok (bdisk s) (bufs s i)"
    "i < NBUF \<Longrightarrow> j < NBUF \<Longrightarrow> caches s n i \<Longrightarrow> caches s n j \<Longrightarrow> i = j"
  using assms by (auto simp: bcache_ok_def caches_def)

lemma blk_cached:
  assumes "bcache_ok H s" and "i < NBUF" and "caches s n i" and "b_valid (bufs s i)"
  shows "blk s n = b_data (bufs s i)"
proof (cases "find (\<lambda>i. caches s n i \<and> b_valid (bufs s i)) [0..<NBUF]")
  case None
  then show ?thesis using assms by (auto simp: find_None_iff)
next
  case (Some j)
  then have "j < NBUF" "caches s n j" by (auto simp: find_Some_iff)
  then have "j = i" using bcache_okD(5) [OF assms(1)] assms by blast
  then show ?thesis using Some by (simp add: blk_def)
qed

lemma blk_uncached:
  assumes "\<And>i. i < NBUF \<Longrightarrow> caches s n i \<Longrightarrow> \<not> b_valid (bufs s i)"
  shows "blk s n = memdisk (bdisk s) n"
proof -
  have "find (\<lambda>i. caches s n i \<and> b_valid (bufs s i)) [0..<NBUF] = None"
    using assms by (auto simp: find_None_iff)
  then show ?thesis by (simp add: blk_def)
qed

lemma blk_at_rest:
  assumes "bcache_ok H s" and "\<And>i. i < NBUF \<Longrightarrow> caches s n i \<Longrightarrow> i \<notin> H \<and> \<not> b_dirty (bufs s i)"
  shows "blk s n = memdisk (bdisk s) n"
proof (cases "\<exists>i < NBUF. caches s n i \<and> b_valid (bufs s i)")
  case True
  then obtain i where i: "i < NBUF" "caches s n i" "b_valid (bufs s i)" by blast
  then have "buf_ok (bdisk s) (bufs s i)" "\<not> b_busy (bufs s i)" "\<not> b_dirty (bufs s i)"
    using bcache_okD(3,4) [OF assms(1)] assms(2) by blast+
  then show ?thesis using blk_cached [OF assms(1) i] i by (simp add: buf_ok_def caches_def)
qed (auto intro: blk_uncached)

lemma length_blk:
  assumes "bcache_ok H s" and "n < disksize (bdisk s)"
  shows "length (blk s n) = BSIZE"
proof (cases "\<exists>i < NBUF. caches s n i \<and> b_valid (bufs s i)")
  case True
  then obtain i where i: "i < NBUF" "caches s n i" "b_valid (bufs s i)" by blast
  then show ?thesis
    using blk_cached [OF assms(1) i] bcache_okD(4) [OF assms(1) i(1)] by (simp add: buf_ok_def)
next
  case False
  then have "blk s n = memdisk (bdisk s) n" by (intro blk_uncached) auto
  then show ?thesis using bcache_okD(2) [OF assms(1)] assms(2) by (simp add: disk_ok_def)
qed

text \<open>The view depends on the buffers up to their links and on the disk.\<close>

lemma same_body:
  assumes "\<And>j. j < NBUF \<Longrightarrow> body (bufs s j) = body (bufs t j)" and "bdisk s = bdisk t"
  shows "blk s = blk t" and "dirty s = dirty t" and "lru s xs \<Longrightarrow> bcache_ok H t \<Longrightarrow> bcache_ok H s"
    and "i < NBUF \<Longrightarrow> caches s n i = caches t n i"
proof -
  have f: "b_busy (bufs s j) = b_busy (bufs t j)" "b_valid (bufs s j) = b_valid (bufs t j)"
    "b_dirty (bufs s j) = b_dirty (bufs t j)" "b_dev (bufs s j) = b_dev (bufs t j)"
    "b_blockno (bufs s j) = b_blockno (bufs t j)" "b_data (bufs s j) = b_data (bufs t j)"
    if "j < NBUF" for j
    using body_fields [OF assms(1) [OF that]] by simp_all
  have c: "caches s n i = caches t n i" if "i < NBUF" for n i using f that by (simp add: caches_def)
  then show "i < NBUF \<Longrightarrow> caches s n i = caches t n i" .
  show "blk s = blk t"
  proof
    fix n
    have e: "find (\<lambda>i. caches s n i \<and> b_valid (bufs s i)) [0..<NBUF]
        = find (\<lambda>i. caches t n i \<and> b_valid (bufs t i)) [0..<NBUF]" (is "_ = ?f")
      by (rule find_cong) (auto simp: c f)
    have "i < NBUF" if "?f = Some i" for i using that by (auto simp: find_Some_iff)
    then show "blk s n = blk t n"
      unfolding blk_def e by (cases ?f) (simp_all add: assms(2) f)
  qed
  show "dirty s = dirty t" using f by (auto simp: dirty_def)
  show "bcache_ok H s" if "lru s xs" "bcache_ok H t"
  proof -
    have b: "buf_ok (bdisk s) (bufs s i) = buf_ok (bdisk t) (bufs t i)" if "i < NBUF" for i
      using f that assms(2) by (simp add: buf_ok_def)
    have u: "i = j" if "i < NBUF" "j < NBUF" "b_dev (bufs s i) = 1" "b_dev (bufs s j) = 1"
        "b_blockno (bufs s i) = b_blockno (bufs s j)" for i j
      using bcache_okD(5) [OF \<open>bcache_ok H t\<close> that(1,2), of "b_blockno (bufs s i)"] f that
      by (simp add: caches_def)
    show ?thesis using that b u f assms(2) unfolding bcache_ok_def by auto
  qed
qed

subsection \<open>Updates of one buffer\<close>

lemma bcache_ok_upd:
  assumes "bcache_ok H s" and "i < NBUF"
    and "\<And>b. b_next (f b) = b_next b" and "\<And>b. b_prev (f b) = b_prev b"
    and "buf_ok (bdisk s) (f (bufs s i))"
    and "\<And>j. b_dev (f (bufs s i)) = 1 \<Longrightarrow> j < NBUF \<Longrightarrow> j \<noteq> i \<Longrightarrow> \<not> caches s (b_blockno (f (bufs s i))) j"
  shows "bcache_ok (if b_busy (f (bufs s i)) then insert i H else H - {i}) (upd_buf i f s)"
proof -
  let ?t = "upd_buf i f s"
  obtain xs where "lru s xs" using bcache_okD(1) [OF assms(1)] by blast
  then have l: "\<exists>xs. lru ?t xs"
    using dll_cong_next [of ?t s] links_upd_buf [OF assms(3,4)] by metis
  have b: "\<forall>j < NBUF. buf_ok (bdisk ?t) (bufs ?t j)"
  proof (intro allI impI)
    fix j :: nat assume "j < NBUF"
    then show "buf_ok (bdisk ?t) (bufs ?t j)"
      using assms(5) bcache_okD(4) [OF assms(1)] by (cases "j = i") simp_all
  qed
  have u: "x = y" if "x < NBUF" "y < NBUF" "caches ?t n x" "caches ?t n y" for x y n
    using that assms(6) bcache_okD(5) [OF assms(1), of x y n]
    by (cases "x = i"; cases "y = i") (auto simp: caches_def)
  have "disk_ok (bdisk ?t)" using bcache_okD(2) [OF assms(1)] by simp
  moreover have "(if b_busy (f (bufs s i)) then insert i H else H - {i})
      = {j. j < NBUF \<and> b_busy (bufs ?t j)}"
  proof (rule set_eqI)
    fix j
    show "j \<in> (if b_busy (f (bufs s i)) then insert i H else H - {i})
        \<longleftrightarrow> j \<in> {j. j < NBUF \<and> b_busy (bufs ?t j)}"
      using bcache_okD(3) [OF assms(1), of j] assms(2) by (cases "j = i") auto
  qed
  ultimately show ?thesis using l b u unfolding bcache_ok_def caches_def by blast
qed

lemma blk_upd_other:
  assumes "bcache_ok H s" and "bcache_ok H' t" and "i < NBUF" and "bdisk t = bdisk s"
    and "\<And>j. j < NBUF \<Longrightarrow> j \<noteq> i \<Longrightarrow> body (bufs t j) = body (bufs s j)"
    and "\<not> caches s n i" and "\<not> caches t n i"
  shows "blk t n = blk s n"
proof -
  have f: "caches t n j = caches s n j" "b_valid (bufs t j) = b_valid (bufs s j)"
      "b_data (bufs t j) = b_data (bufs s j)" if "j < NBUF" "j \<noteq> i" for j
    using body_fields [OF assms(5) [OF that]] by (simp_all add: caches_def)
  show ?thesis
  proof (cases "\<exists>j < NBUF. caches s n j \<and> b_valid (bufs s j)")
    case True
    then obtain j where j: "j < NBUF" "caches s n j" "b_valid (bufs s j)" by blast
    then have "j \<noteq> i" using assms(6) by blast
    then show ?thesis
      using blk_cached [OF assms(1) j] blk_cached [OF assms(2), of j n] f [of j] j by simp
  next
    case False
    then have "blk s n = memdisk (bdisk s) n" by (intro blk_uncached) auto
    moreover have "\<not> b_valid (bufs t j)" if "j < NBUF" "caches t n j" for j
      using that False f [of j] assms(7) by (cases "j = i") auto
    then have "blk t n = memdisk (bdisk t) n" by (intro blk_uncached) auto
    ultimately show ?thesis using assms(4) by simp
  qed
qed

lemma blk_upd:
  assumes "bcache_ok H s" and "bcache_ok H' t" and "i < NBUF" and "bdisk t = bdisk s"
    and "\<And>j. j < NBUF \<Longrightarrow> j \<noteq> i \<Longrightarrow> body (bufs t j) = body (bufs s j)"
    and "caches s n i" and "caches t n i" and "b_valid (bufs t i)"
  shows "blk t = (blk s)(n := b_data (bufs t i))"
proof
  fix k
  show "blk t k = ((blk s)(n := b_data (bufs t i))) k"
  proof (cases "k = n")
    case True
    then show ?thesis using blk_cached [OF assms(2,3,7,8)] by simp
  next
    case False
    then have "\<not> caches s k i" "\<not> caches t k i" using assms(6,7) by (auto simp: caches_def)
    then show ?thesis using blk_upd_other [OF assms(1-5)] False by simp
  qed
qed

subsection \<open>bget and bread\<close>

lemma dirty_finite [simp]: "finite (dirty s)"
  by (simp add: dirty_def)

lemma spare_buffer:
  assumes "bcache_ok H s" and "card (H \<union> dirty s) < NBUF"
  shows "\<exists>i < NBUF. \<not> b_busy (bufs s i) \<and> \<not> b_dirty (bufs s i)"
proof (rule ccontr)
  assume "\<not> ?thesis"
  then have "{..<NBUF} \<subseteq> H \<union> dirty s"
    using bcache_okD(3) [OF assms(1)] by (auto simp: dirty_def)
  moreover have "H \<subseteq> {..<NBUF}" using bcache_okD(3) [OF assms(1)] by blast
  then have "finite (H \<union> dirty s)" by (simp add: finite_subset)
  ultimately have "card {..<NBUF} \<le> card (H \<union> dirty s)" by (metis card_mono)
  with assms(2) show False by simp
qed

lemma bget_cases:
  assumes "bcache_ok H s"
  obtains (busy) i where "i \<in> H" "caches s n i" "bget 1 n s = Sleep (ChanBuf i)"
  | (hit) i where "i < NBUF" "i \<notin> H" "caches s n i"
      "bget 1 n s = Ret (i, upd_buf i (\<lambda>x. x\<lparr>b_busy := True\<rparr>) s)"
  | (miss) i where "i < NBUF" "i \<notin> H" "i \<notin> dirty s" "\<And>j. j < NBUF \<Longrightarrow> \<not> caches s n j"
      "bget 1 n s = Ret (i, upd_buf i (\<lambda>x. x\<lparr>b_dev := 1, b_blockno := n,
                             b_busy := True, b_valid := False, b_dirty := False\<rparr>) s)"
  | (full) "\<And>j. j < NBUF \<Longrightarrow> \<not> caches s n j" "\<And>j. j < NBUF \<Longrightarrow> j \<in> H \<union> dirty s"
      "bget 1 n s = Panic ''bget: no buffers''"
proof -
  obtain xs where xs: "lru s xs" using bcache_okD(1) [OF assms] by blast
  then have set: "set xs = {..<NBUF}" by (simp add: lru_def)
  let ?t = "\<lambda>b. b_dev (bufs s b) = 1 \<and> b_blockno (bufs s b) = n"
  let ?r = "\<lambda>b. \<not> b_busy (bufs s b) \<and> \<not> b_dirty (bufs s b)"
  note scans = lru_scan(1) [OF xs, of ?t] lru_scan(2) [OF xs, of ?r]
  show thesis
  proof (cases "find ?t xs")
    case (Some i)
    then have i: "i < NBUF" "caches s n i" using set by (auto simp: find_Some_iff caches_def)
    have g: "bget 1 n s = (if \<not> b_busy (bufs s i) then Ret (i, upd_buf i (\<lambda>x. x\<lparr>b_busy := True\<rparr>) s)
        else Sleep (ChanBuf i))"
      unfolding bget_def scans Some by simp
    show thesis
      using i g busy [of i] hit [of i] bcache_okD(3) [OF assms, of i] by (cases "b_busy (bufs s i)") auto
  next
    case None
    then have no: "\<not> caches s n j" if "j < NBUF" for j
      using that set by (auto simp: find_None_iff caches_def)
    show thesis
    proof (cases "find ?r (rev xs)")
      case (Some i)
      then have i: "i < NBUF" "\<not> b_busy (bufs s i)" "\<not> b_dirty (bufs s i)"
        using set find_SomeD [OF Some] by auto
      show thesis
        by (rule miss [OF i(1) _ _ no])
          (use i bcache_okD(3) [OF assms, of i] Some None scans in \<open>auto simp: bget_def dirty_def\<close>)
    next
      case n: None
      have f: "j \<in> H \<union> dirty s" if "j < NBUF" for j
        using n that set bcache_okD(3) [OF assms, of j] by (auto simp: find_None_iff dirty_def)
      show thesis
        by (rule full [OF no f]) (use n None scans in \<open>auto simp: bget_def\<close>)
    qed
  qed
qed

text \<open>
  \<open>bread\<close> returns a held buffer with the current contents of the block, unless the block is held
  by another process (then it sleeps) or every buffer is busy or dirty (then it panics).
\<close>

definition bread_post :: "nat set \<Rightarrow> bio \<Rightarrow> uint \<Rightarrow> nat \<Rightarrow> bio \<Rightarrow> bool" where
  "bread_post H s n i s' \<longleftrightarrow> i < NBUF \<and> i \<notin> H \<and> bcache_ok (insert i H) s'
    \<and> caches s' n i \<and> b_valid (bufs s' i) \<and> b_data (bufs s' i) = blk s n
    \<and> (\<forall>j. j \<noteq> i \<longrightarrow> bufs s' j = bufs s j) \<and> blk s' = blk s \<and> dirty s' = dirty s
    \<and> dblocks s' = dblocks s \<and> bdisk s' = bdisk s \<and> woken s' = woken s"

lemma bread_total:
  assumes "bcache_ok H s" and "n < disksize (bdisk s)"
  shows "(\<exists>i \<in> H. caches s n i \<and> bread 1 n s = Sleep (ChanBuf i))
    \<or> (NBUF \<le> card (H \<union> dirty s) \<and> (\<forall>j < NBUF. \<not> caches s n j)
        \<and> bread 1 n s = Panic ''bget: no buffers'')
    \<or> (\<exists>i s'. bread 1 n s = Ret (i, s') \<and> bread_post H s n i s')"
  using assms(1)
proof (cases rule: bget_cases [where n = n])
  case (hit i)
  let ?f = "\<lambda>x. x\<lparr>b_busy := True\<rparr> :: buf"
  let ?s = "upd_buf i ?f s"
  have ok: "bcache_ok (insert i H) ?s"
    using bcache_ok_upd [OF assms(1) hit(1), of ?f] bcache_okD(4,5) [OF assms(1)] hit
    by (auto simp: buf_ok_def caches_def)
  have c: "caches ?s n i" using hit(3) by (simp add: caches_def)
  show ?thesis
  proof (cases "b_valid (bufs s i)")
    case True
    have "b_data (bufs ?s i) = blk s n" using blk_cached [OF assms(1) hit(1,3) True] by simp
    moreover have "blk ?s = (blk s)(n := b_data (bufs ?s i))"
      by (rule blk_upd [OF assms(1) ok hit(1)]) (use hit c True in auto)
    moreover have "dblocks ?s = dblocks s"
      by (rule dblocks_cong) (auto simp: dirty_def upd_buf_def)
    ultimately have "bread_post H s n i ?s"
      using hit ok c True
      by (auto simp: bread_post_def dirty_def upd_buf_def)
    moreover have "bread 1 n s = Ret (i, ?s)" using hit True by (simp add: bread_def)
    ultimately show ?thesis by blast
  next
    case False
    let ?g = "\<lambda>x. x\<lparr>b_data := memdisk (bdisk s) n, b_valid := True\<rparr> :: buf"
    let ?t = "upd_buf i (\<lambda>x. ?g (?f x)) s"
    have nd: "\<not> b_dirty (bufs s i)" using False bcache_okD(4) [OF assms(1) hit(1)] by (auto simp: buf_ok_def)
    have rd: "bread 1 n s = Ret (i, ?t)"
      using hit False nd assms(2) by (simp add: bread_def bio_iderw_def iderw_def caches_def upd_buf_def)
    have l: "length (memdisk (bdisk s) n) = BSIZE"
      using bcache_okD(2) [OF assms(1)] assms(2) by (simp add: disk_ok_def)
    have uq: "\<not> caches s n j" if "j < NBUF" "j \<noteq> i" for j
      using bcache_okD(5) [OF assms(1) that(1) hit(1) _ hit(3)] that(2) by blast
    have "bcache_ok (if b_busy (?g (?f (bufs s i))) then insert i H else H - {i}) ?t"
      by (rule bcache_ok_upd [OF assms(1) hit(1)])
        (use hit(3) uq assms(2) nd l in \<open>auto simp: buf_ok_def caches_def\<close>)
    then have ok2: "bcache_ok (insert i H) ?t" by simp
    have c2: "caches ?t n i" using hit(3) by (simp add: caches_def)
    have "blk s n = memdisk (bdisk s) n"
      using False bcache_okD(5) [OF assms(1) _ hit(1) _ hit(3)] by (intro blk_uncached) blast
    moreover have "blk ?t = (blk s)(n := b_data (bufs ?t i))"
      by (rule blk_upd [OF assms(1) ok2 hit(1)]) (use hit c2 in auto)
    moreover have "dblocks ?t = dblocks s"
      by (rule dblocks_cong) (use nd in \<open>auto simp: dirty_def upd_buf_def\<close>)
    ultimately have "bread_post H s n i ?t"
      using hit ok2 c2 nd
      by (auto simp: bread_post_def dirty_def upd_buf_def)
    with rd show ?thesis by blast
  qed
next
  case (miss i)
  let ?f = "\<lambda>x. x\<lparr>b_dev := 1, b_blockno := n, b_busy := True, b_valid := False, b_dirty := False\<rparr> :: buf"
  let ?g = "\<lambda>x. x\<lparr>b_data := memdisk (bdisk s) n, b_valid := True\<rparr> :: buf"
  let ?t = "upd_buf i (\<lambda>x. ?g (?f x)) s"
  have rd: "bread 1 n s = Ret (i, ?t)"
    using miss(5) assms(2) by (simp add: bread_def bio_iderw_def iderw_def upd_buf_def)
  have l: "length (memdisk (bdisk s) n) = BSIZE"
    using bcache_okD(2) [OF assms(1)] assms(2) by (simp add: disk_ok_def)
  have ok: "bcache_ok (insert i H) ?t"
    using bcache_ok_upd [OF assms(1) miss(1), of "\<lambda>x. ?g (?f x)"] miss(4) assms(2) l
    by (auto simp: buf_ok_def)
  have c: "caches ?t n i" by (simp add: caches_def)
  have "blk ?t k = blk s k" for k
  proof (cases "k = n")
    case True
    have "blk s n = memdisk (bdisk s) n" using miss(4) by (intro blk_uncached) blast
    then show ?thesis using blk_cached [OF ok miss(1) c] True by simp
  next
    case False
    show ?thesis
    proof (cases "caches s k i")
      case True
      have "blk s k = memdisk (bdisk s) k"
      proof (rule blk_at_rest [OF assms(1)])
        fix j :: nat assume "j < NBUF" "caches s k j"
        then have "j = i" using bcache_okD(5) [OF assms(1) _ miss(1) _ True] by blast
        then show "j \<notin> H \<and> \<not> b_dirty (bufs s j)" using miss by (simp add: dirty_def)
      qed
      moreover have "blk ?t k = memdisk (bdisk ?t) k"
      proof (rule blk_uncached)
        fix j :: nat assume j: "j < NBUF" "caches ?t k j"
        then have "j \<noteq> i" using False by (auto simp: caches_def)
        then have "caches s k j" using j by (simp add: caches_def)
        then show "\<not> b_valid (bufs ?t j)"
          using bcache_okD(5) [OF assms(1) j(1) miss(1) _ True] \<open>j \<noteq> i\<close> by blast
      qed
      ultimately show ?thesis by simp
    next
      case n: False
      show ?thesis
        by (rule blk_upd_other [OF assms(1) ok miss(1)]) (use n False in \<open>auto simp: caches_def\<close>)
    qed
  qed
  moreover have "dblocks ?t = dblocks s"
    by (rule dblocks_cong) (use miss(3) in \<open>auto simp: dirty_def upd_buf_def\<close>)
  ultimately have "bread_post H s n i ?t"
    using miss ok c blk_uncached [of s n] by (auto simp: bread_post_def dirty_def upd_buf_def fun_eq_iff)
  with rd show ?thesis by blast
next
  case full
  then have "\<not> (\<exists>i < NBUF. \<not> b_busy (bufs s i) \<and> \<not> b_dirty (bufs s i))"
    using bcache_okD(3) [OF assms(1)] by (auto simp: dirty_def)
  then have "\<not> card (H \<union> dirty s) < NBUF" using spare_buffer [OF assms(1)] by blast
  then show ?thesis using full(1,3) by (auto simp: bread_def)
next
  case (busy i)
  then show ?thesis by (auto simp: bread_def)
qed

lemma bread_spec:
  assumes "bcache_ok H s" and "n < disksize (bdisk s)"
    and "\<And>i. i \<in> H \<Longrightarrow> \<not> caches s n i" and "card (H \<union> dirty s) < NBUF"
  obtains i s' where "bread 1 n s = Ret (i, s')" and "bread_post H s n i s'"
  using bread_total [OF assms(1,2)] assms(3,4) that by force

lemma bread_cached:
  assumes "bcache_ok H s" and "n < disksize (bdisk s)" and "i < NBUF" and "i \<notin> H" and "caches s n i"
  obtains s' where "bread 1 n s = Ret (i, s')" and "bread_post H s n i s'"
proof -
  have u: "j = i" if "j < NBUF" "caches s n j" for j
    using bcache_okD(5) [OF assms(1) that(1) assms(3) that(2) assms(5)] .
  have "\<not> (\<exists>j \<in> H. caches s n j)" using u assms(4) bcache_okD(3) [OF assms(1)] by blast
  then obtain j s' where j: "bread 1 n s = Ret (j, s')" "bread_post H s n j s'"
    using bread_total [OF assms(1,2)] assms(3,5) by blast
  have "j = i"
  proof (rule ccontr)
    assume "j \<noteq> i"
    then have "caches s' n i" using j(2) assms(5) by (simp add: bread_post_def caches_def)
    moreover have "bcache_ok (insert j H) s'" "j < NBUF" "caches s' n j" using j(2) by (auto simp: bread_post_def)
    ultimately show False using bcache_okD(5) assms(3) \<open>j \<noteq> i\<close> by blast
  qed
  then show thesis using j that by blast
qed

lemma bread_RetD:
  assumes "bcache_ok H s" and "n < disksize (bdisk s)" and "bread 1 n s = Ret (i, s')"
  shows "bread_post H s n i s'"
  using bread_total [OF assms(1,2)] assms(3) by auto

subsection \<open>Holding a buffer: changing its data, bwrite, brelse\<close>

lemma held_upd:
  assumes "bcache_ok H s" and "i \<in> H" and "caches s n i" and "b_valid (bufs s i)"
    and "\<And>b. b_next (f b) = b_next b" and "\<And>b. b_prev (f b) = b_prev b"
    and "\<And>b. b_dev (f b) = b_dev b" and "\<And>b. b_blockno (f b) = b_blockno b"
    and "\<And>b. b_busy (f b) = b_busy b" and "\<And>b. b_valid (f b) = b_valid b"
    and "length (b_data (f (bufs s i))) = BSIZE"
  shows "bcache_ok H (upd_buf i f s)" and "blk (upd_buf i f s) = (blk s)(n := b_data (f (bufs s i)))"
proof -
  have i: "i < NBUF" "b_busy (bufs s i)" using bcache_okD(3) [OF assms(1), of i] assms(2) by auto
  have uq: "\<not> caches s n j" if "j < NBUF" "j \<noteq> i" for j
    using bcache_okD(5) [OF assms(1) that(1) i(1) _ assms(3)] that(2) by blast
  have "bcache_ok (if b_busy (f (bufs s i)) then insert i H else H - {i}) (upd_buf i f s)"
    by (rule bcache_ok_upd [OF assms(1) i(1)])
      (use assms i uq bcache_okD(4) [OF assms(1) i(1)] in \<open>auto simp: buf_ok_def caches_def\<close>)
  then show ok: "bcache_ok H (upd_buf i f s)" using assms(2,9) i by (simp add: insert_absorb)
  show "blk (upd_buf i f s) = (blk s)(n := b_data (f (bufs s i)))"
    using blk_upd [OF assms(1) ok i(1), of n] assms by (simp add: caches_def)
qed

lemma card_dblocks:
  assumes "bcache_ok H s"
  shows "card (dblocks s) = card (dirty s)" and "finite (dblocks s)"
proof -
  have "inj_on (\<lambda>i. b_blockno (bufs s i)) (dirty s)"
  proof (rule inj_onI)
    fix i j assume a: "i \<in> dirty s" "j \<in> dirty s" "b_blockno (bufs s i) = b_blockno (bufs s j)"
    then have "caches s (b_blockno (bufs s i)) i" "caches s (b_blockno (bufs s i)) j" "i < NBUF" "j < NBUF"
      using bcache_okD(4) [OF assms] by (auto simp: dirty_def buf_ok_def caches_def)
    then show "i = j" using bcache_okD(5) [OF assms] by blast
  qed
  then show "card (dblocks s) = card (dirty s)" by (simp add: dblocks_def card_image)
qed (simp add: dblocks_def)

lemma dblocks_cached:
  assumes "bcache_ok H s" and "n \<in> dblocks s"
  obtains i where "i < NBUF" and "caches s n i" and "b_valid (bufs s i)" and "b_dirty (bufs s i)"
  using assms(2) bcache_okD(4) [OF assms(1)] that
  by (auto simp: dblocks_def dirty_def buf_ok_def caches_def)

lemma clean_blk:
  assumes "bcache_ok {} s" and "n \<notin> dblocks s"
  shows "blk s n = memdisk (bdisk s) n"
proof (rule blk_at_rest [OF assms(1)])
  fix i :: nat assume "i < NBUF" "caches s n i"
  then show "i \<notin> {} \<and> \<not> b_dirty (bufs s i)"
    using assms(2) by (auto simp: dblocks_def dirty_def caches_def)
qed

lemma bwrite_spec:
  assumes "bcache_ok H s" and "i \<in> H" and "caches s n i" and "b_valid (bufs s i)"
  shows "\<exists>s'. bwrite i s = Ret s' \<and> bcache_ok H s' \<and> blk s' = blk s \<and> dirty s' = dirty s - {i}
    \<and> dblocks s' = dblocks s - {n}
    \<and> memdisk (bdisk s') = (memdisk (bdisk s))(n := b_data (bufs s i))
    \<and> dwrites (bdisk s') = dwrites (bdisk s) @ [(n, b_data (bufs s i))]
    \<and> disksize (bdisk s') = disksize (bdisk s) \<and> woken s' = woken s
    \<and> bufs s' = (bufs s)(i := (bufs s i)\<lparr>b_dirty := False\<rparr>)"
proof -
  let ?b = "bufs s i"
  let ?d = "bdisk s\<lparr>memdisk := (memdisk (bdisk s))(n := b_data ?b),
                    dwrites := dwrites (bdisk s) @ [(n, b_data ?b)]\<rparr>"
  let ?t = "s\<lparr>bufs := (bufs s)(i := ?b\<lparr>b_dirty := False\<rparr>), bdisk := ?d\<rparr>"
  have i: "i < NBUF" "b_busy ?b" using bcache_okD(3) [OF assms(1), of i] assms(2) by auto
  have bk: "buf_ok (bdisk s) (bufs s j)" if "j < NBUF" for j by (rule bcache_okD(4) [OF assms(1) that])
  have n: "b_blockno ?b = n" "b_dev ?b = 1" "n < disksize (bdisk s)" "length (b_data ?b) = BSIZE"
    using assms(3,4) bk [OF i(1)] by (auto simp: caches_def buf_ok_def)
  have w: "bwrite i s = Ret ?t"
  proof -
    have "?b\<lparr>b_dirty := True, b_dirty := False, b_valid := True\<rparr> = ?b\<lparr>b_dirty := False\<rparr>"
      using assms(4) by simp
    then show ?thesis
      using i n by (simp add: bwrite_def bio_iderw_def iderw_def upd_buf_def not_le)
  qed
  obtain xs where "lru s xs" using bcache_okD(1) [OF assms(1)] by blast
  then have l: "lru ?t xs"
    using dll_cong_next [of ?t s] by (simp add: bnext_def bprev_def fun_eq_iff)
  have c: "caches ?t k j = caches s k j" for k j by (simp add: caches_def)
  have "buf_ok ?d (bufs ?t j)" if "j < NBUF" for j
  proof (cases "j = i")
    case True
    then show ?thesis using bk [OF i(1)] assms(4) n by (simp add: buf_ok_def)
  next
    case False
    then have "\<not> caches s n j" using bcache_okD(5) [OF assms(1) that i(1) _ assms(3)] by blast
    then show ?thesis using bk [OF that] False by (auto simp: buf_ok_def caches_def)
  qed
  moreover have "x = y" if "x < NBUF" "y < NBUF" "caches ?t k x" "caches ?t k y" for x y k
    using bcache_okD(5) [OF assms(1)] that unfolding c by blast
  moreover have "disk_ok ?d" using bcache_okD(2) [OF assms(1)] n by (simp add: disk_ok_def)
  moreover have "H = {j. j < NBUF \<and> b_busy (bufs ?t j)}"
    using bcache_okD(3) [OF assms(1)] by auto
  ultimately have ok: "bcache_ok H ?t" using l unfolding bcache_ok_def caches_def by auto
  have "blk ?t k = blk s k" for k
  proof (cases "\<exists>j < NBUF. caches s k j \<and> b_valid (bufs s j)")
    case True
    then obtain j where j: "j < NBUF" "caches s k j" "b_valid (bufs s j)" by blast
    then have j': "caches ?t k j" "b_valid (bufs ?t j)" unfolding c by auto
    show ?thesis
      using blk_cached [OF assms(1) j] blk_cached [OF ok j(1) j'] by simp
  next
    case False
    then have "k \<noteq> n" using i(1) assms(3,4) by blast
    have "blk s k = memdisk (bdisk s) k" using False by (intro blk_uncached) blast
    moreover have "blk ?t k = memdisk (bdisk ?t) k"
      using False by (intro blk_uncached) (auto simp: c)
    ultimately show ?thesis using \<open>k \<noteq> n\<close> by simp
  qed
  moreover have d: "dirty ?t = dirty s - {i}" by (auto simp: dirty_def)
  moreover have "dblocks ?t = dblocks s - {n}"
  proof -
    have "b_blockno (bufs s j) \<noteq> n" if "j \<in> dirty s" "j \<noteq> i" for j
    proof -
      have "j < NBUF" "b_dev (bufs s j) = 1" using that(1) bk by (auto simp: dirty_def buf_ok_def)
      then show ?thesis
        using bcache_okD(5) [OF assms(1) _ i(1) _ assms(3), of j] that(2) by (auto simp: caches_def)
    qed
    then show ?thesis using n by (auto simp: dblocks_def d)
  qed
  ultimately show ?thesis using w ok by (auto simp: fun_eq_iff)
qed

text \<open>Releasing a buffer clears its busy bit and moves it to the front of the list.\<close>

lemma body_upd_busy: "body (b\<lparr>b_busy := v\<rparr>) = (body b)\<lparr>b_busy := v\<rparr>"
  by (simp add: body_def)

lemma brelse_eq:
  assumes "b_busy (bufs s i)"
  shows "\<exists>s'. brelse i s = Ret s' \<and> woken s' = woken s @ [ChanBuf i] \<and> bdisk s' = bdisk s
    \<and> (\<forall>j. body (bufs s' j) = body (if j = i then (bufs s i)\<lparr>b_busy := False\<rparr> else bufs s j))
    \<and> (\<forall>ys zs. lru s (ys @ i # zs) \<longrightarrow> lru s' (i # ys @ zs))"
proof -
  define s2 where "s2 = set_next (bprev (set_prev (bnext s i) (bprev s i) s) i)
    (bnext (set_prev (bnext s i) (bprev s i) s) i) (set_prev (bnext s i) (bprev s i) s)"
  define s6 where "s6 = set_next head i (set_prev (bnext (set_prev i head (set_next i (bnext s2 head) s2)) head) i
    (set_prev i head (set_next i (bnext s2 head) s2)))"
  let ?s7 = "upd_buf i (\<lambda>x. x\<lparr>b_busy := False\<rparr>) s6"
  have r: "brelse i s = Ret (?s7\<lparr>woken := woken ?s7 @ [ChanBuf i]\<rparr>)"
    using assms by (simp add: brelse_def s2_def s6_def Let_def)
  have b: "body (bufs s6 j) = body (bufs s j)" for j by (simp add: s6_def s2_def)
  have d: "bdisk s6 = bdisk s" "woken s6 = woken s" by (simp_all add: s6_def s2_def)
  have l: "lru s6 (i # ys @ zs)" if a: "lru s (ys @ i # zs)" for ys zs
  proof -
    have di: "distinct (head # ys @ i # zs)" and st: "set (ys @ i # zs) = {..<NBUF}"
      and dl: "dll (bnext s) (bprev s) head (ys @ i # zs) head"
      using a by (auto simp: lru_def)
    have n2: "bnext s2 = (bnext s)(bprev s i := bnext s i)"
        "bprev s2 = (bprev s)(bnext s i := bprev s i)"
      by (auto simp: s2_def)
    have d2: "dll (bnext s2) (bprev s2) head (ys @ zs) head"
      unfolding n2 by (rule dll_unlink [OF dl di])
    have n6: "bnext s6 = (bnext s2)(i := bnext s2 head, head := i)"
        "bprev s6 = (bprev s2)(i := head, bnext s2 head := i)"
      using di by (auto simp: s6_def)
    have "dll (bnext s6) (bprev s6) head (i # ys @ zs) head"
      unfolding n6 by (rule dll_link [OF d2]) (use di in auto)
    then show ?thesis using di st by (auto simp: lru_def)
  qed
  have l7: "lru (?s7\<lparr>woken := w\<rparr>) xs = lru s6 xs" for xs w
    by (rule dll_cong_next) (auto simp: bnext_def bprev_def upd_buf_def fun_eq_iff)
  have b7: "body (bufs ?s7 j) = body (if j = i then (bufs s i)\<lparr>b_busy := False\<rparr> else bufs s j)" for j
    using b by (cases "j = i") (simp_all add: body_upd_busy)
  show ?thesis
    by (rule exI [of _ "?s7\<lparr>woken := woken ?s7 @ [ChanBuf i]\<rparr>"]) (use r d b7 l l7 in simp)
qed

lemma brelse_spec:
  assumes "bcache_ok H s" and "i \<in> H" and "caches s n i" and "b_valid (bufs s i)"
    and "b_dirty (bufs s i) \<or> b_data (bufs s i) = memdisk (bdisk s) n"
  shows "\<exists>s'. brelse i s = Ret s' \<and> bcache_ok (H - {i}) s' \<and> blk s' = blk s \<and> dirty s' = dirty s
    \<and> dblocks s' = dblocks s
    \<and> bdisk s' = bdisk s \<and> woken s' = woken s @ [ChanBuf i]
    \<and> (\<forall>j. body (bufs s' j) = body (if j = i then (bufs s i)\<lparr>b_busy := False\<rparr> else bufs s j))"
proof -
  let ?f = "\<lambda>x. x\<lparr>b_busy := False\<rparr> :: buf"
  let ?t = "upd_buf i ?f s"
  have i: "i < NBUF" "b_busy (bufs s i)" using bcache_okD(3) [OF assms(1), of i] assms(2) by auto
  obtain s' where s': "brelse i s = Ret s'" "woken s' = woken s @ [ChanBuf i]" "bdisk s' = bdisk s"
    and b: "\<And>j. body (bufs s' j) = body (if j = i then ?f (bufs s i) else bufs s j)"
    and l: "\<And>ys zs. lru s (ys @ i # zs) \<Longrightarrow> lru s' (i # ys @ zs)"
    using brelse_eq [OF i(2)] by blast
  obtain xs where xs: "lru s xs" using bcache_okD(1) [OF assms(1)] by blast
  then have "i \<in> set xs" using i(1) by (simp add: lru_def)
  then obtain ys zs where "xs = ys @ i # zs" by (meson split_list)
  with l xs have l': "lru s' (i # ys @ zs)" by blast
  have uq: "\<not> caches s n j" if "j < NBUF" "j \<noteq> i" for j
    using bcache_okD(5) [OF assms(1) that(1) i(1) _ assms(3)] that(2) by blast
  have "bcache_ok (if b_busy (?f (bufs s i)) then insert i H else H - {i}) ?t"
    by (rule bcache_ok_upd [OF assms(1) i(1)])
      (use assms uq bcache_okD(4) [OF assms(1) i(1)] in \<open>auto simp: buf_ok_def caches_def\<close>)
  then have ok: "bcache_ok (H - {i}) ?t" by simp
  have bt: "body (bufs s' j) = body (bufs ?t j)" for j using b by (cases "j = i") simp_all
  have dt: "bdisk s' = bdisk ?t" using s' by simp
  have "blk ?t = (blk s)(n := b_data (bufs ?t i))"
    by (rule blk_upd [OF assms(1) ok i(1)]) (use assms(3,4) in \<open>auto simp: caches_def\<close>)
  also have "\<dots> = blk s" using blk_cached [OF assms(1) i(1) assms(3,4)] by (auto simp: fun_eq_iff)
  finally have "blk s' = blk s" using same_body(1) [OF bt dt] by simp
  moreover have d: "dirty s' = dirty s"
    using same_body(2) [OF bt dt] by (auto simp: dirty_def upd_buf_def)
  moreover have "dblocks s' = dblocks s"
  proof (rule dblocks_cong [OF d])
    show "b_blockno (bufs s' j) = b_blockno (bufs s j)" for j
      using body_fields(5) [OF bt [of j]] by (cases "j = i") simp_all
  qed
  moreover have "bcache_ok (H - {i}) s'" by (rule same_body(3) [OF bt dt l' ok])
  ultimately show ?thesis using s' b by blast
qed

subsection \<open>binit\<close>

lemma binit_body_links:
  assumes "dll (bnext s) (bprev s) head xs head" and "distinct (head # xs)"
    and "b \<noteq> head" and "b \<notin> set xs"
  shows "dll (bnext (binit_body b s)) (bprev (binit_body b s)) head (b # xs) head"
proof -
  have u: "bnext (upd_buf i (\<lambda>x. x\<lparr>b_dev := - 1\<rparr>) t) = bnext t"
      "bprev (upd_buf i (\<lambda>x. x\<lparr>b_dev := - 1\<rparr>) t) = bprev t" for i t
    by (rule links_upd_buf; simp)+
  have "bnext (binit_body b s) = (bnext s)(b := bnext s head, head := b)"
      "bprev (binit_body b s) = (bprev s)(b := head, bnext s head := b)"
    using assms(3) by (auto simp: binit_body_def Let_def u)
  then show ?thesis using dll_link [OF assms] by simp
qed

lemma binit_body_rest:
  "body (bufs (binit_body b s) j) = body (if j = b then (bufs s j)\<lparr>b_dev := - 1\<rparr> else bufs s j)"
  "bdisk (binit_body b s) = bdisk s"
proof -
  have "body (bufs (upd_buf b (\<lambda>x. x\<lparr>b_dev := - 1\<rparr>) t) j)
      = (if j = b then (body (bufs t j))\<lparr>b_dev := - 1\<rparr> else body (bufs t j))" for t
    by (cases "j = b") (simp_all add: body_def)
  moreover have "body (x\<lparr>b_dev := - 1\<rparr>) = (body x)\<lparr>b_dev := - 1\<rparr>" for x
    by (simp add: body_def)
  ultimately show "body (bufs (binit_body b s) j) = body (if j = b then (bufs s j)\<lparr>b_dev := - 1\<rparr> else bufs s j)"
    by (simp add: binit_body_def Let_def)
qed (simp add: binit_body_def Let_def)

lemma binit_loop:
  assumes "n \<le> NBUF" and "dll (bnext s) (bprev s) head [] head"
  shows "dll (bnext (fold binit_body [0..<n] s)) (bprev (fold binit_body [0..<n] s)) head (rev [0..<n]) head
    \<and> bdisk (fold binit_body [0..<n] s) = bdisk s
    \<and> (\<forall>j. body (bufs (fold binit_body [0..<n] s) j)
          = body (if j < n then (bufs s j)\<lparr>b_dev := - 1\<rparr> else bufs s j))"
  using assms(1)
proof (induction n)
  case 0
  then show ?case using assms(2) by simp
next
  case (Suc n)
  let ?t = "fold binit_body [0..<n] s"
  have IH: "dll (bnext ?t) (bprev ?t) head (rev [0..<n]) head" "bdisk ?t = bdisk s"
    "\<And>j. body (bufs ?t j) = body (if j < n then (bufs s j)\<lparr>b_dev := - 1\<rparr> else bufs s j)"
    using Suc by auto
  have "dll (bnext (binit_body n ?t)) (bprev (binit_body n ?t)) head (n # rev [0..<n]) head"
    by (rule binit_body_links [OF IH(1)]) (use Suc.prems in auto)
  moreover have "body (bufs (binit_body n ?t) j)
      = body (if j < Suc n then (bufs s j)\<lparr>b_dev := - 1\<rparr> else bufs s j)" for j
  proof (cases "j = n")
    case True
    have "body (b\<lparr>b_dev := - 1\<rparr>) = (body b)\<lparr>b_dev := - 1\<rparr>" for b by (simp add: body_def)
    then show ?thesis using True IH(3) [of n] by (simp add: binit_body_rest)
  next
    case False
    then have "(j < Suc n) = (j < n)" by auto
    then show ?thesis using False IH(3) [of j] by (simp add: binit_body_rest)
  qed
  ultimately show ?case using IH(2) by (simp add: binit_body_rest)
qed

lemma binit_spec:
  assumes "\<And>i. i < NBUF \<Longrightarrow> \<not> b_busy (bufs s i) \<and> \<not> b_valid (bufs s i) \<and> \<not> b_dirty (bufs s i)"
    and "disk_ok (bdisk s)"
  shows "lru (binit s) (rev [0..<NBUF])" and "bcache_ok {} (binit s)"
    and "blk (binit s) = memdisk (bdisk s)" and "bdisk (binit s) = bdisk s" and "dirty (binit s) = {}"
proof -
  let ?s = "set_next head head (set_prev head head s)"
  have e: "binit s = fold binit_body [0..<NBUF] ?s" by (simp add: binit_def Let_def)
  have "dll (bnext ?s) (bprev ?s) head [] head" by simp
  note loop = binit_loop [OF order_refl this, folded e]
  have dl: "dll (bnext (binit s)) (bprev (binit s)) head (rev [0..<NBUF]) head"
    and d: "bdisk (binit s) = bdisk s"
    and b: "\<And>j. body (bufs (binit s) j) = body (if j < NBUF then (bufs ?s j)\<lparr>b_dev := - 1\<rparr> else bufs ?s j)"
    using loop by auto
  show l: "lru (binit s) (rev [0..<NBUF])" using dl unfolding lru_def by auto
  show "bdisk (binit s) = bdisk s" by (rule d)
  have f: "\<not> b_busy (bufs (binit s) i)" "\<not> b_valid (bufs (binit s) i)" "\<not> b_dirty (bufs (binit s) i)"
      "b_dev (bufs (binit s) i) = - 1" if "i < NBUF" for i
  proof -
    have "body (bufs ?s i) = body (bufs s i)" by simp
    then have "body ((bufs ?s i)\<lparr>b_dev := - 1\<rparr>) = body ((bufs s i)\<lparr>b_dev := - 1\<rparr>)"
      by (cases "bufs ?s i"; cases "bufs s i"; simp add: body_def)
    with b [of i] that have "body (bufs (binit s) i) = body ((bufs s i)\<lparr>b_dev := - 1\<rparr>)" by simp
    from body_fields [OF this] assms(1) [OF that] show
      "\<not> b_busy (bufs (binit s) i)" "\<not> b_valid (bufs (binit s) i)" "\<not> b_dirty (bufs (binit s) i)"
      "b_dev (bufs (binit s) i) = - 1" by simp_all
  qed
  show "bcache_ok {} (binit s)"
    using l d assms(2) f by (auto simp: bcache_ok_def buf_ok_def)
  show "blk (binit s) = memdisk (bdisk s)"
    using f(2) d blk_uncached [of "binit s"] by (auto simp: fun_eq_iff)
  show "dirty (binit s) = {}" using f(3) by (auto simp: dirty_def)
qed

subsection \<open>Several processes using the cache\<close>

text \<open>
  Processes read blocks of disk 1, change the data of buffers they hold, write them out, mark them
  dirty (as the log does) and release them. The second component of the state says which process
  holds which buffer. A step is labelled with the block and the new contents when it changes data.
  A process releases a buffer only when it is dirty or agrees with the disk: a buffer changed and
  then released without \<open>bwrite\<close> or \<open>log_write\<close> loses the change.
\<close>

type_synonym bmachine = "bio \<times> (nat \<rightharpoonup> nat)"

inductive bio_step :: "bmachine \<Rightarrow> (uint \<times> block) option \<Rightarrow> bmachine \<Rightarrow> bool" where
  step_bread: "n < disksize (bdisk s) \<Longrightarrow> bread 1 n s = Ret (b, s') \<Longrightarrow>
    bio_step (s, h) None (s', h(b \<mapsto> p))"
| step_data: "h b = Some p \<Longrightarrow> length d = BSIZE \<Longrightarrow>
    bio_step (s, h) (Some (b_blockno (bufs s b), d)) (upd_buf b (\<lambda>x. x\<lparr>b_data := d\<rparr>) s, h)"
| step_bwrite: "h b = Some p \<Longrightarrow> bwrite b s = Ret s' \<Longrightarrow> bio_step (s, h) None (s', h)"
| step_dirty: "h b = Some p \<Longrightarrow>
    bio_step (s, h) None (upd_buf b (\<lambda>x. x\<lparr>b_dirty := True\<rparr>) s, h)"
| step_brelse: "h b = Some p \<Longrightarrow>
    b_dirty (bufs s b) \<or> b_data (bufs s b) = memdisk (bdisk s) (b_blockno (bufs s b)) \<Longrightarrow>
    brelse b s = Ret s' \<Longrightarrow> bio_step (s, h) None (s', h(b := None))"

inductive bio_run :: "bmachine \<Rightarrow> (uint \<times> block) list \<Rightarrow> bmachine \<Rightarrow> bool" where
  run_nil: "bio_run x [] x"
| run_snoc: "bio_run x ls y \<Longrightarrow> bio_step y l z \<Longrightarrow>
    bio_run x (case l of None \<Rightarrow> ls | Some c \<Rightarrow> ls @ [c]) z"

definition replay :: "(uint \<Rightarrow> block) \<Rightarrow> (uint \<times> block) list \<Rightarrow> uint \<Rightarrow> block" where
  "replay m ws = fold (\<lambda>(n, d) m. m(n := d)) ws m"

definition bio_inv :: "bmachine \<Rightarrow> bool" where
  "bio_inv x \<longleftrightarrow> bcache_ok (dom (snd x)) (fst x)
     \<and> (\<forall>b \<in> dom (snd x). b_valid (bufs (fst x) b))"

definition bio_init :: "bmachine \<Rightarrow> bool" where
  "bio_init x \<longleftrightarrow> snd x = Map.empty \<and> (\<exists>s. fst x = binit s \<and> disk_ok (bdisk s)
     \<and> (\<forall>i < NBUF. \<not> b_busy (bufs s i) \<and> \<not> b_valid (bufs s i) \<and> \<not> b_dirty (bufs s i)))"

lemma held_valid:
  assumes "bio_inv (s, h)" and "h b = Some p"
  shows "bcache_ok (dom h) s" "b \<in> dom h" "caches s (b_blockno (bufs s b)) b" "b_valid (bufs s b)" "b < NBUF"
proof -
  show ok: "bcache_ok (dom h) s" and d: "b \<in> dom h" and v: "b_valid (bufs s b)"
    using assms by (auto simp: bio_inv_def)
  then show b: "b < NBUF" using bcache_okD(3) [OF ok] by blast
  show "caches s (b_blockno (bufs s b)) b" using bcache_okD(4) [OF ok b] v by (simp add: buf_ok_def caches_def)
qed

lemma bio_step_inv:
  assumes "bio_step x l y" and "bio_inv x"
  shows "bio_inv y \<and> blk (fst y) = (case l of None \<Rightarrow> blk (fst x) | Some (n, d) \<Rightarrow> (blk (fst x))(n := d))
    \<and> disksize (bdisk (fst y)) = disksize (bdisk (fst x))"
  using assms
proof (induction rule: bio_step.induct)
  case (step_bread n s b s' h p)
  then have "bread_post (dom h) s n b s'" by (auto simp: bio_inv_def intro: bread_RetD)
  moreover from this have "b_valid (bufs s' j)" if "j \<in> dom (h(b \<mapsto> p))" for j
    using step_bread.prems that by (cases "j = b") (auto simp: bread_post_def bio_inv_def)
  ultimately show ?case by (auto simp: bread_post_def bio_inv_def)
next
  case (step_data h b p d s)
  note v = held_valid [OF step_data.prems step_data.hyps(1)]
  have "bcache_ok (dom h) (upd_buf b (\<lambda>x. x\<lparr>b_data := d\<rparr>) s)"
      "blk (upd_buf b (\<lambda>x. x\<lparr>b_data := d\<rparr>) s) = (blk s)(b_blockno (bufs s b) := d)"
    using held_upd [OF v(1-4), of "\<lambda>x. x\<lparr>b_data := d\<rparr>"] step_data.hyps(2) by simp_all
  then show ?case using step_data.prems by (auto simp: bio_inv_def upd_buf_def)
next
  case (step_bwrite h b p s s')
  note v = held_valid [OF step_bwrite.prems step_bwrite.hyps(1)]
  show ?case using bwrite_spec [OF v(1-4)] step_bwrite by (auto simp: bio_inv_def)
next
  case (step_dirty h b p s)
  note v = held_valid [OF step_dirty.prems step_dirty.hyps(1)]
  have "length (b_data (bufs s b)) = BSIZE" using bcache_okD(4) [OF v(1,5)] v(4) by (simp add: buf_ok_def)
  then have "bcache_ok (dom h) (upd_buf b (\<lambda>x. x\<lparr>b_dirty := True\<rparr>) s)"
      "blk (upd_buf b (\<lambda>x. x\<lparr>b_dirty := True\<rparr>) s) = (blk s)(b_blockno (bufs s b) := b_data (bufs s b))"
    using held_upd [OF v(1-4), of "\<lambda>x. x\<lparr>b_dirty := True\<rparr>"] by simp_all
  moreover have "(blk s)(b_blockno (bufs s b) := b_data (bufs s b)) = blk s"
    using blk_cached [OF v(1,5,3,4)] by (auto simp: fun_eq_iff)
  ultimately show ?case using step_dirty.prems by (auto simp: bio_inv_def upd_buf_def)
next
  case (step_brelse h b p s s')
  note v = held_valid [OF step_brelse.prems step_brelse.hyps(1)]
  obtain t where t: "brelse b s = Ret t" "bcache_ok (dom h - {b}) t" "blk t = blk s" "bdisk t = bdisk s"
    and bt: "\<And>j. body (bufs t j) = body (if j = b then (bufs s b)\<lparr>b_busy := False\<rparr> else bufs s j)"
    using brelse_spec [OF v(1-4) step_brelse.hyps(2)] by blast
  have "b_valid (bufs t j) = b_valid (bufs s j)" if "j \<noteq> b" for j
    using body_fields(2) [OF bt [of j]] that by simp
  moreover have "dom (h(b := None)) = dom h - {b}" by auto
  ultimately show ?case using t step_brelse by (auto simp: bio_inv_def)
qed

interpretation bio_machine: step_invariant bio_init "\<lambda>x y. \<exists>l. bio_step x l y" bio_inv
proof
  show "bio_inv x" if "bio_init x" for x
    using that binit_spec(2) by (cases x) (auto simp: bio_init_def bio_inv_def)
qed (use bio_step_inv in blast)

lemma bio_run_blk:
  assumes "bio_run x ls y" and "bio_inv x"
  shows "bio_inv y \<and> blk (fst y) = replay (blk (fst x)) ls
    \<and> disksize (bdisk (fst y)) = disksize (bdisk (fst x))"
  using assms
proof (induction rule: bio_run.induct)
  case (run_nil x)
  then show ?case by (simp add: replay_def)
next
  case (run_snoc x ls y l z)
  then have IH: "bio_inv y" "blk (fst y) = replay (blk (fst x)) ls"
      "disksize (bdisk (fst y)) = disksize (bdisk (fst x))" by auto
  show ?case using bio_step_inv [OF run_snoc.hyps(2) IH(1)] IH by (cases l) (auto simp: replay_def)
qed

subsection \<open>Properties\<close>

text \<open>C6: Exclusion. In every reachable state of the cache, a read of a block that some process holds
  sleeps on that buffer, a read that returns gives a buffer nobody holds, no two held buffers are
  for the same block, and the links are a list of all the buffers.\<close>

theorem bcache_exclusive:
  assumes "reach bio_init (\<lambda>x y. \<exists>l. bio_step x l y) (s, h)" and "n < disksize (bdisk s)"
  shows "(b \<in> dom h \<and> caches s n b \<longrightarrow> bread 1 n s = Sleep (ChanBuf b))
    \<and> (bread 1 n s = Ret (b, s') \<longrightarrow> h b = None)
    \<and> (\<forall>b \<in> dom h. \<forall>c \<in> dom h. b_blockno (bufs s b) = b_blockno (bufs s c) \<longrightarrow> b = c)
    \<and> (\<exists>xs. lru s xs)"
proof -
  have inv: "bio_inv (s, h)" by (rule bio_machine.reach_inv [OF assms(1)])
  then have ok: "bcache_ok (dom h) s" by (simp add: bio_inv_def)
  have "bread 1 n s = Sleep (ChanBuf b)" if "b \<in> dom h" "caches s n b"
    using ok
  proof (cases rule: bget_cases [where n = n])
    case (busy i)
    have "i < NBUF" "b < NBUF" using bcache_okD(3) [OF ok] busy(1) that(1) by blast+
    then have "i = b" using bcache_okD(5) [OF ok] busy(2) that(2) by blast
    then show ?thesis using busy(3) by (simp add: bread_def)
  qed (use that bcache_okD(3,5) [OF ok] in blast)+
  moreover have "h b = None" if "bread 1 n s = Ret (b, s')"
    using bread_RetD [OF ok assms(2) that] by (auto simp: bread_post_def)
  moreover have "b = c" if "b \<in> dom h" "c \<in> dom h" "b_blockno (bufs s b) = b_blockno (bufs s c)" for b c
    using that held_valid [OF inv] bcache_okD(5) [OF ok] by (metis domD)
  ultimately show ?thesis using bcache_okD(1) [OF ok] by blast
qed

text \<open>The cache at boot: the buffers of the zeroed bss, and the disk image \<open>img\<close>.\<close>

definition fresh_bio :: "uchar list \<Rightarrow> bio" where
  "fresh_bio img = \<lparr>bufs = (\<lambda>_. \<lparr>b_busy = False, b_valid = False, b_dirty = False, b_dev = 0, b_blockno = 0,
     b_prev = 0, b_next = 0, b_qnext = None, b_data = replicate BSIZE 0\<rparr>),
     bdisk = ideinit img, woken = []\<rparr>"

lemma fresh_bio_ok:
  assumes "length img = BSIZE * k" and "BSIZE * k < 2 ^ 32"
  shows "bio_init (binit (fresh_bio img), Map.empty)" "disksize (bdisk (binit (fresh_bio img))) = of_nat k"
    "bcache_ok {} (binit (fresh_bio img))" "dirty (binit (fresh_bio img)) = {}" "dblocks (binit (fresh_bio img)) = {}"
    "blk (binit (fresh_bio img)) = memdisk (ideinit img)" "bdisk (binit (fresh_bio img)) = ideinit img"
proof -
  let ?s = "fresh_bio img"
  have f: "\<not> b_busy (bufs ?s i) \<and> \<not> b_valid (bufs ?s i) \<and> \<not> b_dirty (bufs ?s i)" for i
    by (simp add: fresh_bio_def)
  have "unat (of_nat (BSIZE * k) :: uint) = BSIZE * k" using assms(2) unfolding unat_of_nat by simp
  moreover have "unat (of_nat k :: uint) = k" using assms(2) unfolding unat_of_nat by simp
  ultimately have sz: "disksize (ideinit img) = of_nat k"
    using assms(1) by (simp add: ideinit_def word_unat_eq_iff unat_div)
  have d: "disk_ok (bdisk ?s)"
  proof -
    have "BSIZE \<le> BSIZE * k - BSIZE * unat n" if "n < (of_nat k :: uint)" for n
    proof -
      have "unat n < k" using that \<open>unat (of_nat k :: uint) = k\<close> by (simp add: word_less_nat_alt)
      then have "BSIZE * Suc (unat n) \<le> BSIZE * k" by (intro mult_le_mono2) simp
      then show ?thesis by simp
    qed
    then show ?thesis
      using assms(1) sz by (simp add: disk_ok_def fresh_bio_def) (simp add: ideinit_def min_absorb1)
  qed
  note i = binit_spec [of ?s, OF f d]
  have e: "bdisk ?s = ideinit img" by (simp add: fresh_bio_def)
  show "bcache_ok {} (binit ?s)" "dirty (binit ?s) = {}" by (rule i)+
  then show "dblocks (binit ?s) = {}" by (simp add: dblocks_def)
  show "blk (binit ?s) = memdisk (ideinit img)" "bdisk (binit ?s) = ideinit img"
    using i(3,4) e by simp_all
  then show "disksize (bdisk (binit ?s)) = of_nat k" using sz by simp
  show "bio_init (binit ?s, Map.empty)" using f d by (auto simp: bio_init_def)
qed

abbreviation (input) demo_img :: "uchar list" where "demo_img \<equiv> replicate 2048 7"

lemmas demo_bio_ok = fresh_bio_ok [of demo_img 4, simplified]

theorem bcache_exclusive_witness:
  "\<exists>s h b. reach bio_init (\<lambda>x y. \<exists>l. bio_step x l y) (s, h) \<and> h b = Some 7
     \<and> bread 1 2 s = Sleep (ChanBuf b)"
proof -
  let ?s = "binit (fresh_bio demo_img)"
  have r0: "reach bio_init (\<lambda>x y. \<exists>l. bio_step x l y) (?s, Map.empty)"
    using demo_bio_ok(1) by (rule reach_init)
  obtain b s where b: "bread 1 2 ?s = Ret (b, s)" "bread_post {} ?s 2 b s"
    by (rule bread_spec [OF demo_bio_ok(3), of 2]) (auto simp: demo_bio_ok(2,4))
  then have d: "disksize (bdisk s) = 4" "caches s 2 b" by (auto simp: bread_post_def demo_bio_ok(2))
  have r: "reach bio_init (\<lambda>x y. \<exists>l. bio_step x l y) (s, [b \<mapsto> 7])"
    using r0 by (rule reach_step) (use step_bread [OF _ b(1), of Map.empty 7] demo_bio_ok(2) in auto)
  then have "bread 1 2 s = Sleep (ChanBuf b)"
    using bcache_exclusive [OF r, of 2 b] d by auto
  with r show ?thesis by (intro exI [of _ s] exI [of _ "[b \<mapsto> 7]"] exI [of _ b]) simp
qed

text \<open>C5: Coherence. However the processes interleave their use of the cache, and whichever blocks
  were evicted and read back meanwhile, a process that reads a block gets the contents that were last
  stored in a buffer of that block, or those on the initial disk if there were none.\<close>

theorem bcache_coherent:
  assumes "bio_init x" and "bio_run x ls (s, h)" and "n < disksize (bdisk s)"
    and "bread 1 n s = Ret (b, s')"
  shows "b_data (bufs s' b) = replay (memdisk (bdisk (fst x))) ls n"
proof -
  have inv: "bio_inv x" by (rule bio_machine.inv_init [OF assms(1)])
  note run = bio_run_blk [OF assms(2) inv]
  have "blk (fst x) = memdisk (bdisk (fst x))"
    using assms(1) binit_spec(3,4) by (auto simp: bio_init_def)
  moreover have "bread_post (dom h) s n b s'"
    using run assms(3,4) by (auto simp: bio_inv_def intro: bread_RetD)
  ultimately show ?thesis using run by (simp add: bread_post_def)
qed

theorem bcache_coherent_witness:
  "\<exists>b s. bread 1 2 (binit (fresh_bio demo_img)) = Ret (b, s) \<and> b_data (bufs s b) = replicate BSIZE 7"
proof -
  obtain b s where b: "bread 1 2 (binit (fresh_bio demo_img)) = Ret (b, s)"
    by (rule bread_spec [OF demo_bio_ok(3), of 2]) (auto simp: demo_bio_ok(2,4))
  have "bio_run (binit (fresh_bio demo_img), Map.empty) [] (binit (fresh_bio demo_img), Map.empty)" by (rule run_nil)
  from bcache_coherent [OF demo_bio_ok(1) this _ b]
  have "b_data (bufs s b) = memdisk (bdisk (binit (fresh_bio demo_img))) 2" by (simp add: demo_bio_ok(2) replay_def)
  also have "\<dots> = replicate BSIZE 7" unfolding demo_bio_ok(7) by (simp add: ideinit_def)
  finally show ?thesis using b by blast
qed

end
