(* ===== verification/Log.thy ===== *)
theory Log
  imports Bio
begin

section \<open>The redo log (log.c)\<close>

text \<open>
  A transaction collects the blocks changed by the file-system calls in progress; \<open>commit\<close> copies
  them to the log on disk, writes the header (the commit point), installs them at home and clears
  the header. At boot \<open>recover_from_log\<close> repeats the installation of a committed transaction.

  \<open>log.lock\<close> makes \<open>begin_op\<close>, \<open>log_write\<close> and the two parts of \<open>end_op\<close> atomic. The header block
  is read and written through its little-endian layout: \<open>n\<close> at byte 0, \<open>block[i]\<close> at byte 4 + 4i.
  An index of \<open>lh.block\<close> beyond LOGSIZE is a \<open>Fault\<close>. \<open>readsb\<close> of \<open>fs.c\<close> stands here since
  \<open>initlog\<close> calls it.

  The lemmas give the exact sequence of disk writes of a commit and of a recovery; a crash keeps a
  prefix of such a sequence.
\<close>

subsection \<open>State and operations\<close>

record superblock =
  sb_size :: uint
  sb_nblocks :: uint
  sb_ninodes :: uint
  sb_nlog :: uint
  sb_logstart :: uint
  sb_inodestart :: uint
  sb_bmapstart :: uint

definition sb_of_bytes :: "block \<Rightarrow> superblock" where
  "sb_of_bytes d = \<lparr>sb_size = get32 d 0, sb_nblocks = get32 d 4, sb_ninodes = get32 d 8,
     sb_nlog = get32 d 12, sb_logstart = get32 d 16, sb_inodestart = get32 d 20,
     sb_bmapstart = get32 d 24\<rparr>"

definition readsb :: "uint \<Rightarrow> bio \<Rightarrow> (superblock \<times> bio) res" where
  "readsb dev s =
     bindr (bread dev 1 s) (\<lambda>(bp, s).
     let sb = sb_of_bytes (b_data (bufs s bp)) in
     bindr (brelse bp s) (\<lambda>s. Ret (sb, s)))"

record log =
  l_start :: uint
  l_size :: int
  l_outstanding :: int
  l_committing :: bool
  l_dev :: uint
  lh_n :: int
  lh_block :: "uint list"

fun install_loop :: "nat \<Rightarrow> nat \<Rightarrow> log \<Rightarrow> bio \<Rightarrow> bio res" where
  "install_loop 0 tail lg s = Ret s"
| "install_loop (Suc k) tail lg s =
     (if tail \<ge> LOGSIZE then Fault ''log.lh.block''
      else bindr (bread (l_dev lg) (l_start lg + of_nat tail + 1) s) (\<lambda>(lbuf, s).
        bindr (bread (l_dev lg) (lh_block lg ! tail) s) (\<lambda>(dbuf, s).
        let s = upd_buf dbuf (\<lambda>b. b\<lparr>b_data := b_data (bufs s lbuf)\<rparr>) s in
        bindr (bwrite dbuf s) (\<lambda>s.
        bindr (brelse lbuf s) (\<lambda>s.
        bindr (brelse dbuf s) (\<lambda>s. install_loop k (Suc tail) lg s))))))"

definition install_trans :: "log \<Rightarrow> bio \<Rightarrow> bio res" where
  "install_trans lg s = install_loop (nat (lh_n lg)) 0 lg s"

fun read_head_loop :: "nat \<Rightarrow> nat \<Rightarrow> block \<Rightarrow> uint list \<Rightarrow> uint list res" where
  "read_head_loop 0 i d bs = Ret bs"
| "read_head_loop (Suc k) i d bs =
     (if i \<ge> LOGSIZE then Fault ''log.lh.block''
      else read_head_loop k (Suc i) d (bs[i := get32 d (4 + 4 * i)]))"

definition read_head :: "log \<Rightarrow> bio \<Rightarrow> (log \<times> bio) res" where
  "read_head lg s =
     bindr (bread (l_dev lg) (l_start lg) s) (\<lambda>(buf, s).
     let d = b_data (bufs s buf); n = sint (get32 d 0) in
     bindr (read_head_loop (nat n) 0 d (lh_block lg)) (\<lambda>bs.
     bindr (brelse buf s) (\<lambda>s. Ret (lg\<lparr>lh_n := n, lh_block := bs\<rparr>, s))))"

fun write_head_loop :: "nat \<Rightarrow> nat \<Rightarrow> uint list \<Rightarrow> block \<Rightarrow> block res" where
  "write_head_loop 0 i bs d = Ret d"
| "write_head_loop (Suc k) i bs d =
     (if i \<ge> LOGSIZE then Fault ''log.lh.block''
      else write_head_loop k (Suc i) bs (put32 d (4 + 4 * i) (bs ! i)))"

definition write_head :: "log \<Rightarrow> bio \<Rightarrow> bio res" where
  "write_head lg s =
     bindr (bread (l_dev lg) (l_start lg) s) (\<lambda>(buf, s).
     bindr (write_head_loop (nat (lh_n lg)) 0 (lh_block lg)
              (put32 (b_data (bufs s buf)) 0 (word_of_int (lh_n lg)))) (\<lambda>d.
     let s = upd_buf buf (\<lambda>b. b\<lparr>b_data := d\<rparr>) s in
     bindr (bwrite buf s) (\<lambda>s. brelse buf s)))"

definition recover_from_log :: "log \<Rightarrow> bio \<Rightarrow> (log \<times> bio) res" where
  "recover_from_log lg s =
     bindr (read_head lg s) (\<lambda>(lg, s).
     bindr (install_trans lg s) (\<lambda>s.
     let lg = lg\<lparr>lh_n := 0\<rparr> in
     bindr (write_head lg s) (\<lambda>s. Ret (lg, s))))"

definition initlog :: "uint \<Rightarrow> log \<Rightarrow> bio \<Rightarrow> (log \<times> bio) res" where
  "initlog dev lg s =
     (if (1 + LOGSIZE) * 4 \<ge> BSIZE then Panic ''initlog: too big logheader''
      else bindr (readsb dev s) (\<lambda>(sb, s).
        recover_from_log (lg\<lparr>l_start := sb_logstart sb, l_size := sint (sb_nlog sb), l_dev := dev\<rparr>) s))"

definition begin_op :: "log \<Rightarrow> log res" where
  "begin_op lg =
     (if l_committing lg then Sleep ChanLog
      else if lh_n lg + (l_outstanding lg + 1) * int MAXOPBLOCKS > int LOGSIZE then Sleep ChanLog
      else Ret (lg\<lparr>l_outstanding := l_outstanding lg + 1\<rparr>))"

fun write_log_loop :: "nat \<Rightarrow> nat \<Rightarrow> log \<Rightarrow> bio \<Rightarrow> bio res" where
  "write_log_loop 0 tail lg s = Ret s"
| "write_log_loop (Suc k) tail lg s =
     (if tail \<ge> LOGSIZE then Fault ''log.lh.block''
      else bindr (bread (l_dev lg) (l_start lg + of_nat tail + 1) s) (\<lambda>(to, s).
        bindr (bread (l_dev lg) (lh_block lg ! tail) s) (\<lambda>(from, s).
        let s = upd_buf to (\<lambda>b. b\<lparr>b_data := b_data (bufs s from)\<rparr>) s in
        bindr (bwrite to s) (\<lambda>s.
        bindr (brelse from s) (\<lambda>s.
        bindr (brelse to s) (\<lambda>s. write_log_loop k (Suc tail) lg s))))))"

definition write_log :: "log \<Rightarrow> bio \<Rightarrow> bio res" where
  "write_log lg s = write_log_loop (nat (lh_n lg)) 0 lg s"

definition commit :: "log \<Rightarrow> bio \<Rightarrow> (log \<times> bio) res" where
  "commit lg s =
     (if lh_n lg > 0 then
        bindr (write_log lg s) (\<lambda>s.
        bindr (write_head lg s) (\<lambda>s.
        bindr (install_trans lg s) (\<lambda>s.
        let lg = lg\<lparr>lh_n := 0\<rparr> in
        bindr (write_head lg s) (\<lambda>s. Ret (lg, s)))))
      else Ret (lg, s))"

text \<open>\<open>end_op\<close>: the part before the commit, which says whether to commit, and the part after it.\<close>

definition end_op_enter :: "log \<Rightarrow> bio \<Rightarrow> (bool \<times> log \<times> bio) res" where
  "end_op_enter lg s =
     (let lg = lg\<lparr>l_outstanding := l_outstanding lg - 1\<rparr> in
      if l_committing lg then Panic ''log.committing''
      else if l_outstanding lg = 0 then Ret (True, lg\<lparr>l_committing := True\<rparr>, s)
      else Ret (False, lg, s\<lparr>woken := woken s @ [ChanLog]\<rparr>))"

definition end_op_leave :: "log \<Rightarrow> bio \<Rightarrow> log \<times> bio" where
  "end_op_leave lg s = (lg\<lparr>l_committing := False\<rparr>, s\<lparr>woken := woken s @ [ChanLog]\<rparr>)"

definition end_op :: "log \<Rightarrow> bio \<Rightarrow> (log \<times> bio) res" where
  "end_op lg s =
     bindr (end_op_enter lg s) (\<lambda>(do_commit, lg, s).
     if do_commit then bindr (commit lg s) (\<lambda>(lg, s). Ret (end_op_leave lg s))
     else Ret (lg, s))"

fun log_scan :: "nat \<Rightarrow> nat \<Rightarrow> uint list \<Rightarrow> uint \<Rightarrow> nat" where
  "log_scan 0 i bs bn = i"
| "log_scan (Suc k) i bs bn = (if bs ! i = bn then i else log_scan k (Suc i) bs bn)"

definition log_write :: "nat \<Rightarrow> log \<Rightarrow> bio \<Rightarrow> (log \<times> bio) res" where
  "log_write b lg s =
     (if lh_n lg \<ge> int LOGSIZE \<or> lh_n lg \<ge> l_size lg - 1 then Panic ''too big a transaction''
      else if l_outstanding lg < 1 then Panic ''log_write outside of trans''
      else let bn = b_blockno (bufs s b);
               i = log_scan (nat (lh_n lg)) 0 (lh_block lg) bn;
               lg = lg\<lparr>lh_block := (lh_block lg)[i := bn]\<rparr>;
               lg = (if int i = lh_n lg then lg\<lparr>lh_n := lh_n lg + 1\<rparr> else lg)
           in Ret (lg, upd_buf b (\<lambda>x. x\<lparr>b_dirty := True\<rparr>) s))"

subsection \<open>Copying a block through two buffers\<close>

definition releasable :: "bio \<Rightarrow> uint \<Rightarrow> nat \<Rightarrow> bool" where
  "releasable s n i \<longleftrightarrow> caches s n i \<and> b_valid (bufs s i)
     \<and> (b_dirty (bufs s i) \<or> b_data (bufs s i) = memdisk (bdisk s) n)"

lemma brelse_releasable:
  assumes "bcache_ok H s" and "i \<in> H" and "releasable s n i"
  obtains s' where "brelse i s = Ret s'" and "bcache_ok (H - {i}) s'" and "blk s' = blk s"
    and "dirty s' = dirty s" and "dblocks s' = dblocks s" and "bdisk s' = bdisk s"
    and "\<And>m j. j \<noteq> i \<Longrightarrow> releasable s m j \<Longrightarrow> releasable s' m j"
    and "\<And>m j. j \<noteq> i \<Longrightarrow> caches s' m j = caches s m j"
proof -
  obtain s' where s': "brelse i s = Ret s'" "bcache_ok (H - {i}) s'" "blk s' = blk s" "dirty s' = dirty s"
      "dblocks s' = dblocks s" "bdisk s' = bdisk s"
      "\<And>j. body (bufs s' j) = body (if j = i then (bufs s i)\<lparr>b_busy := False\<rparr> else bufs s j)"
    using brelse_spec [OF assms(1,2)] assms(3) unfolding releasable_def by blast
  have f: "b_dev (bufs s' j) = b_dev (bufs s j)" "b_blockno (bufs s' j) = b_blockno (bufs s j)"
      "b_valid (bufs s' j) = b_valid (bufs s j)" "b_dirty (bufs s' j) = b_dirty (bufs s j)"
      "b_data (bufs s' j) = b_data (bufs s j)" if "j \<noteq> i" for j
    using body_fields [OF s'(7) [of j]] that by simp_all
  show thesis
    by (rule that [OF s'(1-6)]) (auto simp: releasable_def caches_def f s'(6))
qed

lemma brelse_two:
  assumes "bcache_ok {i, j} s" and "i \<noteq> j" and "releasable s m i" and "releasable s n j"
  shows "\<exists>t u. brelse i s = Ret t \<and> brelse j t = Ret u \<and> bcache_ok {} u \<and> blk u = blk s
    \<and> dblocks u = dblocks s \<and> bdisk u = bdisk s"
proof -
  obtain t where t: "brelse i s = Ret t" "bcache_ok ({i, j} - {i}) t" "blk t = blk s"
      "dblocks t = dblocks s" "bdisk t = bdisk s" "releasable t n j"
    using brelse_releasable [OF assms(1) _ assms(3)] assms(2,4) by (metis insertI1)
  have "{i, j} - {i} = {j}" using assms(2) by auto
  then have "bcache_ok {j} t" using t(2) by simp
  then obtain u where u: "brelse j t = Ret u" "bcache_ok ({j} - {j}) u" "blk u = blk t"
      "dblocks u = dblocks t" "bdisk u = bdisk t"
    using brelse_releasable [OF _ _ t(6)] by (metis insertI1)
  show ?thesis using t u by auto
qed

lemma copy_bwrite:
  assumes "bcache_ok H s" and "i \<in> H" and "j \<in> H" and "caches s m i" and "caches s n j" and "m \<noteq> n"
    and "b_valid (bufs s i)" and "b_valid (bufs s j)"
    and "releasable s m i"
  obtains t where "bwrite j (upd_buf j (\<lambda>b. b\<lparr>b_data := b_data (bufs s i)\<rparr>) s) = Ret t"
    and "bcache_ok H t" and "blk t = (blk s)(n := b_data (bufs s i))" and "dblocks t = dblocks s - {n}"
    and "bdisk t = (bdisk s)\<lparr>memdisk := (memdisk (bdisk s))(n := b_data (bufs s i)),
           dwrites := dwrites (bdisk s) @ [(n, b_data (bufs s i))]\<rparr>"
    and "releasable t m i" and "releasable t n j"
proof -
  let ?v = "b_data (bufs s i)"
  let ?f = "\<lambda>b. b\<lparr>b_data := ?v\<rparr> :: buf"
  let ?u = "upd_buf j ?f s"
  have ij: "i \<noteq> j" using assms(4-6) by (auto simp: caches_def)
  have "i < NBUF" using bcache_okD(3) [OF assms(1), of i] assms(2) by simp
  then have l: "length ?v = BSIZE" using bcache_okD(4) [OF assms(1)] assms(7) by (auto simp: buf_ok_def)
  have u: "bcache_ok H ?u" "blk ?u = (blk s)(n := ?v)"
    using held_upd [OF assms(1,3,5,8), of ?f] l by simp_all
  have c: "caches ?u n j" "b_valid (bufs ?u j)" using assms(5,8) by (simp_all add: caches_def)
  have "dirty ?u = dirty s" by (auto simp: dirty_def upd_buf_def)
  then have d: "dblocks ?u = dblocks s" by (rule dblocks_cong) (auto simp: upd_buf_def)
  obtain t where t: "bwrite j ?u = Ret t" "bcache_ok H t" "blk t = blk ?u" "dblocks t = dblocks ?u - {n}"
      "memdisk (bdisk t) = (memdisk (bdisk ?u))(n := b_data (bufs ?u j))"
      "dwrites (bdisk t) = dwrites (bdisk ?u) @ [(n, b_data (bufs ?u j))]"
      "disksize (bdisk t) = disksize (bdisk ?u)"
      "bufs t = (bufs ?u)(j := (bufs ?u j)\<lparr>b_dirty := False\<rparr>)"
    using bwrite_spec [OF u(1) assms(3) c] by blast
  have dk: "bdisk t = (bdisk s)\<lparr>memdisk := (memdisk (bdisk s))(n := ?v),
           dwrites := dwrites (bdisk s) @ [(n, ?v)]\<rparr>"
    using t(5-7) by (intro disk.equality) simp_all
  have "releasable t m i"
    using assms(9,6) ij t(8) dk by (auto simp: releasable_def caches_def upd_buf_def)
  moreover have "releasable t n j"
    using assms(5,8) t(8) dk by (simp add: releasable_def caches_def)
  ultimately show thesis using t u d dk by (intro that [of t]) simp_all
qed

text \<open>
  \<open>copied\<close>: what copying block \<open>m\<close> onto block \<open>n\<close> leaves behind when no buffer is held.
\<close>

definition copied :: "uint \<Rightarrow> uint \<Rightarrow> bio \<Rightarrow> bio \<Rightarrow> bool" where
  "copied m n s t \<longleftrightarrow> bcache_ok {} t \<and> blk t = (blk s)(n := blk s m) \<and> dblocks t = dblocks s - {n}
     \<and> bdisk t = (bdisk s)\<lparr>memdisk := (memdisk (bdisk s))(n := blk s m),
           dwrites := dwrites (bdisk s) @ [(n, blk s m)]\<rparr>"

lemma bread_post_held:
  assumes "bread_post H s n i t"
  shows "bcache_ok (insert i H) t" "caches t n i" "b_valid (bufs t i)" "b_data (bufs t i) = blk s n"
    "\<And>j. j \<noteq> i \<Longrightarrow> bufs t j = bufs s j" "blk t = blk s" "dirty t = dirty s" "dblocks t = dblocks s"
    "bdisk t = bdisk s" "i \<notin> H" "i < NBUF" "woken t = woken s"
  using assms by (auto simp: bread_post_def)

lemma bread_releasable:
  assumes "bcache_ok {} s0" and "bread_post H s n i t"
    and "blk s = blk s0" and "dblocks s = dblocks s0" and "bdisk s = bdisk s0"
  shows "releasable t n i"
proof -
  note p = bread_post_held [OF assms(2)]
  have "b_data (bufs t i) = memdisk (bdisk t) n" if "\<not> b_dirty (bufs t i)"
  proof -
    have "n \<notin> dblocks t"
    proof
      assume "n \<in> dblocks t"
      then obtain k where k: "k < NBUF" "caches t n k" "b_dirty (bufs t k)"
        using dblocks_cached [OF p(1)] by blast
      then have "k = i" using bcache_okD(5) [OF p(1) k(1) p(11) k(2) p(2)] by simp
      then show False using k that by simp
    qed
    then show ?thesis using clean_blk [OF assms(1)] assms(3-5) p by simp
  qed
  then show ?thesis using p by (auto simp: releasable_def)
qed

lemma first_bread:
  assumes "bcache_ok {} s" and "n < disksize (bdisk s)" and "card (dblocks s) < NBUF"
  obtains i t where "bread 1 n s = Ret (i, t)" and "bread_post {} s n i t"
  using bread_spec [OF assms(1,2)] assms(3) card_dblocks [OF assms(1)] by auto

lemma second_bread:
  assumes "bcache_ok {i} s" and "caches s m i" and "m \<noteq> n" and "n < disksize (bdisk s)"
    and "n \<in> dblocks s \<or> card (dblocks s) + 1 < NBUF"
  obtains j t where "bread 1 n s = Ret (j, t)" and "bread_post {i} s n j t"
proof -
  have nc: "\<not> caches s n i" using assms(2,3) by (auto simp: caches_def)
  show thesis
  proof (cases "n \<in> dblocks s")
    case True
    then obtain k where k: "k < NBUF" "caches s n k" using dblocks_cached [OF assms(1)] by blast
    then have "k \<notin> {i}" using nc by auto
    then show thesis using bread_cached [OF assms(1,4) k(1) _ k(2)] that by blast
  next
    case False
    have "card ({i} \<union> dirty s) \<le> 1 + card (dirty s)" using card_Un_le [of "{i}" "dirty s"] by simp
    then have "card ({i} \<union> dirty s) < NBUF" using False assms(5) card_dblocks [OF assms(1)] by simp
    then show thesis using bread_spec [OF assms(1,4)] nc that by blast
  qed
qed

text \<open>One turn of \<open>install_trans\<close> and one turn of \<open>write_log\<close>.\<close>

lemma install_step:
  assumes "bcache_ok {} s" and "l_dev lg = 1" and "tail < LOGSIZE"
    and "m = l_start lg + of_nat tail + 1" and "n = lh_block lg ! tail" and "m \<noteq> n"
    and "m < disksize (bdisk s)" and "n < disksize (bdisk s)" and "card (dblocks s) < NBUF"
    and "n \<in> dblocks s \<or> card (dblocks s) + 1 < NBUF"
  shows "\<exists>t. install_loop (Suc k) tail lg s = install_loop k (Suc tail) lg t \<and> copied m n s t"
proof -
  obtain i s1 where i: "bread 1 m s = Ret (i, s1)" "bread_post {} s m i s1"
    using first_bread [OF assms(1,7,9)] by blast
  note p = bread_post_held [OF i(2)]
  obtain j s2 where j: "bread 1 n s1 = Ret (j, s2)" "bread_post {i} s1 n j s2"
    using second_bread [OF p(1) p(2) assms(6)] assms(8,10) p by auto
  note q = bread_post_held [OF j(2)]
  have ij: "i \<noteq> j" using q(10) by auto
  have same: "bufs s2 i = bufs s1 i" using q(5) ij by auto
  have ri: "releasable s2 m i"
    using bread_releasable [OF assms(1) i(2) refl refl refl] same q(9) by (simp add: releasable_def caches_def)
  have v: "b_data (bufs s2 i) = blk s m" using same p(4) by simp
  have ci: "caches s2 m i" "b_valid (bufs s2 i)" using p same by (simp_all add: caches_def)
  obtain s3 where s3: "bwrite j (upd_buf j (\<lambda>b. b\<lparr>b_data := b_data (bufs s2 i)\<rparr>) s2) = Ret s3"
      "bcache_ok {j, i} s3" "blk s3 = (blk s2)(n := b_data (bufs s2 i))" "dblocks s3 = dblocks s2 - {n}"
      "bdisk s3 = (bdisk s2)\<lparr>memdisk := (memdisk (bdisk s2))(n := b_data (bufs s2 i)),
           dwrites := dwrites (bdisk s2) @ [(n, b_data (bufs s2 i))]\<rparr>"
      "releasable s3 m i" "releasable s3 n j"
    using copy_bwrite [OF q(1) _ _ ci(1) q(2) assms(6) ci(2) q(3) ri] by (metis insertI1 insertI2)
  have "bcache_ok {i, j} s3" using s3(2) by (simp add: insert_commute)
  then obtain s4 s5 where "brelse i s3 = Ret s4" "brelse j s4 = Ret s5" "bcache_ok {} s5" "blk s5 = blk s3"
      "dblocks s5 = dblocks s3" "bdisk s5 = bdisk s3"
    using brelse_two [OF _ ij s3(6,7)] by blast
  moreover from this have "copied m n s s5"
    using s3 p q v by (simp add: copied_def)
  ultimately show ?thesis
    using i(1) j(1) s3(1) assms(2-5) by (auto simp: Let_def)
qed

lemma write_log_step:
  assumes "bcache_ok {} s" and "l_dev lg = 1" and "tail < LOGSIZE"
    and "m = lh_block lg ! tail" and "n = l_start lg + of_nat tail + 1" and "m \<noteq> n"
    and "m < disksize (bdisk s)" and "n < disksize (bdisk s)" and "card (dblocks s) < NBUF"
    and "m \<in> dblocks s \<or> card (dblocks s) + 1 < NBUF"
  shows "\<exists>t. write_log_loop (Suc k) tail lg s = write_log_loop k (Suc tail) lg t \<and> copied m n s t"
proof -
  obtain i s1 where i: "bread 1 n s = Ret (i, s1)" "bread_post {} s n i s1"
    using first_bread [OF assms(1,8,9)] by blast
  note p = bread_post_held [OF i(2)]
  obtain j s2 where j: "bread 1 m s1 = Ret (j, s2)" "bread_post {i} s1 m j s2"
    using second_bread [OF p(1) p(2) assms(6) [symmetric]] assms(7,10) p by auto
  note q = bread_post_held [OF j(2)]
  have ij: "j \<noteq> i" using q(10) by auto
  have same: "bufs s2 i = bufs s1 i" using q(5) ij by auto
  have rj: "releasable s2 m j" by (rule bread_releasable [OF assms(1) j(2) p(6,8,9)])
  have v: "b_data (bufs s2 j) = blk s m" using q(4) p(6) by simp
  have ci: "caches s2 n i" "b_valid (bufs s2 i)" using p same by (simp_all add: caches_def)
  obtain s3 where s3: "bwrite i (upd_buf i (\<lambda>b. b\<lparr>b_data := b_data (bufs s2 j)\<rparr>) s2) = Ret s3"
      "bcache_ok {j, i} s3" "blk s3 = (blk s2)(n := b_data (bufs s2 j))" "dblocks s3 = dblocks s2 - {n}"
      "bdisk s3 = (bdisk s2)\<lparr>memdisk := (memdisk (bdisk s2))(n := b_data (bufs s2 j)),
           dwrites := dwrites (bdisk s2) @ [(n, b_data (bufs s2 j))]\<rparr>"
      "releasable s3 m j" "releasable s3 n i"
    using copy_bwrite [OF q(1) _ _ q(2) ci(1) assms(6) q(3) ci(2) rj] by (metis insertI1 insertI2)
  obtain s4 s5 where "brelse j s3 = Ret s4" "brelse i s4 = Ret s5" "bcache_ok {} s5" "blk s5 = blk s3"
      "dblocks s5 = dblocks s3" "bdisk s5 = bdisk s3"
    using brelse_two [OF s3(2) ij s3(6,7)] by blast
  moreover from this have "copied m n s s5"
    using s3 p q v by (simp add: copied_def)
  ultimately show ?thesis
    using i(1) j(1) s3(1) assms(2-5) by (auto simp: Let_def)
qed

subsection \<open>The loops as sequences of copies\<close>

fun copies :: "(uint \<times> uint) list \<Rightarrow> bio \<Rightarrow> bio \<Rightarrow> bool" where
  "copies [] s t \<longleftrightarrow> s = t"
| "copies ((m, n) # ps) s t \<longleftrightarrow> (\<exists>u. copied m n s u \<and> copies ps u t)"

definition room :: "uint set \<Rightarrow> bio \<Rightarrow> bool" where
  "room N s \<longleftrightarrow> card (dblocks s) < NBUF \<and> (\<forall>n \<in> N. n \<in> dblocks s \<or> card (dblocks s) + 1 < NBUF)"

lemma copied_disksize: "copied m n s t \<Longrightarrow> disksize (bdisk t) = disksize (bdisk s)"
  by (simp add: copied_def)

lemma room_copied:
  assumes "room N s" and "bcache_ok {} s" and "copied m n s t" and "n \<in> N \<or> n \<notin> dblocks s"
  shows "room N t"
proof -
  have fin: "finite (dblocks s)" by (rule card_dblocks(2) [OF assms(2)])
  have d: "dblocks t = dblocks s - {n}" using assms(3) by (simp add: copied_def)
  show ?thesis
  proof (cases "n \<in> dblocks s")
    case True
    then have "Suc (card (dblocks t)) = card (dblocks s)" using card_Suc_Diff1 [OF fin True] d by simp
    then have "card (dblocks t) + 1 < NBUF" using assms(1) unfolding room_def by linarith
    then show ?thesis unfolding room_def by simp
  next
    case False
    then have "dblocks t = dblocks s" using d by simp
    then show ?thesis using assms(1) unfolding room_def by simp
  qed
qed

definition logblock :: "log \<Rightarrow> nat \<Rightarrow> uint" where
  "logblock lg i = l_start lg + of_nat i + 1"

lemma install_loop_copies:
  assumes "bcache_ok {} s" and "l_dev lg = 1" and "tail + k \<le> LOGSIZE"
    and "\<And>i. tail \<le> i \<Longrightarrow> i < tail + k \<Longrightarrow> logblock lg i \<noteq> lh_block lg ! i
        \<and> logblock lg i < disksize (bdisk s) \<and> lh_block lg ! i < disksize (bdisk s)"
    and "room N s" and "\<And>i. tail \<le> i \<Longrightarrow> i < tail + k \<Longrightarrow> lh_block lg ! i \<in> N"
  shows "\<exists>t. install_loop k tail lg s = Ret t
    \<and> copies (map (\<lambda>i. (logblock lg i, lh_block lg ! i)) [tail..<tail + k]) s t"
  using assms
proof (induction k arbitrary: tail s)
  case (Suc k)
  let ?m = "logblock lg tail" and ?n = "lh_block lg ! tail"
  have b: "?m \<noteq> ?n" "?m < disksize (bdisk s)" "?n < disksize (bdisk s)" "?n \<in> N"
    using Suc.prems(4) [of tail] Suc.prems(6) [of tail] by auto
  have r: "card (dblocks s) < NBUF" "?n \<in> dblocks s \<or> card (dblocks s) + 1 < NBUF"
    using Suc.prems(5) b(4) by (auto simp: room_def)
  obtain u where u: "install_loop (Suc k) tail lg s = install_loop k (Suc tail) lg u" "copied ?m ?n s u"
    using install_step [OF Suc.prems(1,2) _ _ refl b(1-3) r] Suc.prems(3) by (auto simp: logblock_def)
  have "\<exists>t. install_loop k (Suc tail) lg u = Ret t
      \<and> copies (map (\<lambda>i. (logblock lg i, lh_block lg ! i)) [Suc tail..<Suc tail + k]) u t"
  proof (rule Suc.IH)
    show "bcache_ok {} u" using u(2) by (simp add: copied_def)
    show "room N u" by (rule room_copied [OF Suc.prems(5,1) u(2)]) (use b(4) in simp)
  qed (use Suc.prems copied_disksize [OF u(2)] in auto)
  moreover have "[tail..<tail + Suc k] = tail # [Suc tail..<Suc tail + k]"
    by (simp add: upt_conv_Cons)
  ultimately show ?case using u by auto
qed simp

lemma write_log_loop_copies:
  assumes "bcache_ok {} s" and "l_dev lg = 1" and "tail + k \<le> LOGSIZE"
    and "\<And>i. tail \<le> i \<Longrightarrow> i < tail + k \<Longrightarrow> lh_block lg ! i \<noteq> logblock lg i
        \<and> logblock lg i < disksize (bdisk s) \<and> lh_block lg ! i < disksize (bdisk s)
        \<and> logblock lg i \<notin> dblocks s"
    and "room N s" and "\<And>i. tail \<le> i \<Longrightarrow> i < tail + k \<Longrightarrow> lh_block lg ! i \<in> N"
  shows "\<exists>t. write_log_loop k tail lg s = Ret t
    \<and> copies (map (\<lambda>i. (lh_block lg ! i, logblock lg i)) [tail..<tail + k]) s t"
  using assms
proof (induction k arbitrary: tail s)
  case (Suc k)
  let ?m = "lh_block lg ! tail" and ?n = "logblock lg tail"
  have b: "?m \<noteq> ?n" "?m < disksize (bdisk s)" "?n < disksize (bdisk s)" "?m \<in> N" "?n \<notin> dblocks s"
    using Suc.prems(4) [of tail] Suc.prems(6) [of tail] by auto
  have r: "card (dblocks s) < NBUF" "?m \<in> dblocks s \<or> card (dblocks s) + 1 < NBUF"
    using Suc.prems(5) b(4) by (auto simp: room_def)
  obtain u where u: "write_log_loop (Suc k) tail lg s = write_log_loop k (Suc tail) lg u" "copied ?m ?n s u"
    using write_log_step [OF Suc.prems(1,2) _ refl _ b(1-3) r] Suc.prems(3) by (auto simp: logblock_def)
  have "\<exists>t. write_log_loop k (Suc tail) lg u = Ret t
      \<and> copies (map (\<lambda>i. (lh_block lg ! i, logblock lg i)) [Suc tail..<Suc tail + k]) u t"
  proof (rule Suc.IH)
    show "bcache_ok {} u" using u(2) by (simp add: copied_def)
    show "room N u" by (rule room_copied [OF Suc.prems(5,1) u(2)]) (use b(5) in simp)
    have "dblocks u \<subseteq> dblocks s" using u(2) by (auto simp: copied_def)
    then show "lh_block lg ! i \<noteq> logblock lg i \<and> logblock lg i < disksize (bdisk u)
        \<and> lh_block lg ! i < disksize (bdisk u) \<and> logblock lg i \<notin> dblocks u"
      if "Suc tail \<le> i" "i < Suc tail + k" for i
      using Suc.prems(4) [of i] that copied_disksize [OF u(2)] by auto
  qed (use Suc.prems in auto)
  moreover have "[tail..<tail + Suc k] = tail # [Suc tail..<Suc tail + k]"
    by (simp add: upt_conv_Cons)
  ultimately show ?case using u by auto
qed simp

text \<open>A sequence of copies whose targets are not sources is the replay of its writes.\<close>

lemma replay_simps [simp]: "replay f [] = f" "replay f (w # ws) = replay (f(fst w := snd w)) ws"
  "replay f (ws @ vs) = replay (replay f ws) vs"
  by (auto simp: replay_def split_beta)

lemma replay_other: "n \<notin> fst ` set ws \<Longrightarrow> replay f ws n = f n"
  by (induction ws arbitrary: f) auto

lemma copies_writes:
  assumes "copies ps s t" and "bcache_ok {} s" and "fst ` set ps \<inter> snd ` set ps = {}"
    and "ws = map (\<lambda>(m, n). (n, blk s m)) ps"
  shows "bcache_ok {} t \<and> blk t = replay (blk s) ws \<and> dblocks t = dblocks s - snd ` set ps
    \<and> bdisk t = (bdisk s)\<lparr>memdisk := replay (memdisk (bdisk s)) ws, dwrites := dwrites (bdisk s) @ ws\<rparr>"
  using assms
proof (induction ps arbitrary: s ws)
  case Nil
  then show ?case by simp
next
  case (Cons p ps)
  obtain m n where p: "p = (m, n)" by (cases p)
  obtain u where u: "copied m n s u" "copies ps u t" using Cons.prems(1) p by auto
  have b: "blk u m' = blk s m'" if "m' \<in> fst ` set ps" for m'
    using u(1) Cons.prems(3) that p by (auto simp: copied_def)
  then have ws: "map (\<lambda>(m, n). (n, blk u m)) ps = map (\<lambda>(m, n). (n, blk s m)) ps"
    by (auto intro!: map_cong b) force
  have "bcache_ok {} u" "fst ` set ps \<inter> snd ` set ps = {}" using u(1) Cons.prems(3) by (auto simp: copied_def)
  note IH = Cons.IH [OF u(2) this refl]
  have "ws = (n, blk s m) # map (\<lambda>(m, n). (n, blk s m)) ps" using Cons.prems(4) p by simp
  moreover have "dblocks t = dblocks s - snd ` set (p # ps)" using IH u(1) p by (auto simp: copied_def)
  ultimately show ?case using IH u(1) unfolding ws by (simp add: copied_def del: fun_upd_apply)
qed

subsection \<open>The header block\<close>

definition hdr_n :: "block \<Rightarrow> int" where
  "hdr_n d = sint (get32 d 0)"

definition hdr_block :: "block \<Rightarrow> nat \<Rightarrow> uint" where
  "hdr_block d i = get32 d (4 + 4 * i)"

lemma sint_small: "0 \<le> n \<Longrightarrow> n < 2 ^ 31 \<Longrightarrow> sint (word_of_int n :: uint) = n"
  by (simp add: sint_sbintrunc' signed_take_bit_int_eq_self)

lemma read_head_loop_spec:
  assumes "i + k \<le> LOGSIZE" and "length bs = LOGSIZE"
  shows "\<exists>bs'. read_head_loop k i d bs = Ret bs' \<and> length bs' = LOGSIZE
    \<and> (\<forall>j. i \<le> j \<and> j < i + k \<longrightarrow> bs' ! j = hdr_block d j) \<and> (\<forall>j < i. bs' ! j = bs ! j)"
  using assms
proof (induction k arbitrary: i bs)
  case (Suc k)
  let ?bs = "bs[i := hdr_block d i]"
  obtain bs' where bs': "read_head_loop k (Suc i) d ?bs = Ret bs'" "length bs' = LOGSIZE"
      "\<forall>j. Suc i \<le> j \<and> j < Suc i + k \<longrightarrow> bs' ! j = hdr_block d j" "\<forall>j < Suc i. bs' ! j = ?bs ! j"
    using Suc.IH [of "Suc i" ?bs] Suc.prems by auto
  have "bs' ! j = hdr_block d j" if "i \<le> j" "j < i + Suc k" for j
    using that bs'(3,4) Suc.prems by (cases "j = i") auto
  with bs' Suc.prems show ?case by (auto simp: hdr_block_def)
qed auto

lemma write_head_loop_spec:
  assumes "i + k \<le> LOGSIZE" and "length d = BSIZE"
  shows "\<exists>d'. write_head_loop k i bs d = Ret d' \<and> length d' = BSIZE \<and> get32 d' 0 = get32 d 0
    \<and> (\<forall>j. i \<le> j \<and> j < i + k \<longrightarrow> hdr_block d' j = bs ! j) \<and> (\<forall>j < i. hdr_block d' j = hdr_block d j)"
  using assms
proof (induction k arbitrary: i d)
  case (Suc k)
  let ?d = "put32 d (4 + 4 * i) (bs ! i)"
  obtain d' where d': "write_head_loop k (Suc i) bs ?d = Ret d'" "length d' = BSIZE" "get32 d' 0 = get32 ?d 0"
      "\<forall>j. Suc i \<le> j \<and> j < Suc i + k \<longrightarrow> hdr_block d' j = bs ! j" "\<forall>j < Suc i. hdr_block d' j = hdr_block ?d j"
    using Suc.IH [of "Suc i" ?d] Suc.prems by auto
  have i: "hdr_block ?d i = bs ! i" using Suc.prems by (simp add: hdr_block_def)
  have o: "hdr_block ?d j = hdr_block d j" if "j < i" for j
    using that by (simp add: hdr_block_def get32_put32_diff)
  have "get32 ?d 0 = get32 d 0" by (simp add: get32_put32_diff)
  moreover have "hdr_block d' j = bs ! j" if "i \<le> j" "j < i + Suc k" for j
    using that d'(4,5) i by (cases "j = i") auto
  ultimately show ?case using d' o Suc.prems by auto
qed auto

text \<open>Reading and writing the header as a whole.\<close>

definition log_at :: "log \<Rightarrow> bio \<Rightarrow> bool" where
  "log_at lg s \<longleftrightarrow> l_dev lg = 1 \<and> l_start lg < disksize (bdisk s) \<and> length (lh_block lg) = LOGSIZE"

lemma read_head_spec:
  assumes "bcache_ok {} s" and "log_at lg s" and "card (dblocks s) < NBUF"
    and "hdr_n (blk s (l_start lg)) \<le> int LOGSIZE"
  obtains bs t where "read_head lg s = Ret (lg\<lparr>lh_n := hdr_n (blk s (l_start lg)), lh_block := bs\<rparr>, t)"
    and "length bs = LOGSIZE" and "\<And>i. int i < hdr_n (blk s (l_start lg)) \<Longrightarrow> bs ! i = hdr_block (blk s (l_start lg)) i"
    and "bcache_ok {} t" and "blk t = blk s" and "dblocks t = dblocks s" and "bdisk t = bdisk s"
proof -
  let ?h = "blk s (l_start lg)"
  have dv: "l_dev lg = 1" and st: "l_start lg < disksize (bdisk s)" and lb: "length (lh_block lg) = LOGSIZE"
    using assms(2) by (auto simp: log_at_def)
  obtain b s1 where b: "bread 1 (l_start lg) s = Ret (b, s1)" "bread_post {} s (l_start lg) b s1"
    using first_bread [OF assms(1) st assms(3)] by blast
  note p = bread_post_held [OF b(2)]
  obtain bs where bs: "read_head_loop (nat (hdr_n ?h)) 0 ?h (lh_block lg) = Ret bs" "length bs = LOGSIZE"
      "\<forall>j. 0 \<le> j \<and> j < 0 + nat (hdr_n ?h) \<longrightarrow> bs ! j = hdr_block ?h j"
    using read_head_loop_spec [of 0 "nat (hdr_n ?h)" "lh_block lg" ?h] assms(4) lb
    by (auto simp: nat_le_iff)
  obtain t where t: "brelse b s1 = Ret t" "bcache_ok ({b} - {b}) t" "blk t = blk s1" "dblocks t = dblocks s1"
      "bdisk t = bdisk s1"
    using brelse_releasable [OF p(1) insertI1 bread_releasable [OF assms(1) b(2) refl refl refl]] by metis
  show thesis
  proof (rule that)
    show "read_head lg s = Ret (lg\<lparr>lh_n := hdr_n ?h, lh_block := bs\<rparr>, t)"
      using b(1) bs(1) t(1) p(4) dv by (simp add: read_head_def Let_def hdr_n_def)
  qed (use bs t p in auto)
qed

lemma write_head_spec:
  assumes "bcache_ok {} s" and "log_at lg s" and "card (dblocks s) < NBUF"
    and "0 \<le> lh_n lg" and "lh_n lg \<le> int LOGSIZE"
  obtains d t where "write_head lg s = Ret t" and "length d = BSIZE" and "hdr_n d = lh_n lg"
    and "\<And>i. int i < lh_n lg \<Longrightarrow> hdr_block d i = lh_block lg ! i"
    and "bcache_ok {} t" and "blk t = (blk s)(l_start lg := d)" and "dblocks t = dblocks s - {l_start lg}"
    and "bdisk t = (bdisk s)\<lparr>memdisk := (memdisk (bdisk s))(l_start lg := d),
           dwrites := dwrites (bdisk s) @ [(l_start lg, d)]\<rparr>"
proof -
  let ?n = "l_start lg"
  have dv: "l_dev lg = 1" and st: "?n < disksize (bdisk s)" using assms(2) by (auto simp: log_at_def)
  obtain b s1 where b: "bread 1 ?n s = Ret (b, s1)" "bread_post {} s ?n b s1"
    using first_bread [OF assms(1) st assms(3)] by blast
  note p = bread_post_held [OF b(2)]
  have l: "length (blk s ?n) = BSIZE" by (rule length_blk [OF assms(1) st])
  let ?d0 = "put32 (blk s ?n) 0 (word_of_int (lh_n lg))"
  obtain d where d: "write_head_loop (nat (lh_n lg)) 0 (lh_block lg) ?d0 = Ret d" "length d = BSIZE"
      "get32 d 0 = get32 ?d0 0" "\<forall>j. 0 \<le> j \<and> j < 0 + nat (lh_n lg) \<longrightarrow> hdr_block d j = lh_block lg ! j"
    using write_head_loop_spec [of 0 "nat (lh_n lg)" ?d0 "lh_block lg"] assms(5) l
    by (auto simp: nat_le_iff)
  have "sint (word_of_int (lh_n lg) :: uint) = lh_n lg" using assms(4,5) by (intro sint_small) auto
  then have hn: "hdr_n d = lh_n lg" using d(3) l by (simp add: hdr_n_def)
  let ?f = "\<lambda>x. x\<lparr>b_data := d\<rparr> :: buf"
  let ?u = "upd_buf b ?f s1"
  have u: "bcache_ok {b} ?u" "blk ?u = (blk s1)(?n := d)"
    using held_upd [OF p(1) insertI1 p(2,3), of ?f] d(2) by simp_all
  have c: "caches ?u ?n b" "b_valid (bufs ?u b)" using p(2,3) by (simp_all add: caches_def)
  have "dirty ?u = dirty s1" by (auto simp: dirty_def upd_buf_def)
  then have du: "dblocks ?u = dblocks s1" by (rule dblocks_cong) (auto simp: upd_buf_def)
  obtain v where v: "bwrite b ?u = Ret v" "bcache_ok {b} v" "blk v = blk ?u" "dblocks v = dblocks ?u - {?n}"
      "memdisk (bdisk v) = (memdisk (bdisk ?u))(?n := b_data (bufs ?u b))"
      "dwrites (bdisk v) = dwrites (bdisk ?u) @ [(?n, b_data (bufs ?u b))]"
      "disksize (bdisk v) = disksize (bdisk ?u)"
      "bufs v = (bufs ?u)(b := (bufs ?u b)\<lparr>b_dirty := False\<rparr>)"
    using bwrite_spec [OF u(1) insertI1 c] by blast
  have dk: "bdisk v = (bdisk s)\<lparr>memdisk := (memdisk (bdisk s))(?n := d),
           dwrites := dwrites (bdisk s) @ [(?n, d)]\<rparr>"
    using v(5-7) p(9) by (intro disk.equality) simp_all
  have "releasable v ?n b" using c v(8) dk by (simp add: releasable_def caches_def)
  then obtain t where t: "brelse b v = Ret t" "bcache_ok ({b} - {b}) t" "blk t = blk v" "dblocks t = dblocks v"
      "bdisk t = bdisk v"
    using brelse_releasable [OF v(2) insertI1] by metis
  show thesis
  proof (rule that)
    show "write_head lg s = Ret t"
      using b(1) d(1) v(1) t(1) p(4) dv by (simp add: write_head_def Let_def)
  qed (use d hn t v u du p dk in auto)
qed

subsection \<open>The writes of a commit\<close>

definition logarea :: "log \<Rightarrow> uint set" where
  "logarea lg = (\<lambda>i. l_start lg + of_nat i) ` {..<nat (l_size lg)}"

definition tblocks :: "log \<Rightarrow> uint list" where
  "tblocks lg = take (nat (lh_n lg)) (lh_block lg)"

text \<open>
  A transaction in progress, with the buffers \<open>H\<close> held: the blocks it names are the dirty ones,
  none of them lies in the log area, they fit in the log, which is on the disk and no longer than
  LOGSIZE, and the header on disk is clear.
\<close>

definition trans_ok :: "nat set \<Rightarrow> log \<Rightarrow> bio \<Rightarrow> bool" where
  "trans_ok H lg s \<longleftrightarrow> bcache_ok H s \<and> log_at lg s \<and> 0 \<le> lh_n lg \<and> lh_n lg < l_size lg
     \<and> l_size lg \<le> int LOGSIZE \<and> (\<forall>b \<in> logarea lg. b < disksize (bdisk s))
     \<and> dblocks s = set (tblocks lg) \<and> distinct (tblocks lg) \<and> dblocks s \<inter> logarea lg = {}
     \<and> hdr_n (memdisk (bdisk s) (l_start lg)) = 0"

definition log_writes :: "log \<Rightarrow> bio \<Rightarrow> (uint \<times> block) list" where
  "log_writes lg s = map (\<lambda>i. (logblock lg i, blk s (lh_block lg ! i))) [0..<nat (lh_n lg)]"

definition home_writes :: "log \<Rightarrow> bio \<Rightarrow> (uint \<times> block) list" where
  "home_writes lg s = map (\<lambda>i. (lh_block lg ! i, blk s (lh_block lg ! i))) [0..<nat (lh_n lg)]"

lemma of_nat_inj32:
  assumes "(of_nat i :: uint) = of_nat j" and "i < 2 ^ 32" and "j < 2 ^ 32"
  shows "i = j"
proof -
  have "unat (of_nat i :: uint) = unat (of_nat j :: uint)" using assms(1) by simp
  then show ?thesis using assms(2,3) by (simp add: unat_of_nat)
qed

lemma logblock_inj: "logblock lg i = logblock lg j \<Longrightarrow> i < 2 ^ 32 \<Longrightarrow> j < 2 ^ 32 \<Longrightarrow> i = j"
  by (auto simp: logblock_def dest: of_nat_inj32)

lemma logblock_not_start: "Suc i < 2 ^ 32 \<Longrightarrow> logblock lg i \<noteq> l_start lg"
proof
  assume i: "Suc i < 2 ^ 32" and e: "logblock lg i = l_start lg"
  then have "(of_nat (Suc i) :: uint) = of_nat 0" by (simp add: logblock_def add.assoc add.commute)
  then show False using of_nat_inj32 [of "Suc i" 0] i by simp
qed

lemma logblock_area: "int i + 1 < l_size lg \<Longrightarrow> logblock lg i \<in> logarea lg"
  by (auto simp: logblock_def logarea_def add.assoc intro!: image_eqI [of _ _ "Suc i"])

lemma start_area: "0 < l_size lg \<Longrightarrow> l_start lg \<in> logarea lg"
  by (auto simp: logarea_def intro!: image_eqI [of _ _ 0])

lemma replay_map:
  assumes "inj_on k (set xs)" and "x \<in> set xs"
  shows "replay f (map (\<lambda>i. (k i, v i)) xs) (k x) = v x"
  using assms
proof (induction xs arbitrary: f)
  case (Cons y ys)
  show ?case
  proof (cases "x \<in> set ys")
    case True
    then show ?thesis using Cons by simp
  next
    case False
    then have "x = y" "k x \<notin> k ` set ys" using Cons.prems by auto
    then show ?thesis by (simp add: replay_other image_image)
  qed
qed simp

lemma tblocks_nth: "i < nat (lh_n lg) \<Longrightarrow> nat (lh_n lg) \<le> length (lh_block lg) \<Longrightarrow> lh_block lg ! i \<in> set (tblocks lg)"
  by (auto simp: tblocks_def in_set_conv_nth)

lemma set_tblocks: "nat (lh_n lg) \<le> length (lh_block lg) \<Longrightarrow> set (tblocks lg) = (\<lambda>i. lh_block lg ! i) ` {0..<nat (lh_n lg)}"
  unfolding tblocks_def by (rule nth_image [symmetric, of _ "lh_block lg"]) 

lemma commit_spec:
  assumes "trans_ok {} lg s" and "0 < lh_n lg"
  obtains d d' t where "commit lg s = Ret (lg\<lparr>lh_n := 0\<rparr>, t)"
    and "hdr_n d = lh_n lg" and "\<And>i. int i < lh_n lg \<Longrightarrow> hdr_block d i = lh_block lg ! i" and "hdr_n d' = 0"
    and "length d = BSIZE" and "length d' = BSIZE"
    and "bcache_ok {} t" and "dblocks t = {}"
    and "bdisk t = (bdisk s)\<lparr>memdisk := replay (memdisk (bdisk s))
             (log_writes lg s @ [(l_start lg, d)] @ home_writes lg s @ [(l_start lg, d')]),
           dwrites := dwrites (bdisk s) @ log_writes lg s @ [(l_start lg, d)] @ home_writes lg s @ [(l_start lg, d')]\<rparr>"
    and "blk t = replay (blk s)
             (log_writes lg s @ [(l_start lg, d)] @ home_writes lg s @ [(l_start lg, d')])"
proof -
  let ?n = "nat (lh_n lg)" and ?h = "\<lambda>i. lh_block lg ! i" and ?l = "logblock lg" and ?st = "l_start lg"
  have ok: "bcache_ok {} s" and at: "log_at lg s" and n: "0 \<le> lh_n lg" "lh_n lg < l_size lg" "lh_n lg < int NBUF"
    and area: "\<And>b. b \<in> logarea lg \<Longrightarrow> b < disksize (bdisk s)"
    and db: "dblocks s = set (tblocks lg)" and dis: "distinct (tblocks lg)"
    and sep: "dblocks s \<inter> logarea lg = {}"
    using assms(1) by (auto simp: trans_ok_def)
  have dv: "l_dev lg = 1" and len: "length (lh_block lg) = LOGSIZE" using at by (auto simp: log_at_def)
  have nn: "?n \<le> length (lh_block lg)" "?n < NBUF" "?n \<le> LOGSIZE" using n len by auto
  have card: "card (dblocks s) < NBUF" using dis nn db by (simp add: distinct_card tblocks_def)
  have home: "?h i \<in> dblocks s" if "i < ?n" for i using tblocks_nth [OF that nn(1)] db by simp
  have hb: "b < disksize (bdisk s)" if "b \<in> dblocks s" for b
    using dblocks_cached [OF ok that] bcache_okD(4) [OF ok] by (metis buf_ok_def caches_def)
  have la: "?l i \<in> logarea lg" if "i < ?n" for i using that n by (intro logblock_area) auto
  have sta: "?st \<in> logarea lg" using n by (intro start_area) simp
  have ls: "?l i \<noteq> ?st" if "i < ?n" for i using that nn by (intro logblock_not_start) simp
  have room: "room (dblocks s) s" using card by (simp add: room_def)
  let ?p1 = "map (\<lambda>i. (?h i, ?l i)) [0..<0 + ?n]"
  obtain s1 where s1: "write_log_loop ?n 0 lg s = Ret s1" "copies ?p1 s s1"
    using write_log_loop_copies [OF ok dv _ _ room, of 0 ?n] nn(3) home la hb area sep by fastforce
  have x1: "fst ` set ?p1 \<inter> snd ` set ?p1 = {}" using home la sep by force
  have w1: "log_writes lg s = map (\<lambda>(m, n). (n, blk s m)) ?p1" by (simp add: log_writes_def)
  have k1: "bcache_ok {} s1" "blk s1 = replay (blk s) (log_writes lg s)" "dblocks s1 = dblocks s - snd ` set ?p1"
    "bdisk s1 = (bdisk s)\<lparr>memdisk := replay (memdisk (bdisk s)) (log_writes lg s),
       dwrites := dwrites (bdisk s) @ log_writes lg s\<rparr>"
    using copies_writes [OF s1(2) ok x1 w1] by blast+
  have d1: "dblocks s1 = dblocks s" using k1(3) la sep by force
  have at1: "log_at lg s1" using at k1(4) by (simp add: log_at_def)
  have card1: "card (dblocks s1) < NBUF" using card d1 by simp
  have n30: "lh_n lg \<le> int LOGSIZE" using n by simp
  obtain d s2 where s2: "write_head lg s1 = Ret s2" "length d = BSIZE" "hdr_n d = lh_n lg"
      "\<And>i. int i < lh_n lg \<Longrightarrow> hdr_block d i = lh_block lg ! i"
      "bcache_ok {} s2" "blk s2 = (blk s1)(?st := d)" "dblocks s2 = dblocks s1 - {?st}"
      "bdisk s2 = (bdisk s1)\<lparr>memdisk := (memdisk (bdisk s1))(?st := d),
           dwrites := dwrites (bdisk s1) @ [(?st, d)]\<rparr>"
    using write_head_spec [OF k1(1) at1 card1 n(1) n30] by metis
  have at2: "log_at lg s2" using at1 s2(8) by (simp add: log_at_def)
  have d2: "dblocks s2 = dblocks s" using s2(7) d1 sta sep by auto
  have dsz: "disksize (bdisk s2) = disksize (bdisk s)" using s2(8) k1(4) by simp
  have room2: "room (dblocks s) s2" using card d2 by (simp add: room_def)
  let ?p3 = "map (\<lambda>i. (?l i, ?h i)) [0..<0 + ?n]"
  have "\<exists>t. install_loop ?n 0 lg s2 = Ret t \<and> copies ?p3 s2 t"
  proof (rule install_loop_copies [OF s2(5) dv _ _ room2])
    show "?l i \<noteq> ?h i \<and> ?l i < disksize (bdisk s2) \<and> ?h i < disksize (bdisk s2)" if "i < 0 + ?n" for i
      using that home [of i] la [of i] hb area sep dsz by auto
  qed (use nn home in auto)
  then obtain s3 where s3: "install_loop ?n 0 lg s2 = Ret s3" "copies ?p3 s2 s3" by blast
  have x3: "fst ` set ?p3 \<inter> snd ` set ?p3 = {}" using home la sep by force
  have inj: "inj_on ?l (set [0..<?n])" using nn by (auto intro!: inj_onI logblock_inj)
  have lb: "blk s2 (?l i) = blk s (?h i)" if "i < ?n" for i
    using that ls [OF that] replay_map [OF inj, of i "blk s" "\<lambda>i. blk s (?h i)"] s2(6) k1(2)
    by (simp add: log_writes_def)
  have w3: "home_writes lg s = map (\<lambda>(m, n). (n, blk s2 m)) ?p3" using lb by (simp add: home_writes_def)
  have k3: "bcache_ok {} s3" "blk s3 = replay (blk s2) (home_writes lg s)" "dblocks s3 = dblocks s2 - snd ` set ?p3"
    "bdisk s3 = (bdisk s2)\<lparr>memdisk := replay (memdisk (bdisk s2)) (home_writes lg s),
       dwrites := dwrites (bdisk s2) @ home_writes lg s\<rparr>"
    using copies_writes [OF s3(2) s2(5) x3 w3] by blast+
  have d3: "dblocks s3 = {}" using k3(3) d2 db set_tblocks [OF nn(1)] by (auto simp: image_image)
  let ?lg = "lg\<lparr>lh_n := 0\<rparr>"
  have at3: "log_at ?lg s3" using at2 k3(4) by (simp add: log_at_def)
  obtain d' s4 where s4: "write_head ?lg s3 = Ret s4" "length d' = BSIZE" "hdr_n d' = lh_n ?lg"
      "bcache_ok {} s4" "blk s4 = (blk s3)(l_start ?lg := d')" "dblocks s4 = dblocks s3 - {l_start ?lg}"
      "bdisk s4 = (bdisk s3)\<lparr>memdisk := (memdisk (bdisk s3))(l_start ?lg := d'),
           dwrites := dwrites (bdisk s3) @ [(l_start ?lg, d')]\<rparr>"
    by (rule write_head_spec [OF k3(1) at3]) (auto simp: d3)
  show thesis
  proof (rule that)
    show "commit lg s = Ret (lg\<lparr>lh_n := 0\<rparr>, s4)"
      using assms(2) s1(1) s2(1) s3(1) s4(1) by (simp add: commit_def write_log_def install_trans_def Let_def)
    show "hdr_n d' = 0" "dblocks s4 = {}" using s4(3,6) d3 by simp_all
    let ?w = "log_writes lg s @ [(?st, d)] @ home_writes lg s @ [(?st, d')]"
    show "bdisk s4 = (bdisk s)\<lparr>memdisk := replay (memdisk (bdisk s)) ?w, dwrites := dwrites (bdisk s) @ ?w\<rparr>"
      unfolding s4(7) k3(4) s2(8) k1(4) by (simp del: fun_upd_apply)
    show "blk s4 = replay (blk s) ?w"
      unfolding s4(5) k3(2) s2(6) k1(2) by (simp del: fun_upd_apply)
  qed (fact s2(3) s2(4) s2(2) s4(2) s4(4))+
qed

subsection \<open>The writes of a recovery\<close>

text \<open>What the log on a disk with contents \<open>M\<close> says is to be installed.\<close>

definition log_commits :: "(uint \<Rightarrow> block) \<Rightarrow> log \<Rightarrow> (uint \<times> block) list" where
  "log_commits M lg = map (\<lambda>i. (hdr_block (M (l_start lg)) i, M (logblock lg i))) [0..<nat (hdr_n (M (l_start lg)))]"

definition log_wf :: "log \<Rightarrow> disk \<Rightarrow> bool" where
  "log_wf lg d \<longleftrightarrow> l_dev lg = 1 \<and> length (lh_block lg) = LOGSIZE \<and> 0 < l_size lg \<and> l_size lg \<le> int LOGSIZE
     \<and> (\<forall>b \<in> logarea lg. b < disksize d) \<and> hdr_n (memdisk d (l_start lg)) < l_size lg
     \<and> (\<forall>i. int i < hdr_n (memdisk d (l_start lg)) \<longrightarrow>
          hdr_block (memdisk d (l_start lg)) i < disksize d \<and> hdr_block (memdisk d (l_start lg)) i \<notin> logarea lg)"

definition same_log :: "log \<Rightarrow> log \<Rightarrow> bool" where
  "same_log lg lg' \<longleftrightarrow> l_start lg' = l_start lg \<and> l_size lg' = l_size lg \<and> l_dev lg' = l_dev lg
     \<and> length (lh_block lg') = length (lh_block lg)"

lemma same_log_area [simp]: "same_log lg lg' \<Longrightarrow> logarea lg' = logarea lg" "same_log lg lg' \<Longrightarrow> logblock lg' = logblock lg"
  "same_log lg lg' \<Longrightarrow> log_commits M lg' = log_commits M lg" "same_log lg lg' \<Longrightarrow> log_wf lg' d = log_wf lg d"
  by (auto simp: same_log_def logarea_def logblock_def log_commits_def log_wf_def fun_eq_iff)

lemma log_wf_cong: "memdisk d = memdisk e \<Longrightarrow> disksize d = disksize e \<Longrightarrow> log_wf lg d = log_wf lg e"
  by (simp add: log_wf_def)

lemma recover_spec:
  assumes "bcache_ok {} s" and "dblocks s = {}" and "log_wf lg (bdisk s)"
  obtains lg' d t where "recover_from_log lg s = Ret (lg', t)" and "same_log lg lg'" and "lh_n lg' = 0"
    and "l_outstanding lg' = l_outstanding lg" and "l_committing lg' = l_committing lg"
    and "hdr_n d = 0" and "length d = BSIZE" and "bcache_ok {} t" and "dblocks t = {}"
    and "bdisk t = (bdisk s)\<lparr>memdisk := replay (memdisk (bdisk s)) (log_commits (memdisk (bdisk s)) lg @ [(l_start lg, d)]),
           dwrites := dwrites (bdisk s) @ log_commits (memdisk (bdisk s)) lg @ [(l_start lg, d)]\<rparr>"
proof -
  let ?M = "memdisk (bdisk s)" and ?st = "l_start lg" and ?l = "logblock lg"
  let ?n = "nat (hdr_n (?M ?st))"
  have wf: "l_dev lg = 1" "length (lh_block lg) = LOGSIZE" "0 < l_size lg" "l_size lg \<le> int LOGSIZE"
      "\<And>b. b \<in> logarea lg \<Longrightarrow> b < disksize (bdisk s)" "hdr_n (?M ?st) < l_size lg"
      "\<And>i. int i < hdr_n (?M ?st) \<Longrightarrow> hdr_block (?M ?st) i < disksize (bdisk s) \<and> hdr_block (?M ?st) i \<notin> logarea lg"
    using assms(3) by (auto simp: log_wf_def)
  have bm: "blk s = ?M" using clean_blk [OF assms(1)] assms(2) by auto
  have at: "log_at lg s" using wf(1,2,5) start_area [OF wf(3)] by (simp add: log_at_def)
  have h30: "hdr_n (blk s ?st) \<le> int LOGSIZE" using wf(4,6) bm by simp
  obtain bs s1 where s1: "read_head lg s = Ret (lg\<lparr>lh_n := hdr_n (?M ?st), lh_block := bs\<rparr>, s1)"
      "length bs = LOGSIZE" "\<And>i. int i < hdr_n (?M ?st) \<Longrightarrow> bs ! i = hdr_block (?M ?st) i"
      "bcache_ok {} s1" "blk s1 = ?M" "dblocks s1 = {}" "bdisk s1 = bdisk s"
    using read_head_spec [OF assms(1) at _ h30] assms(2) unfolding bm by auto
  let ?lg = "lg\<lparr>lh_n := hdr_n (?M ?st), lh_block := bs\<rparr>"
  have lgs: "logblock ?lg = ?l" "l_start ?lg = ?st" by (auto simp: logblock_def fun_eq_iff)
  let ?p = "map (\<lambda>i. (?l i, bs ! i)) [0..<0 + ?n]"
  have la: "?l i \<in> logarea lg" if "i < ?n" for i using that wf(6) by (intro logblock_area) linarith
  have bsi: "bs ! i < disksize (bdisk s)" "bs ! i \<notin> logarea lg" if "i < ?n" for i
    using wf(7) [of i] s1(3) [of i] that by auto
  have "\<exists>t. install_loop ?n 0 ?lg s1 = Ret t \<and> copies (map (\<lambda>i. (logblock ?lg i, lh_block ?lg ! i)) [0..<0 + ?n]) s1 t"
  proof (rule install_loop_copies [OF s1(4)])
    show "room UNIV s1" by (simp add: room_def s1(6))
    show "logblock ?lg i \<noteq> lh_block ?lg ! i \<and> logblock ?lg i < disksize (bdisk s1)
        \<and> lh_block ?lg ! i < disksize (bdisk s1)" if "i < 0 + ?n" for i
      using la [of i] bsi [of i] that wf(5) s1(7) lgs by auto
  qed (use wf in auto)
  then obtain s2 where s2: "install_loop ?n 0 ?lg s1 = Ret s2" "copies ?p s1 s2" using lgs by auto
  have x: "fst ` set ?p \<inter> snd ` set ?p = {}" using la bsi by force
  have w: "log_commits ?M lg = map (\<lambda>(m, n). (n, blk s1 m)) ?p"
    using s1(3,5) by (auto simp: log_commits_def)
  have k2: "bcache_ok {} s2" "dblocks s2 = dblocks s1 - snd ` set ?p"
    "bdisk s2 = (bdisk s1)\<lparr>memdisk := replay (memdisk (bdisk s1)) (log_commits ?M lg),
       dwrites := dwrites (bdisk s1) @ log_commits ?M lg\<rparr>"
    using copies_writes [OF s2(2) s1(4) x w] by blast+
  let ?lg0 = "?lg\<lparr>lh_n := 0\<rparr>"
  have at2: "log_at ?lg0 s2" using at k2(3) s1(2,7) by (simp add: log_at_def)
  have d2: "dblocks s2 = {}" using k2(2) s1(6) by simp
  obtain d t where t: "write_head ?lg0 s2 = Ret t" "length d = BSIZE" "hdr_n d = lh_n ?lg0" "bcache_ok {} t"
      "dblocks t = dblocks s2 - {l_start ?lg0}"
      "bdisk t = (bdisk s2)\<lparr>memdisk := (memdisk (bdisk s2))(l_start ?lg0 := d),
           dwrites := dwrites (bdisk s2) @ [(l_start ?lg0, d)]\<rparr>"
    by (rule write_head_spec [OF k2(1) at2]) (auto simp: d2)
  show thesis
  proof (rule that)
    show "recover_from_log lg s = Ret (?lg0, t)"
      using s1(1) s2(1) t(1) by (simp add: recover_from_log_def install_trans_def Let_def)
    show "bdisk t = (bdisk s)\<lparr>memdisk := replay ?M (log_commits ?M lg @ [(?st, d)]),
           dwrites := dwrites (bdisk s) @ log_commits ?M lg @ [(?st, d)]\<rparr>"
      unfolding t(6) k2(3) s1(7) by (simp del: fun_upd_apply)
    show "same_log lg ?lg0" using s1(2) wf(2) by (simp add: same_log_def)
  qed (use t d2 in simp_all)
qed

subsection \<open>log\_write\<close>

lemma log_scan_spec:
  "i \<le> log_scan k i bs n \<and> log_scan k i bs n \<le> i + k
     \<and> (log_scan k i bs n < i + k \<longrightarrow> bs ! log_scan k i bs n = n)
     \<and> (log_scan k i bs n = i + k \<longrightarrow> (\<forall>j. i \<le> j \<and> j < i + k \<longrightarrow> bs ! j \<noteq> n))"
proof (induction k arbitrary: i)
  case (Suc k)
  show ?case
  proof (cases "bs ! i = n")
    case False
    then have "bs ! j \<noteq> n" if "log_scan k (Suc i) bs n = Suc i + k" "i \<le> j" "j < Suc (i + k)" for j
      using Suc.IH [of "Suc i"] that by (cases "j = i") auto
    then show ?thesis using False Suc.IH [of "Suc i"] by auto
  qed simp
qed auto

lemma log_write_spec:
  assumes "trans_ok H lg s" and "i \<in> H" and "caches s n i" and "b_valid (bufs s i)" and "n \<notin> logarea lg"
    and "lh_n lg + 1 < l_size lg" and "1 \<le> l_outstanding lg"
  obtains lg' where "log_write i lg s = Ret (lg', upd_buf i (\<lambda>x. x\<lparr>b_dirty := True\<rparr>) s)"
    and "trans_ok H lg' (upd_buf i (\<lambda>x. x\<lparr>b_dirty := True\<rparr>) s)"
    and "tblocks lg' = (if n \<in> set (tblocks lg) then tblocks lg else tblocks lg @ [n])"
    and "blk (upd_buf i (\<lambda>x. x\<lparr>b_dirty := True\<rparr>) s) = blk s"
    and "same_log lg lg'" and "l_outstanding lg' = l_outstanding lg" and "l_committing lg' = l_committing lg"
    and "lh_n lg' = (if n \<in> set (tblocks lg) then lh_n lg else lh_n lg + 1)"
proof -
  let ?f = "\<lambda>x. x\<lparr>b_dirty := True\<rparr> :: buf" and ?bs = "lh_block lg" and ?k = "nat (lh_n lg)"
  let ?s = "upd_buf i ?f s" and ?r = "log_scan (nat (lh_n lg)) 0 (lh_block lg) n"
  have ok: "bcache_ok H s" and at: "log_at lg s" and n: "0 \<le> lh_n lg" "l_size lg \<le> int LOGSIZE"
    and area: "\<And>b. b \<in> logarea lg \<Longrightarrow> b < disksize (bdisk s)" and db: "dblocks s = set (tblocks lg)"
    and dis: "distinct (tblocks lg)" and sep: "dblocks s \<inter> logarea lg = {}"
    and h0: "hdr_n (memdisk (bdisk s) (l_start lg)) = 0"
    using assms(1) by (auto simp: trans_ok_def)
  have len: "length ?bs = LOGSIZE" using at by (simp add: log_at_def)
  have i: "i < NBUF" using bcache_okD(3) [OF ok, of i] assms(2) by simp
  have "length (b_data (bufs s i)) = BSIZE" using bcache_okD(4) [OF ok i] assms(4) by (simp add: buf_ok_def)
  then have u: "bcache_ok H ?s" "blk ?s = (blk s)(n := b_data (bufs s i))"
    using held_upd [OF ok assms(2-4), of ?f] by simp_all
  have bs: "blk ?s = blk s" using u(2) blk_cached [OF ok i assms(3,4)] by (auto simp: fun_eq_iff)
  have "dirty ?s = insert i (dirty s)" using i by (auto simp: dirty_def upd_buf_def)
  then have ds: "dblocks ?s = insert n (dblocks s)"
    using assms(3) by (auto simp: dblocks_def caches_def upd_buf_def)
  have r: "?r \<le> ?k" "?r < ?k \<Longrightarrow> ?bs ! ?r = n" "?r = ?k \<Longrightarrow> \<forall>j < ?k. ?bs ! j \<noteq> n"
    using log_scan_spec [of 0 ?k ?bs n] by auto
  have k: "?k < length ?bs" using n len assms(6) by simp
  have mem: "n \<in> set (tblocks lg) \<longleftrightarrow> ?r < ?k"
    using r tblocks_nth [of ?r lg] k set_tblocks [of lg] by (auto simp: image_iff order.order_iff_strict)
  define lg' where "lg' = (let l = lg\<lparr>lh_block := ?bs[?r := n]\<rparr> in if int ?r = lh_n lg then l\<lparr>lh_n := lh_n l + 1\<rparr> else l)"
  have w: "log_write i lg s = Ret (lg', ?s)"
    using assms(3,6,7) n by (auto simp: log_write_def lg'_def Let_def caches_def)
  have same: "same_log lg lg'" "l_outstanding lg' = l_outstanding lg" "l_committing lg' = l_committing lg"
    by (simp_all add: lg'_def same_log_def Let_def)
  have t: "tblocks lg' = (if n \<in> set (tblocks lg) then tblocks lg else tblocks lg @ [n])
      \<and> lh_n lg' = (if n \<in> set (tblocks lg) then lh_n lg else lh_n lg + 1)"
  proof (cases "?r < ?k")
    case True
    have "int ?r \<noteq> lh_n lg" using True by auto
    moreover have "?bs[?r := n] = ?bs" using r(2) [OF True] by (metis list_update_id)
    ultimately show ?thesis using True mem by (simp add: lg'_def tblocks_def Let_def)
  next
    case False
    then have e: "?r = ?k" using r(1) by simp
    then have "int ?r = lh_n lg" "take (Suc ?k) (?bs[?k := n]) = take ?k ?bs @ [n]"
      using n k by (auto simp: take_Suc_conv_app_nth)
    then show ?thesis using False e mem n by (simp add: lg'_def tblocks_def Let_def nat_add_distrib)
  qed
  have "log_at lg' ?s" "l_start lg' = l_start lg" "l_size lg' = l_size lg"
    using at same(1) by (simp_all add: log_at_def same_log_def)
  moreover have "dblocks ?s = set (tblocks lg')" "distinct (tblocks lg')" "dblocks ?s \<inter> logarea lg = {}"
    using ds db dis t sep assms(5) by auto
  moreover have "0 \<le> lh_n lg' \<and> lh_n lg' < l_size lg" using t n assms(6) by simp
  ultimately have "trans_ok H lg' ?s"
    unfolding trans_ok_def same_log_area(1) [OF same(1)] using u(1) n(2) area h0 by simp
  then show thesis using that [of lg'] w t bs same by blast
qed

subsection \<open>Using the log inside a transaction\<close>

lemma trans_ok_cong:
  assumes "trans_ok H lg s" and "bcache_ok H' t" and "bdisk t = bdisk s" and "dblocks t = dblocks s"
  shows "trans_ok H' lg t"
  using assms(1,2) unfolding trans_ok_def log_at_def assms(3,4) by blast

lemma trans_ok_bread: "trans_ok H lg s \<Longrightarrow> bread_post H s n i t \<Longrightarrow> trans_ok (insert i H) lg t"
  by (erule trans_ok_cong) (simp_all add: bread_post_def)

lemma trans_ok_data:
  assumes "trans_ok H lg s" and "i \<in> H" and "caches s n i" and "b_valid (bufs s i)" and "length d = BSIZE"
  shows "trans_ok H lg (upd_buf i (\<lambda>x. x\<lparr>b_data := d\<rparr>) s)"
    and "blk (upd_buf i (\<lambda>x. x\<lparr>b_data := d\<rparr>) s) = (blk s)(n := d)"
proof -
  let ?f = "\<lambda>x. x\<lparr>b_data := d\<rparr> :: buf"
  have ok: "bcache_ok H s" using assms(1) by (simp add: trans_ok_def)
  have u: "bcache_ok H (upd_buf i ?f s)" "blk (upd_buf i ?f s) = (blk s)(n := d)"
    using held_upd [OF ok assms(2-4), of ?f] assms(5) by simp_all
  have "dirty (upd_buf i ?f s) = dirty s" by (auto simp: dirty_def upd_buf_def)
  then have "dblocks (upd_buf i ?f s) = dblocks s" by (rule dblocks_cong) (auto simp: upd_buf_def)
  then show "trans_ok H lg (upd_buf i ?f s)" by (intro trans_ok_cong [OF assms(1) u(1)]) simp_all
  show "blk (upd_buf i ?f s) = (blk s)(n := d)" by (rule u(2))
qed

lemma trans_ok_brelse:
  assumes "trans_ok H lg s" and "i \<in> H" and "releasable s n i"
  obtains t where "brelse i s = Ret t" and "trans_ok (H - {i}) lg t" and "blk t = blk s" and "bdisk t = bdisk s"
    and "dblocks t = dblocks s" and "\<And>m j. j \<noteq> i \<Longrightarrow> releasable s m j \<Longrightarrow> releasable t m j"
proof -
  have ok: "bcache_ok H s" using assms(1) by (simp add: trans_ok_def)
  show thesis
    by (rule brelse_releasable [OF ok assms(2,3)]) (rule that; (assumption | simp add: trans_ok_cong [OF assms(1)]))
qed

text \<open>
  The pattern the comment above \<open>log_write\<close> prescribes: read a block, change it, record it in the
  log, release it. It succeeds while the log has room, and readers see the change at once.
\<close>

definition logged_update :: "uint \<Rightarrow> block \<Rightarrow> log \<Rightarrow> bio \<Rightarrow> (log \<times> bio) res" where
  "logged_update n d lg s =
     bindr (bread (l_dev lg) n s) (\<lambda>(bp, s).
     let s = upd_buf bp (\<lambda>b. b\<lparr>b_data := d\<rparr>) s in
     bindr (log_write bp lg s) (\<lambda>(lg, s).
     bindr (brelse bp s) (\<lambda>s. Ret (lg, s))))"

lemma logged_update_spec:
  assumes "trans_ok {} lg s" and "n < disksize (bdisk s)" and "n \<notin> logarea lg" and "length d = BSIZE"
    and "lh_n lg + 1 < l_size lg" and "1 \<le> l_outstanding lg"
  obtains lg' t where "logged_update n d lg s = Ret (lg', t)" and "trans_ok {} lg' t"
    and "blk t = (blk s)(n := d)" and "bdisk t = bdisk s" and "same_log lg lg'"
    and "l_outstanding lg' = l_outstanding lg"
    and "tblocks lg' = (if n \<in> set (tblocks lg) then tblocks lg else tblocks lg @ [n])"
    and "lh_n lg' = (if n \<in> set (tblocks lg) then lh_n lg else lh_n lg + 1)"
proof -
  have ok: "bcache_ok {} s" and dv: "l_dev lg = 1" and db: "dblocks s = set (tblocks lg)"
    and n: "lh_n lg < l_size lg" "l_size lg \<le> int LOGSIZE"
    using assms(1) by (auto simp: trans_ok_def log_at_def)
  have "card (dblocks s) \<le> nat (lh_n lg)" unfolding db using card_length [of "tblocks lg"]
    by (simp add: tblocks_def min.coboundedI1 order_trans)
  then have card: "card (dblocks s) < NBUF" using n by simp
  obtain i s1 where i: "bread 1 n s = Ret (i, s1)" "bread_post {} s n i s1"
    using first_bread [OF ok assms(2) card] by blast
  note p = bread_post_held [OF i(2)]
  have t1: "trans_ok {i} lg s1" using trans_ok_bread [OF assms(1) i(2)] .
  let ?s2 = "upd_buf i (\<lambda>x. x\<lparr>b_data := d\<rparr>) s1"
  note t2 = trans_ok_data [OF t1 insertI1 p(2,3) assms(4)]
  have c2: "caches ?s2 n i" "b_valid (bufs ?s2 i)" using p(2,3) by (simp_all add: caches_def)
  let ?s3 = "upd_buf i (\<lambda>x. x\<lparr>b_dirty := True\<rparr>) ?s2"
  obtain lg' where w: "log_write i lg ?s2 = Ret (lg', ?s3)" "trans_ok {i} lg' ?s3"
      "tblocks lg' = (if n \<in> set (tblocks lg) then tblocks lg else tblocks lg @ [n])" "blk ?s3 = blk ?s2"
      "same_log lg lg'" "l_outstanding lg' = l_outstanding lg"
      "lh_n lg' = (if n \<in> set (tblocks lg) then lh_n lg else lh_n lg + 1)"
    using log_write_spec [OF t2(1) insertI1 c2 assms(3,5,6)] by metis
  have "releasable ?s3 n i" using c2 by (simp add: releasable_def caches_def)
  then obtain t where t: "brelse i ?s3 = Ret t" "trans_ok ({i} - {i}) lg' t" "blk t = blk ?s3" "bdisk t = bdisk ?s3"
    using trans_ok_brelse [OF w(2) insertI1] by metis
  show thesis
  proof (rule that)
    show "logged_update n d lg s = Ret (lg', t)"
      using i(1) w(1) t(1) dv by (simp add: logged_update_def Let_def)
  qed (use t w t2 p in simp_all)
qed

end
