(* ===== verification/Log_Crash.thy ===== *)
theory Log_Crash
  imports Log
begin

section \<open>Crashes and log space\<close>

text \<open>
  What the log is for. The disk after a prefix of the writes of a commit, or of a recovery, is
  described by \<open>crash_disk\<close> and \<open>recovery_crash_disk\<close>; restarting from it gives all of the
  transaction or nothing of it. The last part runs the calls \<open>begin_op\<close>, \<open>log_write\<close> and \<open>end_op\<close>
  of many file-system calls and accounts for the log space they reserve.
\<close>

subsection \<open>Crashes\<close>

lemma replay_same:
  assumes "\<And>k v. (k, v) \<in> set ws \<Longrightarrow> v = g k"
  shows "replay f ws b = (if b \<in> fst ` set ws then g b else f b)"
  using assms
proof (induction ws arbitrary: f)
  case (Cons w ws)
  then show ?case by (cases w) auto
qed simp

lemma home_writes_replay:
  assumes "trans_ok {} lg s"
  shows "replay f (home_writes lg s) b = (if b \<in> dblocks s then blk s b else f b)"
    and "b \<notin> dblocks s \<Longrightarrow> replay f (take j (home_writes lg s)) b = f b"
proof -
  have "nat (lh_n lg) \<le> length (lh_block lg)" using assms by (auto simp: trans_ok_def log_at_def)
  then have k: "fst ` set (home_writes lg s) = dblocks s"
    using assms set_tblocks [of lg] by (auto simp: trans_ok_def home_writes_def image_image)
  have v: "v = blk s c" if "(c, v) \<in> set (home_writes lg s)" for c v
    using that by (auto simp: home_writes_def)
  show "replay f (home_writes lg s) b = (if b \<in> dblocks s then blk s b else f b)"
    unfolding k [symmetric] by (rule replay_same) (rule v)
  have "fst ` set (take j (home_writes lg s)) \<subseteq> dblocks s" unfolding k [symmetric] by (auto dest: in_set_takeD)
  then show "b \<notin> dblocks s \<Longrightarrow> replay f (take j (home_writes lg s)) b = f b"
    by (intro replay_other) auto
qed

lemma log_writes_area:
  assumes "trans_ok H lg s"
  shows "fst ` set (log_writes lg s) \<subseteq> logarea lg - {l_start lg}"
proof
  fix x assume "x \<in> fst ` set (log_writes lg s)"
  then obtain i where i: "i < nat (lh_n lg)" "x = logblock lg i" by (auto simp: log_writes_def)
  have "int i + 1 < l_size lg" "Suc i < 2 ^ 32" using i assms by (auto simp: trans_ok_def)
  then show "x \<in> logarea lg - {l_start lg}" using i(2) logblock_area [of i lg] logblock_not_start [of i lg] by simp
qed

text \<open>
  The contents of the disk after the first \<open>k\<close> writes of a commit: the log on it is well formed, and
  installing what it says gives every home block its old contents as long as the header is not
  written, and its new contents from then on.
\<close>

lemma crash_disk:
  assumes tr: "trans_ok {} lg s" and pos: "0 < lh_n lg"
    and d: "hdr_n d = lh_n lg" "\<And>i. int i < lh_n lg \<Longrightarrow> hdr_block d i = lh_block lg ! i" and d': "hdr_n d' = 0"
    and M: "M = replay (memdisk (bdisk s))
             (take k (log_writes lg s @ [(l_start lg, d)] @ home_writes lg s @ [(l_start lg, d')]))"
  shows "log_wf lg ((bdisk r)\<lparr>memdisk := M, disksize := disksize (bdisk s)\<rparr>)"
    and "b \<notin> logarea lg \<Longrightarrow>
      replay M (log_commits M lg) b = (if k \<le> nat (lh_n lg) then memdisk (bdisk s) b else blk s b)"
proof -
  let ?n = "nat (lh_n lg)" and ?st = "l_start lg" and ?M = "memdisk (bdisk s)"
  let ?W = "log_writes lg s @ [(?st, d)] @ home_writes lg s @ [(?st, d')]"
  have ok: "bcache_ok {} s" and n: "0 \<le> lh_n lg" "lh_n lg < l_size lg" "l_size lg \<le> int LOGSIZE"
    and area: "\<And>b. b \<in> logarea lg \<Longrightarrow> b < disksize (bdisk s)" and at: "log_at lg s"
    and db: "dblocks s = set (tblocks lg)" and sep: "dblocks s \<inter> logarea lg = {}" and h0: "hdr_n (?M ?st) = 0"
    using tr by (auto simp: trans_ok_def)
  have nn: "?n \<le> length (lh_block lg)" using at n by (simp add: log_at_def)
  have len: "length (log_writes lg s) = ?n" "length (home_writes lg s) = ?n"
    by (simp_all add: log_writes_def home_writes_def)
  have sta: "?st \<in> logarea lg" using n by (intro start_area) simp
  have lw: "?st \<notin> fst ` set (log_writes lg s)" "b \<notin> logarea lg \<Longrightarrow> b \<notin> fst ` set (log_writes lg s)" for b
    using log_writes_area [OF tr] by auto
  have clean: "?M b = blk s b" if "b \<notin> dblocks s" for b using clean_blk [OF ok that] by simp
  have home: "lh_block lg ! i \<in> dblocks s" if "i < ?n" for i using tblocks_nth [OF that nn] db by simp
  have hb: "b < disksize (bdisk s)" if "b \<in> dblocks s" for b
    using dblocks_cached [OF ok that] bcache_okD(4) [OF ok] by (metis buf_ok_def caches_def)
  have base: "log_wf lg ((bdisk r)\<lparr>memdisk := M, disksize := disksize (bdisk s)\<rparr>)"
    if "hdr_n (M ?st) < l_size lg" "\<And>i. int i < hdr_n (M ?st) \<Longrightarrow> hdr_block (M ?st) i \<in> dblocks s"
    using that at n area sep hb by (auto simp: log_wf_def log_at_def)
  consider (before) "k \<le> ?n" | (during) "?n < k" "k \<le> Suc (?n + ?n)" | (after) "Suc (?n + ?n) < k" by linarith
  then have "log_wf lg ((bdisk r)\<lparr>memdisk := M, disksize := disksize (bdisk s)\<rparr>)
    \<and> (b \<notin> logarea lg \<longrightarrow> replay M (log_commits M lg) b = (if k \<le> ?n then ?M b else blk s b))"
  proof cases
    case before
    then have Me: "M = replay ?M (take k (log_writes lg s))" using M len by simp
    then have "M ?st = ?M ?st" "b \<notin> logarea lg \<longrightarrow> M b = ?M b"
      using lw by (auto intro!: replay_other dest: in_set_takeD)
    then show ?thesis using base h0 n before by (simp add: log_commits_def)
  next
    case during
    define j where "j = k - Suc ?n"
    have "take k ?W = log_writes lg s @ [(?st, d)] @ take j (home_writes lg s)"
      using during len by (simp add: j_def take_Cons')
    then have Me: "M = replay ((replay ?M (log_writes lg s))(?st := d)) (take j (home_writes lg s))" using M by simp
    have st: "M ?st = d" using sta sep by (subst Me, subst home_writes_replay(2) [OF tr]) auto
    have lb: "M (logblock lg i) = blk s (lh_block lg ! i)" if "i < ?n" for i
    proof -
      have a: "logblock lg i \<in> logarea lg" using that n by (intro logblock_area) linarith
      have "inj_on (logblock lg) (set [0..<?n])" using n by (auto intro!: inj_onI logblock_inj)
      then have "replay ?M (log_writes lg s) (logblock lg i) = blk s (lh_block lg ! i)"
        using replay_map [of "logblock lg" "[0..<?n]" i ?M "\<lambda>i. blk s (lh_block lg ! i)"] that
        by (simp add: log_writes_def)
      moreover have "logblock lg i \<noteq> ?st" using that n by (intro logblock_not_start) simp
      ultimately show ?thesis using a sep by (subst Me, subst home_writes_replay(2) [OF tr]) auto
    qed
    have "log_commits M lg = home_writes lg s"
      using lb d by (simp add: log_commits_def home_writes_def st)
    moreover have "M b = ?M b" if "b \<notin> logarea lg" "b \<notin> dblocks s"
    proof -
      have "M b = ((replay ?M (log_writes lg s))(?st := d)) b"
        unfolding Me by (rule home_writes_replay(2) [OF tr that(2)])
      then show ?thesis using lw(2) [OF that(1)] sta that(1) by (auto simp: replay_other)
    qed
    ultimately have "b \<notin> logarea lg \<longrightarrow> replay M (log_commits M lg) b = blk s b"
      using clean by (auto simp: home_writes_replay(1) [OF tr])
    then show ?thesis using base st d home n during(1) by auto
  next
    case after
    then have "take k ?W = ?W" using len by simp
    then have Me: "M = (replay ((replay ?M (log_writes lg s))(?st := d)) (home_writes lg s))(?st := d')"
      using M by simp
    then have st: "M ?st = d'" by simp
    have "M b = blk s b" if "b \<notin> logarea lg"
    proof -
      have "b \<noteq> ?st" using that sta by auto
      then show ?thesis using clean lw(2) [OF that] unfolding Me
        by (auto simp: home_writes_replay(1) [OF tr] replay_other)
    qed
    then show ?thesis using base st d' n after by (auto simp: log_commits_def)
  qed
  then show "log_wf lg ((bdisk r)\<lparr>memdisk := M, disksize := disksize (bdisk s)\<rparr>)"
    and "b \<notin> logarea lg \<Longrightarrow>
      replay M (log_commits M lg) b = (if k \<le> nat (lh_n lg) then memdisk (bdisk s) b else blk s b)"
    by blast+
qed

subsection \<open>Properties\<close>

text \<open>
  A machine restarted after a crash: nothing is cached, and the disk has the contents \<open>M\<close>.
\<close>

definition rebooted :: "bio \<Rightarrow> (uint \<Rightarrow> block) \<Rightarrow> bio \<Rightarrow> bool" where
  "rebooted s M r \<longleftrightarrow> bcache_ok {} r \<and> dblocks r = {} \<and> memdisk (bdisk r) = M
     \<and> disksize (bdisk r) = disksize (bdisk s)"

lemma commit_crash:
  assumes "trans_ok {} lg s" and "0 < lh_n lg"
  obtains lg' t ws where "commit lg s = Ret (lg', t)" and "dwrites (bdisk t) = dwrites (bdisk s) @ ws"
    and "same_log lg lg'" and "lh_n lg' = 0" and "trans_ok {} lg' t"
    and "l_outstanding lg' = l_outstanding lg" and "l_committing lg' = l_committing lg"
    and "\<And>b. b \<notin> logarea lg \<Longrightarrow> blk t b = blk s b"
    and "\<And>k r lg0 b. rebooted s (replay (memdisk (bdisk s)) (take k ws)) r \<Longrightarrow> same_log lg lg0 \<Longrightarrow>
      \<exists>lg2 u. recover_from_log lg0 r = Ret (lg2, u) \<and> lh_n lg2 = 0 \<and> bcache_ok {} u \<and> dblocks u = {}
        \<and> hdr_n (memdisk (bdisk u) (l_start lg)) = 0
        \<and> (\<forall>b. b \<notin> logarea lg \<longrightarrow> memdisk (bdisk u) b = (if k \<le> nat (lh_n lg) then memdisk (bdisk s) b else blk s b))"
proof -
  obtain d d' t where c: "commit lg s = Ret (lg\<lparr>lh_n := 0\<rparr>, t)"
      "hdr_n d = lh_n lg" "\<And>i. int i < lh_n lg \<Longrightarrow> hdr_block d i = lh_block lg ! i" "hdr_n d' = 0"
      "length d = BSIZE" "length d' = BSIZE" "bcache_ok {} t" "dblocks t = {}"
      "bdisk t = (bdisk s)\<lparr>memdisk := replay (memdisk (bdisk s))
             (log_writes lg s @ [(l_start lg, d)] @ home_writes lg s @ [(l_start lg, d')]),
           dwrites := dwrites (bdisk s) @ log_writes lg s @ [(l_start lg, d)] @ home_writes lg s @ [(l_start lg, d')]\<rparr>"
      "blk t = replay (blk s)
             (log_writes lg s @ [(l_start lg, d)] @ home_writes lg s @ [(l_start lg, d')])"
    using commit_spec [OF assms] by metis
  let ?ws = "log_writes lg s @ [(l_start lg, d)] @ home_writes lg s @ [(l_start lg, d')]"
  have sz: "0 < l_size lg" using assms by (auto simp: trans_ok_def)
  note sta = start_area [OF sz]
  show thesis
  proof (rule that [of "lg\<lparr>lh_n := 0\<rparr>" t ?ws])
    show "trans_ok {} (lg\<lparr>lh_n := 0\<rparr>) t"
      using assms(1) c(4,7,8,9) sz by (auto simp: trans_ok_def log_at_def tblocks_def logarea_def)
    show "blk t b = blk s b" if "b \<notin> logarea lg" for b
    proof -
      have "b \<notin> fst ` set (log_writes lg s)" "b \<noteq> l_start lg" using log_writes_area [OF assms(1)] that sta by auto
      then show ?thesis unfolding c(10) by (simp add: home_writes_replay(1) [OF assms(1)] replay_other)
    qed
  next
    fix k r lg0
    assume r: "rebooted s (replay (memdisk (bdisk s)) (take k ?ws)) r" and lg0: "same_log lg lg0"
    let ?M = "replay (memdisk (bdisk s)) (take k ?ws)"
    have R: "bcache_ok {} r" "dblocks r = {}" "memdisk (bdisk r) = ?M" "disksize (bdisk r) = disksize (bdisk s)"
      using r by (auto simp: rebooted_def)
    have e: "(bdisk r)\<lparr>memdisk := ?M, disksize := disksize (bdisk s)\<rparr> = bdisk r"
      using R(3,4) by (intro disk.equality) simp_all
    have wf: "log_wf lg0 (bdisk r)"
      using crash_disk(1) [OF assms c(2,3,4) refl, of k r] lg0 unfolding e by simp
    obtain lg2 d2 u where u: "recover_from_log lg0 r = Ret (lg2, u)" "lh_n lg2 = 0" "hdr_n d2 = 0"
        "bcache_ok {} u" "dblocks u = {}"
        "bdisk u = (bdisk r)\<lparr>memdisk := replay (memdisk (bdisk r)) (log_commits (memdisk (bdisk r)) lg0 @ [(l_start lg0, d2)]),
           dwrites := dwrites (bdisk r) @ log_commits (memdisk (bdisk r)) lg0 @ [(l_start lg0, d2)]\<rparr>"
      using recover_spec [OF R(1,2) wf] by metis
    have st0: "l_start lg0 = l_start lg" using lg0 by (simp add: same_log_def)
    have m: "memdisk (bdisk u) = (replay ?M (log_commits ?M lg))(l_start lg := d2)"
      unfolding u(6) R(3) using lg0 st0 by (simp del: fun_upd_apply)
    have h: "hdr_n (memdisk (bdisk u) (l_start lg)) = 0" unfolding m using u(3) by simp
    have "memdisk (bdisk u) b = (if k \<le> nat (lh_n lg) then memdisk (bdisk s) b else blk s b)"
      if "b \<notin> logarea lg" for b
    proof -
      have "b \<noteq> l_start lg" using that sta by auto
      then show ?thesis using crash_disk(2) [OF assms c(2,3,4) refl that, of k] unfolding m by simp
    qed
    then show "\<exists>lg2 u. recover_from_log lg0 r = Ret (lg2, u) \<and> lh_n lg2 = 0 \<and> bcache_ok {} u \<and> dblocks u = {}
        \<and> hdr_n (memdisk (bdisk u) (l_start lg)) = 0
        \<and> (\<forall>b. b \<notin> logarea lg \<longrightarrow> memdisk (bdisk u) b = (if k \<le> nat (lh_n lg) then memdisk (bdisk s) b else blk s b))"
      using u(1,2,4,5) h by blast
  qed (use c in \<open>auto simp: same_log_def\<close>)
qed

lemma replay_indep: "b \<in> fst ` set ws \<Longrightarrow> replay f ws b = replay g ws b"
proof (induction ws arbitrary: f g)
  case (Cons w ws)
  show ?case
  proof (cases "b \<in> fst ` set ws")
    case True
    then show ?thesis using Cons.IH by (simp del: fun_upd_apply)
  next
    case False
    then show ?thesis using Cons.prems by (auto simp: replay_other)
  qed
qed simp

text \<open>A crash during recovery: the disk after the first \<open>k\<close> of its writes.\<close>

lemma recovery_crash_disk:
  assumes wf: "log_wf lg D" and h: "hdr_n d = 0"
    and M: "M = replay (memdisk D) (take k (log_commits (memdisk D) lg @ [(l_start lg, d)]))"
  shows "log_wf lg (D\<lparr>memdisk := M\<rparr>)"
    and "b \<notin> logarea lg \<Longrightarrow> replay M (log_commits M lg) b = replay (memdisk D) (log_commits (memdisk D) lg) b"
proof -
  let ?M = "memdisk D" and ?st = "l_start lg" and ?C = "log_commits (memdisk D) lg"
  let ?n = "nat (hdr_n (?M ?st))"
  have sta: "?st \<in> logarea lg" using wf by (intro start_area) (simp add: log_wf_def)
  have C: "c \<notin> logarea lg" if "c \<in> fst ` set ?C" for c
    using that wf by (auto simp: log_commits_def log_wf_def)
  have same: "replay f (take j ?C) c = f c" if "c \<in> logarea lg" for f j c
    using C that by (intro replay_other) (auto dest: in_set_takeD)
  have len: "length ?C = ?n" by (simp add: log_commits_def)
  have goal: "log_wf lg (D\<lparr>memdisk := M\<rparr>) \<and> (b \<notin> logarea lg \<longrightarrow> replay M (log_commits M lg) b = replay ?M ?C b)"
  proof (cases "k \<le> ?n")
    case True
    then have Me: "M = replay ?M (take k ?C)" using M len by simp
    have st: "M ?st = ?M ?st" unfolding Me by (rule same [OF sta])
    have "M (logblock lg i) = ?M (logblock lg i)" if "i < ?n" for i
    proof -
      have "logblock lg i \<in> logarea lg" using that wf by (intro logblock_area) (auto simp: log_wf_def)
      then show ?thesis unfolding Me by (rule same)
    qed
    then have c: "log_commits M lg = ?C" by (simp add: log_commits_def st)
    have "replay M ?C b = replay ?M ?C b"
    proof (cases "b \<in> fst ` set ?C")
      case False
      then have "M b = ?M b" unfolding Me by (intro replay_other) (auto dest: in_set_takeD)
      then show ?thesis using False by (simp add: replay_other)
    qed (rule replay_indep)
    then show ?thesis using wf c st by (simp add: log_wf_def)
  next
    case False
    then have Me: "M = (replay ?M ?C)(?st := d)" using M len by simp
    then show ?thesis using wf h sta by (auto simp: log_wf_def log_commits_def)
  qed
  then show "log_wf lg (D\<lparr>memdisk := M\<rparr>)"
    and "b \<notin> logarea lg \<Longrightarrow> replay M (log_commits M lg) b = replay ?M ?C b" by blast+
qed

lemma recovery_crash:
  assumes "bcache_ok {} s" and "dblocks s = {}" and "log_wf lg (bdisk s)"
  obtains lg' t ws where "recover_from_log lg s = Ret (lg', t)" and "dwrites (bdisk t) = dwrites (bdisk s) @ ws"
    and "\<And>k r lg0. rebooted s (replay (memdisk (bdisk s)) (take k ws)) r \<Longrightarrow> same_log lg lg0 \<Longrightarrow>
      \<exists>lg2 u. recover_from_log lg0 r = Ret (lg2, u) \<and> lh_n lg2 = 0 \<and> dblocks u = {}
        \<and> (\<forall>b. b \<notin> logarea lg \<longrightarrow> memdisk (bdisk u) b = memdisk (bdisk t) b)"
proof -
  let ?M = "memdisk (bdisk s)" and ?C = "log_commits (memdisk (bdisk s)) lg" and ?st = "l_start lg"
  obtain lg' d t where t: "recover_from_log lg s = Ret (lg', t)" "hdr_n d = 0"
      "bdisk t = (bdisk s)\<lparr>memdisk := replay ?M (?C @ [(?st, d)]), dwrites := dwrites (bdisk s) @ ?C @ [(?st, d)]\<rparr>"
    using recover_spec [OF assms] by metis
  have sta: "?st \<in> logarea lg" using assms(3) by (intro start_area) (simp add: log_wf_def)
  show thesis
  proof (rule that [OF t(1), of "?C @ [(?st, d)]"])
    show "dwrites (bdisk t) = dwrites (bdisk s) @ ?C @ [(?st, d)]" using t(3) by simp
  next
    fix k r lg0
    let ?N = "replay ?M (take k (?C @ [(?st, d)]))"
    assume r: "rebooted s ?N r" and lg0: "same_log lg lg0"
    have R: "bcache_ok {} r" "dblocks r = {}" "memdisk (bdisk r) = ?N" "disksize (bdisk r) = disksize (bdisk s)"
      using r by (auto simp: rebooted_def)
    have "log_wf lg ((bdisk s)\<lparr>memdisk := ?N\<rparr>)" by (rule recovery_crash_disk(1) [OF assms(3) t(2) refl])
    moreover have "log_wf lg ((bdisk s)\<lparr>memdisk := ?N\<rparr>) = log_wf lg (bdisk r)"
      by (rule log_wf_cong) (use R(3,4) in simp_all)
    ultimately have wf: "log_wf lg0 (bdisk r)" using lg0 by simp
    obtain lg2 d2 u where u: "recover_from_log lg0 r = Ret (lg2, u)" "lh_n lg2 = 0" "dblocks u = {}"
        "bdisk u = (bdisk r)\<lparr>memdisk := replay (memdisk (bdisk r)) (log_commits (memdisk (bdisk r)) lg0 @ [(l_start lg0, d2)]),
           dwrites := dwrites (bdisk r) @ log_commits (memdisk (bdisk r)) lg0 @ [(l_start lg0, d2)]\<rparr>"
      using recover_spec [OF R(1,2) wf] by metis
    have st0: "l_start lg0 = ?st" using lg0 by (simp add: same_log_def)
    have m: "memdisk (bdisk u) = (replay ?N (log_commits ?N lg))(?st := d2)"
      unfolding u(4) R(3) using lg0 st0 by (simp del: fun_upd_apply)
    have "memdisk (bdisk u) b = memdisk (bdisk t) b" if "b \<notin> logarea lg" for b
    proof -
      have "b \<noteq> ?st" using that sta by auto
      then show ?thesis using recovery_crash_disk(2) [OF assms(3) t(2) refl that, of k] unfolding m t(3) by simp
    qed
    then show "\<exists>lg2 u. recover_from_log lg0 r = Ret (lg2, u) \<and> lh_n lg2 = 0 \<and> dblocks u = {}
        \<and> (\<forall>b. b \<notin> logarea lg \<longrightarrow> memdisk (bdisk u) b = memdisk (bdisk t) b)"
      using u(1-3) by blast
  qed
qed

text \<open>C1: Crash atomicity of a transaction. \<open>commit\<close> returns, and if the machine stops after any number \<open>k\<close>
  of the disk writes it makes, \<open>recover_from_log\<close> at the next boot returns with an empty log and with
  every home block either as it was before the transaction (the header was not yet written) or as the
  transaction left it in the cache (the header was), the same way for all of them. When nothing
  crashes, every home block keeps the contents readers saw before the commit.\<close>

theorem commit_crash_atomic:
  assumes "trans_ok {} lg s" and "0 < lh_n lg"
  shows "\<exists>lg' t ws. commit lg s = Ret (lg', t) \<and> dwrites (bdisk t) = dwrites (bdisk s) @ ws
    \<and> lh_n lg' = 0 \<and> dblocks t = {} \<and> (\<forall>b. b \<notin> logarea lg \<longrightarrow> blk t b = blk s b)
    \<and> (\<forall>k r lg0. rebooted s (replay (memdisk (bdisk s)) (take k ws)) r \<and> same_log lg lg0 \<longrightarrow>
        (\<exists>lg2 u. recover_from_log lg0 r = Ret (lg2, u) \<and> lh_n lg2 = 0
           \<and> hdr_n (memdisk (bdisk u) (l_start lg)) = 0
           \<and> (\<forall>b. b \<notin> logarea lg \<longrightarrow>
                memdisk (bdisk u) b = (if k \<le> nat (lh_n lg) then memdisk (bdisk s) b else blk s b))))"
proof (rule commit_crash [OF assms])
  fix lg' t ws
  assume c: "commit lg s = Ret (lg', t)" "dwrites (bdisk t) = dwrites (bdisk s) @ ws"
    "lh_n lg' = 0" "trans_ok {} lg' t" "\<And>b. b \<notin> logarea lg \<Longrightarrow> blk t b = blk s b"
    and r: "\<And>k r lg0 b. rebooted s (replay (memdisk (bdisk s)) (take k ws)) r \<Longrightarrow> same_log lg lg0 \<Longrightarrow>
      \<exists>lg2 u. recover_from_log lg0 r = Ret (lg2, u) \<and> lh_n lg2 = 0 \<and> bcache_ok {} u \<and> dblocks u = {}
        \<and> hdr_n (memdisk (bdisk u) (l_start lg)) = 0
        \<and> (\<forall>b. b \<notin> logarea lg \<longrightarrow> memdisk (bdisk u) b = (if k \<le> nat (lh_n lg) then memdisk (bdisk s) b else blk s b))"
  have d: "dblocks t = {}" using c(3,4) by (simp add: trans_ok_def tblocks_def)
  have "\<exists>lg2 u. recover_from_log lg0 r = Ret (lg2, u) \<and> lh_n lg2 = 0 \<and> hdr_n (memdisk (bdisk u) (l_start lg)) = 0
      \<and> (\<forall>b. b \<notin> logarea lg \<longrightarrow> memdisk (bdisk u) b = (if k \<le> nat (lh_n lg) then memdisk (bdisk s) b else blk s b))"
    if "rebooted s (replay (memdisk (bdisk s)) (take k ws)) r \<and> same_log lg lg0" for k r lg0
    using r [of k r lg0] that by metis
  then have "\<forall>k r lg0. rebooted s (replay (memdisk (bdisk s)) (take k ws)) r \<and> same_log lg lg0 \<longrightarrow>
        (\<exists>lg2 u. recover_from_log lg0 r = Ret (lg2, u) \<and> lh_n lg2 = 0
           \<and> hdr_n (memdisk (bdisk u) (l_start lg)) = 0
           \<and> (\<forall>b. b \<notin> logarea lg \<longrightarrow>
                memdisk (bdisk u) b = (if k \<le> nat (lh_n lg) then memdisk (bdisk s) b else blk s b)))"
    by (intro allI impI)
  moreover have "\<forall>b. b \<notin> logarea lg \<longrightarrow> blk t b = blk s b" using c(5) by simp
  ultimately show ?thesis using c(1-3) d by (intro exI conjI)
qed

text \<open>A small disk: eight blocks, the log in blocks 2 to 4, and a transaction that changes block 5.\<close>

abbreviation (input) tiny_img :: "uchar list" where "tiny_img \<equiv> replicate 4096 0"

definition tiny_log :: log where
  "tiny_log = \<lparr>l_start = 2, l_size = 3, l_outstanding = 1, l_committing = False, l_dev = 1, lh_n = 0,
     lh_block = replicate LOGSIZE 0\<rparr>"

lemmas tiny_ok = fresh_bio_ok [of tiny_img 8, simplified]

lemma tiny_disk: "n < 8 \<Longrightarrow> memdisk (ideinit tiny_img) n = replicate BSIZE 0"
proof -
  assume "n < (8 :: uint)"
  then have "unat n < 8" by (simp add: word_less_nat_alt)
  then have "512 \<le> 4096 - 512 * unat n" by simp
  then show ?thesis by (simp add: ideinit_def min_absorb1)
qed

lemma tiny_area: "logarea tiny_log = {2, 3, 4}"
proof -
  have "{..<nat (l_size tiny_log)} = {0, 1, 2}" by (auto simp: tiny_log_def)
  then show ?thesis by (simp add: logarea_def tiny_log_def)
qed

lemma tiny_trans: "trans_ok {} tiny_log (binit (fresh_bio tiny_img))"
proof -
  have "hdr_n (memdisk (ideinit tiny_img) 2) = 0"
    by (simp add: tiny_disk hdr_n_def get32_def)
  then show ?thesis
    using tiny_ok by (simp add: trans_ok_def tiny_area log_at_def tblocks_def) (simp add: tiny_log_def)
qed

lemma tiny_update:
  obtains lg t where "logged_update 5 (replicate BSIZE 9) tiny_log (binit (fresh_bio tiny_img)) = Ret (lg, t)"
    and "trans_ok {} lg t" and "lh_n lg = 1" and "blk t 5 = replicate BSIZE 9" and "5 \<notin> logarea lg"
    and "bdisk t = ideinit tiny_img"
proof -
  let ?s = "binit (fresh_bio tiny_img)"
  obtain lg t where "logged_update 5 (replicate BSIZE 9) tiny_log ?s = Ret (lg, t)" "trans_ok {} lg t"
      "blk t = (blk ?s)(5 := replicate BSIZE 9)" "bdisk t = bdisk ?s" "same_log tiny_log lg"
      "lh_n lg = (if 5 \<in> set (tblocks tiny_log) then lh_n tiny_log else lh_n tiny_log + 1)"
    by (rule logged_update_spec [OF tiny_trans, of 5 "replicate BSIZE 9"])
      (auto simp: tiny_ok(2) tiny_area, auto simp: tiny_log_def)
  then show thesis using that [of lg t] tiny_ok(7) tiny_area
    by (simp add: tblocks_def) (simp add: tiny_log_def)
qed

theorem commit_crash_atomic_witness:
  "\<exists>lg s lg' t. trans_ok {} lg s \<and> lh_n lg = 1 \<and> blk s 5 = replicate BSIZE 9
     \<and> memdisk (bdisk s) 5 = replicate BSIZE 0 \<and> commit lg s = Ret (lg', t) \<and> blk t 5 = replicate BSIZE 9"
proof -
  obtain lg s where s: "trans_ok {} lg s" "lh_n lg = 1" "blk s 5 = replicate BSIZE 9" "5 \<notin> logarea lg"
      "bdisk s = ideinit tiny_img"
    using tiny_update by metis
  obtain lg' t where t: "commit lg s = Ret (lg', t)" "\<forall>b. b \<notin> logarea lg \<longrightarrow> blk t b = blk s b"
    using commit_crash_atomic [OF s(1)] s(2) by auto
  have "memdisk (bdisk s) 5 = replicate BSIZE 0" using s(5) tiny_disk [of 5] by simp
  with s t show ?thesis by metis
qed

text \<open>C2: Recovery may itself be interrupted. After a crash at any point of \<open>recover_from_log\<close>, running it
  again gives every home block the contents that an undisturbed recovery gives it.\<close>

theorem recovery_idempotent:
  assumes "bcache_ok {} s" and "dblocks s = {}" and "log_wf lg (bdisk s)"
  shows "\<exists>lg' t ws. recover_from_log lg s = Ret (lg', t) \<and> dwrites (bdisk t) = dwrites (bdisk s) @ ws
    \<and> (\<forall>k r lg0. rebooted s (replay (memdisk (bdisk s)) (take k ws)) r \<and> same_log lg lg0 \<longrightarrow>
        (\<exists>lg2 u. recover_from_log lg0 r = Ret (lg2, u) \<and> lh_n lg2 = 0
           \<and> (\<forall>b. b \<notin> logarea lg \<longrightarrow> memdisk (bdisk u) b = memdisk (bdisk t) b)))"
proof (rule recovery_crash [OF assms])
  fix lg' t ws
  assume c: "recover_from_log lg s = Ret (lg', t)" "dwrites (bdisk t) = dwrites (bdisk s) @ ws"
    and r: "\<And>k r lg0. rebooted s (replay (memdisk (bdisk s)) (take k ws)) r \<Longrightarrow> same_log lg lg0 \<Longrightarrow>
      \<exists>lg2 u. recover_from_log lg0 r = Ret (lg2, u) \<and> lh_n lg2 = 0 \<and> dblocks u = {}
        \<and> (\<forall>b. b \<notin> logarea lg \<longrightarrow> memdisk (bdisk u) b = memdisk (bdisk t) b)"
  have "\<exists>lg2 u. recover_from_log lg0 r = Ret (lg2, u) \<and> lh_n lg2 = 0
           \<and> (\<forall>b. b \<notin> logarea lg \<longrightarrow> memdisk (bdisk u) b = memdisk (bdisk t) b)"
    if "rebooted s (replay (memdisk (bdisk s)) (take k ws)) r \<and> same_log lg lg0" for k r lg0
    using r [of k r lg0] that by metis
  then have "\<forall>k r lg0. rebooted s (replay (memdisk (bdisk s)) (take k ws)) r \<and> same_log lg lg0 \<longrightarrow>
        (\<exists>lg2 u. recover_from_log lg0 r = Ret (lg2, u) \<and> lh_n lg2 = 0
           \<and> (\<forall>b. b \<notin> logarea lg \<longrightarrow> memdisk (bdisk u) b = memdisk (bdisk t) b))"
    by (intro allI impI)
  then show ?thesis using c by (intro exI conjI)
qed

definition crashed_img :: "uchar list" where
  "crashed_img = replicate 1024 0 @ [1, 0, 0, 0, 5, 0, 0, 0] @ replicate 504 0 @ replicate 512 9 @ replicate 2048 0"

lemmas crashed_ok = fresh_bio_ok [of crashed_img 8, simplified]

lemma crashed_head: "memdisk (ideinit crashed_img) 2 = [1, 0, 0, 0, 5, 0, 0, 0] @ replicate 504 0"
  by (simp add: ideinit_def crashed_img_def)

lemma crashed_len: "length crashed_img = 4096"
  by (simp add: crashed_img_def)

theorem recovery_idempotent_witness:
  "\<exists>lg' t. map fst (log_commits (memdisk (bdisk (binit (fresh_bio crashed_img)))) tiny_log) = [5]
     \<and> recover_from_log tiny_log (binit (fresh_bio crashed_img)) = Ret (lg', t)"
proof -
  let ?M = "memdisk (ideinit crashed_img)"
  have h: "hdr_n (?M 2) = 1" "hdr_block (?M 2) 0 = 5"
    unfolding crashed_head by (simp_all add: hdr_n_def hdr_block_def get32_def)
  have st: "l_start tiny_log = 2" by (simp add: tiny_log_def)
  note ok = crashed_ok [OF crashed_len]
  have "log_wf tiny_log (bdisk (binit (fresh_bio crashed_img)))"
    unfolding log_wf_def tiny_area ok(2,7) st h using h(2) ok(2) unfolding ok(7)
    by (auto simp: tiny_log_def)
  from recovery_idempotent [OF ok(3,5) this] show ?thesis
    unfolding log_commits_def ok(7) st h using h(2) by auto
qed

subsection \<open>Reservation of log space\<close>

text \<open>
  The file-system calls in progress, each with the number of blocks it has added to the transaction
  so far, which may reach MAXOPBLOCKS. A call begins and ends through \<open>begin_op\<close> and \<open>end_op\<close>; the
  last one to end commits, during which no call can begin.
\<close>

inductive op_step :: "log \<times> nat list \<Rightarrow> log \<times> nat list \<Rightarrow> bool" where
  op_begin: "begin_op lg = Ret lg' \<Longrightarrow> op_step (lg, U) (lg', U @ [0])"
| op_write: "i < length U \<Longrightarrow> U ! i < MAXOPBLOCKS \<Longrightarrow> log_write b lg s = Ret (lg', s') \<Longrightarrow>
    op_step (lg, U) (lg', U[i := U ! i + nat (lh_n lg' - lh_n lg)])"
| op_end: "i < length U \<Longrightarrow> end_op_enter lg s = Ret (c, lg', s') \<Longrightarrow>
    op_step (lg, U) (lg', take i U @ drop (Suc i) U)"
| op_commit: "l_committing lg \<Longrightarrow> commit lg s = Ret (lg', s') \<Longrightarrow>
    op_step (lg, U) (fst (end_op_leave lg' s'), U)"

definition op_init :: "int \<Rightarrow> log \<times> nat list \<Rightarrow> bool" where
  "op_init sz x \<longleftrightarrow> snd x = [] \<and> lh_n (fst x) = 0 \<and> l_outstanding (fst x) = 0 \<and> \<not> l_committing (fst x)
     \<and> l_size (fst x) = sz"

definition reserved :: "nat list \<Rightarrow> int" where
  "reserved U = (\<Sum>u \<leftarrow> U. int MAXOPBLOCKS - int u)"

definition op_inv :: "int \<Rightarrow> log \<times> nat list \<Rightarrow> bool" where
  "op_inv sz x \<longleftrightarrow> (case x of (lg, U) \<Rightarrow>
     l_size lg = sz \<and> l_outstanding lg = int (length U) \<and> 0 \<le> lh_n lg
     \<and> (\<forall>u \<in> set U. u \<le> MAXOPBLOCKS) \<and> lh_n lg + reserved U \<le> int LOGSIZE
     \<and> (l_committing lg \<longrightarrow> U = []))"

lemma reserved_append [simp]: "reserved (U @ V) = reserved U + reserved V"
  by (simp add: reserved_def)

lemma reserved_split: "i < length U \<Longrightarrow> reserved U = reserved (take i U) + (int MAXOPBLOCKS - int (U ! i)) + reserved (drop (Suc i) U)"
  by (subst id_take_nth_drop [of i U]) (simp_all add: reserved_def)

lemma reserved_update:
  "i < length U \<Longrightarrow> reserved (U[i := v]) = reserved (take i U) + (int MAXOPBLOCKS - int v) + reserved (drop (Suc i) U)"
  by (simp add: upd_conv_take_nth_drop reserved_def)

lemma reserved_le: "reserved U \<le> int (length U) * int MAXOPBLOCKS"
  by (induction U) (simp_all add: reserved_def)

lemma reserved_nonneg: "\<forall>u \<in> set U. u \<le> MAXOPBLOCKS \<Longrightarrow> 0 \<le> reserved U"
  by (induction U) (simp_all add: reserved_def)

lemma log_write_grows:
  assumes "log_write b lg s = Ret (lg', s')"
  shows "lh_n lg' = lh_n lg \<or> lh_n lg' = lh_n lg + 1" "l_size lg' = l_size lg"
    "l_outstanding lg' = l_outstanding lg" "l_committing lg' = l_committing lg"
  using assms by (auto simp: log_write_def Let_def split: if_splits)

lemma commit_log: "commit lg s = Ret (lg', s') \<Longrightarrow> lg' = lg\<lparr>lh_n := 0\<rparr> \<or> lg' = lg"
  by (auto simp: commit_def Let_def bindr_eq_Ret split: if_splits)

lemma op_step_inv:
  assumes "op_step x y" and "op_inv sz x"
  shows "op_inv sz y"
  using assms
proof (induction rule: op_step.induct)
  case (op_begin lg lg' U)
  then show ?case using reserved_le [of U]
    by (auto simp: op_inv_def begin_op_def reserved_def [of "[0]"] split: if_splits)
next
  case (op_write i U b lg s lg' s')
  let ?v = "U ! i + nat (lh_n lg' - lh_n lg)"
  have inv: "l_size lg = sz" "l_outstanding lg = int (length U)" "0 \<le> lh_n lg" "\<forall>u \<in> set U. u \<le> MAXOPBLOCKS"
      "lh_n lg + reserved U \<le> int LOGSIZE" "l_committing lg \<longrightarrow> U = []"
    using op_write.prems by (auto simp: op_inv_def)
  note g = log_write_grows [OF op_write.hyps(3)]
  have "lh_n lg' + reserved (U[i := ?v]) = lh_n lg + reserved U"
    using g(1) reserved_split [OF op_write.hyps(1)] reserved_update [OF op_write.hyps(1), of ?v] by auto
  moreover have "?v \<le> MAXOPBLOCKS" using g(1) op_write.hyps(2) by auto
  then have "\<forall>u \<in> set (U[i := ?v]). u \<le> MAXOPBLOCKS" using inv(4) by (auto dest!: set_update_subset_insert [THEN subsetD])
  ultimately show ?case using inv g op_write.hyps(1) by (auto simp: op_inv_def)
next
  case (op_end i U lg s c lg' s')
  have inv: "l_size lg = sz" "l_outstanding lg = int (length U)" "0 \<le> lh_n lg" "\<forall>u \<in> set U. u \<le> MAXOPBLOCKS"
      "lh_n lg + reserved U \<le> int LOGSIZE"
    using op_end.prems by (auto simp: op_inv_def)
  let ?V = "take i U @ drop (Suc i) U"
  have l: "length ?V = length U - 1" "0 < length U" using op_end.hyps(1) by auto
  have u: "U ! i \<le> MAXOPBLOCKS" using inv(4) op_end.hyps(1) by simp
  have "reserved ?V \<le> reserved U" using reserved_split [OF op_end.hyps(1)] u by simp
  moreover have "\<forall>u \<in> set ?V. u \<le> MAXOPBLOCKS" using inv(4) by (auto dest: in_set_takeD in_set_dropD)
  moreover have e: "lh_n lg' = lh_n lg" "l_size lg' = l_size lg" "l_outstanding lg' = l_outstanding lg - 1"
      "l_committing lg' \<longrightarrow> l_outstanding lg' = 0"
    using op_end.hyps(2) by (auto simp: end_op_enter_def Let_def split: if_splits)
  moreover have "int (length U) - 1 = int (length ?V)" unfolding l(1) using l(2) by linarith
  moreover from this have "l_outstanding lg' = 0 \<longrightarrow> length ?V = 0" using e(3) inv(2) by linarith
  then have "l_committing lg' \<longrightarrow> ?V = []" using e(4) by blast
  moreover have "l_outstanding lg' = int (length ?V)" using calculation(7) e(3) inv(2) by linarith
  moreover have "lh_n lg' + reserved ?V \<le> int LOGSIZE" using calculation(1) e(1) inv(5) by linarith
  ultimately show ?case using inv(1,3) unfolding op_inv_def prod.case by (intro conjI) simp_all
next
  case (op_commit lg s lg' s' U)
  then show ?case using commit_log [OF op_commit.hyps(2)] by (auto simp: op_inv_def end_op_leave_def reserved_def)
qed

interpretation log_ops: step_invariant "op_init sz" op_step "op_inv sz" for sz
proof
  show "op_inv sz x" if "op_init sz x" for x
    using that by (cases x) (simp add: op_init_def op_inv_def reserved_def)
qed (rule op_step_inv)

text \<open>C3: Reservation. When the log area has room for LOGSIZE blocks besides its header, the space that
  \<open>begin_op\<close> reserves is enough: in every reachable state a call that has added fewer than MAXOPBLOCKS
  blocks can add another, and the transaction never holds more than LOGSIZE blocks.\<close>

theorem reservation_suffices:
  assumes "reach (op_init sz) op_step (lg, U)" and "sz > int LOGSIZE"
    and "i < length U" and "U ! i < MAXOPBLOCKS"
  shows "lh_n lg \<le> int LOGSIZE \<and> (\<exists>lg' s'. log_write b lg s = Ret (lg', s'))"
proof -
  have inv: "op_inv sz (lg, U)" by (rule log_ops.reach_inv [OF assms(1)])
  then have a: "\<forall>u \<in> set U. u \<le> MAXOPBLOCKS" "lh_n lg + reserved U \<le> int LOGSIZE"
      "l_size lg = sz" "l_outstanding lg = int (length U)"
    by (auto simp: op_inv_def)
  have "0 \<le> reserved (take i U)" "0 \<le> reserved (drop (Suc i) U)"
    using a(1) by (auto intro!: reserved_nonneg dest: in_set_takeD in_set_dropD)
  then have "0 < reserved U" using reserved_split [OF assms(3)] assms(4) by simp
  then have "lh_n lg < int LOGSIZE" using a(2) by simp
  moreover have "U \<noteq> []" using assms(3) by auto
  ultimately show ?thesis using a assms(2) by (simp add: log_write_def Let_def)
qed

definition idle_log :: "int \<Rightarrow> log" where
  "idle_log sz = \<lparr>l_start = 2, l_size = sz, l_outstanding = 0, l_committing = False, l_dev = 1, lh_n = 0,
     lh_block = replicate LOGSIZE 0\<rparr>"

theorem reservation_suffices_witness:
  "\<exists>lg. reach (op_init 31) op_step (lg, [0]) \<and> (\<exists>lg' s'. log_write 0 lg (fresh_bio []) = Ret (lg', s'))"
proof -
  let ?lg = "(idle_log 31)\<lparr>l_outstanding := 1\<rparr>"
  have "reach (op_init 31) op_step (idle_log 31, [])"
    by (rule reach_init) (simp add: op_init_def idle_log_def)
  moreover have "op_step (idle_log 31, []) (?lg, [] @ [0])"
    by (rule op_begin) (simp add: begin_op_def idle_log_def)
  ultimately have r: "reach (op_init 31) op_step (?lg, [0])" using reach_step by fastforce
  with reservation_suffices [OF r, of 0 0 "fresh_bio []"] show ?thesis by auto
qed

text \<open>
  \<open>mkfs\<close> gives the log LOGSIZE blocks including the header, and \<open>log_write\<close> refuses a block once
  \<open>lh.n\<close> reaches \<open>log.size - 1\<close>; \<open>begin_op\<close> however reserves up to LOGSIZE blocks. The run that shows
  the difference: three calls, two of which add ten blocks each and the third nine.
\<close>

definition full_use :: "nat \<Rightarrow> nat list" where
  "full_use k = [min 10 k, min 10 (k - 10), k - 20]"

lemma log_scan_absent: "(\<And>j. i \<le> j \<Longrightarrow> j < i + k \<Longrightarrow> bs ! j \<noteq> n) \<Longrightarrow> log_scan k i bs n = i + k"
  by (induction k arbitrary: i) auto

lemma fill_step:
  assumes "k < 29" and "lh_n lg = int k" and "l_size lg = 30" and "l_outstanding lg = 3"
    and "length (lh_block lg) = LOGSIZE" and "\<And>j. j < k \<Longrightarrow> lh_block lg ! j = of_nat j" and "\<not> l_committing lg"
  shows "\<exists>lg'. op_step (lg, full_use k) (lg', full_use (Suc k)) \<and> lh_n lg' = int (Suc k) \<and> l_size lg' = 30
    \<and> l_outstanding lg' = 3 \<and> length (lh_block lg') = LOGSIZE \<and> (\<forall>j < Suc k. lh_block lg' ! j = of_nat j)
    \<and> \<not> l_committing lg'"
proof -
  let ?n = "of_nat k :: uint"
  let ?s = "upd_buf 0 (\<lambda>b. b\<lparr>b_blockno := ?n\<rparr>) (fresh_bio [])"
  let ?lg = "lg\<lparr>lh_block := (lh_block lg)[k := ?n], lh_n := int (Suc k)\<rparr>"
  have "lh_block lg ! j \<noteq> ?n" if "j < k" for j
    using assms(1,6) that of_nat_inj32 [of j k] by auto
  then have sc: "log_scan (nat (lh_n lg)) 0 (lh_block lg) ?n = k" using log_scan_absent [of 0 k] assms(2) by simp
  have w: "\<exists>t. log_write 0 lg ?s = Ret (?lg, t)"
    using assms(1-4) sc by (simp add: log_write_def Let_def)
  then obtain t where w: "log_write 0 lg ?s = Ret (?lg, t)" by blast
  have u: "full_use (Suc k) = (full_use k)[k div 10 := full_use k ! (k div 10) + nat (lh_n ?lg - lh_n lg)]"
      "k div 10 < length (full_use k)" "full_use k ! (k div 10) < 10"
  proof -
    consider "k div 10 = 0" "k < 10" | "k div 10 = 1" "10 \<le> k" "k < 20" | "k div 10 = 2" "20 \<le> k" using assms(1) by fastforce
    then show "full_use (Suc k) = (full_use k)[k div 10 := full_use k ! (k div 10) + nat (lh_n ?lg - lh_n lg)]"
      "k div 10 < length (full_use k)" "full_use k ! (k div 10) < 10"
      using assms(1,2) by (cases; simp add: full_use_def)+
  qed
  have "op_step (lg, full_use k) (?lg, full_use (Suc k))"
    unfolding u(1) by (rule op_write [OF u(2) _ w]) (use u(3) in simp)
  moreover have "\<forall>j < Suc k. lh_block ?lg ! j = of_nat j"
    using assms(1,5,6) by (auto simp: nth_list_update less_Suc_eq)
  ultimately show ?thesis using assms by (intro exI [of _ ?lg]) simp
qed

lemma fill_log:
  assumes "k \<le> 29"
  shows "\<exists>lg. reach (op_init 30) op_step (lg, full_use k) \<and> lh_n lg = int k \<and> l_size lg = 30 \<and> l_outstanding lg = 3
    \<and> length (lh_block lg) = LOGSIZE \<and> (\<forall>j < k. lh_block lg ! j = of_nat j) \<and> \<not> l_committing lg"
  using assms
proof (induction k)
  case 0
  let ?l = "\<lambda>n. (idle_log 30)\<lparr>l_outstanding := n\<rparr>"
  have b: "op_step (?l n, U) (?l (n + 1), U @ [0])" if "0 \<le> n" "n \<le> 2" for n U
    using that by (intro op_begin) (simp add: begin_op_def idle_log_def)
  have "?l 0 = idle_log 30" by (simp add: idle_log_def)
  then have "reach (op_init 30) op_step (?l 0, [])" by (intro reach_init) (simp add: op_init_def idle_log_def)
  from reach_step [OF this b [of 0 "[]"]] have "reach (op_init 30) op_step (?l 1, [0])" by simp
  from reach_step [OF this b [of 1 "[0]"]] have "reach (op_init 30) op_step (?l 2, [0, 0])" by simp
  from reach_step [OF this b [of 2 "[0, 0]"]] have "reach (op_init 30) op_step (?l 3, [0, 0, 0])" by simp
  moreover have "full_use 0 = [0, 0, 0]" by (simp add: full_use_def)
  ultimately show ?case by (intro exI [of _ "?l 3"]) (simp add: idle_log_def)
next
  case (Suc k)
  then obtain lg where lg: "reach (op_init 30) op_step (lg, full_use k)" "lh_n lg = int k" "l_size lg = 30"
      "l_outstanding lg = 3" "length (lh_block lg) = LOGSIZE" "\<forall>j < k. lh_block lg ! j = of_nat j" "\<not> l_committing lg"
    by auto
  then show ?case using fill_step [of k lg] Suc.prems reach_step [OF lg(1)] by (metis Suc_le_lessD)
qed

text \<open>C4: With the log area \<open>mkfs\<close> makes (LOGSIZE blocks, header included) the reservation is one block
  short: a state is reachable in which a call that has added nine blocks, one fewer than it may,
  makes \<open>log_write\<close> panic.\<close>

theorem reservation_one_short:
  "\<exists>lg U. reach (op_init (int LOGSIZE)) op_step (lg, U) \<and> U = [10, 10, 9]
     \<and> (\<forall>b s. log_write b lg s = Panic ''too big a transaction'')"
proof -
  obtain lg where "reach (op_init 30) op_step (lg, full_use 29)" "lh_n lg = int 29" "l_size lg = 30"
    using fill_log [of 29] by auto
  moreover have "full_use 29 = [10, 10, 9]" by (simp add: full_use_def)
  ultimately show ?thesis by (intro exI [of _ lg] exI [of _ "[10, 10, 9]"]) (simp add: log_write_def)
qed

end
