(* ===== verification/Fifo.thy ===== *)
theory Fifo
  imports Prelude
begin

section \<open>Bounded queues\<close>

text \<open>
  The contract of a bounded queue of bytes, which the pipe's and the console's ring buffers
  provide: \<open>put\<close> appends while the queue is not full, \<open>get\<close> takes the first element while it is
  not vacant. Its clients fill it as far as it goes (\<open>put_while\<close>) and drain up to a number of
  elements (\<open>get_upto\<close>), which is what \<open>pipewrite\<close> and \<open>piperead\<close> do between two sleeps.
\<close>

fun put_while :: "('a \<Rightarrow> 's \<Rightarrow> 's) \<Rightarrow> ('s \<Rightarrow> bool) \<Rightarrow> 'a list \<Rightarrow> 's \<Rightarrow> 'a list \<times> 's" where
  "put_while put full [] s = ([], s)"
| "put_while put full (x # xs) s = (if full s then (x # xs, s) else put_while put full xs (put x s))"

fun get_upto :: "('s \<Rightarrow> 'a \<times> 's) \<Rightarrow> ('s \<Rightarrow> bool) \<Rightarrow> nat \<Rightarrow> 's \<Rightarrow> 'a list \<times> 's" where
  "get_upto get vacant 0 s = ([], s)"
| "get_upto get vacant (Suc n) s =
     (if vacant s then ([], s)
      else let (x, s') = get s; (xs, t) = get_upto get vacant n s' in (x # xs, t))"

locale fifo =
  fixes put :: "'a \<Rightarrow> 's \<Rightarrow> 's"
    and get :: "'s \<Rightarrow> 'a \<times> 's"
    and full :: "'s \<Rightarrow> bool"
    and vacant :: "'s \<Rightarrow> bool"
    and contents :: "'s \<Rightarrow> 'a list"
    and ok :: "'s \<Rightarrow> bool"
    and cap :: nat
  assumes put_law: "ok s \<Longrightarrow> \<not> full s \<Longrightarrow> ok (put x s) \<and> contents (put x s) = contents s @ [x]"
    and get_law: "ok s \<Longrightarrow> \<not> vacant s \<Longrightarrow> ok (snd (get s)) \<and> contents s = fst (get s) # contents (snd (get s))"
    and vacant_law: "ok s \<Longrightarrow> vacant s \<longleftrightarrow> contents s = []"
    and full_law: "ok s \<Longrightarrow> full s \<longleftrightarrow> length (contents s) = cap"
    and bound: "ok s \<Longrightarrow> length (contents s) \<le> cap"
begin

lemma put_while_law:
  assumes "ok s" and "put_while put full xs s = (rest, t)"
  shows "ok t \<and> contents s @ xs = contents t @ rest \<and> (rest \<noteq> [] \<longrightarrow> full t)
    \<and> length rest = length xs - (cap - length (contents s))"
  using assms
proof (induction xs arbitrary: s)
  case Nil
  then show ?case by auto
next
  case (Cons x xs)
  show ?case
  proof (cases "full s")
    case True
    then show ?thesis using Cons.prems full_law by auto
  next
    case False
    note p = put_law [OF Cons.prems(1) False, of x]
    have "length (contents s) < cap" using False full_law [OF Cons.prems(1)] bound [OF Cons.prems(1)] by simp
    then show ?thesis using Cons.IH [of "put x s"] p Cons.prems(2) False by auto
  qed
qed

lemma get_upto_law:
  assumes "ok s" and "get_upto get vacant n s = (xs, t)"
  shows "ok t \<and> xs = take n (contents s) \<and> contents t = drop n (contents s)"
  using assms
proof (induction n arbitrary: s xs t)
  case 0
  then show ?case by simp
next
  case (Suc n)
  show ?case
  proof (cases "vacant s")
    case True
    then show ?thesis using Suc.prems vacant_law by auto
  next
    case False
    obtain x s' where g: "get s = (x, s')" by (cases "get s")
    obtain ys u where r: "get_upto get vacant n s' = (ys, u)" by (cases "get_upto get vacant n s'")
    have l: "ok s'" "contents s = x # contents s'" using get_law [OF Suc.prems(1) False] g by simp_all
    show ?thesis using Suc.IH [OF l(1) r] Suc.prems(2) False g r l(2) by auto
  qed
qed

text \<open>What is put in comes out, in order.\<close>

lemma put_get:
  assumes "ok s" and "contents s = []" and "length xs \<le> cap"
  shows "fst (get_upto get vacant (length xs) (snd (put_while put full xs s))) = xs"
proof -
  obtain rest t where p: "put_while put full xs s = (rest, t)" by (cases "put_while put full xs s")
  have l: "ok t" "contents s @ xs = contents t @ rest" "length rest = length xs - (cap - length (contents s))"
    using put_while_law [OF assms(1) p] by auto
  then have "rest = []" using assms by simp
  obtain ys u where g: "get_upto get vacant (length xs) t = (ys, u)" by (cases "get_upto get vacant (length xs) t")
  show ?thesis using get_upto_law [OF l(1) g] l(2) \<open>rest = []\<close> assms(2) p g by simp
qed

end

text \<open>
  A ring of \<open>2 ^ k\<close> bytes addressed by a free-running 32-bit counter: since the size divides
  \<open>2 ^ 32\<close>, the position does not jump when the counter wraps.
\<close>

definition ring :: "nat \<Rightarrow> ('b list) \<Rightarrow> uint \<Rightarrow> nat \<Rightarrow> 'b list" where
  "ring sz data r n = map (\<lambda>i. data ! (unat (r + of_nat i) mod sz)) [0..<n]"

lemma length_ring [simp]: "length (ring sz data r n) = n"
  by (simp add: ring_def)

lemma unat_plus_mod:
  assumes "sz dvd 2 ^ 32"
  shows "unat ((r :: uint) + of_nat i) mod sz = (unat r + i) mod sz"
proof -
  have "unat (r + of_nat i) = (unat r + i) mod 2 ^ 32"
    by (simp add: unat_word_ariths unat_of_nat mod_simps)
  then show ?thesis using assms by (simp add: mod_mod_cancel)
qed

lemma ring_Cons: "ring sz data r (Suc n) = data ! (unat r mod sz) # ring sz data (r + 1) n"
proof -
  have "[0..<Suc n] = 0 # map Suc [0..<n]" by (simp add: map_Suc_upt upt_rec [of 0 "Suc n"] del: upt_Suc)
  then show ?thesis by (simp add: ring_def add.assoc del: upt_Suc)
qed

lemma ring_snoc:
  assumes "sz dvd 2 ^ 32" and "n < sz" and "length data = sz"
  shows "ring sz (data[unat (r + of_nat n) mod sz := x]) r (Suc n) = ring sz data r n @ [x]"
proof -
  have "0 < sz" using assms(2) by simp
  have "unat (r + of_nat i) mod sz \<noteq> unat (r + of_nat n) mod sz" if "i < n" for i
  proof
    assume "unat (r + of_nat i) mod sz = unat (r + of_nat n) mod sz"
    then have "(unat r + i) mod sz = (unat r + n) mod sz" by (simp add: unat_plus_mod [OF assms(1)])
    then have "sz dvd (unat r + n) - (unat r + i)"
      using that by (subst mod_eq_dvd_iff_nat [symmetric]) auto
    then have "sz \<le> n - i" using that by (intro dvd_imp_le) simp_all
    then show False using that assms(2) by simp
  qed
  then have "map (\<lambda>i. data[unat (r + of_nat n) mod sz := x] ! (unat (r + of_nat i) mod sz)) [0..<n]
      = map (\<lambda>i. data ! (unat (r + of_nat i) mod sz)) [0..<n]"
    by (intro map_cong refl) (metis atLeastLessThan_iff nth_list_update_neq set_upt)
  moreover have "data[unat (r + of_nat n) mod sz := x] ! (unat (r + of_nat n) mod sz) = x"
    using assms(3) \<open>0 < sz\<close> by (intro nth_list_update_eq) simp
  ultimately show ?thesis by (simp add: ring_def)
qed

end
