(* ===== verification/Pipe.thy ===== *)
theory Pipe
  imports Fifo
begin

section \<open>Pipes (pipe.c)\<close>

text \<open>
  A pipe is a ring of PIPESIZE bytes with free-running counters \<open>nread\<close> and \<open>nwrite\<close>. A call of
  \<open>pipewrite\<close> or \<open>piperead\<close> runs under the pipe's lock until it returns or sleeps, so the model
  gives each such run: \<open>pipewrite\<close> returns the bytes that are still to be written when it sleeps,
  and is continued with them after the wake-up; \<open>piperead\<close> sleeps before it has read anything, so
  it is simply called again. \<open>p_woken\<close> records the calls of \<open>wakeup\<close>.

  The allocation of a pipe with its two files is in the theory of files.
\<close>

abbreviation (input) PIPESIZE :: nat where "PIPESIZE \<equiv> 512"

record pipe =
  p_data :: "uchar list"
  p_nread :: uint
  p_nwrite :: uint
  p_readopen :: bool
  p_writeopen :: bool
  p_woken :: "chan list"

datatype pwout = PwReturn int | PwSleep "uchar list"

definition pipe_init :: "pipe \<Rightarrow> pipe" where
  "pipe_init p = p\<lparr>p_readopen := True, p_writeopen := True, p_nwrite := 0, p_nread := 0\<rparr>"

text \<open>The result says whether the pipe is to be freed.\<close>

definition pipeclose :: "pipe \<Rightarrow> bool \<Rightarrow> bool \<times> pipe" where
  "pipeclose p writable =
     (let p = (if writable then p\<lparr>p_writeopen := False, p_woken := p_woken p @ [ChanPipeR]\<rparr>
               else p\<lparr>p_readopen := False, p_woken := p_woken p @ [ChanPipeW]\<rparr>)
      in (\<not> p_readopen p \<and> \<not> p_writeopen p, p))"

definition pipe_full :: "pipe \<Rightarrow> bool" where
  "pipe_full p \<longleftrightarrow> p_nwrite p = p_nread p + 512"

definition pipe_empty :: "pipe \<Rightarrow> bool" where
  "pipe_empty p \<longleftrightarrow> p_nread p = p_nwrite p"

definition pipe_put :: "uchar \<Rightarrow> pipe \<Rightarrow> pipe" where
  "pipe_put c p = p\<lparr>p_data := (p_data p)[unat (p_nwrite p) mod PIPESIZE := c], p_nwrite := p_nwrite p + 1\<rparr>"

definition pipe_get :: "pipe \<Rightarrow> uchar \<times> pipe" where
  "pipe_get p = (p_data p ! (unat (p_nread p) mod PIPESIZE), p\<lparr>p_nread := p_nread p + 1\<rparr>)"

text \<open>\<open>n\<close> is the size the call was given, \<open>cs\<close> the bytes from \<open>addr[i]\<close> on.\<close>

fun pipewrite :: "bool \<Rightarrow> int \<Rightarrow> uchar list \<Rightarrow> pipe \<Rightarrow> pwout \<times> pipe" where
  "pipewrite killed n [] p = (PwReturn n, p\<lparr>p_woken := p_woken p @ [ChanPipeR]\<rparr>)"
| "pipewrite killed n (c # cs) p =
     (if pipe_full p then
        if \<not> p_readopen p \<or> killed then (PwReturn (- 1), p)
        else (PwSleep (c # cs), p\<lparr>p_woken := p_woken p @ [ChanPipeR]\<rparr>)
      else pipewrite killed n cs (pipe_put c p))"

fun piperead_copy :: "nat \<Rightarrow> pipe \<Rightarrow> uchar list \<times> pipe" where
  "piperead_copy 0 p = ([], p)"
| "piperead_copy (Suc n) p =
     (if pipe_empty p then ([], p)
      else let (c, p) = pipe_get p; (cs, p) = piperead_copy n p in (c # cs, p))"

text \<open>\<open>None\<close> is the return value -1; the other return value is the number of bytes copied.\<close>

definition piperead :: "bool \<Rightarrow> int \<Rightarrow> pipe \<Rightarrow> (uchar list option \<times> pipe) res" where
  "piperead killed n p =
     (if pipe_empty p \<and> p_writeopen p then if killed then Ret (None, p) else Sleep ChanPipeR
      else let (cs, p) = piperead_copy (nat n) p
           in Ret (Some cs, p\<lparr>p_woken := p_woken p @ [ChanPipeW]\<rparr>))"

subsection \<open>The ring is a bounded queue\<close>

definition pipe_len :: "pipe \<Rightarrow> nat" where
  "pipe_len p = unat (p_nwrite p - p_nread p)"

definition pipe_ok :: "pipe \<Rightarrow> bool" where
  "pipe_ok p \<longleftrightarrow> length (p_data p) = PIPESIZE \<and> pipe_len p \<le> PIPESIZE"

definition pipe_bytes :: "pipe \<Rightarrow> uchar list" where
  "pipe_bytes p = ring PIPESIZE (p_data p) (p_nread p) (pipe_len p)"

lemma nwrite_eq: "p_nwrite p = p_nread p + of_nat (pipe_len p)"
  by (simp add: pipe_len_def)

lemma pipe_len_put: "pipe_len p < PIPESIZE \<Longrightarrow> pipe_len (pipe_put c p) = Suc (pipe_len p)"
proof -
  assume "pipe_len p < PIPESIZE"
  then have "unat (p_nwrite p - p_nread p + of_nat 1) = pipe_len p + 1"
    unfolding pipe_len_def by (intro unat_add_nat_no_wrap) simp
  then show ?thesis by (simp add: pipe_len_def pipe_put_def algebra_simps)
qed

lemma pipe_full_iff: "pipe_ok p \<Longrightarrow> pipe_full p \<longleftrightarrow> pipe_len p = PIPESIZE"
proof -
  assume "pipe_ok p"
  have "pipe_full p \<longleftrightarrow> p_nwrite p - p_nread p = 512" by (auto simp: pipe_full_def algebra_simps)
  also have "\<dots> \<longleftrightarrow> pipe_len p = PIPESIZE" by (simp add: pipe_len_def word_unat_eq_iff)
  finally show ?thesis .
qed

lemma pipe_empty_iff: "pipe_empty p \<longleftrightarrow> pipe_len p = 0"
  by (auto simp: pipe_empty_def pipe_len_def unat_eq_zero)

lemma pipe_get_law:
  assumes "pipe_ok p" and "\<not> pipe_empty p"
  shows "pipe_ok (snd (pipe_get p)) \<and> pipe_bytes p = fst (pipe_get p) # pipe_bytes (snd (pipe_get p))"
proof -
  obtain n where n: "pipe_len p = Suc n" using assms(2) pipe_empty_iff by (cases "pipe_len p") auto
  have "p_nwrite p - p_nread p = of_nat (pipe_len p)" by (simp add: pipe_len_def)
  then have "p_nwrite p - p_nread p = of_nat n + 1" unfolding n by simp
  then have "p_nwrite p - (p_nread p + 1) = of_nat n" by (simp add: algebra_simps)
  then have l: "pipe_len (snd (pipe_get p)) = n"
    using n assms(1) by (simp add: pipe_len_def pipe_get_def pipe_ok_def unat_of_nat)
  then show ?thesis
    using assms(1) n ring_Cons [of PIPESIZE "p_data p" "p_nread p" n]
    by (simp add: pipe_bytes_def pipe_ok_def) (simp add: pipe_get_def)
qed

interpretation pq: fifo pipe_put pipe_get pipe_full pipe_empty pipe_bytes pipe_ok PIPESIZE
proof
  fix p c
  show "pipe_ok p \<Longrightarrow> \<not> pipe_full p \<Longrightarrow> pipe_ok (pipe_put c p) \<and> pipe_bytes (pipe_put c p) = pipe_bytes p @ [c]"
  proof -
    assume a: "pipe_ok p" "\<not> pipe_full p"
    then have l: "pipe_len p < PIPESIZE" using pipe_full_iff by (auto simp: pipe_ok_def)
    have "ring PIPESIZE ((p_data p)[unat (p_nwrite p) mod PIPESIZE := c]) (p_nread p) (Suc (pipe_len p))
        = ring PIPESIZE (p_data p) (p_nread p) (pipe_len p) @ [c]"
      unfolding nwrite_eq by (rule ring_snoc [OF _ l]) (use a in \<open>auto simp: pipe_ok_def\<close>)
    then show ?thesis using a l pipe_len_put [OF l, of c]
      by (simp add: pipe_ok_def pipe_bytes_def) (simp add: pipe_put_def)
  qed
  show "pipe_ok p \<Longrightarrow> \<not> pipe_empty p \<Longrightarrow>
      pipe_ok (snd (pipe_get p)) \<and> pipe_bytes p = fst (pipe_get p) # pipe_bytes (snd (pipe_get p))"
    by (rule pipe_get_law)
  show "pipe_ok p \<Longrightarrow> pipe_empty p \<longleftrightarrow> pipe_bytes p = []"
    unfolding pipe_empty_iff by (simp add: pipe_bytes_def flip: length_0_conv)
  show "pipe_ok p \<Longrightarrow> pipe_full p \<longleftrightarrow> length (pipe_bytes p) = PIPESIZE"
    by (simp add: pipe_full_iff pipe_bytes_def)
  show "pipe_ok p \<Longrightarrow> length (pipe_bytes p) \<le> PIPESIZE"
    by (simp add: pipe_ok_def pipe_bytes_def)
qed

subsection \<open>pipewrite and piperead through the queue\<close>

lemma pipe_ok_woken [simp]: "pipe_ok (p\<lparr>p_woken := w\<rparr>) = pipe_ok p" "pipe_bytes (p\<lparr>p_woken := w\<rparr>) = pipe_bytes p"
  "pipe_full (p\<lparr>p_woken := w\<rparr>) = pipe_full p" "pipe_empty (p\<lparr>p_woken := w\<rparr>) = pipe_empty p"
  by (simp_all add: pipe_ok_def pipe_bytes_def pipe_len_def pipe_full_def pipe_empty_def)

lemma pipe_put_fields [simp]: "p_readopen (pipe_put c p) = p_readopen p" "p_writeopen (pipe_put c p) = p_writeopen p"
  "p_woken (pipe_put c p) = p_woken p"
  by (simp_all add: pipe_put_def)

lemma pipewrite_spec:
  assumes "put_while pipe_put pipe_full cs p = (rest, q)"
  shows "pipewrite killed n cs p =
    (if rest = [] then (PwReturn n, q\<lparr>p_woken := p_woken p @ [ChanPipeR]\<rparr>)
     else if \<not> p_readopen p \<or> killed then (PwReturn (- 1), q)
     else (PwSleep rest, q\<lparr>p_woken := p_woken p @ [ChanPipeR]\<rparr>))
    \<and> p_woken q = p_woken p \<and> p_readopen q = p_readopen p \<and> p_writeopen q = p_writeopen p"
  using assms
proof (induction cs arbitrary: p)
  case (Cons c cs)
  show ?case
  proof (cases "pipe_full p")
    case False
    then have "put_while pipe_put pipe_full cs (pipe_put c p) = (rest, q)" using Cons.prems by simp
    from Cons.IH [OF this] show ?thesis using False by simp
  qed (use Cons.prems in auto)
qed auto

lemma piperead_copy_upto: "piperead_copy n p = get_upto pipe_get pipe_empty n p"
  by (induction n arbitrary: p) (simp_all add: pipe_get_def)

lemma get_upto_fields:
  "get_upto pipe_get pipe_empty n p = (xs, q) \<Longrightarrow>
     p_woken q = p_woken p \<and> p_readopen q = p_readopen p \<and> p_writeopen q = p_writeopen p"
proof (induction n arbitrary: p xs q)
  case (Suc n)
  obtain ys r where r: "get_upto pipe_get pipe_empty n (p\<lparr>p_nread := p_nread p + 1\<rparr>) = (ys, r)"
    by (cases "get_upto pipe_get pipe_empty n (p\<lparr>p_nread := p_nread p + 1\<rparr>)")
  have "pipe_get p = (p_data p ! (unat (p_nread p) mod PIPESIZE), p\<lparr>p_nread := p_nread p + 1\<rparr>)"
    by (simp add: pipe_get_def)
  with Suc.IH [OF r] Suc.prems r show ?case by (auto split: if_splits)
qed auto

lemma piperead_spec:
  assumes "pipe_ok p" and "piperead killed n p = Ret (Some xs, q)"
  shows "pipe_ok q \<and> xs = take (nat n) (pipe_bytes p) \<and> pipe_bytes q = drop (nat n) (pipe_bytes p)
    \<and> p_woken q = p_woken p @ [ChanPipeW] \<and> p_readopen q = p_readopen p \<and> p_writeopen q = p_writeopen p
    \<and> (pipe_bytes p = [] \<longrightarrow> \<not> p_writeopen p)"
proof -
  obtain ys r where r: "get_upto pipe_get pipe_empty (nat n) p = (ys, r)"
    by (cases "get_upto pipe_get pipe_empty (nat n) p")
  have "xs = ys \<and> q = r\<lparr>p_woken := p_woken r @ [ChanPipeW]\<rparr> \<and> \<not> (pipe_empty p \<and> p_writeopen p)"
    using assms(2) r by (auto simp: piperead_def piperead_copy_upto split: if_splits)
  then show ?thesis
    using pq.get_upto_law [OF assms(1) r] get_upto_fields [OF r] pq.vacant_law [OF assms(1)] by auto
qed

subsection \<open>Writers and readers\<close>

text \<open>
  Processes write, read and close the pipe; a run that ends in \<open>sleep\<close> leaves the process in the
  set of sleepers of its channel, and a call of \<open>wakeup\<close> empties that set (the process then
  continues with its remaining bytes, or calls \<open>piperead\<close> again, as a step of its own). An end of
  the pipe is closed only when nobody is using it. The histories are the bytes put into the pipe and
  the bytes handed to readers. The flag says whether processes can be killed.
\<close>

record pmachine =
  pm_pipe :: pipe
  pm_in :: "uchar list"
  pm_out :: "uchar list"
  pm_writers :: "nat set"
  pm_readers :: "nat set"

definition wake :: "chan list \<Rightarrow> chan \<Rightarrow> nat set \<Rightarrow> nat set" where
  "wake ws c S = (if c \<in> set ws then {} else S)"

definition written :: "pipe \<Rightarrow> pipe \<Rightarrow> uchar list \<Rightarrow> uchar list" where
  "written p q cs = take (length (pipe_bytes q) - length (pipe_bytes p)) cs"

inductive pipe_step :: "bool \<Rightarrow> pmachine \<Rightarrow> pmachine \<Rightarrow> bool" for K where
  step_write: "i \<notin> pm_writers M \<Longrightarrow> (killed \<longrightarrow> K) \<Longrightarrow> p_writeopen (pm_pipe M) \<Longrightarrow>
    pipewrite killed (int (length cs)) cs ((pm_pipe M)\<lparr>p_woken := []\<rparr>) = (out, q) \<Longrightarrow>
    pipe_step K M (M\<lparr>pm_pipe := q, pm_in := pm_in M @ written (pm_pipe M) q cs,
      pm_writers := (case out of PwSleep _ \<Rightarrow> insert i (pm_writers M) | _ \<Rightarrow> pm_writers M),
      pm_readers := wake (p_woken q) ChanPipeR (pm_readers M)\<rparr>)"
| step_read: "i \<notin> pm_readers M \<Longrightarrow> (killed \<longrightarrow> K) \<Longrightarrow> p_readopen (pm_pipe M) \<Longrightarrow>
    piperead killed n ((pm_pipe M)\<lparr>p_woken := []\<rparr>) = Ret (Some xs, q) \<Longrightarrow>
    pipe_step K M (M\<lparr>pm_pipe := q, pm_out := pm_out M @ xs,
      pm_writers := wake (p_woken q) ChanPipeW (pm_writers M)\<rparr>)"
| step_read_sleep: "i \<notin> pm_readers M \<Longrightarrow> (killed \<longrightarrow> K) \<Longrightarrow> p_readopen (pm_pipe M) \<Longrightarrow>
    piperead killed n (pm_pipe M) = Sleep c \<Longrightarrow>
    pipe_step K M (M\<lparr>pm_readers := insert i (pm_readers M)\<rparr>)"
| step_close_write: "pm_writers M = {} \<Longrightarrow> pipeclose ((pm_pipe M)\<lparr>p_woken := []\<rparr>) True = (gone, q) \<Longrightarrow>
    pipe_step K M (M\<lparr>pm_pipe := q, pm_readers := wake (p_woken q) ChanPipeR (pm_readers M)\<rparr>)"
| step_close_read: "pm_readers M = {} \<Longrightarrow> pipeclose ((pm_pipe M)\<lparr>p_woken := []\<rparr>) False = (gone, q) \<Longrightarrow>
    pipe_step K M (M\<lparr>pm_pipe := q, pm_writers := wake (p_woken q) ChanPipeW (pm_writers M)\<rparr>)"

definition pipe_start :: "pmachine \<Rightarrow> bool" where
  "pipe_start M \<longleftrightarrow> (\<exists>p. length (p_data p) = PIPESIZE \<and> pm_pipe M = pipe_init p) \<and> pm_in M = [] \<and> pm_out M = []
     \<and> pm_writers M = {} \<and> pm_readers M = {}"

definition fifo_inv :: "pmachine \<Rightarrow> bool" where
  "fifo_inv M \<longleftrightarrow> pipe_ok (pm_pipe M) \<and> pm_in M = pm_out M @ pipe_bytes (pm_pipe M)"

lemma pipeclose_fields:
  assumes "pipeclose p w = (gone, q)"
  shows "pipe_ok q = pipe_ok p" "pipe_bytes q = pipe_bytes p" "pipe_full q = pipe_full p"
    "p_woken q = p_woken p @ [if w then ChanPipeR else ChanPipeW]"
    "p_readopen q = (p_readopen p \<and> w)" "p_writeopen q = (p_writeopen p \<and> \<not> w)"
  using assms by (cases w; auto simp: pipeclose_def Let_def pipe_ok_def pipe_bytes_def pipe_len_def pipe_full_def)+

lemma pipewrite_written:
  assumes "pipe_ok p" and "pipewrite killed n cs (p\<lparr>p_woken := []\<rparr>) = (out, q)"
  obtains rest where "pipe_ok q" and "pipe_bytes q = pipe_bytes p @ written p q cs"
    and "cs = written p q cs @ rest" and "rest \<noteq> [] \<Longrightarrow> pipe_full q"
    and "p_readopen q = p_readopen p" and "p_writeopen q = p_writeopen p"
    and "out = (if rest = [] then PwReturn n else if \<not> p_readopen p \<or> killed then PwReturn (- 1) else PwSleep rest)"
    and "p_woken q = (if rest \<noteq> [] \<and> (\<not> p_readopen p \<or> killed) then [] else [ChanPipeR])"
proof -
  let ?p = "p\<lparr>p_woken := []\<rparr>"
  obtain rest r where r: "put_while pipe_put pipe_full cs ?p = (rest, r)"
    by (cases "put_while pipe_put pipe_full cs ?p")
  have l: "pipe_ok r" "pipe_bytes p @ cs = pipe_bytes r @ rest" "rest \<noteq> [] \<longrightarrow> pipe_full r"
    using pq.put_while_law [OF _ r] assms(1) by auto
  note w = pipewrite_spec [OF r, of killed n]
  have q: "pipe_ok q = pipe_ok r" "pipe_bytes q = pipe_bytes r" "pipe_full q = pipe_full r"
    "p_readopen q = p_readopen p" "p_writeopen q = p_writeopen p"
    "out = (if rest = [] then PwReturn n else if \<not> p_readopen p \<or> killed then PwReturn (- 1) else PwSleep rest)"
    "p_woken q = (if rest \<noteq> [] \<and> (\<not> p_readopen p \<or> killed) then [] else [ChanPipeR])"
    using w assms(2) by (auto split: if_splits)
  have len: "length (pipe_bytes p) \<le> length (pipe_bytes r)"
  proof -
    have "length rest \<le> length cs" using pq.put_while_law [OF _ r] assms(1) by auto
    then show ?thesis using arg_cong [OF l(2), of length] by simp
  qed
  define us where "us = drop (length (pipe_bytes p)) (pipe_bytes r)"
  have r2: "pipe_bytes r = pipe_bytes p @ us"
    using arg_cong [OF l(2), of "take (length (pipe_bytes p))"] len append_take_drop_id [of "length (pipe_bytes p)" "pipe_bytes r"]
    by (simp add: us_def)
  then have "cs = us @ rest" using l(2) by simp
  then have "pipe_bytes r = pipe_bytes p @ written p q cs \<and> cs = written p q cs @ rest"
    using r2 q(2) by (simp add: written_def)
  then show thesis using that [of rest] l q by simp
qed

lemma fifo_step:
  assumes "pipe_step K M N" and "fifo_inv M"
  shows "fifo_inv N"
  using assms
proof (induction rule: pipe_step.induct)
  case (step_write i M killed cs out q)
  have ok: "pipe_ok (pm_pipe M)" using step_write.prems by (simp add: fifo_inv_def)
  show ?case
    by (rule pipewrite_written [OF ok step_write.hyps(4)]) (use step_write.prems in \<open>simp add: fifo_inv_def\<close>)
next
  case (step_read i M killed n xs q)
  then show ?case using piperead_spec [OF _ step_read.hyps(4)] by (auto simp: fifo_inv_def)
next
  case (step_close_write M gone q)
  then show ?case by (simp add: fifo_inv_def pipeclose_fields [OF step_close_write.hyps(2)])
next
  case (step_close_read M gone q)
  then show ?case by (simp add: fifo_inv_def pipeclose_fields [OF step_close_read.hyps(2)])
qed (simp add: fifo_inv_def)

lemma pipe_init_ok: "length (p_data p) = PIPESIZE \<Longrightarrow> pipe_ok (pipe_init p) \<and> pipe_bytes (pipe_init p) = []"
  by (simp add: pipe_ok_def pipe_bytes_def pipe_len_def pipe_init_def ring_def)

interpretation pm: step_invariant pipe_start "pipe_step K" fifo_inv for K
proof
  show "fifo_inv M" if "pipe_start M" for M
    using that pipe_init_ok by (auto simp: pipe_start_def fifo_inv_def)
qed (rule fifo_step)

text \<open>
  When no process is killed, a sleeping writer means a full pipe with an open read end, and a
  sleeping reader an empty pipe with an open write end.
\<close>

definition sleep_inv :: "pmachine \<Rightarrow> bool" where
  "sleep_inv M \<longleftrightarrow> fifo_inv M
     \<and> (pm_writers M \<noteq> {} \<longrightarrow> length (pipe_bytes (pm_pipe M)) = PIPESIZE \<and> p_readopen (pm_pipe M) \<and> p_writeopen (pm_pipe M))
     \<and> (pm_readers M \<noteq> {} \<longrightarrow> pipe_bytes (pm_pipe M) = [] \<and> p_readopen (pm_pipe M) \<and> p_writeopen (pm_pipe M))"

lemma sleep_step:
  assumes "pipe_step K M N" and "\<not> K" and "sleep_inv M"
  shows "sleep_inv N"
proof -
  have f: "fifo_inv N" using fifo_step [OF assms(1)] assms(3) by (simp add: sleep_inv_def)
  show ?thesis
    using assms f
  proof (induction rule: pipe_step.induct)
    case (step_write i M killed cs out q)
    have ok: "pipe_ok (pm_pipe M)" using step_write.prems by (simp add: sleep_inv_def fifo_inv_def)
    show ?case
    proof (rule pipewrite_written [OF ok step_write.hyps(4)])
      fix rest
      assume w: "pipe_ok q" "pipe_bytes q = pipe_bytes (pm_pipe M) @ written (pm_pipe M) q cs"
        "rest \<noteq> [] \<Longrightarrow> pipe_full q" "p_readopen q = p_readopen (pm_pipe M)" "p_writeopen q = p_writeopen (pm_pipe M)"
        "cs = written (pm_pipe M) q cs @ rest"
        "out = (if rest = [] then PwReturn (int (length cs)) else if \<not> p_readopen (pm_pipe M) \<or> killed then PwReturn (- 1) else PwSleep rest)"
        "p_woken q = (if rest \<noteq> [] \<and> (\<not> p_readopen (pm_pipe M) \<or> killed) then [] else [ChanPipeR])"
      have "length (pipe_bytes q) \<le> PIPESIZE" by (rule pq.bound [OF w(1)])
      moreover have "rest \<noteq> [] \<Longrightarrow> length (pipe_bytes q) = PIPESIZE" using w(3) pq.full_law [OF w(1)] by simp
      ultimately show ?thesis
        using step_write.prems step_write.hyps(2,3) w(2,4,5,7,8)
        by (auto simp: sleep_inv_def wake_def split: if_splits)
    qed
  next
    case (step_read i M killed n xs q)
    then have "pipe_ok (pm_pipe M)" by (simp add: sleep_inv_def fifo_inv_def)
    with step_read show ?case
      using piperead_spec [OF _ step_read.hyps(4)] by (auto simp: sleep_inv_def wake_def)
  next
    case (step_read_sleep i M killed n c)
    then have "pipe_ok (pm_pipe M)" by (simp add: sleep_inv_def fifo_inv_def)
    with step_read_sleep show ?case
      using pq.vacant_law [of "pm_pipe M"] by (auto simp: sleep_inv_def piperead_def split: if_splits prod.splits)
  next
    case (step_close_write M gone q)
    then show ?case using pipeclose_fields [OF step_close_write.hyps(2)] by (auto simp: sleep_inv_def wake_def)
  next
    case (step_close_read M gone q)
    then show ?case using pipeclose_fields [OF step_close_read.hyps(2)] by (auto simp: sleep_inv_def wake_def)
  qed
qed

interpretation pms: step_invariant pipe_start "pipe_step False" sleep_inv
proof
  show "sleep_inv M" if "pipe_start M" for M
    using pm.inv_init [OF that] that by (auto simp: sleep_inv_def pipe_start_def)
  show "sleep_inv N" if "sleep_inv M" "pipe_step False M N" for M N
    using sleep_step [OF that(2) _ that(1)] by simp
qed

subsection \<open>The pipe's properties\<close>

definition pipe_demo :: pmachine where
  "pipe_demo = \<lparr>pm_pipe = pipe_init \<lparr>p_data = replicate PIPESIZE 0, p_nread = 7, p_nwrite = 9, p_readopen = False,
     p_writeopen = False, p_woken = []\<rparr>, pm_in = [], pm_out = [], pm_writers = {}, pm_readers = {}\<rparr>"

lemma pipe_demo_start: "pipe_start pipe_demo"
  unfolding pipe_start_def pipe_demo_def by (simp, rule exI, rule conjI [OF _ refl], simp)

lemma pipe_demo_fields:
  "pipe_bytes (pm_pipe pipe_demo) = []" "p_readopen (pm_pipe pipe_demo)" "p_writeopen (pm_pipe pipe_demo)"
  "pm_readers pipe_demo = {}" "pm_writers pipe_demo = {}" "pm_in pipe_demo = []" "pm_out pipe_demo = []"
  "pipe_ok (pm_pipe pipe_demo)" "pipe_empty (pm_pipe pipe_demo)"
  by (simp_all add: pipe_demo_def pipe_init_def pipe_bytes_def pipe_len_def ring_def pipe_ok_def pipe_empty_def)

lemma pipe_demo_reader: "pipe_step K pipe_demo (pipe_demo\<lparr>pm_readers := {1}\<rparr>)"
proof -
  have "piperead False 4 (pm_pipe pipe_demo) = Sleep ChanPipeR"
    using pipe_demo_fields by (simp add: piperead_def)
  from pipe_step.step_read_sleep [OF _ _ _ this, of 1 K] pipe_demo_fields show ?thesis by simp
qed

lemma pipe_demo_reach: "reach pipe_start (pipe_step K) (pipe_demo\<lparr>pm_readers := {1}\<rparr>)"
proof -
  have "reach pipe_start (pipe_step K) pipe_demo" by (rule reach_init, rule pipe_demo_start)
  then show ?thesis by (rule reach_step) (rule pipe_demo_reader)
qed

text \<open>C7: a pipe is a FIFO queue of at most 512 bytes: in every state that writers, readers and closes can
  reach, in any order and whoever is killed, the bytes handed to readers are a prefix of the bytes the writers put in,
  in order, and at most PIPESIZE bytes are in flight; and a read of zero bytes on a nonempty request is end of file:
  every byte written has been read and the write end is closed.\<close>

theorem pipe_fifo:
  assumes "reach pipe_start (pipe_step K) M"
  shows "(\<exists>flight. pm_in M = pm_out M @ flight \<and> length flight \<le> 512) \<and>
    (\<forall>killed n q. 0 < n \<longrightarrow> piperead killed n (pm_pipe M) = Ret (Some [], q) \<longrightarrow>
       pm_out M = pm_in M \<and> \<not> p_writeopen (pm_pipe M))"
proof -
  have i: "fifo_inv M" by (rule pm.reach_inv [OF assms])
  then have ok: "pipe_ok (pm_pipe M)" by (simp add: fifo_inv_def)
  have "length (pipe_bytes (pm_pipe M)) \<le> 512" using pq.bound [OF ok] by simp
  moreover have "pm_out M = pm_in M \<and> \<not> p_writeopen (pm_pipe M)"
    if "0 < n" "piperead killed n (pm_pipe M) = Ret (Some [], q)" for killed n q
    using piperead_spec [OF ok that(2)] that(1) i by (auto simp: fifo_inv_def)
  ultimately show ?thesis using i by (auto simp: fifo_inv_def)
qed

theorem pipe_fifo_witness:
  "reach pipe_start (pipe_step True) (pipe_demo\<lparr>pm_readers := {1}\<rparr>) \<and>
   (\<exists>flight. pm_in (pipe_demo\<lparr>pm_readers := {1}\<rparr>) = pm_out (pipe_demo\<lparr>pm_readers := {1}\<rparr>) @ flight \<and> length flight \<le> 512)"
  using pipe_fifo [OF pipe_demo_reach] pipe_demo_reach by simp

text \<open>C8: no lost wakeup and no deadlock on a pipe, as long as no process using it is killed: a reader is asleep
  only while the pipe is empty and its write end open, a writer only while it holds 512 unread bytes and its read end
  is open, so that the two sides never sleep at once.\<close>

theorem pipe_no_lost_wakeup:
  assumes "reach pipe_start (pipe_step False) M"
  shows "(pm_readers M \<noteq> {} \<longrightarrow> pm_in M = pm_out M \<and> p_writeopen (pm_pipe M) \<and> pm_writers M = {})
    \<and> (pm_writers M \<noteq> {} \<longrightarrow> length (pm_in M) = length (pm_out M) + 512 \<and> p_readopen (pm_pipe M))"
  using pms.reach_inv [OF assms] by (auto simp: sleep_inv_def fifo_inv_def)

theorem pipe_no_lost_wakeup_witness:
  "reach pipe_start (pipe_step False) (pipe_demo\<lparr>pm_readers := {1}\<rparr>) \<and> pm_writers (pipe_demo\<lparr>pm_readers := {1}\<rparr>) = {}"
  using pipe_no_lost_wakeup [OF pipe_demo_reach] pipe_demo_reach by simp

text \<open>C9: a killed writer loses a wakeup: \<open>pipewrite\<close> returns -1 without waking the readers after it has filled
  the pipe, so a state is reachable in which a reader sleeps although 512 bytes are waiting for it.\<close>

theorem pipewrite_killed_loses_wakeup:
  "\<exists>M. reach pipe_start (pipe_step True) M \<and> pm_readers M \<noteq> {} \<and> length (pipe_bytes (pm_pipe M)) = 512"
proof -
  define M where "M = pipe_demo\<lparr>pm_readers := {1}\<rparr>"
  define cs :: "uchar list" where "cs = replicate 513 0"
  have r: "reach pipe_start (pipe_step True) M"
    unfolding M_def by (rule pipe_demo_reach)
  obtain out q where q: "pipewrite True (int (length cs)) cs ((pm_pipe M)\<lparr>p_woken := []\<rparr>) = (out, q)" by fastforce
  have M: "pipe_ok (pm_pipe M)" "pipe_bytes (pm_pipe M) = []" "p_writeopen (pm_pipe M)" "pm_writers M = {}" "pm_readers M = {1}"
    using pipe_demo_fields by (simp_all add: M_def)
  obtain rest where w: "pipe_ok q" "pipe_bytes q = written (pm_pipe M) q cs" "cs = written (pm_pipe M) q cs @ rest"
    "rest \<noteq> [] \<Longrightarrow> pipe_full q" "p_woken q = (if rest \<noteq> [] \<and> (\<not> p_readopen (pm_pipe M) \<or> True) then [] else [ChanPipeR])"
    using pipewrite_written [OF M(1) q] M(2) by (metis append_Nil)
  have b: "length (pipe_bytes q) \<le> 512" using pq.bound [OF w(1)] by simp
  have "length cs = length (pipe_bytes q) + length rest" using arg_cong [OF w(3), of length] w(2) by simp
  then have "rest \<noteq> []" using b by (auto simp: cs_def)
  then have full: "length (pipe_bytes q) = 512" "p_woken q = []"
    using w(4,5) pq.full_law [OF w(1)] b by auto
  have "pipe_step True M (M\<lparr>pm_pipe := q, pm_in := pm_in M @ written (pm_pipe M) q cs,
      pm_writers := (case out of PwSleep _ \<Rightarrow> insert 2 (pm_writers M) | _ \<Rightarrow> pm_writers M),
      pm_readers := wake (p_woken q) ChanPipeR (pm_readers M)\<rparr>)" (is "pipe_step _ _ ?N")
    by (rule pipe_step.step_write [OF _ _ M(3) q]) (simp_all add: M)
  from reach_step [OF r this] show ?thesis
    using full M(5) by (intro exI [of _ ?N]) (simp add: wake_def)
qed

end
