(* ===== verification/Ptable.thy ===== *)
theory Ptable
  imports Prelude
begin

section \<open>The process table (proc.c)\<close>

text \<open>
  The process table and what \<open>wakeup\<close>, \<open>kill\<close>, \<open>exit\<close>, \<open>wait\<close>, the scheduler and process
  creation do to it under \<open>ptable.lock\<close>. A process is its index in the table. The parts of these
  functions outside the table (memory, files, the lock itself) are in the theory of processes, which
  uses the definitions here.
\<close>

subsection \<open>State (proc.h)\<close>

datatype procstate = UNUSED | EMBRYO | SLEEPING | RUNNABLE | RUNNING | ZOMBIE

record proc =
  pr_sz :: uint
  pr_pgdir :: uint
  pr_kstack :: uint
  pr_state :: procstate
  pr_pid :: uint
  pr_parent :: "nat option"
  pr_tf :: uint
  pr_context :: uint
  pr_chan :: "chan option"
  pr_killed :: bool
  pr_ofile :: "nat option list"
  pr_cwd :: "nat option"
  pr_name :: "uchar list"

type_synonym ptable = "nat \<Rightarrow> proc"

definition upd_proc :: "nat \<Rightarrow> (proc \<Rightarrow> proc) \<Rightarrow> ptable \<Rightarrow> ptable" where
  "upd_proc p f t = t(p := f (t p))"

definition set_state :: "procstate \<Rightarrow> nat \<Rightarrow> ptable \<Rightarrow> ptable" where
  "set_state st p t = upd_proc p (\<lambda>x. x\<lparr>pr_state := st\<rparr>) t"

subsection \<open>Operations\<close>

text \<open>The first part of \<open>allocproc\<close>: a slot and its process number.\<close>

definition allocslot :: "uint \<Rightarrow> ptable \<Rightarrow> nat option \<times> uint \<times> ptable" where
  "allocslot nextpid t =
     (case find (\<lambda>p. pr_state (t p) = UNUSED) [0..<NPROC] of
        Some p \<Rightarrow> (Some p, nextpid + 1, upd_proc p (\<lambda>x. x\<lparr>pr_state := EMBRYO, pr_pid := nextpid\<rparr>) t)
      | None \<Rightarrow> (None, nextpid, t))"

definition wakeup1 :: "chan option \<Rightarrow> ptable \<Rightarrow> ptable" where
  "wakeup1 c t =
     fold (\<lambda>p t. if pr_state (t p) = SLEEPING \<and> pr_chan (t p) = c then set_state RUNNABLE p t else t) [0..<NPROC] t"

definition wakeup :: "chan option \<Rightarrow> ptable \<Rightarrow> ptable" where
  "wakeup c t = wakeup1 c t"

definition kill :: "uint \<Rightarrow> ptable \<Rightarrow> int \<times> ptable" where
  "kill pid t =
     (case find (\<lambda>p. pr_pid (t p) = pid) [0..<NPROC] of
        Some p \<Rightarrow>
          (0, upd_proc p (\<lambda>x. x\<lparr>pr_killed := True, pr_state := if pr_state x = SLEEPING then RUNNABLE else pr_state x\<rparr>) t)
      | None \<Rightarrow> (- 1, t))"

text \<open>The table part of \<open>exit\<close>.\<close>

definition reparent_one :: "nat \<Rightarrow> nat option \<Rightarrow> nat \<Rightarrow> ptable \<Rightarrow> ptable" where
  "reparent_one me initproc p t =
     (if pr_parent (t p) = Some me then
        let t = upd_proc p (\<lambda>x. x\<lparr>pr_parent := initproc\<rparr>) t in
        if pr_state (t p) = ZOMBIE then wakeup1 (map_option ChanProc initproc) t else t
      else t)"

definition reparent :: "nat \<Rightarrow> nat option \<Rightarrow> ptable \<Rightarrow> ptable" where
  "reparent me initproc t = fold (reparent_one me initproc) [0..<NPROC] t"

definition exit_table :: "nat \<Rightarrow> nat option \<Rightarrow> ptable \<Rightarrow> ptable" where
  "exit_table me initproc t =
     (let t = wakeup1 (map_option ChanProc (pr_parent (t me))) t;
          t = reparent me initproc t
      in set_state ZOMBIE me t)"

text \<open>The scan of \<open>wait\<close>: the first zombie child, or else whether there are children at all.\<close>

fun wait_scan :: "nat \<Rightarrow> nat \<Rightarrow> bool \<Rightarrow> nat \<Rightarrow> ptable \<Rightarrow> nat + bool" where
  "wait_scan 0 p havekids me t = Inr havekids"
| "wait_scan (Suc k) p havekids me t =
     (if pr_parent (t p) \<noteq> Some me then wait_scan k (Suc p) havekids me t
      else if pr_state (t p) = ZOMBIE then Inl p
      else wait_scan k (Suc p) True me t)"

definition reap :: "nat \<Rightarrow> ptable \<Rightarrow> ptable" where
  "reap p t = upd_proc p (\<lambda>x. x\<lparr>pr_state := UNUSED, pr_pid := 0, pr_parent := None,
     pr_name := (pr_name x)[0 := 0], pr_killed := False\<rparr>) t"

text \<open>Going to sleep, waking up, and the choice of the scheduler.\<close>

definition sleep_table :: "nat \<Rightarrow> chan \<Rightarrow> ptable \<Rightarrow> ptable" where
  "sleep_table me c t = upd_proc me (\<lambda>x. x\<lparr>pr_chan := Some c, pr_state := SLEEPING\<rparr>) t"

definition awake_table :: "nat \<Rightarrow> ptable \<Rightarrow> ptable" where
  "awake_table me t = upd_proc me (\<lambda>x. x\<lparr>pr_chan := None\<rparr>) t"

definition sched_next :: "nat \<Rightarrow> ptable \<Rightarrow> nat option" where
  "sched_next p t = find (\<lambda>q. pr_state (t q) = RUNNABLE) [p..<NPROC]"

subsection \<open>What the loops do\<close>

definition wake_if :: "bool \<Rightarrow> chan option \<Rightarrow> proc \<Rightarrow> proc" where
  "wake_if b c x = (if b \<and> pr_state x = SLEEPING \<and> pr_chan x = c then x\<lparr>pr_state := RUNNABLE\<rparr> else x)"

lemma wake_if_simps [simp]:
  "pr_parent (wake_if b c x) = pr_parent x" "pr_chan (wake_if b c x) = pr_chan x" "pr_pid (wake_if b c x) = pr_pid x"
  "pr_killed (wake_if b c x) = pr_killed x" "pr_state (wake_if b c x) = UNUSED \<longleftrightarrow> pr_state x = UNUSED"
  "pr_state (wake_if b c x) = EMBRYO \<longleftrightarrow> pr_state x = EMBRYO" "pr_state (wake_if b c x) = ZOMBIE \<longleftrightarrow> pr_state x = ZOMBIE"
  "pr_state (wake_if b c x) = RUNNING \<longleftrightarrow> pr_state x = RUNNING"
  "pr_state (wake_if b c x) = SLEEPING \<longleftrightarrow> pr_state x = SLEEPING \<and> \<not> (b \<and> pr_chan x = c)"
  "wake_if False c x = x"
  by (auto simp: wake_if_def)

lemma wake_if_again: "wake_if a c (wake_if b c x) = wake_if (a \<or> b) c x"
  by (auto simp: wake_if_def)

lemma upd_proc_apply: "upd_proc p f t q = (if q = p then f (t p) else t q)"
  by (simp add: upd_proc_def)

lemma wakeup1_fold:
  "distinct ps \<Longrightarrow>
   fold (\<lambda>p t. if pr_state (t p) = SLEEPING \<and> pr_chan (t p) = c then set_state RUNNABLE p t else t) ps t
     = (\<lambda>p. if p \<in> set ps then wake_if True c (t p) else t p)"
proof (induction ps arbitrary: t)
  case (Cons q ps)
  then show ?case by (auto simp: fun_eq_iff set_state_def upd_proc_apply wake_if_def)
qed simp

lemma wakeup1_eq: "wakeup1 c t = (\<lambda>p. wake_if (p < NPROC) c (t p))"
  unfolding wakeup1_def wakeup1_fold [OF distinct_upt] by (auto simp: fun_eq_iff)

definition adopt :: "nat \<Rightarrow> nat \<Rightarrow> proc \<Rightarrow> proc" where
  "adopt me ini x = (if pr_parent x = Some me then x\<lparr>pr_parent := Some ini\<rparr> else x)"

lemma adopt_simps [simp]:
  "pr_parent (adopt me ini x) = (if pr_parent x = Some me then Some ini else pr_parent x)"
  "pr_state (adopt me ini x) = pr_state x" "pr_chan (adopt me ini x) = pr_chan x" "pr_pid (adopt me ini x) = pr_pid x"
  by (simp_all add: adopt_def)

lemma adopt_wake: "adopt me ini (wake_if b c x) = wake_if b c (adopt me ini x)"
  by (simp add: adopt_def wake_if_def)

definition zchild :: "nat \<Rightarrow> proc \<Rightarrow> bool" where
  "zchild me x \<longleftrightarrow> pr_parent x = Some me \<and> pr_state x = ZOMBIE"

lemma reparent_one_eq:
  "reparent_one me (Some ini) q t =
     (\<lambda>p. wake_if (p < NPROC \<and> zchild me (t q)) (Some (ChanProc ini)) (if p = q then adopt me ini (t p) else t p))"
  by (auto simp: reparent_one_def Let_def wakeup1_eq fun_eq_iff upd_proc_apply zchild_def adopt_def)

lemma reparent_fold:
  assumes "distinct ps" and "ini \<noteq> me"
  shows "fold (reparent_one me (Some ini)) ps t
     = (\<lambda>p. wake_if (p < NPROC \<and> (\<exists>z \<in> set ps. zchild me (t z))) (Some (ChanProc ini))
          (if p \<in> set ps then adopt me ini (t p) else t p))"
  using assms(1)
proof (induction ps arbitrary: t)
  case (Cons q ps)
  let ?t = "reparent_one me (Some ini) q t"
  have q: "q \<notin> set ps" using Cons.prems by auto
  have z: "(\<exists>z \<in> set ps. zchild me (?t z)) \<longleftrightarrow> (\<exists>z \<in> set ps. zchild me (t z))"
    using q by (intro bex_cong refl) (auto simp: reparent_one_eq zchild_def)
  have d: "distinct ps" using Cons.prems by simp
  show ?case
  proof
    fix p
    have "fold (reparent_one me (Some ini)) (q # ps) t p
        = wake_if (p < NPROC \<and> (\<exists>z \<in> set ps. zchild me (t z))) (Some (ChanProc ini)) (if p \<in> set ps then adopt me ini (?t p) else ?t p)"
      using Cons.IH [OF d, of ?t] z by simp
    also have "(if p \<in> set ps then adopt me ini (?t p) else ?t p)
        = wake_if (p < NPROC \<and> zchild me (t q)) (Some (ChanProc ini)) (if p \<in> set (q # ps) then adopt me ini (t p) else t p)"
      using q by (auto simp: reparent_one_eq adopt_wake)
    finally show "fold (reparent_one me (Some ini)) (q # ps) t p
        = wake_if (p < NPROC \<and> (\<exists>z \<in> set (q # ps). zchild me (t z))) (Some (ChanProc ini))
            (if p \<in> set (q # ps) then adopt me ini (t p) else t p)"
      by (simp only: wake_if_again) (rule arg_cong [where f = "\<lambda>b. wake_if b _ _"], auto)
  qed
qed (simp add: fun_eq_iff)

lemma reparent_eq:
  assumes "ini \<noteq> me"
  shows "reparent me (Some ini) t =
     (\<lambda>p. wake_if (p < NPROC \<and> (\<exists>z < NPROC. zchild me (t z))) (Some (ChanProc ini))
          (if p < NPROC then adopt me ini (t p) else t p))"
proof -
  have "(\<exists>z \<in> set [0..<NPROC]. zchild me (t z)) \<longleftrightarrow> (\<exists>z < NPROC. zchild me (t z))" by auto
  then show ?thesis unfolding reparent_def reparent_fold [OF distinct_upt assms] by simp
qed

text \<open>The scan of \<open>wait\<close>.\<close>

lemma wait_scan_Inl:
  "wait_scan k p h me t = Inl z \<Longrightarrow> p \<le> z \<and> z < p + k \<and> pr_parent (t z) = Some me \<and> pr_state (t z) = ZOMBIE"
proof (induction k arbitrary: p h)
  case (Suc k)
  show ?case
  proof (cases "pr_parent (t p) = Some me \<and> pr_state (t p) = ZOMBIE")
    case False
    then obtain h' where "wait_scan k (Suc p) h' me t = Inl z" using Suc.prems by (auto split: if_splits)
    from Suc.IH [OF this] show ?thesis by auto
  qed (use Suc.prems in auto)
qed simp

lemma wait_scan_Inr:
  "wait_scan k p h me t = Inr b \<Longrightarrow> (\<forall>z \<in> {p..<p + k}. \<not> zchild me (t z))
     \<and> (b \<longleftrightarrow> h \<or> (\<exists>z \<in> {p..<p + k}. pr_parent (t z) = Some me))"
proof (induction k arbitrary: p h)
  case (Suc k)
  have split: "{p..<p + Suc k} = insert p {Suc p..<Suc p + k}" by auto
  show ?case
  proof (cases "pr_parent (t p) = Some me")
    case False
    then have "wait_scan k (Suc p) h me t = Inr b" using Suc.prems by simp
    from Suc.IH [OF this] False show ?thesis unfolding split by (auto simp: zchild_def)
  next
    case True
    then have "pr_state (t p) \<noteq> ZOMBIE" "wait_scan k (Suc p) True me t = Inr b" using Suc.prems by (auto split: if_splits)
    from Suc.IH [OF this(2)] this(1) True show ?thesis unfolding split by (auto simp: zchild_def)
  qed
qed auto

subsection \<open>The life of processes as a state machine\<close>

text \<open>
  Each step is what one call does to the table in one critical section of \<open>ptable.lock\<close>, for a
  process \<open>me\<close> that is running, or for the scheduler. A slot taken by \<open>allocproc\<close> belongs to the
  process in \<open>fork\<close> until \<open>fork\<close> makes it runnable or gives it back; a process does not exit in the
  middle of \<open>fork\<close>. Processes sleep on their own address only in \<open>wait\<close>.
\<close>

record pmach =
  pm_t :: ptable
  pm_next :: uint
  pm_emb :: "nat \<rightharpoonup> nat"

definition runs :: "pmach \<Rightarrow> nat \<Rightarrow> bool" where
  "runs M me \<longleftrightarrow> me < NPROC \<and> pr_state (pm_t M me) = RUNNING"

inductive proc_step :: "nat \<Rightarrow> pmach \<Rightarrow> pmach \<Rightarrow> bool" for ini where
  p_alloc: "runs M me \<Longrightarrow> allocslot (pm_next M) (pm_t M) = (Some np, n, t) \<Longrightarrow>
    proc_step ini M (M\<lparr>pm_t := t, pm_next := n, pm_emb := (pm_emb M)(np \<mapsto> me)\<rparr>)"
| p_fail: "runs M me \<Longrightarrow> pm_emb M np = Some me \<Longrightarrow>
    proc_step ini M (M\<lparr>pm_t := set_state UNUSED np (pm_t M), pm_emb := (pm_emb M)(np := None)\<rparr>)"
| p_start: "runs M me \<Longrightarrow> pm_emb M np = Some me \<Longrightarrow>
    proc_step ini M (M\<lparr>pm_t := upd_proc np (\<lambda>x. x\<lparr>pr_parent := Some me, pr_state := RUNNABLE\<rparr>) (pm_t M),
      pm_emb := (pm_emb M)(np := None)\<rparr>)"
| p_run: "sched_next k (pm_t M) = Some p \<Longrightarrow> proc_step ini M (M\<lparr>pm_t := set_state RUNNING p (pm_t M)\<rparr>)"
| p_yield: "runs M me \<Longrightarrow> proc_step ini M (M\<lparr>pm_t := set_state RUNNABLE me (pm_t M)\<rparr>)"
| p_sleep: "runs M me \<Longrightarrow> (\<And>q. c \<noteq> ChanProc q) \<Longrightarrow> proc_step ini M (M\<lparr>pm_t := sleep_table me c (pm_t M)\<rparr>)"
| p_awake: "runs M me \<Longrightarrow> proc_step ini M (M\<lparr>pm_t := awake_table me (pm_t M)\<rparr>)"
| p_wakeup: "proc_step ini M (M\<lparr>pm_t := wakeup (Some c) (pm_t M)\<rparr>)"
| p_kill: "kill pid (pm_t M) = (r, t) \<Longrightarrow> proc_step ini M (M\<lparr>pm_t := t\<rparr>)"
| p_exit: "runs M me \<Longrightarrow> me \<noteq> ini \<Longrightarrow> me \<notin> ran (pm_emb M) \<Longrightarrow>
    proc_step ini M (M\<lparr>pm_t := exit_table me (Some ini) (pm_t M)\<rparr>)"
| p_wait: "runs M me \<Longrightarrow> wait_scan NPROC 0 False me (pm_t M) = Inl p \<Longrightarrow>
    proc_step ini M (M\<lparr>pm_t := reap p (pm_t M)\<rparr>)"
| p_wait_sleep: "runs M me \<Longrightarrow> wait_scan NPROC 0 False me (pm_t M) = Inr True \<Longrightarrow> \<not> pr_killed (pm_t M me) \<Longrightarrow>
    proc_step ini M (M\<lparr>pm_t := sleep_table me (ChanProc me) (pm_t M)\<rparr>)"

definition live :: "proc \<Rightarrow> bool" where
  "live x \<longleftrightarrow> pr_state x \<noteq> UNUSED \<and> pr_state x \<noteq> EMBRYO"

text \<open>At boot there is the first process only.\<close>

definition pm_init :: "nat \<Rightarrow> pmach \<Rightarrow> bool" where
  "pm_init ini M \<longleftrightarrow> ini < NPROC \<and> pm_next M = 2 \<and> pm_emb M = Map.empty
     \<and> pr_state (pm_t M ini) = RUNNABLE \<and> pr_pid (pm_t M ini) = 1 \<and> pr_parent (pm_t M ini) = None
     \<and> (\<forall>p < NPROC. p \<noteq> ini \<longrightarrow> pr_state (pm_t M p) = UNUSED \<and> pr_pid (pm_t M p) = 0 \<and> pr_parent (pm_t M p) = None)"

text \<open>Families: who is a parent of whom.\<close>

definition family :: "nat \<Rightarrow> ptable \<Rightarrow> bool" where
  "family ini t \<longleftrightarrow> ini < NPROC \<and> live (t ini) \<and> pr_state (t ini) \<noteq> ZOMBIE \<and> pr_parent (t ini) = None
     \<and> (\<forall>p < NPROC. \<not> live (t p) \<longrightarrow> pr_parent (t p) = None)
     \<and> (\<forall>p < NPROC. p \<noteq> ini \<longrightarrow> live (t p) \<longrightarrow>
           (\<exists>q < NPROC. pr_parent (t p) = Some q \<and> q \<noteq> p \<and> live (t q) \<and> pr_state (t q) \<noteq> ZOMBIE))"

text \<open>A process sleeping in \<open>wait\<close> has no zombie to collect.\<close>

definition waiters :: "ptable \<Rightarrow> bool" where
  "waiters t \<longleftrightarrow> (\<forall>p < NPROC. \<forall>q. pr_state (t p) = SLEEPING \<and> pr_chan (t p) = Some (ChanProc q) \<longrightarrow>
     q = p \<and> (\<forall>z < NPROC. \<not> zchild p (t z)))"

definition embryos :: "pmach \<Rightarrow> bool" where
  "embryos M \<longleftrightarrow> (\<forall>np me. pm_emb M np = Some me \<longrightarrow> np < NPROC \<and> pr_state (pm_t M np) = EMBRYO
       \<and> me < NPROC \<and> live (pm_t M me) \<and> pr_state (pm_t M me) \<noteq> ZOMBIE)
     \<and> (\<forall>p < NPROC. pr_state (pm_t M p) = EMBRYO \<longrightarrow> pm_emb M p \<noteq> None)"

text \<open>Numbers are given out once: also a slot whose allocation failed keeps a number nobody else has.\<close>

definition pids :: "pmach \<Rightarrow> bool" where
  "pids M \<longleftrightarrow> 0 < pm_next M \<and> pm_next M \<le> 0x7FFFFFFF
     \<and> (\<forall>p < NPROC. pr_state (pm_t M p) \<noteq> UNUSED \<longrightarrow> pr_pid (pm_t M p) \<noteq> 0)
     \<and> (\<forall>p < NPROC. pr_pid (pm_t M p) < pm_next M)
     \<and> (\<forall>p < NPROC. \<forall>q < NPROC. pr_pid (pm_t M p) \<noteq> 0 \<and> pr_pid (pm_t M p) = pr_pid (pm_t M q) \<longrightarrow> p = q)"

definition proc_inv :: "nat \<Rightarrow> pmach \<Rightarrow> bool" where
  "proc_inv ini M \<longleftrightarrow> family ini (pm_t M) \<and> waiters (pm_t M) \<and> embryos M"

lemma pm_init_inv: "pm_init ini M \<Longrightarrow> proc_inv ini M"
  by (auto simp: pm_init_def proc_inv_def family_def waiters_def embryos_def live_def zchild_def)

lemma pm_init_pids: "pm_init ini M \<Longrightarrow> pids M"
proof -
  assume i: "pm_init ini M"
  have o: "p = ini" if "p < NPROC" "pr_pid (pm_t M p) \<noteq> 0" for p using i that by (auto simp: pm_init_def)
  have "pr_pid (pm_t M p) < pm_next M" if "p < NPROC" for p
    using i that by (cases "p = ini") (auto simp: pm_init_def)
  moreover have "p = q" if "p < NPROC" "q < NPROC" "pr_pid (pm_t M p) \<noteq> 0" "pr_pid (pm_t M p) = pr_pid (pm_t M q)" for p q
    using o [OF that(1,3)] o [OF that(2)] that(3,4) by simp
  ultimately show ?thesis using i unfolding pids_def pm_init_def by auto
qed

text \<open>
  A step that leaves parents and the sets of free, embryonic and dead slots alone keeps the
  invariant as long as it puts nobody to sleep on a process.
\<close>

lemma proc_inv_states:
  assumes "proc_inv ini M" and "pm_emb N = pm_emb M"
    and "\<And>p. p < NPROC \<Longrightarrow> pr_parent (pm_t N p) = pr_parent (pm_t M p)
      \<and> (pr_state (pm_t N p) = UNUSED \<longleftrightarrow> pr_state (pm_t M p) = UNUSED)
      \<and> (pr_state (pm_t N p) = EMBRYO \<longleftrightarrow> pr_state (pm_t M p) = EMBRYO)
      \<and> (pr_state (pm_t N p) = ZOMBIE \<longleftrightarrow> pr_state (pm_t M p) = ZOMBIE)"
    and "\<And>p q. p < NPROC \<Longrightarrow> pr_state (pm_t N p) = SLEEPING \<and> pr_chan (pm_t N p) = Some (ChanProc q) \<Longrightarrow>
      (pr_state (pm_t M p) = SLEEPING \<and> pr_chan (pm_t M p) = Some (ChanProc q))
      \<or> (q = p \<and> (\<forall>z < NPROC. \<not> zchild p (pm_t M z)))"
  shows "proc_inv ini N"
proof -
  have l: "live (pm_t N p) = live (pm_t M p)" "zchild q (pm_t N p) = zchild q (pm_t M p)" if "p < NPROC" for p q
    using assms(3) [OF that] by (auto simp: live_def zchild_def)
  have "family ini (pm_t N)"
    using assms(1) unfolding proc_inv_def family_def by (metis l(1) assms(3))
  moreover have "waiters (pm_t N)"
    using assms(1,4) l(2) unfolding proc_inv_def waiters_def by metis
  moreover have "embryos N"
    using assms(1) unfolding proc_inv_def embryos_def assms(2) by (metis l(1) assms(3))
  ultimately show ?thesis by (simp add: proc_inv_def)
qed

lemma sched_nextD: "sched_next k t = Some p \<Longrightarrow> p < NPROC \<and> pr_state (t p) = RUNNABLE"
  by (auto simp: sched_next_def find_Some_iff)

lemma allocslotD:
  assumes "allocslot n t = (Some np, n', t')"
  shows "np < NPROC" "pr_state (t np) = UNUSED" "n' = n + 1" "t' = upd_proc np (\<lambda>x. x\<lparr>pr_state := EMBRYO, pr_pid := n\<rparr>) t"
  using assms by (auto simp: allocslot_def find_Some_iff split: option.splits)

lemma killD:
  assumes "kill pid t = (r, t')"
  obtains "t' = t" | p where "p < NPROC" "pr_pid (t p) = pid"
    "t' = upd_proc p (\<lambda>x. x\<lparr>pr_killed := True, pr_state := if pr_state x = SLEEPING then RUNNABLE else pr_state x\<rparr>) t"
proof (cases "find (\<lambda>p. pr_pid (t p) = pid) [0..<NPROC]")
  case None
  then show thesis using assms that(1) by (simp add: kill_def)
next
  case (Some p)
  then have "p < NPROC" "pr_pid (t p) = pid" by (auto simp: find_Some_iff)
  then show thesis by (rule that(2)) (use assms Some in \<open>simp add: kill_def\<close>)
qed

lemma inv_quiet:
  assumes "proc_inv ini M" and "runs M me"
  shows "proc_inv ini (M\<lparr>pm_t := set_state RUNNABLE me (pm_t M)\<rparr>)"
    and "proc_inv ini (M\<lparr>pm_t := awake_table me (pm_t M)\<rparr>)"
    and "(\<And>q. c \<noteq> ChanProc q) \<Longrightarrow> proc_inv ini (M\<lparr>pm_t := sleep_table me c (pm_t M)\<rparr>)"
    and "wait_scan NPROC 0 False me (pm_t M) = Inr True \<Longrightarrow> proc_inv ini (M\<lparr>pm_t := sleep_table me (ChanProc me) (pm_t M)\<rparr>)"
proof -
  have r: "pr_state (pm_t M me) = RUNNING" using assms(2) by (simp add: runs_def)
  show "proc_inv ini (M\<lparr>pm_t := set_state RUNNABLE me (pm_t M)\<rparr>)"
    by (rule proc_inv_states [OF assms(1)]) (auto simp: set_state_def upd_proc_apply r split: if_splits)
  show "proc_inv ini (M\<lparr>pm_t := awake_table me (pm_t M)\<rparr>)"
    by (rule proc_inv_states [OF assms(1)]) (auto simp: awake_table_def upd_proc_apply r split: if_splits)
  show "proc_inv ini (M\<lparr>pm_t := sleep_table me c (pm_t M)\<rparr>)" if "\<And>q. c \<noteq> ChanProc q"
    by (rule proc_inv_states [OF assms(1)]) (use that in \<open>auto simp: sleep_table_def upd_proc_apply r split: if_splits\<close>)
  show "proc_inv ini (M\<lparr>pm_t := sleep_table me (ChanProc me) (pm_t M)\<rparr>)"
    if w: "wait_scan NPROC 0 False me (pm_t M) = Inr True"
    by (rule proc_inv_states [OF assms(1)])
      (use wait_scan_Inr [OF w] in \<open>auto simp: sleep_table_def upd_proc_apply r split: if_splits\<close>)
qed

lemma inv_run: "proc_inv ini M \<Longrightarrow> sched_next k (pm_t M) = Some p \<Longrightarrow> proc_inv ini (M\<lparr>pm_t := set_state RUNNING p (pm_t M)\<rparr>)"
  by (rule proc_inv_states [where M = M]) (auto simp: set_state_def upd_proc_apply dest: sched_nextD split: if_splits)

lemma inv_wakeup: "proc_inv ini M \<Longrightarrow> proc_inv ini (M\<lparr>pm_t := wakeup (Some c) (pm_t M)\<rparr>)"
  by (rule proc_inv_states [where M = M]) (auto simp: wakeup_def wakeup1_eq)

lemma inv_kill:
  assumes "proc_inv ini M" and "kill pid (pm_t M) = (r, t)"
  shows "proc_inv ini (M\<lparr>pm_t := t\<rparr>)"
  using assms(2)
proof (cases rule: killD)
  case 1
  then show ?thesis using assms(1) by simp
next
  case (2 p)
  then show ?thesis
    by (intro proc_inv_states [OF assms(1)]) (auto simp: upd_proc_apply split: if_splits)
qed

lemma exit_table_eq:
  assumes "ini \<noteq> me" and "me < NPROC" and "pr_parent (t me) = Some q" and "q \<noteq> me" and "pr_state (t me) = RUNNING"
  shows "p < NPROC \<Longrightarrow> exit_table me (Some ini) t p =
    (if p = me then (t me)\<lparr>pr_state := ZOMBIE\<rparr>
     else wake_if (\<exists>z < NPROC. zchild me (t z)) (Some (ChanProc ini)) (wake_if True (Some (ChanProc q)) (adopt me ini (t p))))"
proof -
  assume p: "p < NPROC"
  have z: "zchild me (wake_if b c x) = zchild me x" for b c x by (simp add: zchild_def)
  have m: "adopt me ini (t me) = t me" using assms(3,4) by (simp add: adopt_def)
  show ?thesis
  proof (cases "p = me")
    case True
    then show ?thesis using assms m
      by (simp add: exit_table_def Let_def set_state_def upd_proc_apply reparent_eq wakeup1_eq adopt_wake) (simp add: wake_if_def)
  next
    case False
    then show ?thesis using assms p
      by (simp add: exit_table_def Let_def set_state_def upd_proc_apply reparent_eq wakeup1_eq adopt_wake z cong: conj_cong)
  qed
qed

lemma proc_invD:
  assumes "proc_inv ini M"
  shows "ini < NPROC" "live (pm_t M ini)" "pr_state (pm_t M ini) \<noteq> ZOMBIE" "pr_parent (pm_t M ini) = None"
    "p < NPROC \<Longrightarrow> \<not> live (pm_t M p) \<Longrightarrow> pr_parent (pm_t M p) = None"
    "p < NPROC \<Longrightarrow> p \<noteq> ini \<Longrightarrow> live (pm_t M p) \<Longrightarrow>
      \<exists>q < NPROC. pr_parent (pm_t M p) = Some q \<and> q \<noteq> p \<and> live (pm_t M q) \<and> pr_state (pm_t M q) \<noteq> ZOMBIE"
    "p < NPROC \<Longrightarrow> pr_state (pm_t M p) = SLEEPING \<Longrightarrow> pr_chan (pm_t M p) = Some (ChanProc q) \<Longrightarrow>
      q = p \<and> (\<forall>z < NPROC. \<not> zchild p (pm_t M z))"
    "pm_emb M np = Some me \<Longrightarrow> np < NPROC \<and> pr_state (pm_t M np) = EMBRYO \<and> me < NPROC \<and> live (pm_t M me) \<and> pr_state (pm_t M me) \<noteq> ZOMBIE"
    "p < NPROC \<Longrightarrow> pr_state (pm_t M p) = EMBRYO \<Longrightarrow> pm_emb M p \<noteq> None"
  using assms unfolding proc_inv_def family_def waiters_def embryos_def by blast+

text \<open>The parent a process has is alive.\<close>

lemma inv_parent:
  assumes "proc_inv ini M" and "p < NPROC" and "pr_parent (pm_t M p) = Some q"
  shows "q < NPROC \<and> q \<noteq> p \<and> live (pm_t M q) \<and> pr_state (pm_t M q) \<noteq> ZOMBIE \<and> live (pm_t M p) \<and> p \<noteq> ini"
proof -
  have "p \<noteq> ini" using proc_invD(4) [OF assms(1)] assms(3) by auto
  moreover have l: "live (pm_t M p)" using proc_invD(5) [OF assms(1,2)] assms(3) by auto
  ultimately show ?thesis using proc_invD(6) [OF assms(1,2)] assms(3) by auto
qed

lemma inv_exit:
  assumes "proc_inv ini M" and "runs M me" and "me \<noteq> ini" and "me \<notin> ran (pm_emb M)"
  shows "proc_inv ini (M\<lparr>pm_t := exit_table me (Some ini) (pm_t M)\<rparr>)"
proof -
  let ?t = "pm_t M"
  let ?u = "exit_table me (Some ini) ?t" and ?Z = "\<exists>z < NPROC. zchild me (?t z)"
  note D = proc_invD [OF assms(1)]
  have me: "me < NPROC" "pr_state (?t me) = RUNNING" "live (?t me)" using assms(2) by (auto simp: runs_def live_def)
  obtain q where q: "q < NPROC" "pr_parent (?t me) = Some q" "q \<noteq> me" "live (?t q)" "pr_state (?t q) \<noteq> ZOMBIE"
    using D(6) [OF me(1) assms(3) me(3)] by blast
  have u: "?u p = (if p = me then (?t me)\<lparr>pr_state := ZOMBIE\<rparr>
     else wake_if ?Z (Some (ChanProc ini)) (wake_if True (Some (ChanProc q)) (adopt me ini (?t p))))" if "p < NPROC" for p
    by (rule exit_table_eq [where t = ?t, OF assms(3) [symmetric] me(1) q(2,3) me(2) that])
  have lv: "live (?u p) = live (?t p)" if "p < NPROC" for p using u [OF that] me(3) by (auto simp: live_def)
  have zb: "pr_state (?u p) = ZOMBIE \<longleftrightarrow> p = me \<or> pr_state (?t p) = ZOMBIE" if "p < NPROC" for p
    using u [OF that] by auto
  have pa: "pr_parent (?u p) = (if pr_parent (?t p) = Some me then Some ini else pr_parent (?t p))" if "p < NPROC" for p
    using u [OF that] q(2,3) by auto
  have st: "pr_state (?u p) = EMBRYO \<longleftrightarrow> pr_state (?t p) = EMBRYO" if "p < NPROC" for p using u [OF that] me(2) by auto
  have "family ini ?u"
    unfolding family_def
  proof (intro conjI allI impI)
    fix p assume p: "p < NPROC" "p \<noteq> ini" "live (?u p)"
    then obtain r where r: "r < NPROC" "pr_parent (?t p) = Some r" "r \<noteq> p" "live (?t r)" "pr_state (?t r) \<noteq> ZOMBIE"
      using D(6) lv by blast
    show "\<exists>q < NPROC. pr_parent (?u p) = Some q \<and> q \<noteq> p \<and> live (?u q) \<and> pr_state (?u q) \<noteq> ZOMBIE"
      using r p pa [OF p(1)] lv zb D(1-3) assms(3) by (cases "r = me") auto
  next
    fix p assume "p < NPROC" "\<not> live (?u p)"
    then show "pr_parent (?u p) = None" using D(5) lv pa by auto
  qed (use D(1-4) lv zb pa assms(3) in auto)
  moreover have "waiters ?u"
    unfolding waiters_def
  proof (intro allI impI)
    fix p r assume p: "p < NPROC" and s: "pr_state (?u p) = SLEEPING \<and> pr_chan (?u p) = Some (ChanProc r)"
    have pm: "p \<noteq> me" using s u [OF p] by auto
    then have t: "pr_state (?t p) = SLEEPING" "pr_chan (?t p) = Some (ChanProc r)" "r \<noteq> q" "\<not> (?Z \<and> r = ini)"
      using s u [OF p] by auto
    note w = D(7) [OF p t(1,2)]
    have "\<not> zchild p (?u z)" if "z < NPROC" for z
      using w t(3,4) that zb [OF that] pa [OF that] q(2,3) by (auto simp: zchild_def)
    then show "r = p \<and> (\<forall>z < NPROC. \<not> zchild p (?u z))" using w by blast
  qed
  moreover have "embryos (M\<lparr>pm_t := ?u\<rparr>)"
  proof -
    have "me' \<noteq> me" if "pm_emb M np = Some me'" for np me' using assms(4) that by (auto simp: ran_def)
    then show ?thesis unfolding embryos_def using D(8,9) st lv zb by auto
  qed
  ultimately show ?thesis by (simp add: proc_inv_def)
qed

lemma inv_wait:
  assumes "proc_inv ini M" and "wait_scan NPROC 0 False me (pm_t M) = Inl p"
  shows "proc_inv ini (M\<lparr>pm_t := reap p (pm_t M)\<rparr>)"
proof -
  let ?t = "pm_t M" and ?u = "reap p (pm_t M)"
  note D = proc_invD [OF assms(1)]
  have p: "p < NPROC" "pr_state (?t p) = ZOMBIE" using wait_scan_Inl [OF assms(2)] by auto
  have same: "?u r = ?t r" if "r \<noteq> p" for r using that by (simp add: reap_def upd_proc_apply)
  have up: "\<not> live (?u p)" "pr_parent (?u p) = None" "pr_state (?u p) = UNUSED"
    by (simp_all add: reap_def upd_proc_apply live_def)
  have pi: "p \<noteq> ini" using D(3) p(2) by auto
  have nop: "pr_parent (?t r) \<noteq> Some p" if "r < NPROC" for r using inv_parent [OF assms(1) that] p(2) by auto
  have "family ini ?u"
    unfolding family_def
  proof (intro conjI allI impI)
    fix r assume r: "r < NPROC" "r \<noteq> ini" "live (?u r)"
    then have rp: "r \<noteq> p" using up by auto
    obtain q where q: "q < NPROC" "pr_parent (?t r) = Some q" "q \<noteq> r" "live (?t q)" "pr_state (?t q) \<noteq> ZOMBIE"
      using D(6) [OF r(1,2)] r(3) same [OF rp] by auto
    have "q \<noteq> p" using q(5) p(2) by auto
    then show "\<exists>q < NPROC. pr_parent (?u r) = Some q \<and> q \<noteq> r \<and> live (?u q) \<and> pr_state (?u q) \<noteq> ZOMBIE"
      using q same rp by auto
  next
    fix r assume "r < NPROC" "\<not> live (?u r)"
    then show "pr_parent (?u r) = None" using D(5) same up(2) by (cases "r = p") auto
  qed (use D(1-4) same [OF pi [symmetric]] in auto)
  moreover have "waiters ?u"
    unfolding waiters_def
  proof (intro allI impI)
    fix r q assume r: "r < NPROC" and s: "pr_state (?u r) = SLEEPING \<and> pr_chan (?u r) = Some (ChanProc q)"
    then have "r \<noteq> p" using up(3) by auto
    then have w: "q = r \<and> (\<forall>z < NPROC. \<not> zchild r (?t z))" using D(7) [OF r] s same by auto
    have "\<not> zchild r (?u z)" if "z < NPROC" for z
      using w that up same by (cases "z = p") (auto simp: zchild_def)
    then show "q = r \<and> (\<forall>z < NPROC. \<not> zchild r (?u z))" using w by blast
  qed
  moreover have "embryos (M\<lparr>pm_t := ?u\<rparr>)"
  proof -
    have a: "np \<noteq> p \<and> me' \<noteq> p" if "pm_emb M np = Some me'" for np me' using D(8) [OF that] p(2) by auto
    have b: "pr_state (?t r) = EMBRYO" if "pr_state (?u r) = EMBRYO" for r using that up(3) same by (cases "r = p") auto
    show ?thesis unfolding embryos_def using D(8,9) a b same by auto
  qed
  ultimately show ?thesis by (simp add: proc_inv_def)
qed

lemma inv_slot:
  assumes "proc_inv ini M" and "runs M me" and "np < NPROC" and "\<not> live (pm_t M np)" and "N = M\<lparr>pm_t := upd_proc np f (pm_t M), pm_next := n, pm_emb := e\<rparr>"
    and "e = (pm_emb M)(np := if pr_state (f (pm_t M np)) = EMBRYO then Some me else None)"
    and "pr_parent (f (pm_t M np)) = (if live (f (pm_t M np)) then Some me else None)"
    and "pr_state (f (pm_t M np)) \<noteq> ZOMBIE" and "pr_state (f (pm_t M np)) \<noteq> SLEEPING"
  shows "proc_inv ini N"
proof -
  let ?t = "pm_t M" and ?u = "pm_t N"
  note D = proc_invD [OF assms(1)]
  have up: "?u np = f (?t np)" and same: "r \<noteq> np \<Longrightarrow> ?u r = ?t r" for r using assms(5) by (simp_all add: upd_proc_apply)
  have me: "me < NPROC" "live (?t me)" "pr_state (?t me) \<noteq> ZOMBIE" "me \<noteq> np" using assms(2,4) by (auto simp: runs_def live_def)
  have ni: "np \<noteq> ini" using D(2) assms(4) by auto
  have nop: "pr_parent (?t r) \<noteq> Some np" if "r < NPROC" for r using inv_parent [OF assms(1) that] assms(4) by auto
  have "family ini ?u"
    unfolding family_def
  proof (intro conjI allI impI)
    fix r assume r: "r < NPROC" "r \<noteq> ini" "live (?u r)"
    show "\<exists>q < NPROC. pr_parent (?u r) = Some q \<and> q \<noteq> r \<and> live (?u q) \<and> pr_state (?u q) \<noteq> ZOMBIE"
    proof (cases "r = np")
      case True
      then show ?thesis using r me up same [OF me(4)] assms(7) by auto
    next
      case False
      then obtain q where q: "q < NPROC" "pr_parent (?t r) = Some q" "q \<noteq> r" "live (?t q)" "pr_state (?t q) \<noteq> ZOMBIE"
        using D(6) [OF r(1,2)] r(3) same by auto
      then have "q \<noteq> np" using assms(4) by auto
      then show ?thesis using q same False by auto
    qed
  next
    fix r assume "r < NPROC" "\<not> live (?u r)"
    then show "pr_parent (?u r) = None" using D(5) same up assms(7) by (cases "r = np") auto
  qed (use D(1-4) same [OF ni [symmetric]] in auto)
  moreover have "waiters ?u"
    unfolding waiters_def
  proof (intro allI impI)
    fix r q assume r: "r < NPROC" and s: "pr_state (?u r) = SLEEPING \<and> pr_chan (?u r) = Some (ChanProc q)"
    then have "r \<noteq> np" using up assms(9) by auto
    then have w: "q = r \<and> (\<forall>z < NPROC. \<not> zchild r (?t z))" using D(7) [OF r] s same by auto
    have "\<not> zchild r (?u z)" if "z < NPROC" for z
      using w that up same assms(8) by (cases "z = np") (auto simp: zchild_def)
    then show "q = r \<and> (\<forall>z < NPROC. \<not> zchild r (?u z))" using w by blast
  qed
  moreover have "embryos N"
    unfolding embryos_def
  proof (intro conjI allI impI)
    fix a b assume e: "pm_emb N a = Some b"
    show "a < NPROC" "pr_state (?u a) = EMBRYO" "b < NPROC" "live (?u b)" "pr_state (?u b) \<noteq> ZOMBIE"
    proof -
      have "a < NPROC \<and> pr_state (?u a) = EMBRYO \<and> b < NPROC \<and> live (?u b) \<and> pr_state (?u b) \<noteq> ZOMBIE"
      proof (cases "a = np")
        case True
        then show ?thesis using e assms(3,5,6) up me same [OF me(4)] by (auto split: if_splits)
      next
        case False
        then have m: "pm_emb M a = Some b" using e assms(5,6) by simp
        then have "b \<noteq> np" using D(8) [OF m] assms(4) by auto
        then show ?thesis using D(8) [OF m] same False by auto
      qed
      then show "a < NPROC" "pr_state (?u a) = EMBRYO" "b < NPROC" "live (?u b)" "pr_state (?u b) \<noteq> ZOMBIE" by blast+
    qed
  next
    fix r assume "r < NPROC" "pr_state (?u r) = EMBRYO"
    then show "pm_emb N r \<noteq> None" using D(9) up same assms(5,6) by (cases "r = np") auto
  qed
  ultimately show ?thesis by (simp add: proc_inv_def)
qed

lemma inv_alloc:
  assumes "proc_inv ini M" and "runs M me" and "allocslot (pm_next M) (pm_t M) = (Some np, n, t)"
  shows "proc_inv ini (M\<lparr>pm_t := t, pm_next := n, pm_emb := (pm_emb M)(np \<mapsto> me)\<rparr>)"
proof -
  note a = allocslotD [OF assms(3)]
  have "pr_parent (pm_t M np) = None" by (rule proc_invD(5) [OF assms(1) a(1)]) (simp add: live_def a(2))
  then show ?thesis
    by (intro inv_slot [OF assms(1,2) a(1), where f = "\<lambda>x. x\<lparr>pr_state := EMBRYO, pr_pid := pm_next M\<rparr>"])
      (use a in \<open>simp_all add: live_def\<close>)
qed

lemma inv_fail:
  assumes "proc_inv ini M" and "runs M me" and "pm_emb M np = Some me"
  shows "proc_inv ini (M\<lparr>pm_t := set_state UNUSED np (pm_t M), pm_emb := (pm_emb M)(np := None)\<rparr>)" (is "proc_inv ini ?N")
    and "proc_inv ini (M\<lparr>pm_t := upd_proc np (\<lambda>x. x\<lparr>pr_parent := Some me, pr_state := RUNNABLE\<rparr>) (pm_t M),
      pm_emb := (pm_emb M)(np := None)\<rparr>)" (is "proc_inv ini ?N2")
proof -
  note D = proc_invD [OF assms(1)]
  have e: "np < NPROC" "pr_state (pm_t M np) = EMBRYO" using D(8) [OF assms(3)] by auto
  have l: "\<not> live (pm_t M np)" using e(2) by (simp add: live_def)
  have pa: "pr_parent (pm_t M np) = None" by (rule D(5) [OF e(1) l])
  show "proc_inv ini ?N" "proc_inv ini ?N2"
    using inv_slot [OF assms(1,2) e(1) l, where N = ?N and f = "\<lambda>x. x\<lparr>pr_state := UNUSED\<rparr>" and n = "pm_next M"]
      inv_slot [OF assms(1,2) e(1) l, where N = ?N2 and f = "\<lambda>x. x\<lparr>pr_parent := Some me, pr_state := RUNNABLE\<rparr>" and n = "pm_next M"] pa
    by (simp_all add: set_state_def live_def)
qed

lemma proc_step_inv: "proc_step ini M N \<Longrightarrow> proc_inv ini M \<Longrightarrow> proc_inv ini N"
  by (induction rule: proc_step.induct)
    (blast intro: inv_alloc inv_fail inv_quiet inv_run inv_wakeup inv_kill inv_exit inv_wait)+

interpretation pt: step_invariant "pm_init ini" "proc_step ini" "proc_inv ini" for ini
  by unfold_locales (auto intro: pm_init_inv proc_step_inv)

subsection \<open>Process numbers\<close>

text \<open>
  Nothing in \<open>allocproc\<close> keeps \<open>nextpid\<close> from overflowing. Numbers are unique in the runs in which it does
  not: those whose every step leaves it a positive \<open>int\<close>.
\<close>

definition bounded_step :: "nat \<Rightarrow> pmach \<Rightarrow> pmach \<Rightarrow> bool" where
  "bounded_step ini M N \<longleftrightarrow> proc_step ini M N \<and> pm_next N \<le> 0x7FFFFFFF"

lemma pids_sub:
  assumes "pids M" and "pm_next N = pm_next M"
    and "\<And>r. r < NPROC \<Longrightarrow> pr_pid (pm_t N r) = 0 \<and> pr_state (pm_t N r) = UNUSED
      \<or> pr_pid (pm_t N r) = pr_pid (pm_t M r) \<and> (pr_state (pm_t M r) = UNUSED \<longrightarrow> pr_state (pm_t N r) = UNUSED)"
  shows "pids N"
  using assms unfolding pids_def by (metis word_gt_0)

lemma pids_alloc:
  assumes "pids M" and "allocslot (pm_next M) (pm_t M) = (Some np, n, t)" and "n \<le> 0x7FFFFFFF"
  shows "pids (M\<lparr>pm_t := t, pm_next := n, pm_emb := e\<rparr>)" (is "pids ?N")
proof -
  note a = allocslotD [OF assms(2)]
  have D: "0 < pm_next M" "pm_next M \<le> 0x7FFFFFFF"
    "p < NPROC \<Longrightarrow> pr_state (pm_t M p) \<noteq> UNUSED \<Longrightarrow> pr_pid (pm_t M p) \<noteq> 0"
    "p < NPROC \<Longrightarrow> pr_pid (pm_t M p) < pm_next M"
    "p < NPROC \<Longrightarrow> q < NPROC \<Longrightarrow> pr_pid (pm_t M p) \<noteq> 0 \<Longrightarrow> pr_pid (pm_t M p) = pr_pid (pm_t M q) \<Longrightarrow> p = q" for p q
    using assms(1) unfolding pids_def by blast+
  have lt: "pm_next M < pm_next M + 1"
    using D(2) unat_add_nat_no_wrap [of "pm_next M" 1] by (simp add: word_less_nat_alt word_le_nat_alt)
  have up: "t np = (pm_t M np)\<lparr>pr_state := EMBRYO, pr_pid := pm_next M\<rparr>" and same: "r \<noteq> np \<Longrightarrow> t r = pm_t M r" for r
    using a(4) by (simp_all add: upd_proc_apply)
  show ?thesis
    unfolding pids_def
  proof (intro conjI allI impI)
    fix p assume p: "p < NPROC" "pr_state (pm_t ?N p) \<noteq> UNUSED"
    then show "pr_pid (pm_t ?N p) \<noteq> 0"
      using D(1) D(3) [OF p(1)] up same by (cases "p = np") auto
  next
    fix p assume p: "p < NPROC"
    show "pr_pid (pm_t ?N p) < pm_next ?N"
      using D(4) [OF p] up same lt a(3) by (cases "p = np") (auto intro: order.strict_trans)
  next
    fix p q assume p: "p < NPROC" "q < NPROC"
      and s: "pr_pid (pm_t ?N p) \<noteq> 0 \<and> pr_pid (pm_t ?N p) = pr_pid (pm_t ?N q)"
    have other: "pr_pid (t r) < pm_next M" if "r < NPROC" "r \<noteq> np" for r
      using D(4) [OF that(1)] that same by auto
    show "p = q"
    proof (cases "p = np \<or> q = np")
      case True
      then show ?thesis using s p other [of p] other [of q] up by (cases "p = q") auto
    next
      case False
      then show ?thesis using s D(5) [OF p] same by auto
    qed
  qed (use lt D(1) a(3) assms(3) in \<open>auto intro: order.strict_trans\<close>)
qed

lemma pids_exit:
  assumes "proc_inv ini M" and "runs M me" and "me \<noteq> ini" and "p < NPROC"
  shows "pr_pid (exit_table me (Some ini) (pm_t M) p) = pr_pid (pm_t M p)
    \<and> (pr_state (pm_t M p) = UNUSED \<longrightarrow> pr_state (exit_table me (Some ini) (pm_t M) p) = UNUSED)"
proof -
  have me: "me < NPROC" "pr_state (pm_t M me) = RUNNING" "live (pm_t M me)"
    using assms(2) by (auto simp: runs_def live_def)
  obtain q where q: "pr_parent (pm_t M me) = Some q" "q \<noteq> me"
    using proc_invD(6) [OF assms(1) me(1) assms(3) me(3)] by blast
  show ?thesis
    using exit_table_eq [where t = "pm_t M", OF assms(3) [symmetric] me(1) q me(2) assms(4)] me(2) by auto
qed

lemma pids_step: "proc_step ini M N \<Longrightarrow> proc_inv ini M \<Longrightarrow> pids M \<Longrightarrow> pm_next N \<le> 0x7FFFFFFF \<Longrightarrow> pids N"
proof (induction rule: proc_step.induct)
  case (p_alloc M me np n t)
  then show ?case by (auto intro: pids_alloc)
next
  case (p_fail M me np)
  show ?case by (rule pids_sub [OF p_fail.prems(2)]) (use p_fail.hyps p_fail.prems(1) in \<open>auto simp: set_state_def upd_proc_apply\<close>)
next
  case (p_start M me np)
  show ?case by (rule pids_sub [OF p_start.prems(2)]) (use p_start.hyps p_start.prems(1) in \<open>auto simp: upd_proc_apply dest: proc_invD(8)\<close>)
next
  case (p_run k M p)
  show ?case by (rule pids_sub [OF p_run.prems(2)]) (use p_run.hyps p_run.prems(1) in \<open>auto simp: set_state_def upd_proc_apply dest: sched_nextD\<close>)
next
  case (p_kill pid M r t)
  from p_kill(1) show ?case
    by (cases rule: killD) (auto intro: p_kill.prems(2) intro!: pids_sub [OF p_kill.prems(2)] simp: upd_proc_apply split: if_splits)
next
  case (p_exit M me)
  have "pr_pid (exit_table me (Some ini) (pm_t M) r) = pr_pid (pm_t M r)
    \<and> (pr_state (pm_t M r) = UNUSED \<longrightarrow> pr_state (exit_table me (Some ini) (pm_t M) r) = UNUSED)" if "r < NPROC" for r
    by (rule pids_exit [OF p_exit(4,1,2) that])
  then show ?case by (intro pids_sub [OF p_exit.prems(2)]) simp_all
next
  case (p_yield M me)
  show ?case by (rule pids_sub [OF p_yield.prems(2)]) (use p_yield.hyps p_yield.prems(1) in \<open>auto simp: set_state_def upd_proc_apply runs_def\<close>)
next
  case (p_sleep M me c)
  show ?case by (rule pids_sub [OF p_sleep.prems(2)]) (use p_sleep.hyps p_sleep.prems(1) in \<open>auto simp: sleep_table_def upd_proc_apply runs_def\<close>)
next
  case (p_awake M me)
  show ?case by (rule pids_sub [OF p_awake.prems(2)]) (use p_awake.hyps p_awake.prems(1) in \<open>auto simp: awake_table_def upd_proc_apply\<close>)
next
  case (p_wakeup M c)
  show ?case by (rule pids_sub [OF p_wakeup.prems(2)]) (use p_wakeup.prems(1) in \<open>auto simp: wakeup_def wakeup1_eq\<close>)
next
  case (p_wait M me p)
  show ?case by (rule pids_sub [OF p_wait.prems(2)]) (use p_wait.hyps p_wait.prems(1) in \<open>auto simp: reap_def upd_proc_apply\<close>)
next
  case (p_wait_sleep M me)
  show ?case by (rule pids_sub [OF p_wait_sleep.prems(2)]) (use p_wait_sleep.hyps p_wait_sleep.prems(1) in \<open>auto simp: sleep_table_def upd_proc_apply runs_def\<close>)
qed

interpretation pb: step_invariant "pm_init ini" "bounded_step ini" "\<lambda>M. proc_inv ini M \<and> pids M" for ini
  by unfold_locales (auto simp: bounded_step_def intro: pm_init_inv pm_init_pids proc_step_inv pids_step)

subsection \<open>Properties\<close>

text \<open>C18: In every reachable state every process but the first has a parent that is alive and not a
  zombie, and is not itself: no process is orphaned by \<open>exit\<close> and every zombie has somebody to
  \<open>wait\<close> for it.\<close>

theorem no_orphans:
  assumes "reach (pm_init ini) (proc_step ini) M" and "p < NPROC" and "p \<noteq> ini" and "live (pm_t M p)"
  shows "\<exists>q < NPROC. pr_parent (pm_t M p) = Some q \<and> q \<noteq> p \<and> live (pm_t M q) \<and> pr_state (pm_t M q) \<noteq> ZOMBIE"
  by (rule proc_invD(6) [OF pt.reach_inv [OF assms(1)] assms(2-4)])

lemma wait_scan_finds:
  assumes "z < NPROC" and "zchild me (t z)"
  shows "\<exists>y. wait_scan NPROC 0 False me t = Inl y \<and> y < NPROC \<and> zchild me (t y)"
proof (cases "wait_scan NPROC 0 False me t")
  case (Inl y)
  then show ?thesis using wait_scan_Inl [OF Inl] by (auto simp: zchild_def)
next
  case (Inr b)
  then show ?thesis using wait_scan_Inr [OF Inr] assms by auto
qed

text \<open>C19: No wakeup between \<open>exit\<close> and \<open>wait\<close> is lost. In every reachable state a process asleep in
  \<open>wait\<close> has no zombie child, so it sleeps only while there is nothing to collect; and when a child
  \<open>me\<close> of a process \<open>q\<close> asleep in \<open>wait\<close> exits, \<open>q\<close> becomes runnable and its next scan of the table
  finds a zombie child.\<close>

theorem exit_wakes_wait:
  assumes "reach (pm_init ini) (proc_step ini) M" and "q < NPROC" and "pr_state (pm_t M q) = SLEEPING"
    and "pr_chan (pm_t M q) = Some (ChanProc q)"
  shows "(\<forall>z < NPROC. \<not> (pr_parent (pm_t M z) = Some q \<and> pr_state (pm_t M z) = ZOMBIE))
    \<and> (runs M me \<and> me \<noteq> ini \<and> pr_parent (pm_t M me) = Some q \<longrightarrow>
        (let t = exit_table me (Some ini) (pm_t M) in
          pr_state (t q) = RUNNABLE \<and> (\<exists>y < NPROC. wait_scan NPROC 0 False q t = Inl y \<and> zchild q (t y))))"
proof (intro conjI impI)
  note inv = pt.reach_inv [OF assms(1)]
  show "\<forall>z < NPROC. \<not> (pr_parent (pm_t M z) = Some q \<and> pr_state (pm_t M z) = ZOMBIE)"
    using proc_invD(7) [OF inv assms(2-4)] by (auto simp: zchild_def)
  assume "runs M me \<and> me \<noteq> ini \<and> pr_parent (pm_t M me) = Some q"
  then have me: "me < NPROC" "pr_state (pm_t M me) = RUNNING" "ini \<noteq> me" "pr_parent (pm_t M me) = Some q"
    by (auto simp: runs_def)
  have qm: "q \<noteq> me" using me(2) assms(3) by auto
  note e = exit_table_eq [where t = "pm_t M", OF me(3,1,4) qm me(2)]
  have "pr_state (exit_table me (Some ini) (pm_t M) q) = RUNNABLE"
    using e [OF assms(2)] qm assms(3,4) by (auto simp: wake_if_def adopt_def)
  moreover have "zchild q (exit_table me (Some ini) (pm_t M) me)"
    using e [OF me(1)] me(4) by (simp add: zchild_def)
  ultimately show "let t = exit_table me (Some ini) (pm_t M) in
      pr_state (t q) = RUNNABLE \<and> (\<exists>y < NPROC. wait_scan NPROC 0 False q t = Inl y \<and> zchild q (t y))"
    using wait_scan_finds [OF me(1)] unfolding Let_def by blast
qed

lemma find_unique:
  assumes "p < n" and "P p" and "\<And>q. q < n \<Longrightarrow> P q \<Longrightarrow> q = p"
  shows "find P [0..<n] = Some p"
proof (cases "find P [0..<n]")
  case None
  then show ?thesis using assms(1,2) by (auto simp: find_None_iff)
next
  case (Some q)
  then have "q < n \<and> P q" by (auto simp: find_Some_iff)
  then show ?thesis using assms(3) Some by blast
qed

text \<open>C20: In every state reached by steps that keep \<open>nextpid\<close> a positive \<open>int\<close>, process numbers are unique,
  so \<open>kill\<close> of the number of a process reports success, marks that process killed, makes it runnable if
  it slept and leaves its state alone otherwise, and changes no other field and no other slot.\<close>

theorem kill_hits_its_target:
  assumes "reach (pm_init ini) (bounded_step ini) M" and "p < NPROC" and "pr_state (pm_t M p) \<noteq> UNUSED"
    and "kill (pr_pid (pm_t M p)) (pm_t M) = (r, t)"
  shows "r = 0 \<and> (pr_state (pm_t M p) = SLEEPING \<longrightarrow> t p = (pm_t M p)\<lparr>pr_killed := True, pr_state := RUNNABLE\<rparr>)
    \<and> (pr_state (pm_t M p) \<noteq> SLEEPING \<longrightarrow> t p = (pm_t M p)\<lparr>pr_killed := True\<rparr>)
    \<and> (\<forall>q. q \<noteq> p \<longrightarrow> t q = pm_t M q)
    \<and> (\<forall>q < NPROC. q \<noteq> p \<longrightarrow> pr_pid (pm_t M q) \<noteq> pr_pid (pm_t M p))"
proof -
  have "pids M" using pb.reach_inv [OF assms(1)] by blast
  then have u: "q = p" if "q < NPROC" "pr_pid (pm_t M q) = pr_pid (pm_t M p)" for q
    using assms(2,3) that unfolding pids_def by metis
  have f: "find (\<lambda>q. pr_pid (pm_t M q) = pr_pid (pm_t M p)) [0..<NPROC] = Some p"
    by (rule find_unique [OF assms(2)]) (use u in auto)
  have "r = 0" "t = upd_proc p (\<lambda>x. x\<lparr>pr_killed := True, pr_state := if pr_state x = SLEEPING then RUNNABLE else pr_state x\<rparr>) (pm_t M)"
    using assms(4) unfolding kill_def f by simp_all
  then show ?thesis using u by (auto simp: upd_proc_apply)
qed

text \<open>C21: \<open>kill(0)\<close> finds a free slot, whose number is 0, reports success and leaves its killed flag
  set; no step of \<open>allocproc\<close> clears the flag, so the next process created there starts killed.\<close>

theorem kill_zero_marks_free_slot:
  assumes "p < NPROC" and "pr_state (t p) = UNUSED" and "pr_pid (t p) = 0"
    and "\<And>q. q < p \<Longrightarrow> pr_state (t q) \<noteq> UNUSED \<and> pr_pid (t q) \<noteq> 0"
  shows "\<exists>u v. kill 0 t = (0, u) \<and> allocslot n u = (Some p, n + 1, v) \<and> pr_killed (v p)"
proof -
  let ?u = "upd_proc p (\<lambda>x. x\<lparr>pr_killed := True, pr_state := if pr_state x = SLEEPING then RUNNABLE else pr_state x\<rparr>) t"
  have first: "find P [0..<NPROC] = Some p" if "P p" "\<And>q. q < p \<Longrightarrow> \<not> P q" for P
    unfolding find_Some_iff using that assms(1) by (intro exI [of _ p]) auto
  have "find (\<lambda>q. pr_pid (t q) = 0) [0..<NPROC] = Some p"
    by (rule first) (use assms in auto)
  moreover have "find (\<lambda>q. pr_state (?u q) = UNUSED) [0..<NPROC] = Some p"
    by (rule first) (use assms in \<open>auto simp: upd_proc_apply\<close>)
  ultimately show ?thesis by (simp add: kill_def allocslot_def upd_proc_apply)
qed

subsection \<open>A run\<close>

text \<open>The first process forks, the child is scheduled while the parent sleeps in \<open>wait\<close>.\<close>

lemma wait_scan_none:
  assumes "\<And>z. z < NPROC \<Longrightarrow> \<not> zchild me (t z)"
  shows "wait_scan NPROC 0 False me t = Inr (\<exists>z < NPROC. pr_parent (t z) = Some me)"
proof (cases "wait_scan NPROC 0 False me t")
  case (Inl y)
  then show ?thesis using wait_scan_Inl [OF Inl] assms [of y] by (auto simp: zchild_def)
next
  case (Inr b)
  then show ?thesis using wait_scan_Inr [OF Inr] by auto
qed

definition slot :: "procstate \<Rightarrow> uint \<Rightarrow> nat option \<Rightarrow> chan option \<Rightarrow> proc" where
  "slot st pid par c = \<lparr>pr_sz = 0, pr_pgdir = 0, pr_kstack = 0, pr_state = st, pr_pid = pid, pr_parent = par, pr_tf = 0,
     pr_context = 0, pr_chan = c, pr_killed = False, pr_ofile = [], pr_cwd = None, pr_name = []\<rparr>"

definition two :: "proc \<Rightarrow> proc \<Rightarrow> uint \<Rightarrow> (nat \<rightharpoonup> nat) \<Rightarrow> pmach" where
  "two a b n e = \<lparr>pm_t = (\<lambda>_. slot UNUSED 0 None None)(0 := a, 1 := b), pm_next = n, pm_emb = e\<rparr>"

lemma slot_simps:
  "pr_state (slot st pid par c) = st" "pr_pid (slot st pid par c) = pid" "pr_parent (slot st pid par c) = par"
  "pr_chan (slot st pid par c) = c" "pr_killed (slot st pid par c) = False"
  "(slot st pid par c)\<lparr>pr_state := st'\<rparr> = slot st' pid par c" "(slot st pid par c)\<lparr>pr_pid := pid'\<rparr> = slot st pid' par c"
  "(slot st pid par c)\<lparr>pr_parent := par'\<rparr> = slot st pid par' c" "(slot st pid par c)\<lparr>pr_chan := c'\<rparr> = slot st pid par c'"
  by (simp_all add: slot_def)

lemma two_simps:
  "pm_t (two a b n e) 0 = a" "pm_t (two a b n e) 1 = b" "pm_t (two a b n e) (Suc 0) = b"
  "pm_next (two a b n e) = n" "pm_emb (two a b n e) = e"
  "upd_proc 0 f (pm_t (two a b n e)) = pm_t (two (f a) b n e)"
  "upd_proc 1 f (pm_t (two a b n e)) = pm_t (two a (f b) n e)"
  "upd_proc (Suc 0) f (pm_t (two a b n e)) = pm_t (two a (f b) n e)"
  "(two a b n e)\<lparr>pm_t := pm_t (two a' b' n' e')\<rparr> = two a' b' n e"
  "(two a b n e)\<lparr>pm_next := n'\<rparr> = two a b n' e" "(two a b n e)\<lparr>pm_emb := e'\<rparr> = two a b n e'"
  by (auto simp: two_def upd_proc_def fun_eq_iff)

lemma two_steps:
  "proc_step 0 (two (slot RUNNABLE 1 None None) (slot UNUSED 0 None None) 2 Map.empty)
     (two (slot RUNNING 1 None None) (slot UNUSED 0 None None) 2 Map.empty)"
  "proc_step 0 (two (slot RUNNING 1 None None) (slot UNUSED 0 None None) 2 Map.empty)
     (two (slot RUNNING 1 None None) (slot EMBRYO 2 None None) 3 [1 \<mapsto> 0])"
  "proc_step 0 (two (slot RUNNING 1 None None) (slot EMBRYO 2 None None) 3 [1 \<mapsto> 0])
     (two (slot RUNNING 1 None None) (slot RUNNABLE 2 (Some 0) None) 3 Map.empty)"
  "proc_step 0 (two (slot RUNNING 1 None None) (slot RUNNABLE 2 (Some 0) None) 3 Map.empty)
     (two (slot SLEEPING 1 None (Some (ChanProc 0))) (slot RUNNABLE 2 (Some 0) None) 3 Map.empty)"
  "proc_step 0 (two (slot SLEEPING 1 None (Some (ChanProc 0))) (slot RUNNABLE 2 (Some 0) None) 3 Map.empty)
     (two (slot SLEEPING 1 None (Some (ChanProc 0))) (slot RUNNING 2 (Some 0) None) 3 Map.empty)"
proof -
  have upt: "[0..<NPROC] = 0 # 1 # [2..<NPROC]" by (simp add: upt_rec)
  note d = two_simps slot_simps runs_def set_state_def
  show "proc_step 0 (two (slot RUNNABLE 1 None None) (slot UNUSED 0 None None) 2 Map.empty)
     (two (slot RUNNING 1 None None) (slot UNUSED 0 None None) 2 Map.empty)"
    using p_run [of 0 "two (slot RUNNABLE 1 None None) (slot UNUSED 0 None None) 2 Map.empty" 0 0]
    by (simp add: d sched_next_def upt)
  show "proc_step 0 (two (slot RUNNING 1 None None) (slot UNUSED 0 None None) 2 Map.empty)
     (two (slot RUNNING 1 None None) (slot EMBRYO 2 None None) 3 [1 \<mapsto> 0])"
    using p_alloc [of "two (slot RUNNING 1 None None) (slot UNUSED 0 None None) 2 Map.empty" 0 1 3
      "pm_t (two (slot RUNNING 1 None None) (slot EMBRYO 2 None None) 2 Map.empty)" 0]
    by (simp add: d allocslot_def upt)
  show "proc_step 0 (two (slot RUNNING 1 None None) (slot EMBRYO 2 None None) 3 [1 \<mapsto> 0])
     (two (slot RUNNING 1 None None) (slot RUNNABLE 2 (Some 0) None) 3 Map.empty)"
    using p_start [of "two (slot RUNNING 1 None None) (slot EMBRYO 2 None None) 3 [1 \<mapsto> 0]" 0 1 0] by (simp add: d)
  have "wait_scan NPROC 0 False 0 (pm_t (two (slot RUNNING 1 None None) (slot RUNNABLE 2 (Some 0) None) 3 Map.empty)) = Inr True"
    (is "wait_scan _ _ _ _ ?t = _")
  proof -
    have z: "\<not> zchild 0 (?t z)" for z by (simp add: two_def slot_def zchild_def)
    have "pr_parent (?t 1) = Some 0" by (simp add: d)
    then have "\<exists>z < NPROC. pr_parent (?t z) = Some 0" by (intro exI [of _ 1]) simp
    then show ?thesis using wait_scan_none [of 0 ?t] z by simp
  qed
  then show "proc_step 0 (two (slot RUNNING 1 None None) (slot RUNNABLE 2 (Some 0) None) 3 Map.empty)
     (two (slot SLEEPING 1 None (Some (ChanProc 0))) (slot RUNNABLE 2 (Some 0) None) 3 Map.empty)"
    using p_wait_sleep [of "two (slot RUNNING 1 None None) (slot RUNNABLE 2 (Some 0) None) 3 Map.empty" 0 0]
    by (simp add: d sleep_table_def)
  show "proc_step 0 (two (slot SLEEPING 1 None (Some (ChanProc 0))) (slot RUNNABLE 2 (Some 0) None) 3 Map.empty)
     (two (slot SLEEPING 1 None (Some (ChanProc 0))) (slot RUNNING 2 (Some 0) None) 3 Map.empty)"
    using p_run [of 0 "two (slot SLEEPING 1 None (Some (ChanProc 0))) (slot RUNNABLE 2 (Some 0) None) 3 Map.empty" 1 0]
    by (simp add: d sched_next_def upt)
qed

lemma two_reach:
  "reach (pm_init 0) (proc_step 0) (two (slot SLEEPING 1 None (Some (ChanProc 0))) (slot RUNNING 2 (Some 0) None) 3 Map.empty)"
proof -
  have "pm_init 0 (two (slot RUNNABLE 1 None None) (slot UNUSED 0 None None) 2 Map.empty)"
    by (simp add: pm_init_def two_def slot_def)
  then have "reach (pm_init 0) (proc_step 0) (two (slot RUNNABLE 1 None None) (slot UNUSED 0 None None) 2 Map.empty)"
    by (rule reach_init)
  then show ?thesis using two_steps by (meson reach_step)
qed

lemma two_reach_bounded:
  "reach (pm_init 0) (bounded_step 0) (two (slot SLEEPING 1 None (Some (ChanProc 0))) (slot RUNNING 2 (Some 0) None) 3 Map.empty)"
proof -
  have "pm_init 0 (two (slot RUNNABLE 1 None None) (slot UNUSED 0 None None) 2 Map.empty)"
    by (simp add: pm_init_def two_def slot_def)
  then have "reach (pm_init 0) (bounded_step 0) (two (slot RUNNABLE 1 None None) (slot UNUSED 0 None None) 2 Map.empty)"
    by (rule reach_init)
  moreover have "bounded_step 0 M (two a b 2 e)" if "proc_step 0 M (two a b 2 e)" for M a b e
    using that by (simp add: bounded_step_def two_simps)
  moreover have "bounded_step 0 M (two a b 3 e)" if "proc_step 0 M (two a b 3 e)" for M a b e
    using that by (simp add: bounded_step_def two_simps)
  ultimately show ?thesis using two_steps by (meson reach_step)
qed

theorem no_orphans_witness:
  "\<exists>q < NPROC. pr_parent (pm_t (two (slot SLEEPING 1 None (Some (ChanProc 0))) (slot RUNNING 2 (Some 0) None) 3 Map.empty) 1) = Some q \<and> q \<noteq> 1"
  using no_orphans [OF two_reach, of 1] by (auto simp: two_simps slot_simps live_def)

theorem exit_wakes_wait_witness:
  "pr_state (exit_table 1 (Some 0) (pm_t (two (slot SLEEPING 1 None (Some (ChanProc 0))) (slot RUNNING 2 (Some 0) None) 3 Map.empty)) 0) = RUNNABLE"
  using exit_wakes_wait [OF two_reach, of 0 1] by (simp add: two_simps slot_simps runs_def Let_def)

theorem kill_hits_its_target_witness:
  "\<exists>t. kill 1 (pm_t (two (slot SLEEPING 1 None (Some (ChanProc 0))) (slot RUNNING 2 (Some 0) None) 3 Map.empty)) = (0, t)
     \<and> pr_state (t 0) = RUNNABLE \<and> pr_killed (t 0) \<and> t 1 = slot RUNNING 2 (Some 0) None"
proof -
  let ?M = "two (slot SLEEPING 1 None (Some (ChanProc 0))) (slot RUNNING 2 (Some 0) None) 3 Map.empty"
  obtain r t where k: "kill 1 (pm_t ?M) = (r, t)" by (cases "kill 1 (pm_t ?M)")
  then show ?thesis using kill_hits_its_target [OF two_reach_bounded, of 0 r t] by (simp add: two_simps slot_simps)
qed

theorem kill_zero_marks_free_slot_witness:
  "\<exists>u v. kill 0 (pm_t (two (slot RUNNING 1 None None) (slot UNUSED 0 None None) 2 Map.empty)) = (0, u)
     \<and> allocslot 2 u = (Some 1, 3, v) \<and> pr_killed (v 1)"
  using kill_zero_marks_free_slot [of 1 "pm_t (two (slot RUNNING 1 None None) (slot UNUSED 0 None None) 2 Map.empty)" 2]
  by (simp add: two_simps slot_simps)

end
