(* ===== verification/Vm.thy ===== *)
theory Vm
  imports Kalloc
begin

section \<open>Page tables (vm.c)\<close>

text \<open>
  Two-level x86 page tables in memory, built from pages of the allocator. \<open>kmem_mem\<close> is memory at
  kernel virtual addresses, where physical address \<open>a\<close> is at \<open>p2v a\<close>. A page table entry pointer
  is an address, 0 when there is none. \<open>kend\<close> and \<open>kdata\<close> stand for the linker symbols \<open>end\<close> and
  \<open>data\<close>. Messages on the console are left out. \<open>loaduvm\<close>, which reads a file, and the functions
  that switch page tables stand with the processes.
\<close>

subsection \<open>mmu.h\<close>

abbreviation (input) PTE_P :: uint where "PTE_P \<equiv> 0x001"
abbreviation (input) PTE_W :: uint where "PTE_W \<equiv> 0x002"
abbreviation (input) PTE_U :: uint where "PTE_U \<equiv> 0x004"
abbreviation (input) KERNBASE :: uint where "KERNBASE \<equiv> 0x80000000"
abbreviation (input) EXTMEM :: uint where "EXTMEM \<equiv> 0x100000"
abbreviation (input) DEVSPACE :: uint where "DEVSPACE \<equiv> 0xFE000000"
abbreviation (input) KERNLINK :: uint where "KERNLINK \<equiv> 0x80100000"
abbreviation (input) NPDENTRIES :: nat where "NPDENTRIES \<equiv> 1024"

definition PDX :: "uint \<Rightarrow> uint" where "PDX va = drop_bit 22 va AND 0x3FF"

definition PTX :: "uint \<Rightarrow> uint" where "PTX va = drop_bit 12 va AND 0x3FF"

definition PTE_ADDR :: "uint \<Rightarrow> uint" where "PTE_ADDR pte = pte AND NOT 0xFFF"

definition PTE_FLAGS :: "uint \<Rightarrow> uint" where "PTE_FLAGS pte = pte AND 0xFFF"

definition rd :: "kst \<Rightarrow> uint \<Rightarrow> uint" where
  "rd s a = load32 (kmem_mem s) a"

definition wr :: "uint \<Rightarrow> uint \<Rightarrow> kst \<Rightarrow> kst" where
  "wr a v s = s\<lparr>kmem_mem := store32 (kmem_mem s) a v\<rparr>"

definition upd_mem :: "(mem \<Rightarrow> mem) \<Rightarrow> kst \<Rightarrow> kst" where
  "upd_mem f s = s\<lparr>kmem_mem := f (kmem_mem s)\<rparr>"

subsection \<open>Operations\<close>

definition walkpgdir :: "uint \<Rightarrow> uint \<Rightarrow> bool \<Rightarrow> kst \<Rightarrow> (uint \<times> kst) res" where
  "walkpgdir pgdir va alloc s =
     (let pde = pgdir + 4 * PDX va in
      if rd s pde AND PTE_P \<noteq> 0 then Ret (p2v (PTE_ADDR (rd s pde)) + 4 * PTX va, s)
      else if \<not> alloc then Ret (0, s)
      else bindr (kalloc s) (\<lambda>(pgtab, s).
        if pgtab = 0 then Ret (0, s)
        else let s = upd_mem (memset pgtab 0 4096) s;
                 s = wr pde (v2p pgtab OR PTE_P OR PTE_W OR PTE_U) s
             in Ret (pgtab + 4 * PTX va, s)))"

text \<open>The loop of \<open>mappages\<close>: \<open>n\<close> is the number of pages after \<open>a\<close> up to \<open>last\<close>.\<close>

fun mappages_loop :: "nat \<Rightarrow> uint \<Rightarrow> uint \<Rightarrow> uint \<Rightarrow> uint \<Rightarrow> kst \<Rightarrow> (int \<times> kst) res" where
  "mappages_loop n pgdir a pa perm s =
     bindr (walkpgdir pgdir a True s) (\<lambda>(pte, s).
     if pte = 0 then Ret (- 1, s)
     else if rd s pte AND PTE_P \<noteq> 0 then Panic ''remap''
     else let s = wr pte (pa OR perm OR PTE_P) s in
       case n of
         0 \<Rightarrow> Ret (0, s)
       | Suc n \<Rightarrow> mappages_loop n pgdir (a + 4096) (pa + 4096) perm s)"

definition mappages :: "uint \<Rightarrow> uint \<Rightarrow> uint \<Rightarrow> uint \<Rightarrow> uint \<Rightarrow> kst \<Rightarrow> (int \<times> kst) res" where
  "mappages pgdir va sz pa perm s =
     (let a = PGROUNDDOWN va; last = PGROUNDDOWN (va + sz - 1) in
      mappages_loop (unat ((last - a) div 4096)) pgdir a pa perm s)"

record kmap =
  km_virt :: uint
  km_phys_start :: uint
  km_phys_end :: uint
  km_perm :: uint

definition kmaps :: "uint \<Rightarrow> kmap list" where
  "kmaps kdata =
     [\<lparr>km_virt = KERNBASE, km_phys_start = 0, km_phys_end = EXTMEM, km_perm = PTE_W\<rparr>,
      \<lparr>km_virt = KERNLINK, km_phys_start = v2p KERNLINK, km_phys_end = v2p kdata, km_perm = 0\<rparr>,
      \<lparr>km_virt = kdata, km_phys_start = v2p kdata, km_phys_end = PHYSTOP, km_perm = PTE_W\<rparr>,
      \<lparr>km_virt = DEVSPACE, km_phys_start = DEVSPACE, km_phys_end = 0, km_perm = PTE_W\<rparr>]"

fun map_kernel :: "kmap list \<Rightarrow> uint \<Rightarrow> kst \<Rightarrow> (uint \<times> kst) res" where
  "map_kernel [] pgdir s = Ret (pgdir, s)"
| "map_kernel (k # ks) pgdir s =
     bindr (mappages pgdir (km_virt k) (km_phys_end k - km_phys_start k) (km_phys_start k) (km_perm k) s) (\<lambda>(r, s).
     if r < 0 then Ret (0, s) else map_kernel ks pgdir s)"

definition setupkvm :: "uint \<Rightarrow> kst \<Rightarrow> (uint \<times> kst) res" where
  "setupkvm kdata s =
     bindr (kalloc s) (\<lambda>(pgdir, s).
     if pgdir = 0 then Ret (0, s)
     else let s = upd_mem (memset pgdir 0 4096) s in
       if p2v PHYSTOP > DEVSPACE then Panic ''PHYSTOP too high''
       else map_kernel (kmaps kdata) pgdir s)"

text \<open>A list of bytes at an address, for copies from and to memory outside the page pool.\<close>

fun pokes :: "uint \<Rightarrow> uchar list \<Rightarrow> mem \<Rightarrow> mem" where
  "pokes a [] m = m"
| "pokes a (b # bs) m = pokes (a + 1) bs (m(a := b))"

definition peeks :: "mem \<Rightarrow> uint \<Rightarrow> nat \<Rightarrow> uchar list" where
  "peeks m a n = map (\<lambda>i. m (a + of_nat i)) [0..<n]"

definition inituvm :: "uint \<Rightarrow> uchar list \<Rightarrow> kst \<Rightarrow> kst res" where
  "inituvm pgdir ini s =
     (if length ini \<ge> 4096 then Panic ''inituvm: more than a page''
      else bindr (kalloc s) (\<lambda>(mem, s).
        if mem = 0 then Fault ''inituvm: memset of a null pointer''
        else let s = upd_mem (memset mem 0 4096) s in
          bindr (mappages pgdir 0 4096 (v2p mem) (PTE_W OR PTE_U) s) (\<lambda>(r, s).
          Ret (upd_mem (pokes mem ini) s))))"

text \<open>
  The loop of \<open>deallocuvm\<close>. For \<open>oldsz\<close> in user space it makes at most one round for each page
  below \<open>oldsz\<close>; more rounds mean that \<open>a\<close> has wrapped around.
\<close>

fun deallocuvm_loop :: "nat \<Rightarrow> uint \<Rightarrow> uint \<Rightarrow> uint \<Rightarrow> uint \<Rightarrow> kst \<Rightarrow> kst res" where
  "deallocuvm_loop 0 kend pgdir a oldsz s = (if a < oldsz then Diverge else Ret s)"
| "deallocuvm_loop (Suc k) kend pgdir a oldsz s =
     (if \<not> a < oldsz then Ret s
      else bindr (walkpgdir pgdir a False s) (\<lambda>(pte, s).
        if pte = 0 then deallocuvm_loop k kend pgdir (a + 1023 * 4096 + 4096) oldsz s
        else if rd s pte AND PTE_P \<noteq> 0 then
          let pa = PTE_ADDR (rd s pte) in
          if pa = 0 then Panic ''kfree''
          else bindr (kfree kend (p2v pa) s) (\<lambda>s.
            deallocuvm_loop k kend pgdir (a + 4096) oldsz (wr pte 0 s))
        else deallocuvm_loop k kend pgdir (a + 4096) oldsz s))"

definition deallocuvm :: "uint \<Rightarrow> uint \<Rightarrow> uint \<Rightarrow> uint \<Rightarrow> kst \<Rightarrow> (uint \<times> kst) res" where
  "deallocuvm kend pgdir oldsz newsz s =
     (if newsz \<ge> oldsz then Ret (oldsz, s)
      else bindr (deallocuvm_loop (unat oldsz div 4096 + 1) kend pgdir (PGROUNDUP newsz) oldsz s) (\<lambda>s.
        Ret (newsz, s)))"

text \<open>The loop of \<open>allocuvm\<close>: \<open>k\<close> pages from \<open>a\<close> on are below \<open>newsz\<close>.\<close>

fun allocuvm_loop :: "nat \<Rightarrow> uint \<Rightarrow> uint \<Rightarrow> uint \<Rightarrow> uint \<Rightarrow> uint \<Rightarrow> kst \<Rightarrow> (uint \<times> kst) res" where
  "allocuvm_loop 0 kend pgdir a oldsz newsz s = Ret (newsz, s)"
| "allocuvm_loop (Suc k) kend pgdir a oldsz newsz s =
     bindr (kalloc s) (\<lambda>(mem, s).
     if mem = 0 then bindr (deallocuvm kend pgdir newsz oldsz s) (\<lambda>(_, s). Ret (0, s))
     else let s = upd_mem (memset mem 0 4096) s in
       bindr (mappages pgdir a 4096 (v2p mem) (PTE_W OR PTE_U) s) (\<lambda>(_, s).
       allocuvm_loop k kend pgdir (a + 4096) oldsz newsz s))"

definition allocuvm :: "uint \<Rightarrow> uint \<Rightarrow> uint \<Rightarrow> uint \<Rightarrow> kst \<Rightarrow> (uint \<times> kst) res" where
  "allocuvm kend pgdir oldsz newsz s =
     (if newsz \<ge> KERNBASE then Ret (0, s)
      else if newsz < oldsz then Ret (oldsz, s)
      else let a = PGROUNDUP oldsz in
        allocuvm_loop ((unat newsz + 4095 - unat a) div 4096) kend pgdir a oldsz newsz s)"

fun freevm_loop :: "nat \<Rightarrow> nat \<Rightarrow> uint \<Rightarrow> uint \<Rightarrow> kst \<Rightarrow> kst res" where
  "freevm_loop 0 i kend pgdir s = Ret s"
| "freevm_loop (Suc k) i kend pgdir s =
     (let pde = rd s (pgdir + 4 * of_nat i) in
      if pde AND PTE_P \<noteq> 0 then
        bindr (kfree kend (p2v (PTE_ADDR pde)) s) (\<lambda>s. freevm_loop k (Suc i) kend pgdir s)
      else freevm_loop k (Suc i) kend pgdir s)"

definition freevm :: "uint \<Rightarrow> uint \<Rightarrow> kst \<Rightarrow> kst res" where
  "freevm kend pgdir s =
     (if pgdir = 0 then Panic ''freevm: no pgdir''
      else bindr (deallocuvm kend pgdir KERNBASE 0 s) (\<lambda>(_, s).
        bindr (freevm_loop NPDENTRIES 0 kend pgdir s) (\<lambda>s. kfree kend pgdir s)))"

definition clearpteu :: "uint \<Rightarrow> uint \<Rightarrow> kst \<Rightarrow> kst res" where
  "clearpteu pgdir uva s =
     bindr (walkpgdir pgdir uva False s) (\<lambda>(pte, s).
     if pte = 0 then Panic ''clearpteu'' else Ret (wr pte (rd s pte AND NOT PTE_U) s))"

definition copyuvm_bad :: "uint \<Rightarrow> uint \<Rightarrow> kst \<Rightarrow> (uint \<times> kst) res" where
  "copyuvm_bad kend d s = bindr (freevm kend d s) (\<lambda>s. Ret (0, s))"

fun copyuvm_loop :: "nat \<Rightarrow> uint \<Rightarrow> uint \<Rightarrow> uint \<Rightarrow> uint \<Rightarrow> kst \<Rightarrow> (uint \<times> kst) res" where
  "copyuvm_loop 0 i kend pgdir d s = Ret (d, s)"
| "copyuvm_loop (Suc k) i kend pgdir d s =
     bindr (walkpgdir pgdir i False s) (\<lambda>(pte, s).
     if pte = 0 then Panic ''copyuvm: pte should exist''
     else if rd s pte AND PTE_P = 0 then Panic ''copyuvm: page not present''
     else let pa = PTE_ADDR (rd s pte); flags = PTE_FLAGS (rd s pte) in
       bindr (kalloc s) (\<lambda>(mem, s).
       if mem = 0 then copyuvm_bad kend d s
       else let s = upd_mem (memmove mem (p2v pa) 4096) s in
         bindr (mappages d i 4096 (v2p mem) flags s) (\<lambda>(r, s).
         if r < 0 then copyuvm_bad kend d s
         else copyuvm_loop k (i + 4096) kend pgdir d s)))"

definition copyuvm :: "uint \<Rightarrow> uint \<Rightarrow> uint \<Rightarrow> uint \<Rightarrow> kst \<Rightarrow> (uint \<times> kst) res" where
  "copyuvm kend kdata pgdir sz s =
     bindr (setupkvm kdata s) (\<lambda>(d, s).
     if d = 0 then Ret (0, s)
     else copyuvm_loop ((unat sz + 4095) div 4096) 0 kend pgdir d s)"

definition uva2ka :: "uint \<Rightarrow> uint \<Rightarrow> kst \<Rightarrow> (uint \<times> kst) res" where
  "uva2ka pgdir uva s =
     bindr (walkpgdir pgdir uva False s) (\<lambda>(pte, s).
     if pte = 0 then Fault ''uva2ka: null pte''
     else if rd s pte AND PTE_P = 0 then Ret (0, s)
     else if rd s pte AND PTE_U = 0 then Ret (0, s)
     else Ret (p2v (PTE_ADDR (rd s pte)), s))"

lemma page_offset: "unat (va - PGROUNDDOWN va) = unat va mod 4096"
proof -
  have le: "PGROUNDDOWN va \<le> va" by (simp add: word_le_nat_alt unat_PGROUNDDOWN)
  then show ?thesis by (simp add: unat_sub unat_PGROUNDDOWN minus_div_mult_eq_mod)
qed

text \<open>The bytes to copy out are a list; a round copies up to the end of the page of \<open>va\<close>.\<close>

function copyout :: "uint \<Rightarrow> uint \<Rightarrow> uchar list \<Rightarrow> kst \<Rightarrow> (int \<times> kst) res" where
  "copyout pgdir va bs s =
     (if bs = [] then Ret (0, s)
      else let va0 = PGROUNDDOWN va in
        bindr (uva2ka pgdir va0 s) (\<lambda>(pa0, s).
        if pa0 = 0 then Ret (- 1, s)
        else let n = min (4096 - unat (va - va0)) (length bs) in
          copyout pgdir (va0 + 4096) (drop n bs) (upd_mem (pokes (pa0 + (va - va0)) (take n bs)) s)))"
  by pat_completeness auto

termination
  by (relation "measure (\<lambda>(pgdir, va, bs, s). length bs)") (auto simp: page_offset)

declare copyout.simps [simp del] mappages_loop.simps [simp del]

end
