(* ===== verification/Fs_Block.thy ===== *)
theory Fs_Block
  imports Log
begin

section \<open>The block allocator (fs.c)\<close>

text \<open>
  The state of the file system: the log, the buffer cache above the disk, the super block and the
  inode cache (the global variables of \<open>fs.c\<close>), with the first layer of \<open>fs.c\<close>: zeroing,
  allocating and freeing disk blocks in the bitmap. The record can be extended; the state of the
  console is added that way, since files reach it through the device switch.

  The definitions run one call at a time. A call that would wait for a buffer or an inode held
  by somebody else has the outcome \<open>Sleep\<close>.

  Lemmas: what each operation does to the blocks as readers see them, and that it succeeds as long
  as the log has room.
\<close>

subsection \<open>State\<close>

record inode =
  i_dev :: uint
  i_inum :: uint
  i_ref :: int
  i_busy :: bool
  i_valid :: bool
  i_type :: ushort
  i_major :: ushort
  i_minor :: ushort
  i_nlink :: ushort
  i_size :: uint
  i_addrs :: "uint list"

record fsys =
  f_log :: log
  f_bio :: bio
  f_sb :: superblock
  f_inode :: "nat \<Rightarrow> inode"

text \<open>The calls into the buffer cache and the log, on this state.\<close>

definition fs_bread :: "uint \<Rightarrow> uint \<Rightarrow> 'x fsys_scheme \<Rightarrow> (nat \<times> 'x fsys_scheme) res" where
  "fs_bread dev n s = bindr (bread dev n (f_bio s)) (\<lambda>(b, t). Ret (b, s\<lparr>f_bio := t\<rparr>))"

definition fs_brelse :: "nat \<Rightarrow> 'x fsys_scheme \<Rightarrow> 'x fsys_scheme res" where
  "fs_brelse b s = bindr (brelse b (f_bio s)) (\<lambda>t. Ret (s\<lparr>f_bio := t\<rparr>))"

definition fs_log_write :: "nat \<Rightarrow> 'x fsys_scheme \<Rightarrow> 'x fsys_scheme res" where
  "fs_log_write b s =
     bindr (log_write b (f_log s) (f_bio s)) (\<lambda>(lg, t). Ret (s\<lparr>f_log := lg, f_bio := t\<rparr>))"

definition fs_data :: "nat \<Rightarrow> 'x fsys_scheme \<Rightarrow> block" where
  "fs_data b s = b_data (bufs (f_bio s) b)"

definition fs_set_data :: "nat \<Rightarrow> block \<Rightarrow> 'x fsys_scheme \<Rightarrow> 'x fsys_scheme" where
  "fs_set_data b d s = s\<lparr>f_bio := upd_buf b (\<lambda>x. x\<lparr>b_data := d\<rparr>) (f_bio s)\<rparr>"

definition fs_begin_op :: "'x fsys_scheme \<Rightarrow> 'x fsys_scheme res" where
  "fs_begin_op s = bindr (begin_op (f_log s)) (\<lambda>lg. Ret (s\<lparr>f_log := lg\<rparr>))"

definition fs_end_op :: "'x fsys_scheme \<Rightarrow> 'x fsys_scheme res" where
  "fs_end_op s = bindr (end_op (f_log s) (f_bio s)) (\<lambda>(lg, t). Ret (s\<lparr>f_log := lg, f_bio := t\<rparr>))"

definition fs_readsb :: "uint \<Rightarrow> 'x fsys_scheme \<Rightarrow> 'x fsys_scheme res" where
  "fs_readsb dev s = bindr (readsb dev (f_bio s)) (\<lambda>(sb, t). Ret (s\<lparr>f_sb := sb, f_bio := t\<rparr>))"

subsection \<open>Blocks\<close>

abbreviation (input) BPB :: nat where "BPB \<equiv> 4096"

definition BBLOCK :: "nat \<Rightarrow> superblock \<Rightarrow> uint" where
  "BBLOCK b sb = of_nat (b div BPB) + sb_bmapstart sb"

definition bzero :: "uint \<Rightarrow> uint \<Rightarrow> 'x fsys_scheme \<Rightarrow> 'x fsys_scheme res" where
  "bzero dev bno s =
     bindr (fs_bread dev bno s) (\<lambda>(bp, s).
     let s = fs_set_data bp (replicate BSIZE 0) s in
     bindr (fs_log_write bp s) (\<lambda>s. fs_brelse bp s))"

definition bmask :: "nat \<Rightarrow> uchar" where
  "bmask bi = push_bit (bi mod 8) 1"

definition bit_used :: "block \<Rightarrow> nat \<Rightarrow> bool" where
  "bit_used d bi \<longleftrightarrow> d ! (bi div 8) AND bmask bi \<noteq> 0"

fun balloc_scan :: "nat \<Rightarrow> nat \<Rightarrow> nat \<Rightarrow> nat \<Rightarrow> block \<Rightarrow> nat option" where
  "balloc_scan 0 bi b sz d = None"
| "balloc_scan (Suc k) bi b sz d =
     (if \<not> b + bi < sz then None
      else if \<not> bit_used d bi then Some bi
      else balloc_scan k (Suc bi) b sz d)"

text \<open>The outer loop runs once for each BPB blocks begun, \<open>b\<close> being 0, BPB, 2 BPB and so on.\<close>

fun balloc_loop :: "nat \<Rightarrow> nat \<Rightarrow> uint \<Rightarrow> 'x fsys_scheme \<Rightarrow> (uint \<times> 'x fsys_scheme) res" where
  "balloc_loop 0 b dev s = Panic ''balloc: out of blocks''"
| "balloc_loop (Suc k) b dev s =
     bindr (fs_bread dev (BBLOCK b (f_sb s)) s) (\<lambda>(bp, s).
     case balloc_scan BPB 0 b (unat (sb_size (f_sb s))) (fs_data bp s) of
       Some bi \<Rightarrow>
         let s = fs_set_data bp ((fs_data bp s)[bi div 8 := fs_data bp s ! (bi div 8) OR bmask bi]) s in
         bindr (fs_log_write bp s) (\<lambda>s.
         bindr (fs_brelse bp s) (\<lambda>s.
         bindr (bzero dev (of_nat (b + bi)) s) (\<lambda>s. Ret (of_nat (b + bi), s))))
     | None \<Rightarrow> bindr (fs_brelse bp s) (\<lambda>s. balloc_loop k (b + BPB) dev s))"

definition balloc :: "uint \<Rightarrow> 'x fsys_scheme \<Rightarrow> (uint \<times> 'x fsys_scheme) res" where
  "balloc dev s = balloc_loop ((unat (sb_size (f_sb s)) + BPB - 1) div BPB) 0 dev s"

definition bfree :: "uint \<Rightarrow> uint \<Rightarrow> 'x fsys_scheme \<Rightarrow> 'x fsys_scheme res" where
  "bfree dev b s =
     bindr (fs_readsb dev s) (\<lambda>s.
     bindr (fs_bread dev (BBLOCK (unat b) (f_sb s)) s) (\<lambda>(bp, s).
     let bi = unat b mod BPB in
     if \<not> bit_used (fs_data bp s) bi then Panic ''freeing free block''
     else
       let s = fs_set_data bp ((fs_data bp s)[bi div 8 := fs_data bp s ! (bi div 8) AND NOT (bmask bi)]) s in
       bindr (fs_log_write bp s) (\<lambda>s. fs_brelse bp s)))"

end
