(* ===== verification/Fs_Inode.thy ===== *)
theory Fs_Inode
  imports Fs_Block
begin

section \<open>Inodes and their contents (fs.c)\<close>

text \<open>
  The inode layer of \<open>fs.c\<close>: the inode cache, allocation, locking, reference counting, the block
  map of a file, truncation, reading and writing. An inode on disk is read and written through its
  64-byte little-endian layout. An inode pointer is its index in the cache; where the code tests for
  a null pointer it is an option.
\<close>

subsection \<open>Inodes on disk\<close>

record dinode =
  di_type :: ushort
  di_major :: ushort
  di_minor :: ushort
  di_nlink :: ushort
  di_size :: uint
  di_addrs :: "uint list"

abbreviation (input) NDIRECT :: nat where "NDIRECT \<equiv> 12"
abbreviation (input) NINDIRECT :: nat where "NINDIRECT \<equiv> 128"
abbreviation (input) MAXFILE :: nat where "MAXFILE \<equiv> 140"
abbreviation (input) IPB :: nat where "IPB \<equiv> 8"
abbreviation (input) T_DIR :: ushort where "T_DIR \<equiv> 1"
abbreviation (input) T_FILE :: ushort where "T_FILE \<equiv> 2"
abbreviation (input) T_DEV :: ushort where "T_DEV \<equiv> 3"
abbreviation (input) ROOTINO :: uint where "ROOTINO \<equiv> 1"

definition IBLOCK :: "uint \<Rightarrow> superblock \<Rightarrow> uint" where
  "IBLOCK i sb = i div 8 + sb_inodestart sb"

definition dioff :: "uint \<Rightarrow> nat" where
  "dioff inum = 64 * (unat inum mod IPB)"

definition get_dinode :: "block \<Rightarrow> nat \<Rightarrow> dinode" where
  "get_dinode d k = \<lparr>di_type = get16 d k, di_major = get16 d (k + 2), di_minor = get16 d (k + 4),
     di_nlink = get16 d (k + 6), di_size = get32 d (k + 8),
     di_addrs = map (\<lambda>i. get32 d (k + 12 + 4 * i)) [0..<NDIRECT + 1]\<rparr>"

definition put_addrs :: "block \<Rightarrow> nat \<Rightarrow> uint list \<Rightarrow> block" where
  "put_addrs d k as = fold (\<lambda>i d. put32 d (k + 4 * i) (as ! i)) [0..<NDIRECT + 1] d"

definition put_dinode :: "block \<Rightarrow> nat \<Rightarrow> dinode \<Rightarrow> block" where
  "put_dinode d k di =
     put_addrs (put32 (put16 (put16 (put16 (put16 d k (di_type di)) (k + 2) (di_major di)) (k + 4) (di_minor di))
       (k + 6) (di_nlink di)) (k + 8) (di_size di)) (k + 12) (di_addrs di)"

definition dinode_of :: "inode \<Rightarrow> dinode" where
  "dinode_of ip = \<lparr>di_type = i_type ip, di_major = i_major ip, di_minor = i_minor ip, di_nlink = i_nlink ip,
     di_size = i_size ip, di_addrs = i_addrs ip\<rparr>"

definition copy_dinode :: "dinode \<Rightarrow> inode \<Rightarrow> inode" where
  "copy_dinode di ip = ip\<lparr>i_type := di_type di, i_major := di_major di, i_minor := di_minor di,
     i_nlink := di_nlink di, i_size := di_size di, i_addrs := di_addrs di\<rparr>"

subsection \<open>The inode cache\<close>

definition upd_inode :: "nat \<Rightarrow> (inode \<Rightarrow> inode) \<Rightarrow> 'x fsys_scheme \<Rightarrow> 'x fsys_scheme" where
  "upd_inode i f s = s\<lparr>f_inode := (f_inode s)(i := f (f_inode s i))\<rparr>"

definition fs_wakeup :: "chan \<Rightarrow> 'x fsys_scheme \<Rightarrow> 'x fsys_scheme" where
  "fs_wakeup c s = s\<lparr>f_bio := (f_bio s)\<lparr>woken := woken (f_bio s) @ [c]\<rparr>\<rparr>"

definition iinit :: "uint \<Rightarrow> 'x fsys_scheme \<Rightarrow> 'x fsys_scheme res" where
  "iinit dev s = fs_readsb dev s"

text \<open>The loop of \<open>iget\<close>: the cached entry, or else the first free one.\<close>

fun iget_scan :: "nat \<Rightarrow> nat \<Rightarrow> nat option \<Rightarrow> uint \<Rightarrow> uint \<Rightarrow> (nat \<Rightarrow> inode) \<Rightarrow> nat + nat option" where
  "iget_scan 0 i unused dev inum t = Inr unused"
| "iget_scan (Suc k) i unused dev inum t =
     (if 0 < i_ref (t i) \<and> i_dev (t i) = dev \<and> i_inum (t i) = inum then Inl i
      else iget_scan k (Suc i) (if unused = None \<and> i_ref (t i) = 0 then Some i else unused) dev inum t)"

definition iget :: "uint \<Rightarrow> uint \<Rightarrow> 'x fsys_scheme \<Rightarrow> (nat \<times> 'x fsys_scheme) res" where
  "iget dev inum s =
     (case iget_scan NINODE 0 None dev inum (f_inode s) of
        Inl ip \<Rightarrow> Ret (ip, upd_inode ip (\<lambda>x. x\<lparr>i_ref := i_ref x + 1\<rparr>) s)
      | Inr None \<Rightarrow> Panic ''iget: no inodes''
      | Inr (Some ip) \<Rightarrow>
          Ret (ip, upd_inode ip (\<lambda>x. x\<lparr>i_dev := dev, i_inum := inum, i_ref := 1, i_busy := False, i_valid := False\<rparr>) s))"

fun ialloc_loop :: "nat \<Rightarrow> uint \<Rightarrow> uint \<Rightarrow> ushort \<Rightarrow> 'x fsys_scheme \<Rightarrow> (nat \<times> 'x fsys_scheme) res" where
  "ialloc_loop 0 inum dev ty s = Panic ''ialloc: no inodes''"
| "ialloc_loop (Suc k) inum dev ty s =
     bindr (fs_bread dev (IBLOCK inum (f_sb s)) s) (\<lambda>(bp, s).
     let d = fs_data bp s; k0 = dioff inum in
     if get16 d k0 = 0 then
       let s = fs_set_data bp (put16 (take k0 d @ replicate 64 0 @ drop (k0 + 64) d) k0 ty) s in
       bindr (fs_log_write bp s) (\<lambda>s.
       bindr (fs_brelse bp s) (\<lambda>s. iget dev inum s))
     else bindr (fs_brelse bp s) (\<lambda>s. ialloc_loop k (inum + 1) dev ty s))"

definition ialloc :: "uint \<Rightarrow> ushort \<Rightarrow> 'x fsys_scheme \<Rightarrow> (nat \<times> 'x fsys_scheme) res" where
  "ialloc dev ty s = ialloc_loop (unat (sb_ninodes (f_sb s)) - 1) 1 dev ty s"

definition iupdate :: "nat \<Rightarrow> 'x fsys_scheme \<Rightarrow> 'x fsys_scheme res" where
  "iupdate ip s =
     (let x = f_inode s ip in
      bindr (fs_bread (i_dev x) (IBLOCK (i_inum x) (f_sb s)) s) (\<lambda>(bp, s).
      let s = fs_set_data bp (put_dinode (fs_data bp s) (dioff (i_inum x)) (dinode_of x)) s in
      bindr (fs_log_write bp s) (\<lambda>s. fs_brelse bp s)))"

definition idup :: "nat \<Rightarrow> 'x fsys_scheme \<Rightarrow> nat \<times> 'x fsys_scheme" where
  "idup ip s = (ip, upd_inode ip (\<lambda>x. x\<lparr>i_ref := i_ref x + 1\<rparr>) s)"

definition ilock :: "nat option \<Rightarrow> 'x fsys_scheme \<Rightarrow> 'x fsys_scheme res" where
  "ilock p s =
     (case p of
        None \<Rightarrow> Panic ''ilock''
      | Some ip \<Rightarrow>
          if i_ref (f_inode s ip) < 1 then Panic ''ilock''
          else if i_busy (f_inode s ip) then Sleep (ChanInode ip)
          else let s = upd_inode ip (\<lambda>x. x\<lparr>i_busy := True\<rparr>) s; x = f_inode s ip in
            if \<not> i_valid x then
              bindr (fs_bread (i_dev x) (IBLOCK (i_inum x) (f_sb s)) s) (\<lambda>(bp, s).
              let di = get_dinode (fs_data bp s) (dioff (i_inum x)); s = upd_inode ip (copy_dinode di) s in
              bindr (fs_brelse bp s) (\<lambda>s.
              let s = upd_inode ip (\<lambda>x. x\<lparr>i_valid := True\<rparr>) s in
              if i_type (f_inode s ip) = 0 then Panic ''ilock: no type'' else Ret s))
            else Ret s)"

definition iunlock :: "nat option \<Rightarrow> 'x fsys_scheme \<Rightarrow> 'x fsys_scheme res" where
  "iunlock p s =
     (case p of
        None \<Rightarrow> Panic ''iunlock''
      | Some ip \<Rightarrow>
          if \<not> i_busy (f_inode s ip) \<or> i_ref (f_inode s ip) < 1 then Panic ''iunlock''
          else Ret (fs_wakeup (ChanInode ip) (upd_inode ip (\<lambda>x. x\<lparr>i_busy := False\<rparr>) s)))"

subsection \<open>The block map of a file\<close>

definition bmap :: "nat \<Rightarrow> uint \<Rightarrow> 'x fsys_scheme \<Rightarrow> (uint \<times> 'x fsys_scheme) res" where
  "bmap ip bn s =
     (if bn < 12 then
        let addr = i_addrs (f_inode s ip) ! unat bn in
        if addr = 0 then
          bindr (balloc (i_dev (f_inode s ip)) s) (\<lambda>(addr, s).
          Ret (addr, upd_inode ip (\<lambda>x. x\<lparr>i_addrs := (i_addrs x)[unat bn := addr]\<rparr>) s))
        else Ret (addr, s)
      else let bn = bn - 12 in
        if bn < 128 then
          bindr
            (let addr = i_addrs (f_inode s ip) ! NDIRECT in
             if addr = 0 then
               bindr (balloc (i_dev (f_inode s ip)) s) (\<lambda>(addr, s).
               Ret (addr, upd_inode ip (\<lambda>x. x\<lparr>i_addrs := (i_addrs x)[NDIRECT := addr]\<rparr>) s))
             else Ret (addr, s)) (\<lambda>(addr, s).
          bindr (fs_bread (i_dev (f_inode s ip)) addr s) (\<lambda>(bp, s).
          let addr = get32 (fs_data bp s) (4 * unat bn) in
          bindr
            (if addr = 0 then
               bindr (balloc (i_dev (f_inode s ip)) s) (\<lambda>(addr, s).
               let s = fs_set_data bp (put32 (fs_data bp s) (4 * unat bn) addr) s in
               bindr (fs_log_write bp s) (\<lambda>s. Ret (addr, s)))
             else Ret (addr, s)) (\<lambda>(addr, s).
          bindr (fs_brelse bp s) (\<lambda>s. Ret (addr, s)))))
        else Panic ''bmap: out of range'')"

fun itrunc_direct :: "nat \<Rightarrow> nat \<Rightarrow> nat \<Rightarrow> 'x fsys_scheme \<Rightarrow> 'x fsys_scheme res" where
  "itrunc_direct 0 i ip s = Ret s"
| "itrunc_direct (Suc k) i ip s =
     (if i_addrs (f_inode s ip) ! i \<noteq> 0 then
        bindr (bfree (i_dev (f_inode s ip)) (i_addrs (f_inode s ip) ! i) s) (\<lambda>s.
        itrunc_direct k (Suc i) ip (upd_inode ip (\<lambda>x. x\<lparr>i_addrs := (i_addrs x)[i := 0]\<rparr>) s))
      else itrunc_direct k (Suc i) ip s)"

fun itrunc_indirect :: "nat \<Rightarrow> nat \<Rightarrow> nat \<Rightarrow> nat \<Rightarrow> 'x fsys_scheme \<Rightarrow> 'x fsys_scheme res" where
  "itrunc_indirect 0 j bp ip s = Ret s"
| "itrunc_indirect (Suc k) j bp ip s =
     (if get32 (fs_data bp s) (4 * j) \<noteq> 0 then
        bindr (bfree (i_dev (f_inode s ip)) (get32 (fs_data bp s) (4 * j)) s) (\<lambda>s.
        itrunc_indirect k (Suc j) bp ip s)
      else itrunc_indirect k (Suc j) bp ip s)"

definition itrunc :: "nat \<Rightarrow> 'x fsys_scheme \<Rightarrow> 'x fsys_scheme res" where
  "itrunc ip s =
     bindr (itrunc_direct NDIRECT 0 ip s) (\<lambda>s.
     bindr
       (if i_addrs (f_inode s ip) ! NDIRECT \<noteq> 0 then
          bindr (fs_bread (i_dev (f_inode s ip)) (i_addrs (f_inode s ip) ! NDIRECT) s) (\<lambda>(bp, s).
          bindr (itrunc_indirect NINDIRECT 0 bp ip s) (\<lambda>s.
          bindr (fs_brelse bp s) (\<lambda>s.
          bindr (bfree (i_dev (f_inode s ip)) (i_addrs (f_inode s ip) ! NDIRECT) s) (\<lambda>s.
          Ret (upd_inode ip (\<lambda>x. x\<lparr>i_addrs := (i_addrs x)[NDIRECT := 0]\<rparr>) s)))))
        else Ret s) (\<lambda>s.
     iupdate ip (upd_inode ip (\<lambda>x. x\<lparr>i_size := 0\<rparr>) s)))"

definition iput :: "nat \<Rightarrow> 'x fsys_scheme \<Rightarrow> 'x fsys_scheme res" where
  "iput ip s =
     bindr
       (if i_ref (f_inode s ip) = 1 \<and> i_valid (f_inode s ip) \<and> i_nlink (f_inode s ip) = 0 then
          if i_busy (f_inode s ip) then Panic ''iput busy''
          else let s = upd_inode ip (\<lambda>x. x\<lparr>i_busy := True\<rparr>) s in
            bindr (itrunc ip s) (\<lambda>s.
            bindr (iupdate ip (upd_inode ip (\<lambda>x. x\<lparr>i_type := 0\<rparr>) s)) (\<lambda>s.
            Ret (fs_wakeup (ChanInode ip) (upd_inode ip (\<lambda>x. x\<lparr>i_busy := False, i_valid := False\<rparr>) s))))
        else Ret s) (\<lambda>s.
     Ret (upd_inode ip (\<lambda>x. x\<lparr>i_ref := i_ref x - 1\<rparr>) s))"

definition iunlockput :: "nat \<Rightarrow> 'x fsys_scheme \<Rightarrow> 'x fsys_scheme res" where
  "iunlockput ip s = bindr (iunlock (Some ip) s) (\<lambda>s. iput ip s)"

record stat =
  st_type :: ushort
  st_dev :: uint
  st_ino :: uint
  st_nlink :: ushort
  st_size :: uint

definition stati :: "nat \<Rightarrow> 'x fsys_scheme \<Rightarrow> stat" where
  "stati ip s = (let x = f_inode s ip in
     \<lparr>st_type = i_type x, st_dev = i_dev x, st_ino = i_inum x, st_nlink = i_nlink x, st_size = i_size x\<rparr>)"

subsection \<open>Reading and writing\<close>

text \<open>
  The device switch: for each major number the read and write functions of a device, on the state
  the file system is a part of. A read returns the value the function returns and the bytes it
  stored at \<open>dst\<close>.
\<close>

record 's devsw =
  d_read :: "nat \<Rightarrow> (nat \<Rightarrow> int \<Rightarrow> 's \<Rightarrow> ((int \<times> uchar list) \<times> 's) res) option"
  d_write :: "nat \<Rightarrow> (nat \<Rightarrow> uchar list \<Rightarrow> int \<Rightarrow> 's \<Rightarrow> (int \<times> 's) res) option"

definition dev_of :: "ushort \<Rightarrow> (nat \<Rightarrow> 'f option) \<Rightarrow> 'f option" where
  "dev_of major tab = (if sint major < 0 \<or> sint major \<ge> int NDEV then None else tab (nat (sint major)))"

text \<open>The number of bytes of one round: up to the end of the block.\<close>

definition chunk :: "uint \<Rightarrow> nat \<Rightarrow> nat" where
  "chunk off left = min left (BSIZE - unat off mod BSIZE)"

lemma chunk_pos: "0 < left \<Longrightarrow> 0 < chunk off left \<and> chunk off left \<le> left"
  by (simp add: chunk_def)

function readi_loop :: "nat \<Rightarrow> uint \<Rightarrow> nat \<Rightarrow> 'x fsys_scheme \<Rightarrow> (uchar list \<times> 'x fsys_scheme) res" where
  "readi_loop ip off left s =
     (if left = 0 then Ret ([], s)
      else bindr (bmap ip (off div 512) s) (\<lambda>(addr, s).
        bindr (fs_bread (i_dev (f_inode s ip)) addr s) (\<lambda>(bp, s).
        let m = chunk off left; bytes = take m (drop (unat off mod BSIZE) (fs_data bp s)) in
        bindr (fs_brelse bp s) (\<lambda>s.
        bindr (readi_loop ip (off + of_nat m) (left - m) s) (\<lambda>(rest, s). Ret (bytes @ rest, s))))))"
  by pat_completeness auto
termination
  by (relation "measure (\<lambda>(ip, off, left, s). left)") (simp_all add: chunk_def)

definition readi ::
  "'x fsys_scheme devsw \<Rightarrow> nat \<Rightarrow> uint \<Rightarrow> uint \<Rightarrow> 'x fsys_scheme \<Rightarrow> ((int \<times> uchar list) \<times> 'x fsys_scheme) res" where
  "readi dv ip off n s =
     (let x = f_inode s ip in
      if i_type x = T_DEV then
        case dev_of (i_major x) (d_read dv) of
          None \<Rightarrow> Ret ((- 1, []), s)
        | Some f \<Rightarrow> f ip (sint n) s
      else if off > i_size x \<or> off + n < off then Ret ((- 1, []), s)
      else let n = (if off + n > i_size x then i_size x - off else n) in
        bindr (readi_loop ip off (unat n) s) (\<lambda>(bytes, s). Ret ((sint n, bytes), s)))"

function writei_loop :: "nat \<Rightarrow> uchar list \<Rightarrow> uint \<Rightarrow> nat \<Rightarrow> 'x fsys_scheme \<Rightarrow> 'x fsys_scheme res" where
  "writei_loop ip src off left s =
     (if left = 0 then Ret s
      else bindr (bmap ip (off div 512) s) (\<lambda>(addr, s).
        bindr (fs_bread (i_dev (f_inode s ip)) addr s) (\<lambda>(bp, s).
        let m = chunk off left; k = unat off mod BSIZE; d = fs_data bp s;
            s = fs_set_data bp (take k d @ take m src @ drop (k + m) d) s in
        bindr (fs_log_write bp s) (\<lambda>s.
        bindr (fs_brelse bp s) (\<lambda>s. writei_loop ip (drop m src) (off + of_nat m) (left - m) s)))))"
  by pat_completeness auto
termination
  by (relation "measure (\<lambda>(ip, src, off, left, s). left)") (simp_all add: chunk_def)

definition writei ::
  "'x fsys_scheme devsw \<Rightarrow> nat \<Rightarrow> uchar list \<Rightarrow> uint \<Rightarrow> uint \<Rightarrow> 'x fsys_scheme \<Rightarrow> (int \<times> 'x fsys_scheme) res" where
  "writei dv ip src off n s =
     (let x = f_inode s ip in
      if i_type x = T_DEV then
        case dev_of (i_major x) (d_write dv) of
          None \<Rightarrow> Ret (- 1, s)
        | Some f \<Rightarrow> f ip src (sint n) s
      else if off > i_size x \<or> off + n < off then Ret (- 1, s)
      else if off + n > of_nat (MAXFILE * BSIZE) then Ret (- 1, s)
      else bindr (writei_loop ip src off (unat n) s) (\<lambda>s.
        bindr
          (if 0 < n \<and> off + n > i_size (f_inode s ip) then
             iupdate ip (upd_inode ip (\<lambda>x. x\<lparr>i_size := off + n\<rparr>) s)
           else Ret s) (\<lambda>s. Ret (sint n, s))))"

end
