(* ===== verification/File.thy ===== *)
theory File
  imports Fs_Inode Pipe Kalloc
begin

section \<open>Open files (file.c, pipealloc of pipe.c)\<close>

text \<open>
  The table of open files above inodes and pipes. A file is named by its index in the table, a pipe
  by the address of its page; the page comes from the allocator, whose state is part of the state
  here. Reading returns the value of the call and the bytes it delivers. A write to a pipe may
  block after some of its bytes, so \<open>filewrite\<close> returns what \<open>pipewrite\<close> returns (\<open>pwout\<close>).
  \<open>killed\<close> is the flag of the calling process.
\<close>

datatype ftype = FD_NONE | FD_PIPE | FD_INODE

record openfile =
  fl_type :: ftype
  fl_ref :: int
  fl_readable :: bool
  fl_writable :: bool
  fl_pipe :: uint
  fl_ip :: nat
  fl_off :: uint

record filesys = fsys +
  k_file :: "nat \<Rightarrow> openfile"
  k_pipe :: "uint \<Rightarrow> pipe"
  k_kst :: kst

definition upd_file :: "nat \<Rightarrow> (openfile \<Rightarrow> openfile) \<Rightarrow> 'x filesys_scheme \<Rightarrow> 'x filesys_scheme" where
  "upd_file f g s = s\<lparr>k_file := (k_file s)(f := g (k_file s f))\<rparr>"

definition set_pipe :: "uint \<Rightarrow> pipe \<Rightarrow> 'x filesys_scheme \<Rightarrow> 'x filesys_scheme" where
  "set_pipe p q s = s\<lparr>k_pipe := (k_pipe s)(p := q)\<rparr>"

definition k_kalloc :: "'x filesys_scheme \<Rightarrow> (uint \<times> 'x filesys_scheme) res" where
  "k_kalloc s = bindr (kalloc (k_kst s)) (\<lambda>(p, t). Ret (p, s\<lparr>k_kst := t\<rparr>))"

definition k_kfree :: "uint \<Rightarrow> uint \<Rightarrow> 'x filesys_scheme \<Rightarrow> 'x filesys_scheme res" where
  "k_kfree kend p s = bindr (kfree kend p (k_kst s)) (\<lambda>t. Ret (s\<lparr>k_kst := t\<rparr>))"

definition filealloc :: "'x filesys_scheme \<Rightarrow> nat option \<times> 'x filesys_scheme" where
  "filealloc s =
     (case find (\<lambda>f. fl_ref (k_file s f) = 0) [0..<NFILE] of
        Some f \<Rightarrow> (Some f, upd_file f (\<lambda>x. x\<lparr>fl_ref := 1\<rparr>) s)
      | None \<Rightarrow> (None, s))"

definition filedup :: "nat \<Rightarrow> 'x filesys_scheme \<Rightarrow> (nat \<times> 'x filesys_scheme) res" where
  "filedup f s =
     (if fl_ref (k_file s f) < 1 then Panic ''filedup''
      else Ret (f, upd_file f (\<lambda>x. x\<lparr>fl_ref := fl_ref x + 1\<rparr>) s))"

text \<open>\<open>pipeclose\<close> on this state, with the freeing of the page.\<close>

definition k_pipeclose :: "uint \<Rightarrow> uint \<Rightarrow> bool \<Rightarrow> 'x filesys_scheme \<Rightarrow> 'x filesys_scheme res" where
  "k_pipeclose kend p writable s =
     (let (gone, q) = pipeclose (k_pipe s p) writable; s = set_pipe p q s in
      if gone then k_kfree kend p s else Ret s)"

definition fileclose :: "uint \<Rightarrow> nat \<Rightarrow> 'x filesys_scheme \<Rightarrow> 'x filesys_scheme res" where
  "fileclose kend f s =
     (if fl_ref (k_file s f) < 1 then Panic ''fileclose''
      else let s = upd_file f (\<lambda>x. x\<lparr>fl_ref := fl_ref x - 1\<rparr>) s in
        if fl_ref (k_file s f) > 0 then Ret s
        else let ff = k_file s f; s = upd_file f (\<lambda>x. x\<lparr>fl_ref := 0, fl_type := FD_NONE\<rparr>) s in
          if fl_type ff = FD_PIPE then k_pipeclose kend (fl_pipe ff) (fl_writable ff) s
          else if fl_type ff = FD_INODE then
            bindr (fs_begin_op s) (\<lambda>s. bindr (iput (fl_ip ff) s) (\<lambda>s. fs_end_op s))
          else Ret s)"

definition pipealloc_bad ::
  "uint \<Rightarrow> nat option \<Rightarrow> nat option \<Rightarrow> 'x filesys_scheme \<Rightarrow> ((nat \<times> nat) option \<times> 'x filesys_scheme) res" where
  "pipealloc_bad kend f0 f1 s =
     bindr (case f0 of Some f \<Rightarrow> fileclose kend f s | None \<Rightarrow> Ret s) (\<lambda>s.
     bindr (case f1 of Some f \<Rightarrow> fileclose kend f s | None \<Rightarrow> Ret s) (\<lambda>s. Ret (None, s)))"

text \<open>\<open>None\<close> is the return value -1. The page is the last thing allocated, so \<open>bad\<close> never frees it.\<close>

definition pipealloc :: "uint \<Rightarrow> 'x filesys_scheme \<Rightarrow> ((nat \<times> nat) option \<times> 'x filesys_scheme) res" where
  "pipealloc kend s =
     (case filealloc s of
        (None, s) \<Rightarrow> pipealloc_bad kend None None s
      | (Some f0, s) \<Rightarrow> (case filealloc s of
          (None, s) \<Rightarrow> pipealloc_bad kend (Some f0) None s
        | (Some f1, s) \<Rightarrow>
            bindr (k_kalloc s) (\<lambda>(p, s).
            if p = 0 then pipealloc_bad kend (Some f0) (Some f1) s
            else let s = set_pipe p (pipe_init (k_pipe s p)) s;
                     s = upd_file f0 (\<lambda>x. x\<lparr>fl_type := FD_PIPE, fl_readable := True, fl_writable := False, fl_pipe := p\<rparr>) s;
                     s = upd_file f1 (\<lambda>x. x\<lparr>fl_type := FD_PIPE, fl_readable := False, fl_writable := True, fl_pipe := p\<rparr>) s
                 in Ret (Some (f0, f1), s))))"

text \<open>\<open>None\<close> is the return value -1.\<close>

definition filestat :: "nat \<Rightarrow> 'x filesys_scheme \<Rightarrow> (stat option \<times> 'x filesys_scheme) res" where
  "filestat f s =
     (if fl_type (k_file s f) = FD_INODE then
        let ip = fl_ip (k_file s f) in
        bindr (ilock (Some ip) s) (\<lambda>s.
        let st = stati ip s in
        bindr (iunlock (Some ip) s) (\<lambda>s. Ret (Some st, s)))
      else Ret (None, s))"

definition fileread ::
  "'x filesys_scheme devsw \<Rightarrow> bool \<Rightarrow> nat \<Rightarrow> int \<Rightarrow> 'x filesys_scheme \<Rightarrow> ((int \<times> uchar list) \<times> 'x filesys_scheme) res" where
  "fileread dv killed f n s =
     (let x = k_file s f in
      if \<not> fl_readable x then Ret ((- 1, []), s)
      else case fl_type x of
        FD_PIPE \<Rightarrow>
          bindr (piperead killed n (k_pipe s (fl_pipe x))) (\<lambda>(r, q).
          Ret ((case r of None \<Rightarrow> (- 1, []) | Some bytes \<Rightarrow> (int (length bytes), bytes)), set_pipe (fl_pipe x) q s))
      | FD_INODE \<Rightarrow>
          bindr (ilock (Some (fl_ip x)) s) (\<lambda>s.
          bindr (readi dv (fl_ip x) (fl_off (k_file s f)) (word_of_int n) s) (\<lambda>((r, bytes), s).
          let s = (if r > 0 then upd_file f (\<lambda>x. x\<lparr>fl_off := fl_off x + word_of_int r\<rparr>) s else s) in
          bindr (iunlock (Some (fl_ip x)) s) (\<lambda>s. Ret ((r, bytes), s))))
      | FD_NONE \<Rightarrow> Panic ''fileread'')"

text \<open>\<open>max\<close>: 13 blocks, from LOGSIZE.\<close>

definition filewrite_max :: int where
  "filewrite_max = ((int LOGSIZE - 1 - 1 - 2) div 2) * 512"

function filewrite_loop ::
  "'x filesys_scheme devsw \<Rightarrow> nat \<Rightarrow> uchar list \<Rightarrow> int \<Rightarrow> int \<Rightarrow> 'x filesys_scheme \<Rightarrow> (int \<times> 'x filesys_scheme) res" where
  "filewrite_loop dv f addr i n s =
     (if \<not> i < n then Ret (i, s)
      else let n1 = (if n - i > filewrite_max then filewrite_max else n - i); ip = fl_ip (k_file s f) in
        bindr (fs_begin_op s) (\<lambda>s.
        bindr (ilock (Some ip) s) (\<lambda>s.
        bindr (writei dv ip (drop (nat i) addr) (fl_off (k_file s f)) (word_of_int n1) s) (\<lambda>(r, s).
        let s = (if r > 0 then upd_file f (\<lambda>x. x\<lparr>fl_off := fl_off x + word_of_int r\<rparr>) s else s) in
        bindr (iunlock (Some ip) s) (\<lambda>s.
        bindr (fs_end_op s) (\<lambda>s.
        if r < 0 then Ret (i, s)
        else if r \<noteq> n1 then Panic ''short filewrite''
        else filewrite_loop dv f addr (i + r) n s))))))"
  by pat_completeness auto

termination
  by (relation "measure (\<lambda>(dv, f, addr, i, n, s). nat (n - i))") (auto simp: filewrite_max_def split: if_splits)

declare filewrite_loop.simps [simp del]

definition filewrite ::
  "'x filesys_scheme devsw \<Rightarrow> bool \<Rightarrow> nat \<Rightarrow> uchar list \<Rightarrow> int \<Rightarrow> 'x filesys_scheme \<Rightarrow> (pwout \<times> 'x filesys_scheme) res" where
  "filewrite dv killed f addr n s =
     (let x = k_file s f in
      if \<not> fl_writable x then Ret (PwReturn (- 1), s)
      else case fl_type x of
        FD_PIPE \<Rightarrow>
          let (out, q) = pipewrite killed n (take (nat n) addr) (k_pipe s (fl_pipe x))
          in Ret (out, set_pipe (fl_pipe x) q s)
      | FD_INODE \<Rightarrow>
          bindr (filewrite_loop dv f addr 0 n s) (\<lambda>(i, s). Ret (PwReturn (if i = n then n else - 1), s))
      | FD_NONE \<Rightarrow> Panic ''filewrite'')"

end
