(* ===== verification/Fs_Dir.thy ===== *)
theory Fs_Dir
  imports Fs_Inode Cstring
begin

section \<open>Directories and path names (fs.c)\<close>

text \<open>
  A directory is a file of 16-byte entries: an inode number and a name of at most DIRSIZ bytes,
  padded with NUL. A string that the code only reads is the list of its bytes, and the end of the
  list stands for its NUL; \<open>name\<close> is the caller's buffer of DIRSIZ bytes. The current directory
  of the process is an argument of \<open>namex\<close>.
\<close>

subsection \<open>Strings as lists\<close>

definition hd0 :: "uchar list \<Rightarrow> uchar" where
  "hd0 s = (case s of [] \<Rightarrow> 0 | c # _ \<Rightarrow> c)"

fun strncmp_list :: "nat \<Rightarrow> uchar list \<Rightarrow> uchar list \<Rightarrow> int" where
  "strncmp_list 0 p q = 0"
| "strncmp_list (Suc n) p q =
     (if hd0 p \<noteq> 0 \<and> hd0 p = hd0 q then strncmp_list n (tl p) (tl q)
      else uint (hd0 p) - uint (hd0 q))"

fun strncpy_list :: "nat \<Rightarrow> uchar list \<Rightarrow> uchar list" where
  "strncpy_list 0 t = []"
| "strncpy_list (Suc n) t =
     hd0 t # (if hd0 t \<noteq> 0 then strncpy_list n (tl t) else replicate n 0)"

subsection \<open>Directories\<close>

abbreviation (input) DIRSIZ :: nat where "DIRSIZ \<equiv> 14"

record dirent =
  de_inum :: ushort
  de_name :: "uchar list"

definition get_dirent :: "uchar list \<Rightarrow> dirent" where
  "get_dirent bs = \<lparr>de_inum = get16 bs 0, de_name = take DIRSIZ (drop 2 bs)\<rparr>"

definition put_dirent :: "dirent \<Rightarrow> uchar list" where
  "put_dirent de = [ucast (de_inum de), ucast (drop_bit 8 (de_inum de))] @ de_name de"

definition namecmp :: "uchar list \<Rightarrow> uchar list \<Rightarrow> int" where
  "namecmp s t = strncmp_list DIRSIZ s t"

text \<open>The number of entries the loops over a directory look at.\<close>

definition nents :: "uint \<Rightarrow> nat" where
  "nents sz = (unat sz + 15) div 16"

fun dirlookup_loop ::
  "nat \<Rightarrow> uint \<Rightarrow> 'x fsys_scheme devsw \<Rightarrow> nat \<Rightarrow> uchar list \<Rightarrow> 'x fsys_scheme \<Rightarrow> ((nat \<times> uint) option \<times> 'x fsys_scheme) res" where
  "dirlookup_loop 0 off dv dp name s = Ret (None, s)"
| "dirlookup_loop (Suc k) off dv dp name s =
     bindr (readi dv dp off 16 s) (\<lambda>((r, bytes), s).
     if r \<noteq> 16 then Panic ''dirlink read''
     else let de = get_dirent bytes in
       if de_inum de = 0 then dirlookup_loop k (off + 16) dv dp name s
       else if namecmp name (de_name de) = 0 then
         bindr (iget (i_dev (f_inode s dp)) (ucast (de_inum de)) s) (\<lambda>(ip, s). Ret (Some (ip, off), s))
       else dirlookup_loop k (off + 16) dv dp name s)"

definition dirlookup ::
  "'x fsys_scheme devsw \<Rightarrow> nat \<Rightarrow> uchar list \<Rightarrow> 'x fsys_scheme \<Rightarrow> ((nat \<times> uint) option \<times> 'x fsys_scheme) res" where
  "dirlookup dv dp name s =
     (if i_type (f_inode s dp) \<noteq> T_DIR then Panic ''dirlookup not DIR''
      else dirlookup_loop (nents (i_size (f_inode s dp))) 0 dv dp name s)"

fun dirlink_loop :: "nat \<Rightarrow> uint \<Rightarrow> 'x fsys_scheme devsw \<Rightarrow> nat \<Rightarrow> 'x fsys_scheme \<Rightarrow> (uint \<times> 'x fsys_scheme) res" where
  "dirlink_loop 0 off dv dp s = Ret (off, s)"
| "dirlink_loop (Suc k) off dv dp s =
     bindr (readi dv dp off 16 s) (\<lambda>((r, bytes), s).
     if r \<noteq> 16 then Panic ''dirlink read''
     else if de_inum (get_dirent bytes) = 0 then Ret (off, s)
     else dirlink_loop k (off + 16) dv dp s)"

definition dirlink ::
  "'x fsys_scheme devsw \<Rightarrow> nat \<Rightarrow> uchar list \<Rightarrow> uint \<Rightarrow> 'x fsys_scheme \<Rightarrow> (int \<times> 'x fsys_scheme) res" where
  "dirlink dv dp name inum s =
     bindr (dirlookup dv dp name s) (\<lambda>(found, s).
     case found of
       Some (ip, _) \<Rightarrow> bindr (iput ip s) (\<lambda>s. Ret (- 1, s))
     | None \<Rightarrow>
         bindr (dirlink_loop (nents (i_size (f_inode s dp))) 0 dv dp s) (\<lambda>(off, s).
         let de = \<lparr>de_inum = ucast inum, de_name = strncpy_list DIRSIZ name\<rparr> in
         bindr (writei dv dp (put_dirent de) off 16 s) (\<lambda>(r, s).
         if r \<noteq> 16 then Panic ''dirlink'' else Ret (0, s))))"

subsection \<open>Paths\<close>

abbreviation (input) slash :: uchar where "slash \<equiv> 47"

definition skipelem :: "uchar list \<Rightarrow> uchar list \<Rightarrow> (uchar list \<times> uchar list) option" where
  "skipelem pth name =
     (let pth = dropWhile (\<lambda>c. c = slash) pth in
      if pth = [] then None
      else let elem = takeWhile (\<lambda>c. c \<noteq> slash) pth; pth = dropWhile (\<lambda>c. c \<noteq> slash) pth;
               name = (if length elem \<ge> DIRSIZ then take DIRSIZ elem
                       else elem @ [0] @ drop (length elem + 1) name)
           in Some (dropWhile (\<lambda>c. c = slash) pth, name))"

lemma skipelem_shorter: "skipelem pth name = Some (pth', name') \<Longrightarrow> length pth' < length pth"
proof -
  assume a: "skipelem pth name = Some (pth', name')"
  let ?p = "dropWhile (\<lambda>c. c = slash) pth"
  obtain c cs where p: "?p = c # cs" using a by (cases ?p) (auto simp: skipelem_def)
  then have c: "c \<noteq> slash" using hd_dropWhile [of "\<lambda>c. c = slash" pth] by simp
  have "pth' = dropWhile (\<lambda>c. c = slash) (dropWhile (\<lambda>c. c \<noteq> slash) cs)"
    using a p c by (simp add: skipelem_def Let_def)
  then have "length pth' \<le> length cs" by (simp add: order_trans [OF length_dropWhile_le length_dropWhile_le])
  moreover have "length (c # cs) \<le> length pth" unfolding p [symmetric] by (rule length_dropWhile_le)
  ultimately show ?thesis by simp
qed

function namex_loop ::
  "'x fsys_scheme devsw \<Rightarrow> bool \<Rightarrow> uchar list \<Rightarrow> uchar list \<Rightarrow> nat \<Rightarrow> 'x fsys_scheme \<Rightarrow>
     ((nat option \<times> uchar list) \<times> 'x fsys_scheme) res" where
  "namex_loop dv parent pth name ip s =
     (case skipelem pth name of
        None \<Rightarrow>
          if parent then bindr (iput ip s) (\<lambda>s. Ret ((None, name), s))
          else Ret ((Some ip, name), s)
      | Some (pth, name) \<Rightarrow>
          bindr (ilock (Some ip) s) (\<lambda>s.
          if i_type (f_inode s ip) \<noteq> T_DIR then bindr (iunlockput ip s) (\<lambda>s. Ret ((None, name), s))
          else if parent \<and> pth = [] then bindr (iunlock (Some ip) s) (\<lambda>s. Ret ((Some ip, name), s))
          else bindr (dirlookup dv ip name s) (\<lambda>(found, s).
            case found of
              None \<Rightarrow> bindr (iunlockput ip s) (\<lambda>s. Ret ((None, name), s))
            | Some (nxt, _) \<Rightarrow> bindr (iunlockput ip s) (\<lambda>s. namex_loop dv parent pth name nxt s))))"
  by pat_completeness auto
termination
  by (relation "measure (\<lambda>(dv, parent, pth, name, ip, s). length pth)") (auto dest: skipelem_shorter)

definition namex ::
  "'x fsys_scheme devsw \<Rightarrow> nat \<Rightarrow> uchar list \<Rightarrow> bool \<Rightarrow> uchar list \<Rightarrow> 'x fsys_scheme \<Rightarrow>
     ((nat option \<times> uchar list) \<times> 'x fsys_scheme) res" where
  "namex dv cwd pth parent name s =
     bindr (if hd0 pth = slash then iget ROOTDEV ROOTINO s else Ret (idup cwd s)) (\<lambda>(ip, s).
     namex_loop dv parent pth name ip s)"

definition namei ::
  "'x fsys_scheme devsw \<Rightarrow> nat \<Rightarrow> uchar list \<Rightarrow> 'x fsys_scheme \<Rightarrow> (nat option \<times> 'x fsys_scheme) res" where
  "namei dv cwd pth s =
     bindr (namex dv cwd pth False (replicate DIRSIZ 0) s) (\<lambda>((ip, _), s). Ret (ip, s))"

definition nameiparent ::
  "'x fsys_scheme devsw \<Rightarrow> nat \<Rightarrow> uchar list \<Rightarrow> uchar list \<Rightarrow> 'x fsys_scheme \<Rightarrow>
     ((nat option \<times> uchar list) \<times> 'x fsys_scheme) res" where
  "nameiparent dv cwd pth name s = namex dv cwd pth True name s"

end
