(* ===== verification/Proc.thy ===== *)
theory Proc
  imports Ptable Vm File Fs_Dir
begin

section \<open>Processes (proc.c, and the page-table switches of vm.c)\<close>

text \<open>
  The kernel as one processor sees it: the file system with its open files, the process table with
  \<open>ptable.lock\<close>, memory, and the registers the kernel loads (\<open>%cr3\<close> and the stack of the task
  state). The record \<open>link\<close> holds what the linker provides: the symbols \<open>end\<close>, \<open>data\<close>,
  \<open>trapret\<close>, \<open>forkret\<close> and the image of \<open>initcode.S\<close>. The calling process is the argument \<open>me\<close>
  (the per-processor variable \<open>proc\<close>).

  Trap frames and contexts are in memory, at the top of the kernel stack of the process, with the
  layouts of \<open>x86.h\<close> and \<open>proc.h\<close>. A context switch is the end of a definition: \<open>sched\<close> makes its
  checks and returns what the process has to restore when it runs again.
\<close>

subsection \<open>State\<close>

record link =
  ln_end :: uint
  ln_data :: uint
  ln_trapret :: uint
  ln_forkret :: uint
  ln_initcode :: "uchar list"

record kernel = filesys +
  k_proc :: ptable
  k_plock :: spinlock
  k_nextpid :: uint
  k_initproc :: "nat option"
  k_kpgdir :: uint
  k_cr3 :: uint
  k_esp0 :: uint
  k_first :: bool
  k_ticks :: uint

definition k_upd :: "nat \<Rightarrow> (proc \<Rightarrow> proc) \<Rightarrow> 'x kernel_scheme \<Rightarrow> 'x kernel_scheme" where
  "k_upd p f s = s\<lparr>k_proc := upd_proc p f (k_proc s)\<rparr>"

definition k_vm :: "(kst \<Rightarrow> ('a \<times> kst) res) \<Rightarrow> 'x kernel_scheme \<Rightarrow> ('a \<times> 'x kernel_scheme) res" where
  "k_vm f s = bindr (f (k_kst s)) (\<lambda>(r, t). Ret (r, s\<lparr>k_kst := t\<rparr>))"

definition k_vmu :: "(kst \<Rightarrow> kst res) \<Rightarrow> 'x kernel_scheme \<Rightarrow> 'x kernel_scheme res" where
  "k_vmu f s = bindr (f (k_kst s)) (\<lambda>t. Ret (s\<lparr>k_kst := t\<rparr>))"

definition k_mem :: "'x kernel_scheme \<Rightarrow> mem" where
  "k_mem s = kmem_mem (k_kst s)"

definition k_upd_mem :: "(mem \<Rightarrow> mem) \<Rightarrow> 'x kernel_scheme \<Rightarrow> 'x kernel_scheme" where
  "k_upd_mem f s = s\<lparr>k_kst := upd_mem f (k_kst s)\<rparr>"

definition k_upd_cpu :: "(cpu \<Rightarrow> cpu) \<Rightarrow> 'x kernel_scheme \<Rightarrow> 'x kernel_scheme" where
  "k_upd_cpu f s = s\<lparr>k_kst := (k_kst s)\<lparr>kcpu := f (kcpu (k_kst s))\<rparr>\<rparr>"

definition acquire_ptable :: "'x kernel_scheme \<Rightarrow> 'x kernel_scheme res" where
  "acquire_ptable s =
     bindr (acquire (k_plock s) (kcpu (k_kst s))) (\<lambda>(lk, c). Ret (k_upd_cpu (\<lambda>_. c) (s\<lparr>k_plock := lk\<rparr>)))"

definition release_ptable :: "'x kernel_scheme \<Rightarrow> 'x kernel_scheme res" where
  "release_ptable s =
     bindr (release (k_plock s) (kcpu (k_kst s))) (\<lambda>(lk, c). Ret (k_upd_cpu (\<lambda>_. c) (s\<lparr>k_plock := lk\<rparr>)))"

definition pinit :: "'x kernel_scheme \<Rightarrow> 'x kernel_scheme" where
  "pinit s = s\<lparr>k_plock := initlock (k_plock s) ''ptable''\<rparr>"

subsection \<open>Trap frames (x86.h)\<close>

definition store16 :: "mem \<Rightarrow> uint \<Rightarrow> ushort \<Rightarrow> mem" where
  "store16 m a v = m(a := ucast v, a + 1 := ucast (drop_bit 8 v))"

abbreviation (input) tf_size :: uint where "tf_size \<equiv> 76"
abbreviation (input) tf_eax :: uint where "tf_eax \<equiv> 28"
abbreviation (input) tf_es :: uint where "tf_es \<equiv> 40"
abbreviation (input) tf_ds :: uint where "tf_ds \<equiv> 44"
abbreviation (input) tf_trapno :: uint where "tf_trapno \<equiv> 48"
abbreviation (input) tf_err :: uint where "tf_err \<equiv> 52"
abbreviation (input) tf_eip :: uint where "tf_eip \<equiv> 56"
abbreviation (input) tf_cs :: uint where "tf_cs \<equiv> 60"
abbreviation (input) tf_eflags :: uint where "tf_eflags \<equiv> 64"
abbreviation (input) tf_esp :: uint where "tf_esp \<equiv> 68"
abbreviation (input) tf_ss :: uint where "tf_ss \<equiv> 72"
abbreviation (input) ctx_size :: uint where "ctx_size \<equiv> 20"
abbreviation (input) ctx_ebp :: uint where "ctx_ebp \<equiv> 12"
abbreviation (input) ctx_eip :: uint where "ctx_eip \<equiv> 16"

subsection \<open>Switching page tables (vm.c)\<close>

definition switchkvm :: "'x kernel_scheme \<Rightarrow> 'x kernel_scheme" where
  "switchkvm s = s\<lparr>k_cr3 := v2p (k_kpgdir s)\<rparr>"

definition kvmalloc :: "link \<Rightarrow> 'x kernel_scheme \<Rightarrow> 'x kernel_scheme res" where
  "kvmalloc ln s =
     bindr (k_vm (setupkvm (ln_data ln)) s) (\<lambda>(d, s). Ret (switchkvm (s\<lparr>k_kpgdir := d\<rparr>)))"

definition switchuvm :: "nat \<Rightarrow> nat \<Rightarrow> 'x kernel_scheme \<Rightarrow> 'x kernel_scheme res" where
  "switchuvm me p s =
     (let s = k_upd_cpu pushcli s;
          s = s\<lparr>k_esp0 := pr_kstack (k_proc s me) + KSTACKSIZE\<rparr> in
      if pr_pgdir (k_proc s p) = 0 then Panic ''switchuvm: no pgdir''
      else let s = s\<lparr>k_cr3 := v2p (pr_pgdir (k_proc s p))\<rparr> in
        bindr (popcli (kcpu (k_kst s))) (\<lambda>c. Ret (k_upd_cpu (\<lambda>_. c) s)))"

subsection \<open>Creating processes\<close>

definition allocproc :: "link \<Rightarrow> 'x kernel_scheme \<Rightarrow> (nat option \<times> 'x kernel_scheme) res" where
  "allocproc ln s =
     bindr (acquire_ptable s) (\<lambda>s.
     case allocslot (k_nextpid s) (k_proc s) of
       (None, _) \<Rightarrow> bindr (release_ptable s) (\<lambda>s. Ret (None, s))
     | (Some p, nextpid, t) \<Rightarrow>
         bindr (release_ptable (s\<lparr>k_proc := t, k_nextpid := nextpid\<rparr>)) (\<lambda>s.
         bindr (k_kalloc s) (\<lambda>(kstack, s).
         let s = k_upd p (\<lambda>x. x\<lparr>pr_kstack := kstack\<rparr>) s in
         if kstack = 0 then Ret (None, k_upd p (\<lambda>x. x\<lparr>pr_state := UNUSED\<rparr>) s)
         else
           let sp = kstack + KSTACKSIZE - tf_size;
               s = k_upd p (\<lambda>x. x\<lparr>pr_tf := sp\<rparr>) s;
               sp = sp - 4;
               s = k_upd_mem (\<lambda>m. store32 m sp (ln_trapret ln)) s;
               sp = sp - ctx_size;
               s = k_upd p (\<lambda>x. x\<lparr>pr_context := sp\<rparr>) s;
               s = k_upd_mem (memset sp 0 ctx_size) s;
               s = k_upd_mem (\<lambda>m. store32 m (sp + ctx_eip) (ln_forkret ln)) s
           in Ret (Some p, s))))"

text \<open>
  \<open>safestrcpy\<close> into a name of 16 bytes: at most 15 bytes up to the NUL, which is stored twice when
  it is copied, and the old bytes after that.
\<close>

definition set_name :: "uchar list \<Rightarrow> uchar list \<Rightarrow> uchar list" where
  "set_name t old =
     (let k = length (takeWhile (\<lambda>c. c \<noteq> 0) (take 15 t)) in
      if k < 15 then take k t @ [0, 0] @ drop (k + 2) old else take 15 t @ [0])"

abbreviation (input) initcode_name :: "uchar list" where
  "initcode_name \<equiv> [105, 110, 105, 116, 99, 111, 100, 101]"

definition userinit_frame :: "uint \<Rightarrow> mem \<Rightarrow> mem" where
  "userinit_frame tf m =
     (let m = memset tf 0 tf_size m;
          m = store16 m (tf + tf_cs) (4 * 8 OR 3);
          m = store16 m (tf + tf_ds) (5 * 8 OR 3);
          m = store16 m (tf + tf_es) (5 * 8 OR 3);
          m = store16 m (tf + tf_ss) (5 * 8 OR 3);
          m = store32 m (tf + tf_eflags) 0x200;
          m = store32 m (tf + tf_esp) 4096
      in store32 m (tf + tf_eip) 0)"

definition userinit :: "link \<Rightarrow> 'x kernel_scheme devsw \<Rightarrow> 'x kernel_scheme \<Rightarrow> 'x kernel_scheme res" where
  "userinit ln dv s =
     bindr (allocproc ln s) (\<lambda>(p, s).
     let s = s\<lparr>k_initproc := p\<rparr> in
     case p of
       None \<Rightarrow> Fault ''userinit: null process''
     | Some p \<Rightarrow>
         bindr (k_vm (setupkvm (ln_data ln)) s) (\<lambda>(d, s).
         let s = k_upd p (\<lambda>x. x\<lparr>pr_pgdir := d\<rparr>) s in
         if d = 0 then Panic ''userinit: out of memory?''
         else bindr (k_vmu (inituvm d (ln_initcode ln)) s) (\<lambda>s.
           let s = k_upd p (\<lambda>x. x\<lparr>pr_sz := 4096\<rparr>) s;
               s = k_upd_mem (userinit_frame (pr_tf (k_proc s p))) s;
               s = k_upd p (\<lambda>x. x\<lparr>pr_name := set_name initcode_name (pr_name x)\<rparr>) s in
           bindr (namei dv 0 [slash] s) (\<lambda>(cwd, s).
           Ret (k_upd p (\<lambda>x. x\<lparr>pr_cwd := cwd, pr_state := RUNNABLE\<rparr>) s)))))"

definition growproc :: "link \<Rightarrow> nat \<Rightarrow> int \<Rightarrow> 'x kernel_scheme \<Rightarrow> (int \<times> 'x kernel_scheme) res" where
  "growproc ln me n s =
     (let sz = pr_sz (k_proc s me); d = pr_pgdir (k_proc s me);
          done = (\<lambda>sz s. bindr (switchuvm me me (k_upd me (\<lambda>x. x\<lparr>pr_sz := sz\<rparr>) s)) (\<lambda>s. Ret (0, s))) in
      if n > 0 then
        bindr (k_vm (allocuvm (ln_end ln) d sz (sz + word_of_int n)) s) (\<lambda>(sz, s).
        if sz = 0 then Ret (- 1, s) else done sz s)
      else if n < 0 then
        bindr (k_vm (deallocuvm (ln_end ln) d sz (sz + word_of_int n)) s) (\<lambda>(sz, s).
        if sz = 0 then Ret (- 1, s) else done sz s)
      else done sz s)"

fun dup_files :: "nat \<Rightarrow> nat \<Rightarrow> nat \<Rightarrow> nat \<Rightarrow> 'x kernel_scheme \<Rightarrow> 'x kernel_scheme res" where
  "dup_files 0 i me np s = Ret s"
| "dup_files (Suc k) i me np s =
     (case pr_ofile (k_proc s me) ! i of
        None \<Rightarrow> dup_files k (Suc i) me np s
      | Some f \<Rightarrow>
          bindr (filedup f s) (\<lambda>(f, s).
          dup_files k (Suc i) me np (k_upd np (\<lambda>x. x\<lparr>pr_ofile := (pr_ofile x)[i := Some f]\<rparr>) s)))"

definition fork :: "link \<Rightarrow> nat \<Rightarrow> 'x kernel_scheme \<Rightarrow> (int \<times> 'x kernel_scheme) res" where
  "fork ln me s =
     bindr (allocproc ln s) (\<lambda>(np, s).
     case np of
       None \<Rightarrow> Ret (- 1, s)
     | Some np \<Rightarrow>
         bindr (k_vm (copyuvm (ln_end ln) (ln_data ln) (pr_pgdir (k_proc s me)) (pr_sz (k_proc s me))) s) (\<lambda>(d, s).
         let s = k_upd np (\<lambda>x. x\<lparr>pr_pgdir := d\<rparr>) s in
         if d = 0 then
           bindr (k_kfree (ln_end ln) (pr_kstack (k_proc s np)) s) (\<lambda>s.
           Ret (- 1, k_upd np (\<lambda>x. x\<lparr>pr_kstack := 0, pr_state := UNUSED\<rparr>) s))
         else
           let s = k_upd np (\<lambda>x. x\<lparr>pr_sz := pr_sz (k_proc s me), pr_parent := Some me\<rparr>) s;
               s = k_upd_mem (memmove (pr_tf (k_proc s np)) (pr_tf (k_proc s me)) tf_size) s;
               s = k_upd_mem (\<lambda>m. store32 m (pr_tf (k_proc s np) + tf_eax) 0) s in
           bindr (dup_files NOFILE 0 me np s) (\<lambda>s.
           case pr_cwd (k_proc s me) of
             None \<Rightarrow> Fault ''fork: null cwd''
           | Some cwd \<Rightarrow>
               let (cwd, s) = idup cwd s;
                   s = k_upd np (\<lambda>x. x\<lparr>pr_cwd := Some cwd, pr_name := set_name (pr_name (k_proc s me)) (pr_name x)\<rparr>) s;
                   pid = pr_pid (k_proc s np) in
               bindr (acquire_ptable s) (\<lambda>s.
               bindr (release_ptable (k_upd np (\<lambda>x. x\<lparr>pr_state := RUNNABLE\<rparr>) s)) (\<lambda>s. Ret (sint pid, s))))))"

subsection \<open>Scheduling\<close>

definition sched :: "nat \<Rightarrow> 'x kernel_scheme \<Rightarrow> (bool \<times> 'x kernel_scheme) res" where
  "sched me s =
     (let c = kcpu (k_kst s) in
      if \<not> holding (k_plock s) c then Panic ''sched ptable.lock''
      else if ncli c \<noteq> 1 then Panic ''sched locks''
      else if pr_state (k_proc s me) = RUNNING then Panic ''sched running''
      else if fl_if c then Panic ''sched interruptible''
      else Ret (intena c, s))"

definition sched_back :: "bool \<Rightarrow> 'x kernel_scheme \<Rightarrow> 'x kernel_scheme" where
  "sched_back ie s = k_upd_cpu (\<lambda>c. c\<lparr>intena := ie\<rparr>) s"

definition yield_out :: "nat \<Rightarrow> 'x kernel_scheme \<Rightarrow> (bool \<times> 'x kernel_scheme) res" where
  "yield_out me s =
     bindr (acquire_ptable s) (\<lambda>s. sched me (s\<lparr>k_proc := set_state RUNNABLE me (k_proc s)\<rparr>))"

definition yield_back :: "bool \<Rightarrow> 'x kernel_scheme \<Rightarrow> 'x kernel_scheme res" where
  "yield_back ie s = release_ptable (sched_back ie s)"

text \<open>
  \<open>sleep\<close> with a lock other than \<open>ptable.lock\<close> (\<open>Some lk\<close>) or with \<open>ptable.lock\<close> itself
  (\<open>None\<close>); the lock is passed in and out.
\<close>

definition sleep_out ::
  "nat \<Rightarrow> chan \<Rightarrow> spinlock option \<Rightarrow> 'x kernel_scheme \<Rightarrow> (bool \<times> spinlock option \<times> 'x kernel_scheme) res" where
  "sleep_out me c lk s =
     bindr
       (case lk of
          None \<Rightarrow> Ret (None, s)
        | Some l \<Rightarrow>
            bindr (acquire_ptable s) (\<lambda>s.
            bindr (release l (kcpu (k_kst s))) (\<lambda>(l, cp). Ret (Some l, k_upd_cpu (\<lambda>_. cp) s)))) (\<lambda>(lk, s).
     bindr (sched me (s\<lparr>k_proc := sleep_table me c (k_proc s)\<rparr>)) (\<lambda>(ie, s). Ret (ie, lk, s)))"

definition sleep_back ::
  "nat \<Rightarrow> bool \<Rightarrow> spinlock option \<Rightarrow> 'x kernel_scheme \<Rightarrow> (spinlock option \<times> 'x kernel_scheme) res" where
  "sleep_back me ie lk s =
     (let s = sched_back ie s; s = s\<lparr>k_proc := awake_table me (k_proc s)\<rparr> in
      case lk of
        None \<Rightarrow> Ret (None, s)
      | Some l \<Rightarrow>
          bindr (release_ptable s) (\<lambda>s.
          bindr (acquire l (kcpu (k_kst s))) (\<lambda>(l, cp). Ret (Some l, k_upd_cpu (\<lambda>_. cp) s))))"

text \<open>
  One pass of the scheduler's inner loop, from the slot \<open>p\<close> on: the process to switch to. Its
  return to the loop is \<open>sched_return\<close>.
\<close>

definition scheduler_out :: "nat \<Rightarrow> 'x kernel_scheme \<Rightarrow> (nat option \<times> 'x kernel_scheme) res" where
  "scheduler_out p s =
     (case sched_next p (k_proc s) of
        None \<Rightarrow> bindr (release_ptable s) (\<lambda>s. Ret (None, s))
      | Some q \<Rightarrow>
          bindr (switchuvm q q s) (\<lambda>s. Ret (Some q, s\<lparr>k_proc := set_state RUNNING q (k_proc s)\<rparr>)))"

definition sched_return :: "'x kernel_scheme \<Rightarrow> 'x kernel_scheme" where
  "sched_return s = switchkvm s"

definition forkret :: "'x kernel_scheme \<Rightarrow> 'x kernel_scheme res" where
  "forkret s =
     bindr (release_ptable s) (\<lambda>s.
     if k_first s then
       bindr (iinit ROOTDEV (s\<lparr>k_first := False\<rparr>)) (\<lambda>s.
       bindr (initlog ROOTDEV (f_log s) (f_bio s)) (\<lambda>(lg, t). Ret (s\<lparr>f_log := lg, f_bio := t\<rparr>)))
     else Ret s)"

subsection \<open>Exit and wait\<close>

fun close_files :: "nat \<Rightarrow> nat \<Rightarrow> uint \<Rightarrow> nat \<Rightarrow> 'x kernel_scheme \<Rightarrow> 'x kernel_scheme res" where
  "close_files 0 fd kend me s = Ret s"
| "close_files (Suc k) fd kend me s =
     (case pr_ofile (k_proc s me) ! fd of
        None \<Rightarrow> close_files k (Suc fd) kend me s
      | Some f \<Rightarrow>
          bindr (fileclose kend f s) (\<lambda>s.
          close_files k (Suc fd) kend me (k_upd me (\<lambda>x. x\<lparr>pr_ofile := (pr_ofile x)[fd := None]\<rparr>) s)))"

definition exit :: "link \<Rightarrow> nat \<Rightarrow> 'x kernel_scheme \<Rightarrow> (bool \<times> 'x kernel_scheme) res" where
  "exit ln me s =
     (if Some me = k_initproc s then Panic ''init exiting''
      else bindr (close_files NOFILE 0 (ln_end ln) me s) (\<lambda>s.
        bindr (fs_begin_op s) (\<lambda>s.
        case pr_cwd (k_proc s me) of
          None \<Rightarrow> Fault ''exit: null cwd''
        | Some cwd \<Rightarrow>
            bindr (iput cwd s) (\<lambda>s.
            bindr (fs_end_op s) (\<lambda>s.
            let s = k_upd me (\<lambda>x. x\<lparr>pr_cwd := None\<rparr>) s in
            bindr (acquire_ptable s) (\<lambda>s.
            sched me (s\<lparr>k_proc := exit_table me (k_initproc s) (k_proc s)\<rparr>)))))))"

definition wait :: "link \<Rightarrow> nat \<Rightarrow> 'x kernel_scheme \<Rightarrow> (int \<times> 'x kernel_scheme) res" where
  "wait ln me s =
     bindr (acquire_ptable s) (\<lambda>s.
     case wait_scan NPROC 0 False me (k_proc s) of
       Inl p \<Rightarrow>
         let pid = pr_pid (k_proc s p) in
         bindr (k_kfree (ln_end ln) (pr_kstack (k_proc s p)) s) (\<lambda>s.
         let s = k_upd p (\<lambda>x. x\<lparr>pr_kstack := 0\<rparr>) s in
         bindr (k_vmu (freevm (ln_end ln) (pr_pgdir (k_proc s p))) s) (\<lambda>s.
         bindr (release_ptable (s\<lparr>k_proc := reap p (k_proc s)\<rparr>)) (\<lambda>s. Ret (sint pid, s))))
     | Inr havekids \<Rightarrow>
         if \<not> havekids \<or> pr_killed (k_proc s me) then bindr (release_ptable s) (\<lambda>s. Ret (- 1, s))
         else Sleep (ChanProc me))"

definition k_kill :: "uint \<Rightarrow> 'x kernel_scheme \<Rightarrow> (int \<times> 'x kernel_scheme) res" where
  "k_kill pid s =
     bindr (acquire_ptable s) (\<lambda>s.
     let (r, t) = kill pid (k_proc s) in
     bindr (release_ptable (s\<lparr>k_proc := t\<rparr>)) (\<lambda>s. Ret (r, s)))"

definition k_wakeup :: "chan \<Rightarrow> 'x kernel_scheme \<Rightarrow> 'x kernel_scheme res" where
  "k_wakeup c s =
     bindr (acquire_ptable s) (\<lambda>s. release_ptable (s\<lparr>k_proc := wakeup1 (Some c) (k_proc s)\<rparr>))"

text \<open>What \<open>procdump\<close> prints for each process: number, state, name, and the calls of a sleeper.\<close>

definition state_name :: "procstate \<Rightarrow> string" where
  "state_name st = (case st of UNUSED \<Rightarrow> ''unused'' | EMBRYO \<Rightarrow> ''embryo'' | SLEEPING \<Rightarrow> ''sleep ''
     | RUNNABLE \<Rightarrow> ''runble'' | RUNNING \<Rightarrow> ''run   '' | ZOMBIE \<Rightarrow> ''zombie'')"

definition procdump :: "'x kernel_scheme \<Rightarrow> (uint \<times> string \<times> uchar list \<times> uint list) list" where
  "procdump s =
     map (\<lambda>p. let x = k_proc s p in
        (pr_pid x, state_name (pr_state x), pr_name x,
         if pr_state x = SLEEPING
         then takeWhile (\<lambda>pc. pc \<noteq> 0) (getcallerpcs (k_mem s) (load32 (k_mem s) (pr_context x + ctx_ebp) + 8))
         else []))
       (filter (\<lambda>p. pr_state (k_proc s p) \<noteq> UNUSED) [0..<NPROC])"

end
