(* ===== verification/Sysarg.thy ===== *)
theory Sysarg
  imports Proc
begin

section \<open>System call arguments (syscall.c)\<close>

text \<open>
  Fetching arguments from the memory of the calling process. The kernel reads and writes user memory
  through the page table of the process, so the hardware's address translation is modelled first:
  an access to a page that is not present (for a write: not writable) is a page fault in the kernel,
  a \<open>Fault\<close>. Arguments that are pointers to blocks of memory stay addresses; a string is fetched
  as its bytes.
\<close>

subsection \<open>Address translation\<close>

definition translate :: "mem \<Rightarrow> uint \<Rightarrow> bool \<Rightarrow> uint \<Rightarrow> uint option" where
  "translate m pgdir for_write va =
     (let pde = load32 m (pgdir + 4 * PDX va); need = (if for_write then PTE_P OR PTE_W else PTE_P) in
      if pde AND need \<noteq> need then None
      else let pte = load32 m (p2v (PTE_ADDR pde) + 4 * PTX va) in
        if pte AND need \<noteq> need then None
        else Some (p2v (PTE_ADDR pte) + (va AND 0xFFF)))"

definition uload :: "nat \<Rightarrow> uint \<Rightarrow> 'x kernel_scheme \<Rightarrow> uchar res" where
  "uload me va s =
     (case translate (k_mem s) (pr_pgdir (k_proc s me)) False va of
        None \<Rightarrow> Fault ''page fault in the kernel''
      | Some a \<Rightarrow> Ret (k_mem s a))"

fun uloads :: "nat \<Rightarrow> nat \<Rightarrow> uint \<Rightarrow> 'x kernel_scheme \<Rightarrow> uchar list res" where
  "uloads 0 me va s = Ret []"
| "uloads (Suc n) me va s =
     bindr (uload me va s) (\<lambda>b. bindr (uloads n me (va + 1) s) (\<lambda>bs. Ret (b # bs)))"

definition ustore :: "nat \<Rightarrow> uint \<Rightarrow> uchar \<Rightarrow> 'x kernel_scheme \<Rightarrow> 'x kernel_scheme res" where
  "ustore me va b s =
     (case translate (k_mem s) (pr_pgdir (k_proc s me)) True va of
        None \<Rightarrow> Fault ''page fault in the kernel''
      | Some a \<Rightarrow> Ret (k_upd_mem (\<lambda>m. m(a := b)) s))"

fun ustores :: "uchar list \<Rightarrow> nat \<Rightarrow> uint \<Rightarrow> 'x kernel_scheme \<Rightarrow> 'x kernel_scheme res" where
  "ustores [] me va s = Ret s"
| "ustores (b # bs) me va s = bindr (ustore me va b s) (\<lambda>s. ustores bs me (va + 1) s)"

definition le32 :: "uint \<Rightarrow> uchar list" where
  "le32 v = [ucast v, ucast (drop_bit 8 v), ucast (drop_bit 16 v), ucast (drop_bit 24 v)]"

definition le16 :: "ushort \<Rightarrow> uchar list" where
  "le16 v = [ucast v, ucast (drop_bit 8 v)]"

subsection \<open>Fetching arguments\<close>

text \<open>\<open>None\<close> is the return value -1.\<close>

definition fetchint :: "nat \<Rightarrow> uint \<Rightarrow> 'x kernel_scheme \<Rightarrow> uint option res" where
  "fetchint me addr s =
     (let sz = pr_sz (k_proc s me) in
      if addr \<ge> sz \<or> addr + 4 > sz then Ret None
      else bindr (uloads 4 me addr s) (\<lambda>bs. Ret (Some (get32 bs 0))))"

fun fetchstr_loop :: "nat \<Rightarrow> nat \<Rightarrow> uint \<Rightarrow> 'x kernel_scheme \<Rightarrow> uchar list option res" where
  "fetchstr_loop 0 me a s = Ret None"
| "fetchstr_loop (Suc n) me a s =
     bindr (uload me a s) (\<lambda>c.
     if c = 0 then Ret (Some [])
     else bindr (fetchstr_loop n me (a + 1) s) (\<lambda>r. Ret (map_option (\<lambda>cs. c # cs) r)))"

definition fetchstr :: "nat \<Rightarrow> uint \<Rightarrow> 'x kernel_scheme \<Rightarrow> uchar list option res" where
  "fetchstr me addr s =
     (let sz = pr_sz (k_proc s me) in
      if addr \<ge> sz then Ret None else fetchstr_loop (unat sz - unat addr) me addr s)"

definition argint :: "nat \<Rightarrow> nat \<Rightarrow> 'x kernel_scheme \<Rightarrow> uint option res" where
  "argint me n s = fetchint me (load32 (k_mem s) (pr_tf (k_proc s me) + tf_esp) + 4 + 4 * of_nat n) s"

definition argptr :: "nat \<Rightarrow> nat \<Rightarrow> uint \<Rightarrow> 'x kernel_scheme \<Rightarrow> uint option res" where
  "argptr me n sz s =
     bindr (argint me n s) (\<lambda>r.
     case r of
       None \<Rightarrow> Ret None
     | Some i \<Rightarrow>
         if i \<ge> pr_sz (k_proc s me) \<or> i + sz > pr_sz (k_proc s me) then Ret None else Ret (Some i))"

definition argstr :: "nat \<Rightarrow> nat \<Rightarrow> 'x kernel_scheme \<Rightarrow> uchar list option res" where
  "argstr me n s =
     bindr (argint me n s) (\<lambda>r. case r of None \<Rightarrow> Ret None | Some addr \<Rightarrow> fetchstr me addr s)"

text \<open>A fetch with its test for -1: the call goes on with the value, or else returns \<open>bad\<close>.\<close>

definition need :: "'a option res \<Rightarrow> 'b res \<Rightarrow> ('a \<Rightarrow> 'b res) \<Rightarrow> 'b res" where
  "need m bad f = bindr m (\<lambda>r. case r of None \<Rightarrow> bad | Some x \<Rightarrow> f x)"

end
