(* ===== verification/Exec.thy ===== *)
theory Exec
  imports Sysarg
begin

section \<open>Loading programs (exec.c, loaduvm of vm.c)\<close>

text \<open>
  \<open>exec\<close> with the path and the argument strings as bytes. The ELF headers are read through their
  layouts. \<open>goto bad\<close> is the result \<open>None\<close> of a stage; \<open>exec_bad\<close> is the code at the label.
\<close>

record elfhdr =
  elf_magic :: uint
  elf_entry :: uint
  elf_phoff :: uint
  elf_phnum :: ushort

record proghdr =
  ph_type :: uint
  ph_off :: uint
  ph_vaddr :: uint
  ph_filesz :: uint
  ph_memsz :: uint

definition get_elfhdr :: "uchar list \<Rightarrow> elfhdr" where
  "get_elfhdr bs = \<lparr>elf_magic = get32 bs 0, elf_entry = get32 bs 24, elf_phoff = get32 bs 28, elf_phnum = get16 bs 44\<rparr>"

definition get_proghdr :: "uchar list \<Rightarrow> proghdr" where
  "get_proghdr bs = \<lparr>ph_type = get32 bs 0, ph_off = get32 bs 4, ph_vaddr = get32 bs 8, ph_filesz = get32 bs 16,
     ph_memsz = get32 bs 20\<rparr>"

text \<open>\<open>loaduvm\<close>: \<open>k\<close> pages from \<open>addr + i\<close> on are still to be loaded.\<close>

fun loaduvm_loop ::
  "nat \<Rightarrow> uint \<Rightarrow> 'x kernel_scheme devsw \<Rightarrow> uint \<Rightarrow> uint \<Rightarrow> nat \<Rightarrow> uint \<Rightarrow> uint \<Rightarrow> 'x kernel_scheme \<Rightarrow> (int \<times> 'x kernel_scheme) res" where
  "loaduvm_loop 0 i dv pgdir addr ip offset sz s = Ret (0, s)"
| "loaduvm_loop (Suc k) i dv pgdir addr ip offset sz s =
     bindr (k_vm (walkpgdir pgdir (addr + i) False) s) (\<lambda>(pte, s).
     if pte = 0 then Panic ''loaduvm: address should exist''
     else let pa = PTE_ADDR (load32 (k_mem s) pte); n = (if sz - i < 4096 then sz - i else 4096) in
       bindr (readi dv ip (offset + i) n s) (\<lambda>((r, bytes), s).
       let s = k_upd_mem (pokes (p2v pa) bytes) s in
       if word_of_int r \<noteq> n then Ret (- 1, s)
       else loaduvm_loop k (i + 4096) dv pgdir addr ip offset sz s))"

definition loaduvm ::
  "'x kernel_scheme devsw \<Rightarrow> uint \<Rightarrow> uint \<Rightarrow> nat \<Rightarrow> uint \<Rightarrow> uint \<Rightarrow> 'x kernel_scheme \<Rightarrow> (int \<times> 'x kernel_scheme) res" where
  "loaduvm dv pgdir addr ip offset sz s =
     (if addr mod 4096 \<noteq> 0 then Panic ''loaduvm: addr must be page aligned''
      else loaduvm_loop ((unat sz + 4095) div 4096) 0 dv pgdir addr ip offset sz s)"

definition exec_bad :: "link \<Rightarrow> uint \<Rightarrow> nat option \<Rightarrow> 'x kernel_scheme \<Rightarrow> (int \<times> 'x kernel_scheme) res" where
  "exec_bad ln pgdir ip s =
     bindr (if pgdir \<noteq> 0 then k_vmu (freevm (ln_end ln) pgdir) s else Ret s) (\<lambda>s.
     bindr (case ip of Some i \<Rightarrow> bindr (iunlockput i s) (\<lambda>s. fs_end_op s) | None \<Rightarrow> Ret s) (\<lambda>s. Ret (- 1, s)))"

fun exec_load ::
  "nat \<Rightarrow> uint \<Rightarrow> link \<Rightarrow> 'x kernel_scheme devsw \<Rightarrow> uint \<Rightarrow> nat \<Rightarrow> uint \<Rightarrow> 'x kernel_scheme \<Rightarrow> (uint option \<times> 'x kernel_scheme) res" where
  "exec_load 0 off ln dv pgdir ip sz s = Ret (Some sz, s)"
| "exec_load (Suc k) off ln dv pgdir ip sz s =
     bindr (readi dv ip off 32 s) (\<lambda>((r, bytes), s).
     if r \<noteq> 32 then Ret (None, s)
     else let ph = get_proghdr bytes in
       if ph_type ph \<noteq> 1 then exec_load k (off + 32) ln dv pgdir ip sz s
       else if ph_memsz ph < ph_filesz ph then Ret (None, s)
       else bindr (k_vm (allocuvm (ln_end ln) pgdir sz (ph_vaddr ph + ph_memsz ph)) s) (\<lambda>(sz, s).
         if sz = 0 then Ret (None, s)
         else bindr (loaduvm dv pgdir (ph_vaddr ph) ip (ph_off ph) (ph_filesz ph) s) (\<lambda>(r, s).
           if r < 0 then Ret (None, s) else exec_load k (off + 32) ln dv pgdir ip sz s)))"

abbreviation (input) MAXARG :: nat where "MAXARG \<equiv> 32"

text \<open>The argument strings: the stack pointer after them and their addresses.\<close>

fun exec_args ::
  "uchar list list \<Rightarrow> nat \<Rightarrow> uint \<Rightarrow> uint list \<Rightarrow> uint \<Rightarrow> 'x kernel_scheme \<Rightarrow> ((uint \<times> uint list) option \<times> 'x kernel_scheme) res" where
  "exec_args [] argc sp addrs pgdir s = Ret (Some (sp, addrs), s)"
| "exec_args (a # argv) argc sp addrs pgdir s =
     (if argc \<ge> MAXARG then Ret (None, s)
      else let sp = (sp - (of_nat (length a) + 1)) AND NOT 3 in
        bindr (k_vm (copyout pgdir sp (a @ [0])) s) (\<lambda>(r, s).
        if r < 0 then Ret (None, s) else exec_args argv (Suc argc) sp (addrs @ [sp]) pgdir s))"

definition last_elem :: "uchar list \<Rightarrow> uchar list" where
  "last_elem pth = rev (takeWhile (\<lambda>c. c \<noteq> slash) (rev pth))"

text \<open>The part of \<open>exec\<close> after the program has been loaded; the inode is released before it.\<close>

definition exec_image ::
  "link \<Rightarrow> nat \<Rightarrow> uchar list \<Rightarrow> uchar list list \<Rightarrow> elfhdr \<Rightarrow> uint \<Rightarrow> uint \<Rightarrow> 'x kernel_scheme \<Rightarrow> (int \<times> 'x kernel_scheme) res" where
  "exec_image ln me pth argv elf pgdir sz s =
     (let sz = PGROUNDUP sz in
      bindr (k_vm (allocuvm (ln_end ln) pgdir sz (sz + 2 * 4096)) s) (\<lambda>(sz, s).
      if sz = 0 then exec_bad ln pgdir None s
      else bindr (k_vmu (clearpteu pgdir (sz - 2 * 4096)) s) (\<lambda>s.
        bindr (exec_args argv 0 sz [] pgdir s) (\<lambda>(r, s).
        case r of
          None \<Rightarrow> exec_bad ln pgdir None s
        | Some (sp, addrs) \<Rightarrow>
            let argc = of_nat (length argv);
                ustack = [0xffffffff, argc, sp - (argc + 1) * 4] @ addrs @ [0];
                sp = sp - (3 + argc + 1) * 4 in
            bindr (k_vm (copyout pgdir sp (concat (map le32 ustack))) s) (\<lambda>(r, s).
            if r < 0 then exec_bad ln pgdir None s
            else let s = k_upd me (\<lambda>x. x\<lparr>pr_name := set_name (last_elem pth) (pr_name x)\<rparr>) s;
                     oldpgdir = pr_pgdir (k_proc s me);
                     s = k_upd me (\<lambda>x. x\<lparr>pr_pgdir := pgdir, pr_sz := sz\<rparr>) s;
                     s = k_upd_mem (\<lambda>m. store32 m (pr_tf (k_proc s me) + tf_eip) (elf_entry elf)) s;
                     s = k_upd_mem (\<lambda>m. store32 m (pr_tf (k_proc s me) + tf_esp) sp) s in
              bindr (switchuvm me me s) (\<lambda>s.
              bindr (k_vmu (freevm (ln_end ln) oldpgdir) s) (\<lambda>s. Ret (0, s))))))))"

definition k_namei :: "'x kernel_scheme devsw \<Rightarrow> nat \<Rightarrow> uchar list \<Rightarrow> 'x kernel_scheme \<Rightarrow> (nat option \<times> 'x kernel_scheme) res" where
  "k_namei dv me pth s =
     (case pr_cwd (k_proc s me) of
        Some cwd \<Rightarrow> namei dv cwd pth s
      | None \<Rightarrow> if hd0 pth = slash then namei dv 0 pth s else Fault ''namex: null cwd'')"

text \<open>
  The size returned by \<open>readi\<close> for the ELF header is compared as unsigned, so the value -1 passes
  the test and the header is used uninitialised.
\<close>

definition exec ::
  "link \<Rightarrow> 'x kernel_scheme devsw \<Rightarrow> nat \<Rightarrow> uchar list \<Rightarrow> uchar list list \<Rightarrow> 'x kernel_scheme \<Rightarrow> (int \<times> 'x kernel_scheme) res" where
  "exec ln dv me pth argv s =
     bindr (fs_begin_op s) (\<lambda>s.
     bindr (k_namei dv me pth s) (\<lambda>(ip, s).
     case ip of
       None \<Rightarrow> bindr (fs_end_op s) (\<lambda>s. Ret (- 1, s))
     | Some ip \<Rightarrow>
         bindr (ilock (Some ip) s) (\<lambda>s.
         bindr (readi dv ip 0 52 s) (\<lambda>((r, bytes), s).
         if (word_of_int r :: uint) < 52 then exec_bad ln 0 (Some ip) s
         else if length bytes < 52 then Fault ''exec: uninitialised elf header''
         else let elf = get_elfhdr bytes in
           if elf_magic elf \<noteq> 0x464C457F then exec_bad ln 0 (Some ip) s
           else bindr (k_vm (setupkvm (ln_data ln)) s) (\<lambda>(pgdir, s).
             if pgdir = 0 then exec_bad ln 0 (Some ip) s
             else bindr (exec_load (unat (elf_phnum elf)) (elf_phoff elf) ln dv pgdir ip 0 s) (\<lambda>(r, s).
               case r of
                 None \<Rightarrow> exec_bad ln pgdir (Some ip) s
               | Some sz \<Rightarrow>
                   bindr (iunlockput ip s) (\<lambda>s.
                   bindr (fs_end_op s) (\<lambda>s. exec_image ln me pth argv elf pgdir sz s))))))))"

end
