(* ===== verification/Sysfile.thy ===== *)
theory Sysfile
  imports Exec
begin

section \<open>System calls (sysfile.c, sysproc.c, syscall.c)\<close>

text \<open>
  The system calls and their dispatch. A call returns an int (\<open>SRet\<close>), or the process leaves for
  good in \<open>exit\<close> (\<open>SExit\<close>), or it blocks in \<open>pipewrite\<close> with bytes still to be written (\<open>SWrite\<close>);
  every other place where a call has to wait is the outcome \<open>Sleep\<close>.
\<close>

datatype sysout = SRet int | SExit | SWrite "uchar list"

subsection \<open>File descriptors\<close>

definition argfd :: "nat \<Rightarrow> nat \<Rightarrow> 'x kernel_scheme \<Rightarrow> (nat \<times> nat) option res" where
  "argfd me n s =
     need (argint me n s) (Ret None) (\<lambda>fd.
     if sint fd < 0 \<or> sint fd \<ge> int NOFILE then Ret None
     else Ret (map_option (\<lambda>f. (unat fd, f)) (pr_ofile (k_proc s me) ! unat fd)))"

definition fdalloc :: "nat \<Rightarrow> nat \<Rightarrow> 'x kernel_scheme \<Rightarrow> int \<times> 'x kernel_scheme" where
  "fdalloc me f s =
     (case find (\<lambda>fd. pr_ofile (k_proc s me) ! fd = None) [0..<NOFILE] of
        Some fd \<Rightarrow> (int fd, k_upd me (\<lambda>x. x\<lparr>pr_ofile := (pr_ofile x)[fd := Some f]\<rparr>) s)
      | None \<Rightarrow> (- 1, s))"

abbreviation (input) sfail :: "'x kernel_scheme \<Rightarrow> (sysout \<times> 'x kernel_scheme) res" where
  "sfail s \<equiv> Ret (SRet (- 1), s)"

definition sys_dup :: "nat \<Rightarrow> 'x kernel_scheme \<Rightarrow> (sysout \<times> 'x kernel_scheme) res" where
  "sys_dup me s =
     need (argfd me 0 s) (sfail s) (\<lambda>(_, f).
     let (fd, s) = fdalloc me f s in
     if fd < 0 then sfail s
     else bindr (filedup f s) (\<lambda>(_, s). Ret (SRet fd, s)))"

definition sys_read :: "'x kernel_scheme devsw \<Rightarrow> nat \<Rightarrow> 'x kernel_scheme \<Rightarrow> (sysout \<times> 'x kernel_scheme) res" where
  "sys_read dv me s =
     need (argfd me 0 s) (sfail s) (\<lambda>(_, f).
     need (argint me 2 s) (sfail s) (\<lambda>n.
     need (argptr me 1 n s) (sfail s) (\<lambda>p.
     bindr (fileread dv (pr_killed (k_proc s me)) f (sint n) s) (\<lambda>((r, bytes), s).
     bindr (ustores bytes me p s) (\<lambda>s. Ret (SRet r, s))))))"

definition sys_write :: "'x kernel_scheme devsw \<Rightarrow> nat \<Rightarrow> 'x kernel_scheme \<Rightarrow> (sysout \<times> 'x kernel_scheme) res" where
  "sys_write dv me s =
     need (argfd me 0 s) (sfail s) (\<lambda>(_, f).
     need (argint me 2 s) (sfail s) (\<lambda>n.
     need (argptr me 1 n s) (sfail s) (\<lambda>p.
     bindr (uloads (nat (sint n)) me p s) (\<lambda>addr.
     bindr (filewrite dv (pr_killed (k_proc s me)) f addr (sint n) s) (\<lambda>(out, s).
     Ret (case out of PwReturn r \<Rightarrow> SRet r | PwSleep rest \<Rightarrow> SWrite rest, s))))))"

definition sys_close :: "link \<Rightarrow> nat \<Rightarrow> 'x kernel_scheme \<Rightarrow> (sysout \<times> 'x kernel_scheme) res" where
  "sys_close ln me s =
     need (argfd me 0 s) (sfail s) (\<lambda>(fd, f).
     let s = k_upd me (\<lambda>x. x\<lparr>pr_ofile := (pr_ofile x)[fd := None]\<rparr>) s in
     bindr (fileclose (ln_end ln) f s) (\<lambda>s. Ret (SRet 0, s)))"

definition put_stat :: "stat \<Rightarrow> nat \<Rightarrow> uint \<Rightarrow> 'x kernel_scheme \<Rightarrow> 'x kernel_scheme res" where
  "put_stat st me p s =
     bindr (ustores (le16 (st_type st)) me p s) (\<lambda>s.
     bindr (ustores (le32 (st_dev st) @ le32 (st_ino st) @ le16 (st_nlink st)) me (p + 4) s) (\<lambda>s.
     ustores (le32 (st_size st)) me (p + 16) s))"

definition sys_fstat :: "nat \<Rightarrow> 'x kernel_scheme \<Rightarrow> (sysout \<times> 'x kernel_scheme) res" where
  "sys_fstat me s =
     need (argfd me 0 s) (sfail s) (\<lambda>(_, f).
     need (argptr me 1 20 s) (sfail s) (\<lambda>p.
     bindr (filestat f s) (\<lambda>(st, s).
     case st of
       None \<Rightarrow> sfail s
     | Some st \<Rightarrow> bindr (put_stat st me p s) (\<lambda>s. Ret (SRet 0, s)))))"

subsection \<open>Links and directories\<close>

definition k_nameiparent ::
  "'x kernel_scheme devsw \<Rightarrow> nat \<Rightarrow> uchar list \<Rightarrow> 'x kernel_scheme \<Rightarrow> ((nat option \<times> uchar list) \<times> 'x kernel_scheme) res" where
  "k_nameiparent dv me pth s =
     (case pr_cwd (k_proc s me) of
        Some cwd \<Rightarrow> nameiparent dv cwd pth (replicate DIRSIZ 0) s
      | None \<Rightarrow> if hd0 pth = slash then nameiparent dv 0 pth (replicate DIRSIZ 0) s else Fault ''namex: null cwd'')"

definition fail_op :: "'x kernel_scheme \<Rightarrow> (sysout \<times> 'x kernel_scheme) res" where
  "fail_op s = bindr (fs_end_op s) (\<lambda>s. sfail s)"

definition add_nlink :: "ushort \<Rightarrow> nat \<Rightarrow> 'x kernel_scheme \<Rightarrow> 'x kernel_scheme res" where
  "add_nlink d ip s = iupdate ip (upd_inode ip (\<lambda>x. x\<lparr>i_nlink := i_nlink x + d\<rparr>) s)"

definition sys_link_bad :: "nat \<Rightarrow> 'x kernel_scheme \<Rightarrow> (sysout \<times> 'x kernel_scheme) res" where
  "sys_link_bad ip s =
     bindr (ilock (Some ip) s) (\<lambda>s.
     bindr (add_nlink (- 1) ip s) (\<lambda>s.
     bindr (iunlockput ip s) (\<lambda>s. fail_op s)))"

definition sys_link :: "'x kernel_scheme devsw \<Rightarrow> nat \<Rightarrow> 'x kernel_scheme \<Rightarrow> (sysout \<times> 'x kernel_scheme) res" where
  "sys_link dv me s =
     need (argstr me 0 s) (sfail s) (\<lambda>old.
     need (argstr me 1 s) (sfail s) (\<lambda>new.
     bindr (fs_begin_op s) (\<lambda>s.
     bindr (k_namei dv me old s) (\<lambda>(ip, s).
     case ip of
       None \<Rightarrow> fail_op s
     | Some ip \<Rightarrow>
         bindr (ilock (Some ip) s) (\<lambda>s.
         if i_type (f_inode s ip) = T_DIR then bindr (iunlockput ip s) (\<lambda>s. fail_op s)
         else bindr (add_nlink 1 ip s) (\<lambda>s.
           bindr (iunlock (Some ip) s) (\<lambda>s.
           bindr (k_nameiparent dv me new s) (\<lambda>((dp, name), s).
           case dp of
             None \<Rightarrow> sys_link_bad ip s
           | Some dp \<Rightarrow>
               bindr (ilock (Some dp) s) (\<lambda>s.
               bindr
                 (if i_dev (f_inode s dp) \<noteq> i_dev (f_inode s ip) then Ret (- 1, s)
                  else dirlink dv dp name (i_inum (f_inode s ip)) s) (\<lambda>(r, s).
               bindr (iunlockput dp s) (\<lambda>s.
               if r < 0 then sys_link_bad ip s
               else bindr (iput ip s) (\<lambda>s. bindr (fs_end_op s) (\<lambda>s. Ret (SRet 0, s))))))))))))))"

fun isdirempty_loop :: "nat \<Rightarrow> uint \<Rightarrow> 'x kernel_scheme devsw \<Rightarrow> nat \<Rightarrow> 'x kernel_scheme \<Rightarrow> (bool \<times> 'x kernel_scheme) res" where
  "isdirempty_loop 0 off dv dp s = Ret (True, s)"
| "isdirempty_loop (Suc k) off dv dp s =
     bindr (readi dv dp off 16 s) (\<lambda>((r, bytes), s).
     if r \<noteq> 16 then Panic ''isdirempty: readi''
     else if de_inum (get_dirent bytes) \<noteq> 0 then Ret (False, s)
     else isdirempty_loop k (off + 16) dv dp s)"

definition isdirempty :: "'x kernel_scheme devsw \<Rightarrow> nat \<Rightarrow> 'x kernel_scheme \<Rightarrow> (bool \<times> 'x kernel_scheme) res" where
  "isdirempty dv dp s = isdirempty_loop (nents (i_size (f_inode s dp)) - 2) 32 dv dp s"

abbreviation (input) dot :: "uchar list" where "dot \<equiv> [46]"
abbreviation (input) dotdot :: "uchar list" where "dotdot \<equiv> [46, 46]"

definition sys_unlink_bad :: "nat \<Rightarrow> 'x kernel_scheme \<Rightarrow> (sysout \<times> 'x kernel_scheme) res" where
  "sys_unlink_bad dp s = bindr (iunlockput dp s) (\<lambda>s. fail_op s)"

text \<open>The part of \<open>sys_unlink\<close> once the entry has been found at \<open>off\<close> and its inode locked.\<close>

definition unlink_entry ::
  "'x kernel_scheme devsw \<Rightarrow> nat \<Rightarrow> nat \<Rightarrow> uint \<Rightarrow> 'x kernel_scheme \<Rightarrow> (sysout \<times> 'x kernel_scheme) res" where
  "unlink_entry dv dp ip off s =
     bindr (writei dv dp (replicate 16 0) off 16 s) (\<lambda>(r, s).
     if r \<noteq> 16 then Panic ''unlink: writei''
     else bindr (if i_type (f_inode s ip) = T_DIR then add_nlink (- 1) dp s else Ret s) (\<lambda>s.
       bindr (iunlockput dp s) (\<lambda>s.
       bindr (add_nlink (- 1) ip s) (\<lambda>s.
       bindr (iunlockput ip s) (\<lambda>s.
       bindr (fs_end_op s) (\<lambda>s. Ret (SRet 0, s)))))))"

definition sys_unlink :: "'x kernel_scheme devsw \<Rightarrow> nat \<Rightarrow> 'x kernel_scheme \<Rightarrow> (sysout \<times> 'x kernel_scheme) res" where
  "sys_unlink dv me s =
     need (argstr me 0 s) (sfail s) (\<lambda>pth.
     bindr (fs_begin_op s) (\<lambda>s.
     bindr (k_nameiparent dv me pth s) (\<lambda>((dp, name), s).
     case dp of
       None \<Rightarrow> fail_op s
     | Some dp \<Rightarrow>
         bindr (ilock (Some dp) s) (\<lambda>s.
         if namecmp name dot = 0 \<or> namecmp name dotdot = 0 then sys_unlink_bad dp s
         else bindr (dirlookup dv dp name s) (\<lambda>(found, s).
           case found of
             None \<Rightarrow> sys_unlink_bad dp s
           | Some (ip, off) \<Rightarrow>
               bindr (ilock (Some ip) s) (\<lambda>s.
               if sint (i_nlink (f_inode s ip)) < 1 then Panic ''unlink: nlink < 1''
               else bindr (if i_type (f_inode s ip) = T_DIR then isdirempty dv ip s else Ret (True, s)) (\<lambda>(empt, s).
                 if \<not> empt then bindr (iunlockput ip s) (\<lambda>s. sys_unlink_bad dp s)
                 else unlink_entry dv dp ip off s)))))))"

text \<open>
  \<open>create\<close>: the new inode with its entries. \<open>dirlink\<close> returns -1 or 0, and \<open>||\<close> tests the first
  call before it makes the second.
\<close>

definition create_new ::
  "'x kernel_scheme devsw \<Rightarrow> nat \<Rightarrow> uchar list \<Rightarrow> ushort \<Rightarrow> ushort \<Rightarrow> ushort \<Rightarrow> 'x kernel_scheme \<Rightarrow> (nat option \<times> 'x kernel_scheme) res" where
  "create_new dv dp name ty major minor s =
     bindr (ialloc (i_dev (f_inode s dp)) ty s) (\<lambda>(ip, s).
     bindr (ilock (Some ip) s) (\<lambda>s.
     let s = upd_inode ip (\<lambda>x. x\<lparr>i_major := major, i_minor := minor, i_nlink := 1\<rparr>) s in
     bindr (iupdate ip s) (\<lambda>s.
     bindr
       (if ty = T_DIR then
          bindr (add_nlink 1 dp s) (\<lambda>s.
          bindr (dirlink dv ip dot (i_inum (f_inode s ip)) s) (\<lambda>(r, s).
          if r < 0 then Panic ''create dots''
          else bindr (dirlink dv ip dotdot (i_inum (f_inode s dp)) s) (\<lambda>(r, s).
            if r < 0 then Panic ''create dots'' else Ret s)))
        else Ret s) (\<lambda>s.
     bindr (dirlink dv dp name (i_inum (f_inode s ip)) s) (\<lambda>(r, s).
     if r < 0 then Panic ''create: dirlink''
     else bindr (iunlockput dp s) (\<lambda>s. Ret (Some ip, s)))))))"

definition create ::
  "'x kernel_scheme devsw \<Rightarrow> nat \<Rightarrow> uchar list \<Rightarrow> ushort \<Rightarrow> ushort \<Rightarrow> ushort \<Rightarrow> 'x kernel_scheme \<Rightarrow> (nat option \<times> 'x kernel_scheme) res" where
  "create dv me pth ty major minor s =
     bindr (k_nameiparent dv me pth s) (\<lambda>((dp, name), s).
     case dp of
       None \<Rightarrow> Ret (None, s)
     | Some dp \<Rightarrow>
         bindr (ilock (Some dp) s) (\<lambda>s.
         bindr (dirlookup dv dp name s) (\<lambda>(found, s).
         case found of
           Some (ip, _) \<Rightarrow>
             bindr (iunlockput dp s) (\<lambda>s.
             bindr (ilock (Some ip) s) (\<lambda>s.
             if ty = T_FILE \<and> i_type (f_inode s ip) = T_FILE then Ret (Some ip, s)
             else bindr (iunlockput ip s) (\<lambda>s. Ret (None, s))))
         | None \<Rightarrow> create_new dv dp name ty major minor s)))"

abbreviation (input) O_RDONLY :: uint where "O_RDONLY \<equiv> 0x000"
abbreviation (input) O_WRONLY :: uint where "O_WRONLY \<equiv> 0x001"
abbreviation (input) O_RDWR :: uint where "O_RDWR \<equiv> 0x002"
abbreviation (input) O_CREATE :: uint where "O_CREATE \<equiv> 0x200"

text \<open>The inode \<open>sys_open\<close> opens, locked; \<open>None\<close> when the call fails.\<close>

definition open_inode ::
  "'x kernel_scheme devsw \<Rightarrow> nat \<Rightarrow> uchar list \<Rightarrow> uint \<Rightarrow> 'x kernel_scheme \<Rightarrow> (nat option \<times> 'x kernel_scheme) res" where
  "open_inode dv me pth omode s =
     (if omode AND O_CREATE \<noteq> 0 then create dv me pth T_FILE 0 0 s
      else bindr (k_namei dv me pth s) (\<lambda>(ip, s).
        case ip of
          None \<Rightarrow> Ret (None, s)
        | Some ip \<Rightarrow>
            bindr (ilock (Some ip) s) (\<lambda>s.
            if i_type (f_inode s ip) = T_DIR \<and> omode \<noteq> O_RDONLY
            then bindr (iunlockput ip s) (\<lambda>s. Ret (None, s))
            else Ret (Some ip, s))))"

definition sys_open :: "link \<Rightarrow> 'x kernel_scheme devsw \<Rightarrow> nat \<Rightarrow> 'x kernel_scheme \<Rightarrow> (sysout \<times> 'x kernel_scheme) res" where
  "sys_open ln dv me s =
     need (argstr me 0 s) (sfail s) (\<lambda>pth.
     need (argint me 1 s) (sfail s) (\<lambda>omode.
     bindr (fs_begin_op s) (\<lambda>s.
     bindr (open_inode dv me pth omode s) (\<lambda>(ip, s).
     case ip of
       None \<Rightarrow> fail_op s
     | Some ip \<Rightarrow>
         (case filealloc s of
            (None, s) \<Rightarrow> bindr (iunlockput ip s) (\<lambda>s. fail_op s)
          | (Some f, s) \<Rightarrow>
              let (fd, s) = fdalloc me f s in
              if fd < 0 then
                bindr (fileclose (ln_end ln) f s) (\<lambda>s.
                bindr (iunlockput ip s) (\<lambda>s. fail_op s))
              else
                bindr (iunlock (Some ip) s) (\<lambda>s.
                bindr (fs_end_op s) (\<lambda>s.
                Ret (SRet fd, upd_file f (\<lambda>x. x\<lparr>fl_type := FD_INODE, fl_ip := ip, fl_off := 0,
                  fl_readable := (omode AND O_WRONLY = 0),
                  fl_writable := (omode AND O_WRONLY \<noteq> 0 \<or> omode AND O_RDWR \<noteq> 0)\<rparr>) s))))))))"

definition sys_mkdir :: "'x kernel_scheme devsw \<Rightarrow> nat \<Rightarrow> 'x kernel_scheme \<Rightarrow> (sysout \<times> 'x kernel_scheme) res" where
  "sys_mkdir dv me s =
     bindr (fs_begin_op s) (\<lambda>s.
     need (argstr me 0 s) (fail_op s) (\<lambda>pth.
     bindr (create dv me pth T_DIR 0 0 s) (\<lambda>(ip, s).
     case ip of
       None \<Rightarrow> fail_op s
     | Some ip \<Rightarrow> bindr (iunlockput ip s) (\<lambda>s. bindr (fs_end_op s) (\<lambda>s. Ret (SRet 0, s))))))"

definition sys_mknod :: "'x kernel_scheme devsw \<Rightarrow> nat \<Rightarrow> 'x kernel_scheme \<Rightarrow> (sysout \<times> 'x kernel_scheme) res" where
  "sys_mknod dv me s =
     bindr (fs_begin_op s) (\<lambda>s.
     need (argstr me 0 s) (fail_op s) (\<lambda>pth.
     need (argint me 1 s) (fail_op s) (\<lambda>major.
     need (argint me 2 s) (fail_op s) (\<lambda>minor.
     bindr (create dv me pth T_DEV (ucast major) (ucast minor) s) (\<lambda>(ip, s).
     case ip of
       None \<Rightarrow> fail_op s
     | Some ip \<Rightarrow> bindr (iunlockput ip s) (\<lambda>s. bindr (fs_end_op s) (\<lambda>s. Ret (SRet 0, s))))))))"

definition sys_chdir :: "'x kernel_scheme devsw \<Rightarrow> nat \<Rightarrow> 'x kernel_scheme \<Rightarrow> (sysout \<times> 'x kernel_scheme) res" where
  "sys_chdir dv me s =
     bindr (fs_begin_op s) (\<lambda>s.
     need (argstr me 0 s) (fail_op s) (\<lambda>pth.
     bindr (k_namei dv me pth s) (\<lambda>(ip, s).
     case ip of
       None \<Rightarrow> fail_op s
     | Some ip \<Rightarrow>
         bindr (ilock (Some ip) s) (\<lambda>s.
         if i_type (f_inode s ip) \<noteq> T_DIR then bindr (iunlockput ip s) (\<lambda>s. fail_op s)
         else bindr (iunlock (Some ip) s) (\<lambda>s.
           case pr_cwd (k_proc s me) of
             None \<Rightarrow> Fault ''iput: null inode''
           | Some cwd \<Rightarrow>
               bindr (iput cwd s) (\<lambda>s.
               bindr (fs_end_op s) (\<lambda>s.
               Ret (SRet 0, k_upd me (\<lambda>x. x\<lparr>pr_cwd := Some ip\<rparr>) s))))))))"

text \<open>The argument strings of \<open>sys_exec\<close>: \<open>None\<close> when a fetch fails or no null pointer comes.\<close>

fun fetch_argv :: "nat \<Rightarrow> nat \<Rightarrow> uint \<Rightarrow> 'x kernel_scheme \<Rightarrow> uchar list list option res" where
  "fetch_argv 0 me uargv s = Ret None"
| "fetch_argv (Suc k) me uargv s =
     need (fetchint me uargv s) (Ret None) (\<lambda>uarg.
     if uarg = 0 then Ret (Some [])
     else need (fetchstr me uarg s) (Ret None) (\<lambda>a.
       bindr (fetch_argv k me (uargv + 4) s) (\<lambda>r. Ret (map_option (\<lambda>as. a # as) r))))"

definition sys_exec :: "link \<Rightarrow> 'x kernel_scheme devsw \<Rightarrow> nat \<Rightarrow> 'x kernel_scheme \<Rightarrow> (sysout \<times> 'x kernel_scheme) res" where
  "sys_exec ln dv me s =
     need (argstr me 0 s) (sfail s) (\<lambda>pth.
     need (argint me 1 s) (sfail s) (\<lambda>uargv.
     need (fetch_argv MAXARG me uargv s) (sfail s) (\<lambda>argv.
     bindr (exec ln dv me pth argv s) (\<lambda>(r, s). Ret (SRet r, s)))))"

definition sys_pipe :: "link \<Rightarrow> nat \<Rightarrow> 'x kernel_scheme \<Rightarrow> (sysout \<times> 'x kernel_scheme) res" where
  "sys_pipe ln me s =
     need (argptr me 0 8 s) (sfail s) (\<lambda>fd.
     bindr (pipealloc (ln_end ln) s) (\<lambda>(r, s).
     case r of
       None \<Rightarrow> sfail s
     | Some (rfile, wfile) \<Rightarrow>
         let (fd0, s) = fdalloc me rfile s;
             (fd1, s) = (if fd0 < 0 then (- 1, s) else fdalloc me wfile s) in
         if fd0 < 0 \<or> fd1 < 0 then
           let s = (if fd0 \<ge> 0 then k_upd me (\<lambda>x. x\<lparr>pr_ofile := (pr_ofile x)[nat fd0 := None]\<rparr>) s else s) in
           bindr (fileclose (ln_end ln) rfile s) (\<lambda>s.
           bindr (fileclose (ln_end ln) wfile s) (\<lambda>s. sfail s))
         else
           bindr (ustores (le32 (word_of_int fd0) @ le32 (word_of_int fd1)) me fd s) (\<lambda>s. Ret (SRet 0, s))))"

subsection \<open>Processes (sysproc.c)\<close>

definition sys_fork :: "link \<Rightarrow> nat \<Rightarrow> 'x kernel_scheme \<Rightarrow> (sysout \<times> 'x kernel_scheme) res" where
  "sys_fork ln me s = bindr (fork ln me s) (\<lambda>(r, s). Ret (SRet r, s))"

definition sys_exit :: "link \<Rightarrow> nat \<Rightarrow> 'x kernel_scheme \<Rightarrow> (sysout \<times> 'x kernel_scheme) res" where
  "sys_exit ln me s = bindr (exit ln me s) (\<lambda>(_, s). Ret (SExit, s))"

definition sys_wait :: "link \<Rightarrow> nat \<Rightarrow> 'x kernel_scheme \<Rightarrow> (sysout \<times> 'x kernel_scheme) res" where
  "sys_wait ln me s = bindr (wait ln me s) (\<lambda>(r, s). Ret (SRet r, s))"

definition sys_kill :: "nat \<Rightarrow> 'x kernel_scheme \<Rightarrow> (sysout \<times> 'x kernel_scheme) res" where
  "sys_kill me s =
     need (argint me 0 s) (sfail s) (\<lambda>pid. bindr (k_kill pid s) (\<lambda>(r, s). Ret (SRet r, s)))"

definition sys_getpid :: "nat \<Rightarrow> 'x kernel_scheme \<Rightarrow> (sysout \<times> 'x kernel_scheme) res" where
  "sys_getpid me s = Ret (SRet (sint (pr_pid (k_proc s me))), s)"

definition sys_sbrk :: "link \<Rightarrow> nat \<Rightarrow> 'x kernel_scheme \<Rightarrow> (sysout \<times> 'x kernel_scheme) res" where
  "sys_sbrk ln me s =
     need (argint me 0 s) (sfail s) (\<lambda>n.
     let addr = sint (pr_sz (k_proc s me)) in
     bindr (growproc ln me (sint n) s) (\<lambda>(r, s). if r < 0 then sfail s else Ret (SRet addr, s)))"

text \<open>
  One round of the loop of \<open>sys_sleep\<close>; the comparison is unsigned. The call starts with
  \<open>ticks0\<close> equal to \<open>ticks\<close> and makes a round after each wake-up.
\<close>

definition sleep_round :: "uint \<Rightarrow> uint \<Rightarrow> bool \<Rightarrow> uint \<Rightarrow> int res" where
  "sleep_round ticks0 n killed ticks =
     (if ticks - ticks0 < n then if killed then Ret (- 1) else Sleep ChanTicks else Ret 0)"

definition sys_sleep :: "nat \<Rightarrow> 'x kernel_scheme \<Rightarrow> (sysout \<times> 'x kernel_scheme) res" where
  "sys_sleep me s =
     need (argint me 0 s) (sfail s) (\<lambda>n.
     bindr (sleep_round (k_ticks s) n (pr_killed (k_proc s me)) (k_ticks s)) (\<lambda>r. Ret (SRet r, s)))"

definition sys_uptime :: "'x kernel_scheme \<Rightarrow> (sysout \<times> 'x kernel_scheme) res" where
  "sys_uptime s = Ret (SRet (sint (k_ticks s)), s)"

subsection \<open>Dispatch (syscall.c)\<close>

definition syscalls ::
  "link \<Rightarrow> 'x kernel_scheme devsw \<Rightarrow> nat \<Rightarrow> int \<Rightarrow> ('x kernel_scheme \<Rightarrow> (sysout \<times> 'x kernel_scheme) res) option" where
  "syscalls ln dv me num = map_of
     [(1, sys_fork ln me), (2, sys_exit ln me), (3, sys_wait ln me), (4, sys_pipe ln me), (5, sys_read dv me),
      (6, sys_kill me), (7, sys_exec ln dv me), (8, sys_fstat me), (9, sys_chdir dv me), (10, sys_dup me),
      (11, sys_getpid me), (12, sys_sbrk ln me), (13, sys_sleep me), (14, sys_uptime), (15, sys_open ln dv me),
      (16, sys_write dv me), (17, sys_mknod dv me), (18, sys_unlink dv me), (19, sys_link dv me),
      (20, sys_mkdir dv me), (21, sys_close ln me)] num"

definition set_eax :: "nat \<Rightarrow> int \<Rightarrow> 'x kernel_scheme \<Rightarrow> 'x kernel_scheme" where
  "set_eax me r s = k_upd_mem (\<lambda>m. store32 m (pr_tf (k_proc s me) + tf_eax) (word_of_int r)) s"

definition syscall :: "link \<Rightarrow> 'x kernel_scheme devsw \<Rightarrow> nat \<Rightarrow> 'x kernel_scheme \<Rightarrow> (sysout \<times> 'x kernel_scheme) res" where
  "syscall ln dv me s =
     (let num = sint (load32 (k_mem s) (pr_tf (k_proc s me) + tf_eax)) in
      case (if num > 0 then syscalls ln dv me num else None) of
        Some f \<Rightarrow>
          bindr (f s) (\<lambda>(out, s). Ret (out, case out of SRet r \<Rightarrow> set_eax me r s | _ \<Rightarrow> s))
      | None \<Rightarrow> Ret (SRet (- 1), set_eax me (- 1) s))"

end
