(* ===== verification/Printf.thy ===== *)
theory Printf
  imports Prelude
begin

section \<open>Formatted output (printint and cprintf of console.c, printint and printf of printf.c)\<close>

text \<open>
  The kernel's \<open>cprintf\<close> and the user library's \<open>printf\<close> as the characters they put out. The
  arguments are the words on the stack: an integer, or a string (\<open>None\<close> is the null pointer).
  The buffer of \<open>printint\<close> holds the digits in reverse.
\<close>

datatype arg = AInt uint | AStr "uchar list option"

definition digits :: "uchar list" where
  "digits = [48, 49, 50, 51, 52, 53, 54, 55, 56, 57, 97, 98, 99, 100, 101, 102]"

definition digits_user :: "uchar list" where
  "digits_user = [48, 49, 50, 51, 52, 53, 54, 55, 56, 57, 65, 66, 67, 68, 69, 70]"

text \<open>The do-while loop: least significant digit first. The fuel of 32 rounds is enough for base 2.\<close>

fun print_digits :: "nat \<Rightarrow> uchar list \<Rightarrow> uint \<Rightarrow> uint \<Rightarrow> uchar list" where
  "print_digits 0 ds base x = []"
| "print_digits (Suc k) ds base x =
     ds ! unat (x mod base) # (if x div base \<noteq> 0 then print_digits k ds base (x div base) else [])"

definition printint :: "uchar list \<Rightarrow> uint \<Rightarrow> uint \<Rightarrow> bool \<Rightarrow> uchar list" where
  "printint ds xx base sign =
     (let neg = (sign \<and> sint xx < 0);
          x = (if neg then - xx else xx);
          buf = print_digits 32 ds base x @ (if neg then [45] else [])
      in rev buf)"

text \<open>An argument that is read although it is not there is a \<open>Fault\<close>.\<close>

definition null_str :: "uchar list" where
  "null_str = [40, 110, 117, 108, 108, 41]"

fun cprintf :: "uchar list \<Rightarrow> arg list \<Rightarrow> uchar list res" where
  "cprintf [] args = Ret []"
| "cprintf (c # fmt) args =
     (if c \<noteq> 37 then bindr (cprintf fmt args) (\<lambda>r. Ret (c # r))
      else case fmt of
        [] \<Rightarrow> Ret []
      | d # fmt \<Rightarrow>
          if d = 100 then (case args of AInt x # args \<Rightarrow> bindr (cprintf fmt args) (\<lambda>r. Ret (printint digits x 10 True @ r)) | _ \<Rightarrow> Fault ''cprintf'')
          else if d = 120 \<or> d = 112 then (case args of AInt x # args \<Rightarrow> bindr (cprintf fmt args) (\<lambda>r. Ret (printint digits x 16 False @ r)) | _ \<Rightarrow> Fault ''cprintf'')
          else if d = 115 then (case args of AStr s # args \<Rightarrow> bindr (cprintf fmt args) (\<lambda>r. Ret ((case s of None \<Rightarrow> null_str | Some s \<Rightarrow> s) @ r)) | _ \<Rightarrow> Fault ''cprintf'')
          else if d = 37 then bindr (cprintf fmt args) (\<lambda>r. Ret (37 # r))
          else bindr (cprintf fmt args) (\<lambda>r. Ret (37 # d # r)))"

text \<open>
  The user library's \<open>printf\<close> keeps a state, 0 or the percent sign, and knows also \<open>%c\<close>; a percent
  sign at the end of the format is dropped.
\<close>

fun printf_loop :: "bool \<Rightarrow> uchar list \<Rightarrow> arg list \<Rightarrow> uchar list res" where
  "printf_loop pct [] args = Ret []"
| "printf_loop pct (c # fmt) args =
     (if \<not> pct then
        if c = 37 then printf_loop True fmt args
        else bindr (printf_loop False fmt args) (\<lambda>r. Ret (c # r))
      else if c = 100 then (case args of AInt x # args \<Rightarrow> bindr (printf_loop False fmt args) (\<lambda>r. Ret (printint digits_user x 10 True @ r)) | _ \<Rightarrow> Fault ''printf'')
      else if c = 120 \<or> c = 112 then (case args of AInt x # args \<Rightarrow> bindr (printf_loop False fmt args) (\<lambda>r. Ret (printint digits_user x 16 False @ r)) | _ \<Rightarrow> Fault ''printf'')
      else if c = 115 then (case args of AStr s # args \<Rightarrow> bindr (printf_loop False fmt args) (\<lambda>r. Ret ((case s of None \<Rightarrow> null_str | Some s \<Rightarrow> s) @ r)) | _ \<Rightarrow> Fault ''printf'')
      else if c = 99 then (case args of AInt x # args \<Rightarrow> bindr (printf_loop False fmt args) (\<lambda>r. Ret (ucast x # r)) | _ \<Rightarrow> Fault ''printf'')
      else if c = 37 then bindr (printf_loop False fmt args) (\<lambda>r. Ret (c # r))
      else bindr (printf_loop False fmt args) (\<lambda>r. Ret (37 # c # r)))"

definition printf :: "uchar list \<Rightarrow> arg list \<Rightarrow> uchar list res" where
  "printf fmt args = printf_loop False fmt args"

subsection \<open>Printing is correct\<close>

text \<open>Reading a numeral back.\<close>

fun digit_value :: "uchar list \<Rightarrow> uchar \<Rightarrow> nat" where
  "digit_value ds c = (case find (\<lambda>i. ds ! i = c) [0..<length ds] of Some i \<Rightarrow> i | None \<Rightarrow> 0)"

definition read_digits :: "uchar list \<Rightarrow> nat \<Rightarrow> uchar list \<Rightarrow> nat" where
  "read_digits ds base cs = foldl (\<lambda>acc c. base * acc + digit_value ds c) 0 cs"

definition read_int :: "uchar list \<Rightarrow> nat \<Rightarrow> uchar list \<Rightarrow> int" where
  "read_int ds base cs = (case cs of c # r \<Rightarrow> if c = 45 then - int (read_digits ds base r) else int (read_digits ds base cs) | [] \<Rightarrow> 0)"

lemma print_digits_snoc: "print_digits k ds base x = [] \<longleftrightarrow> k = 0"
  by (cases k) auto

lemma digit_value_nth:
  assumes "distinct ds" and "i < length ds"
  shows "digit_value ds (ds ! i) = i"
proof -
  have "find (\<lambda>j. ds ! j = ds ! i) [0..<length ds] = Some i"
    using assms by (auto simp: find_Some_iff nth_eq_iff_index_eq intro!: exI [of _ i])
  then show ?thesis by simp
qed

lemma read_digits_snoc: "read_digits ds base (cs @ [c]) = base * read_digits ds base cs + digit_value ds c"
  by (simp add: read_digits_def)

lemma read_print_digits:
  assumes "distinct ds" and "unat base \<le> length ds" and "2 \<le> base" and "unat x < 2 ^ k" and "0 < k"
  shows "read_digits ds (unat base) (rev (print_digits k ds base x)) = unat x"
  using assms(4,5)
proof (induction k arbitrary: x)
  case (Suc k)
  have b: "2 \<le> unat base" using assms(3) by (simp add: word_le_nat_alt)
  have m: "unat (x mod base) < length ds" using b assms(2) by (simp add: unat_mod order_less_le_trans [OF mod_less_divisor])
  have d: "digit_value ds (ds ! unat (x mod base)) = unat x mod unat base"
    using digit_value_nth [OF assms(1) m] by (simp add: unat_mod)
  show ?case
  proof (cases "x div base = 0")
    case True
    then have "unat x div unat base = 0" by (metis unat_div unat_eq_zero)
    then have "unat x mod unat base = unat x" using b by (simp add: div_eq_0_iff)
    then show ?thesis using True d by (simp add: read_digits_def)
  next
    case False
    have nz: "unat (x div base) \<noteq> 0" using False by (simp add: unat_eq_zero)
    have "2 * unat (x div base) \<le> unat base * unat (x div base)" using b by (rule mult_le_mono1)
    also have "\<dots> \<le> unat x" by (simp add: unat_div)
    finally have "2 * unat (x div base) < 2 ^ Suc k" using Suc.prems(1) by (rule le_less_trans)
    then have lt: "unat (x div base) < 2 ^ k" by simp
    have k: "0 < k" using nz lt by (cases k) auto
    have "read_digits ds (unat base) (rev (print_digits (Suc k) ds base x))
        = unat base * unat (x div base) + unat x mod unat base"
      using False d Suc.IH [OF lt k] by (simp add: read_digits_snoc)
    also have "\<dots> = unat x" by (simp add: unat_div)
    finally show ?thesis .
  qed
qed simp

lemma length_print_digits:
  assumes "2 \<le> base" and "unat x < unat base ^ m" and "0 < m"
  shows "length (print_digits k ds base x) \<le> m"
  using assms(2,3)
proof (induction k arbitrary: x m)
  case (Suc k)
  have b: "0 < unat base" using assms(1) by (simp add: word_le_nat_alt)
  show ?case
  proof (cases "x div base = 0")
    case False
    obtain j where m: "m = Suc j" using Suc.prems(2) by (cases m) auto
    have nz: "unat (x div base) \<noteq> 0" using False by (simp add: unat_eq_zero)
    have lt: "unat (x div base) < unat base ^ j"
      using Suc.prems(1) m b by (simp add: unat_div less_mult_imp_div_less mult.commute)
    have "0 < j" using nz lt by (cases j) auto
    then show ?thesis using Suc.IH [OF lt] False m by simp
  qed (use Suc.prems in simp)
qed simp

lemma distinct_digits: "distinct digits" "length digits = 16" "45 \<notin> set digits"
  by (simp_all add: digits_def)

lemma distinct_digits_user: "distinct digits_user" "length digits_user = 16" "45 \<notin> set digits_user"
  by (simp_all add: digits_user_def)

lemma print_digits_set: "unat base \<le> length ds \<Longrightarrow> 0 < base \<Longrightarrow> set (print_digits k ds base x) \<subseteq> set ds"
proof (induction k arbitrary: x)
  case (Suc k)
  have "unat x mod unat base < unat base" using Suc.prems by (simp add: word_less_nat_alt)
  then have "unat (x mod base) < length ds" using Suc.prems by (simp add: unat_mod)
  then show ?case using Suc by auto
qed simp

lemma neg_uint: "sint (x :: uint) < 0 \<Longrightarrow> int (unat (- x)) = - sint x"
proof -
  assume n: "sint x < 0"
  have "- x = word_of_int (- sint x)" by simp
  then have "uint (- x) = uint (word_of_int (- sint x) :: uint)" by (rule arg_cong)
  then have "uint (- x) = (- sint x) mod 2 ^ 32" by (simp only: uint_word_of_int) simp
  moreover have "- sint x \<le> 2 ^ 31" using sint_ge [of x] by simp
  ultimately show ?thesis using n by (simp add: unat_eq_nat_uint)
qed

lemma nonneg_uint: "0 \<le> sint (x :: uint) \<Longrightarrow> int (unat x) = sint x"
proof -
  assume n: "0 \<le> sint x"
  have "sint x < 2 ^ 31" using sint_lt [of x] by simp
  have "uint x = sint x mod 2 ^ 32" by (simp add: uint_sint take_bit_eq_mod)
  then show ?thesis using n \<open>sint x < 2 ^ 31\<close> by (simp add: unat_eq_nat_uint)
qed

lemma printint_read:
  assumes ds: "distinct ds" "length ds = 16" "45 \<notin> set ds" and base: "10 \<le> base" "base \<le> 16"
  shows "read_int ds (unat base) (printint ds xx base True) = sint xx"
    and "read_digits ds (unat base) (printint ds xx base False) = unat xx"
    and "length (printint ds xx base sign) \<le> 16"
proof -
  have b: "10 \<le> unat base" "unat base \<le> 16" using base by (simp_all add: word_le_nat_alt)
  have b2: "2 \<le> base" using b by (simp add: word_le_nat_alt)
  have lt: "unat x < 2 ^ 32" for x :: uint using unat_lt_2p32 .
  have rd: "read_digits ds (unat base) (rev (print_digits 32 ds base x)) = unat x" for x
    by (rule read_print_digits [OF ds(1)]) (use b ds(2) b2 lt in simp_all)
  have ne: "print_digits 32 ds base x \<noteq> []" for x by (simp add: print_digits_snoc)
  have mem: "set (print_digits 32 ds base x) \<subseteq> set ds" for x
    by (rule print_digits_set) (use b ds(2) in \<open>simp_all add: word_less_nat_alt\<close>)
  have hd: "read_int ds (unat base) (rev (print_digits 32 ds base x)) = int (unat x)" for x
  proof -
    obtain c r where c: "rev (print_digits 32 ds base x) = c # r" using ne [of x] by (cases "rev (print_digits 32 ds base x)") auto
    then have "c \<in> set (print_digits 32 ds base x)" by (metis list.set_intros(1) set_rev)
    then have "c \<noteq> 45" using mem [of x] ds(3) by auto
    then show ?thesis using rd [of x] c by (simp add: read_int_def)
  qed
  show "read_int ds (unat base) (printint ds xx base True) = sint xx"
  proof (cases "sint xx < 0")
    case True
    then show ?thesis using rd [of "- xx"] neg_uint [OF True] by (simp add: printint_def read_int_def)
  next
    case False
    then show ?thesis using hd [of xx] nonneg_uint [of xx] by (simp add: printint_def)
  qed
  show "read_digits ds (unat base) (printint ds xx base False) = unat xx"
    using rd [of xx] by (simp add: printint_def)
  have "(2 :: nat) ^ 32 \<le> 10 ^ 10" by simp
  also have "\<dots> \<le> unat base ^ 10" using b(1) by (rule power_mono) simp
  finally have "length (print_digits 32 ds base x) \<le> 10" for x
    by (intro length_print_digits [OF b2]) (use lt [of x] in \<open>auto intro: order_less_le_trans\<close>)
  from this [of xx] this [of "- xx"] show "length (printint ds xx base sign) \<le> 16"
    by (simp add: printint_def Let_def)
qed

text \<open>C11: what \<open>printint\<close> prints, in the kernel and in the user library, reads back as the number: in decimal
  with a sign for every 32-bit integer, the least one included, and in hexadecimal for its unsigned value; and its
  buffer of 16 bytes is never overrun.\<close>

theorem printint_roundtrip:
  "read_int digits 10 (printint digits xx 10 True) = sint xx \<and> read_digits digits 16 (printint digits xx 16 False) = unat xx
   \<and> read_int digits_user 10 (printint digits_user xx 10 True) = sint xx
   \<and> read_digits digits_user 16 (printint digits_user xx 16 False) = unat xx
   \<and> length (printint digits xx 10 True) \<le> 16 \<and> length (printint digits_user xx 10 True) \<le> 16
   \<and> length (printint digits xx 16 False) \<le> 16 \<and> length (printint digits_user xx 16 False) \<le> 16"
  using printint_read [OF distinct_digits, of 10] printint_read [OF distinct_digits_user, of 10]
    printint_read [OF distinct_digits, of 16] printint_read [OF distinct_digits_user, of 16] by simp

end
