(* ===== verification/Console.thy ===== *)
theory Console
  imports Printf Fifo Proc
begin

section \<open>The console (console.c, uart.c)\<close>

text \<open>
  Output: a character goes to the serial port and to the CGA screen, whose cursor is kept in the
  controller's registers. Input: characters from the keyboard or the serial line are edited in a
  ring of INPUT\_BUF bytes with free-running indices \<open>r\<close> (read), \<open>w\<close> (end of the committed
  input) and \<open>e\<close> (end of the line being edited). \<open>cons.lock\<close> makes \<open>consoleintr\<close> and each run of
  \<open>consoleread\<close> between sleeps atomic. The characters an interrupt delivers are a list. The status
  bits of the serial port are arguments; its polling loop only delays.

  The device functions are on the kernel's state extended by the console.
\<close>

subsection \<open>Output\<close>

text \<open>\<open>crt\<close> is the CGA memory; \<open>pos\<close> the two cursor registers.\<close>

record cga =
  crt :: "nat \<Rightarrow> ushort"
  pos :: ushort

record input =
  in_buf :: "uchar list"
  in_r :: uint
  in_w :: uint
  in_e :: uint

record console =
  c_cga :: cga
  c_uart :: bool
  c_serial :: "uchar list"
  c_panicked :: bool
  c_input :: input
  c_woken :: "chan list"

abbreviation (input) BACKSPACE :: int where "BACKSPACE \<equiv> 0x100"
abbreviation (input) INPUT_BUF :: nat where "INPUT_BUF \<equiv> 128"

text \<open>The low byte of a character in the attribute black on white.\<close>

definition cell :: "int \<Rightarrow> ushort" where
  "cell c = (word_of_int c AND 0xff) OR 0x0700"

definition scroll :: "int \<Rightarrow> (nat \<Rightarrow> ushort) \<Rightarrow> nat \<Rightarrow> ushort" where
  "scroll p m =
     (let m = (\<lambda>i. if i < 23 * 80 then m (i + 80) else m i)
      in (\<lambda>i. if nat p \<le> i \<and> i < 24 * 80 then 0 else m i))"

definition cgaputc :: "int \<Rightarrow> cga \<Rightarrow> cga res" where
  "cgaputc c g =
     (let p = uint (pos g);
          (p, m) = (if c = 10 then (p + (80 - p mod 80), crt g)
                    else if c = BACKSPACE then (if p > 0 then p - 1 else p, crt g)
                    else (p + 1, (crt g)(nat p := cell c))) in
      if p < 0 \<or> p > 25 * 80 then Panic ''pos under/overflow''
      else let (p, m) = (if p div 80 \<ge> 24 then (p - 80, scroll (p - 80) m) else (p, m))
           in Ret (g\<lparr>crt := m(nat p := 0x0720), pos := word_of_int p\<rparr>))"

definition uartputc :: "int \<Rightarrow> console \<Rightarrow> console" where
  "uartputc c s = (if \<not> c_uart s then s else s\<lparr>c_serial := c_serial s @ [word_of_int c]\<rparr>)"

definition uartgetc :: "uchar \<Rightarrow> uchar \<Rightarrow> console \<Rightarrow> int" where
  "uartgetc status data s = (if \<not> c_uart s then - 1 else if status AND 0x01 = 0 then - 1 else uint data)"

text \<open>A processor that prints after a panic stops for good.\<close>

definition consputc :: "int \<Rightarrow> console \<Rightarrow> console res" where
  "consputc c s =
     (if c_panicked s then Diverge
      else let s = (if c = BACKSPACE then uartputc 8 (uartputc 32 (uartputc 8 s)) else uartputc c s) in
        bindr (cgaputc c (c_cga s)) (\<lambda>g. Ret (s\<lparr>c_cga := g\<rparr>)))"

fun consputs :: "uchar list \<Rightarrow> console \<Rightarrow> console res" where
  "consputs [] s = Ret s"
| "consputs (c # cs) s = bindr (consputc (uint c) s) (\<lambda>s. consputs cs s)"

definition con_cprintf :: "uchar list \<Rightarrow> arg list \<Rightarrow> console \<Rightarrow> console res" where
  "con_cprintf fmt args s = bindr (cprintf fmt args) (\<lambda>cs. consputs cs s)"

definition uartinit :: "uchar \<Rightarrow> console \<Rightarrow> console" where
  "uartinit status s =
     (if status = 0xFF then s
      else fold (\<lambda>c s. uartputc c s) [120, 118, 54, 46, 46, 46, 10] (s\<lparr>c_uart := True\<rparr>))"

subsection \<open>Input\<close>

definition at :: "input \<Rightarrow> uint \<Rightarrow> uchar" where
  "at t i = in_buf t ! (unat i mod INPUT_BUF)"

text \<open>Control-U: the loop back over the line, at most to \<open>w\<close>; it runs at most once for each byte of the ring.\<close>

fun kill_line :: "nat \<Rightarrow> console \<Rightarrow> console res" where
  "kill_line 0 s = Ret s"
| "kill_line (Suc k) s =
     (let t = c_input s in
      if in_e t \<noteq> in_w t \<and> at t (in_e t - 1) \<noteq> 10 then
        bindr (consputc BACKSPACE (s\<lparr>c_input := t\<lparr>in_e := in_e t - 1\<rparr>\<rparr>)) (\<lambda>s. kill_line k s)
      else Ret s)"

definition commits :: "int \<Rightarrow> input \<Rightarrow> bool" where
  "commits c t \<longleftrightarrow> c = 10 \<or> c = 4 \<or> in_e t = in_r t + of_nat INPUT_BUF"

text \<open>The result says whether a process listing was asked for.\<close>

definition consoleintr_char :: "int \<Rightarrow> bool \<Rightarrow> console \<Rightarrow> (bool \<times> console) res" where
  "consoleintr_char c dump s =
     (let t = c_input s in
      if c = 16 then Ret (True, s)
      else if c = 21 then bindr (kill_line (unat (in_e t - in_w t)) s) (\<lambda>s. Ret (dump, s))
      else if c = 8 \<or> c = 127 then
        if in_e t \<noteq> in_w t then
          bindr (consputc BACKSPACE (s\<lparr>c_input := t\<lparr>in_e := in_e t - 1\<rparr>\<rparr>)) (\<lambda>s. Ret (dump, s))
        else Ret (dump, s)
      else if c \<noteq> 0 \<and> in_e t - in_r t < of_nat INPUT_BUF then
        let c = (if c = 13 then 10 else c);
            t = t\<lparr>in_buf := (in_buf t)[unat (in_e t) mod INPUT_BUF := word_of_int c], in_e := in_e t + 1\<rparr> in
        bindr (consputc c (s\<lparr>c_input := t\<rparr>)) (\<lambda>s.
        Ret (dump, if commits c t then s\<lparr>c_input := t\<lparr>in_w := in_e t\<rparr>, c_woken := c_woken s @ [ChanInput]\<rparr> else s))
      else Ret (dump, s))"

fun consoleintr :: "int list \<Rightarrow> bool \<Rightarrow> console \<Rightarrow> (bool \<times> console) res" where
  "consoleintr [] dump s = Ret (dump, s)"
| "consoleintr (c # cs) dump s =
     (if c < 0 then Ret (dump, s) else bindr (consoleintr_char c dump s) (\<lambda>(dump, s). consoleintr cs dump s))"

text \<open>
  A run of \<open>consoleread\<close> with \<open>n\<close> bytes still wanted of \<open>target\<close>: it ends, is killed, or has to
  sleep, in each case with the bytes it has delivered.
\<close>

datatype crout = CrDone "uchar list" | CrKilled "uchar list" | CrSleep "uchar list"

fun consoleread_run :: "nat \<Rightarrow> nat \<Rightarrow> bool \<Rightarrow> uchar list \<Rightarrow> input \<Rightarrow> crout \<times> input" where
  "consoleread_run 0 target killed got t = (CrDone got, t)"
| "consoleread_run (Suc n) target killed got t =
     (if in_r t = in_w t then (if killed then CrKilled got else CrSleep got, t)
      else let c = at t (in_r t); t = t\<lparr>in_r := in_r t + 1\<rparr> in
        if c = 4 then (CrDone got, if Suc n < target then t\<lparr>in_r := in_r t - 1\<rparr> else t)
        else if c = 10 then (CrDone (got @ [c]), t)
        else consoleread_run n target killed (got @ [c]) t)"

record kmachine = kernel +
  m_cons :: console

definition consoleread ::
  "nat \<Rightarrow> nat \<Rightarrow> int \<Rightarrow> 'x kmachine_scheme \<Rightarrow> ((int \<times> uchar list) \<times> 'x kmachine_scheme) res" where
  "consoleread me ip n s =
     bindr (iunlock (Some ip) s) (\<lambda>s.
     let (out, t) = consoleread_run (nat n) (nat n) (pr_killed (k_proc s me)) [] (c_input (m_cons s));
         s = s\<lparr>m_cons := (m_cons s)\<lparr>c_input := t\<rparr>\<rparr> in
     case out of
       CrSleep _ \<Rightarrow> Sleep ChanInput
     | CrKilled got \<Rightarrow> bindr (ilock (Some ip) s) (\<lambda>s. Ret ((- 1, got), s))
     | CrDone got \<Rightarrow> bindr (ilock (Some ip) s) (\<lambda>s. Ret ((int (length got), got), s)))"

definition consolewrite ::
  "nat \<Rightarrow> uchar list \<Rightarrow> int \<Rightarrow> 'x kmachine_scheme \<Rightarrow> (int \<times> 'x kmachine_scheme) res" where
  "consolewrite ip buf n s =
     bindr (iunlock (Some ip) s) (\<lambda>s.
     bindr (consputs (take (nat n) buf) (m_cons s)) (\<lambda>c.
     bindr (ilock (Some ip) (s\<lparr>m_cons := c\<rparr>)) (\<lambda>s. Ret (n, s))))"

text \<open>The entries \<open>consoleinit\<close> makes in the device switch.\<close>

definition consoleinit :: "nat \<Rightarrow> 'x kmachine_scheme devsw \<Rightarrow> 'x kmachine_scheme devsw" where
  "consoleinit me dv = dv\<lparr>d_write := (d_write dv)(1 := Some consolewrite), d_read := (d_read dv)(1 := Some (consoleread me))\<rparr>"

subsection \<open>The screen\<close>

text \<open>The cursor is on one of the first 24 lines.\<close>

definition cga_ok :: "cga \<Rightarrow> bool" where
  "cga_ok g \<longleftrightarrow> uint (pos g) < 24 * 80"

lemma uint_pos: "0 \<le> p \<Longrightarrow> p < 24 * 80 \<Longrightarrow> uint (word_of_int p :: ushort) = p"
  by (simp add: unsigned_of_int take_bit_eq_mod)

lemma line_end: "0 \<le> (p::int) \<Longrightarrow> p < 1920 \<Longrightarrow> p < p + (80 - p mod 80) \<and> p + (80 - p mod 80) \<le> 1920"
  by presburger

lemma cgaputc_ok:
  assumes "cga_ok g"
  shows "\<exists>g'. cgaputc c g = Ret g' \<and> cga_ok g'"
proof -
  let ?p = "uint (pos g)"
  define q where "q = (if c = 10 then ?p + (80 - ?p mod 80) else if c = BACKSPACE then if ?p > 0 then ?p - 1 else ?p else ?p + 1)"
  define m where "m = (if c = 10 \<or> c = BACKSPACE then crt g else (crt g)(nat ?p := cell c))"
  have p: "0 \<le> ?p" "?p < 1920" using assms by (simp_all add: cga_ok_def)
  have q: "0 \<le> q" "q \<le> 1920" using p line_end [OF p] by (auto simp: q_def)
  define q2 where "q2 = (if q div 80 \<ge> 24 then q - 80 else q)"
  have q2: "0 \<le> q2" "q2 < 24 * 80" using q by (auto simp: q2_def)
  have "cgaputc c g = Ret (g\<lparr>crt := (if q div 80 \<ge> 24 then scroll (q - 80) m else m)(nat q2 := 0x0720), pos := word_of_int q2\<rparr>)"
  proof -
    have e: "(if c = 10 then (?p + (80 - ?p mod 80), crt g)
        else if c = BACKSPACE then (if ?p > 0 then ?p - 1 else ?p, crt g) else (?p + 1, (crt g)(nat ?p := cell c))) = (q, m)"
      by (simp add: q_def m_def)
    show ?thesis unfolding cgaputc_def Let_def e using q by (simp add: q2_def)
  qed
  then show ?thesis using uint_pos [OF q2] q2 by (simp add: cga_ok_def)
qed

text \<open>Printing keeps everything but the screen and the serial output.\<close>

definition con_ok :: "console \<Rightarrow> bool" where
  "con_ok s \<longleftrightarrow> \<not> c_panicked s \<and> cga_ok (c_cga s)"

lemma uartputc_fields [simp]:
  "c_input (uartputc c s) = c_input s" "c_woken (uartputc c s) = c_woken s" "c_cga (uartputc c s) = c_cga s"
  "c_panicked (uartputc c s) = c_panicked s"
  by (simp_all add: uartputc_def)

lemma consputc_ok:
  assumes "con_ok s"
  obtains s' where "consputc c s = Ret s'" and "con_ok s'" and "c_input s' = c_input s" and "c_woken s' = c_woken s"
proof -
  define u where "u = (if c = BACKSPACE then uartputc 8 (uartputc 32 (uartputc 8 s)) else uartputc c s)"
  have g: "c_cga u = c_cga s" "c_panicked u = c_panicked s" "c_input u = c_input s" "c_woken u = c_woken s"
    by (simp_all add: u_def)
  obtain g' where "cgaputc c (c_cga s) = Ret g'" "cga_ok g'"
    using cgaputc_ok [of "c_cga s" c] assms by (auto simp: con_ok_def)
  with g assms that [of "u\<lparr>c_cga := g'\<rparr>"] show thesis
    by (simp add: consputc_def con_ok_def Let_def u_def [symmetric])
qed

subsection \<open>Line editing\<close>

text \<open>The bytes in the ring, and the committed ones and those being edited among them.\<close>

definition in_all :: "input \<Rightarrow> uchar list" where
  "in_all t = ring INPUT_BUF (in_buf t) (in_r t) (unat (in_e t - in_r t))"

definition committed :: "input \<Rightarrow> uchar list" where
  "committed t = take (unat (in_w t - in_r t)) (in_all t)"

definition editing :: "input \<Rightarrow> uchar list" where
  "editing t = drop (unat (in_w t - in_r t)) (in_all t)"

definition in_ok :: "input \<Rightarrow> bool" where
  "in_ok t \<longleftrightarrow> length (in_buf t) = INPUT_BUF \<and> unat (in_w t - in_r t) \<le> unat (in_e t - in_r t)
     \<and> unat (in_e t - in_r t) \<le> INPUT_BUF"

text \<open>What a key does to the two lists.\<close>

definition line_key :: "int \<Rightarrow> uchar list \<times> uchar list \<Rightarrow> uchar list \<times> uchar list" where
  "line_key c v =
     (let (com, ed) = v in
      if c = 16 then (com, ed)
      else if c = 21 then (com, rev (dropWhile (\<lambda>x. x \<noteq> 10) (rev ed)))
      else if c = 8 \<or> c = 127 then (com, butlast ed)
      else if c \<noteq> 0 \<and> length com + length ed < INPUT_BUF then
        let c = (if c = 13 then 10 else c); ed = ed @ [word_of_int c] in
        if c = 10 \<or> c = 4 \<or> length com + length ed = INPUT_BUF then (com @ ed, []) else (com, ed)
      else (com, ed))"

lemma ring_take: "k \<le> n \<Longrightarrow> take k (ring sz d r n) = ring sz d r k"
  by (simp add: ring_def take_map)

lemma in_lengths:
  assumes "in_ok t"
  shows "length (in_all t) = unat (in_e t - in_r t)" "length (committed t) = unat (in_w t - in_r t)"
    "length (editing t) = unat (in_e t - in_r t) - unat (in_w t - in_r t)" "committed t @ editing t = in_all t"
    "unat (in_e t - in_w t) = length (editing t)" "in_e t = in_w t \<longleftrightarrow> editing t = []"
proof -
  have le: "in_w t - in_r t \<le> in_e t - in_r t" using assms by (simp add: in_ok_def word_le_nat_alt)
  show 1: "length (in_all t) = unat (in_e t - in_r t)" by (simp add: in_all_def)
  show "length (committed t) = unat (in_w t - in_r t)" using assms by (simp add: committed_def 1 in_ok_def)
  show 2: "length (editing t) = unat (in_e t - in_r t) - unat (in_w t - in_r t)" by (simp add: editing_def 1)
  show "committed t @ editing t = in_all t" by (simp add: committed_def editing_def)
  have "in_e t - in_w t = (in_e t - in_r t) - (in_w t - in_r t)" by simp
  then show 3: "unat (in_e t - in_w t) = length (editing t)" using unat_sub [OF le] 2 by simp
  show "in_e t = in_w t \<longleftrightarrow> editing t = []"
  proof
    assume "editing t = []"
    then have "unat (in_e t - in_w t) = 0" using 3 by simp
    then show "in_e t = in_w t" by (simp add: unat_eq_zero)
  qed (use 2 in simp)
qed

text \<open>Dropping the last byte.\<close>

lemma less_imp_le_diff: "(k :: nat) < n \<Longrightarrow> k \<le> n - 1"
  by simp

lemma in_back:
  assumes "in_ok t" and "editing t \<noteq> []"
  shows "in_ok (t\<lparr>in_e := in_e t - 1\<rparr>)" "committed (t\<lparr>in_e := in_e t - 1\<rparr>) = committed t"
    "editing (t\<lparr>in_e := in_e t - 1\<rparr>) = butlast (editing t)" "at t (in_e t - 1) = last (editing t)"
proof -
  let ?n = "unat (in_e t - in_r t)" and ?k = "unat (in_w t - in_r t)"
  note l = in_lengths [OF assms(1)]
  have n: "?k < ?n" using l(3) assms(2) by (cases "?k < ?n") auto
  have "unat (in_e t - 1 - in_r t) = unat (in_e t - in_r t - 1)" by (rule arg_cong [of _ _ unat]) simp
  also have "\<dots> = ?n - 1" by (rule unat_minus_one) (use n in auto)
  finally have m: "unat (in_e t - 1 - in_r t) = ?n - 1" .
  have a: "in_all (t\<lparr>in_e := in_e t - 1\<rparr>) = take (?n - 1) (in_all t)" by (simp add: in_all_def m ring_take)
  show "in_ok (t\<lparr>in_e := in_e t - 1\<rparr>)" using assms(1) n by (auto simp: in_ok_def m)
  show "committed (t\<lparr>in_e := in_e t - 1\<rparr>) = committed t"
    unfolding committed_def a using less_imp_le_diff [OF n] by (simp add: min_absorb1)
  show "editing (t\<lparr>in_e := in_e t - 1\<rparr>) = butlast (editing t)"
    unfolding editing_def a using l(1) by (simp add: drop_take butlast_conv_take)
  have "last (editing t) = in_all t ! (?n - 1)"
    using assms(2) n l(1,3) by (simp add: last_conv_nth editing_def)
  also have "\<dots> = in_buf t ! (unat (in_r t + of_nat (?n - 1)) mod INPUT_BUF)"
    using n by (simp add: in_all_def ring_def)
  also have "in_r t + of_nat (?n - 1) = in_e t - 1" unfolding m [symmetric] by simp
  finally show "at t (in_e t - 1) = last (editing t)" by (simp add: at_def)
qed

lemma butlast_kill: "xs \<noteq> [] \<Longrightarrow> last xs \<noteq> y \<Longrightarrow> dropWhile (\<lambda>x. x \<noteq> y) (rev xs) = dropWhile (\<lambda>x. x \<noteq> y) (rev (butlast xs))"
  by (induction xs rule: rev_induct) auto

lemma stop_kill: "xs \<noteq> [] \<Longrightarrow> last xs = y \<Longrightarrow> rev (dropWhile (\<lambda>x. x \<noteq> y) (rev xs)) = xs"
  by (induction xs rule: rev_induct) auto

lemma kill_line_spec:
  assumes "con_ok s" and "in_ok (c_input s)" and "length (editing (c_input s)) = k"
  shows "\<exists>s'. kill_line k s = Ret s' \<and> con_ok s' \<and> in_ok (c_input s') \<and> committed (c_input s') = committed (c_input s)
    \<and> editing (c_input s') = rev (dropWhile (\<lambda>x. x \<noteq> 10) (rev (editing (c_input s)))) \<and> c_woken s' = c_woken s"
  using assms
proof (induction k arbitrary: s)
  case (Suc k)
  let ?t = "c_input s"
  let ?u = "?t\<lparr>in_e := in_e ?t - 1\<rparr>"
  have ne: "editing ?t \<noteq> []" using Suc.prems(3) by auto
  note b = in_back [OF Suc.prems(2) ne]
  have we: "in_e ?t \<noteq> in_w ?t" using in_lengths(6) [OF Suc.prems(2)] ne by simp
  show ?case
  proof (cases "last (editing ?t) = 10")
    case True
    then show ?thesis using Suc.prems we b(4) stop_kill [OF ne True] by (simp add: Let_def)
  next
    case False
    have "con_ok (s\<lparr>c_input := ?u\<rparr>)" using Suc.prems(1) by (simp add: con_ok_def)
    then obtain s1 where s1: "consputc BACKSPACE (s\<lparr>c_input := ?u\<rparr>) = Ret s1" "con_ok s1" "c_input s1 = ?u" "c_woken s1 = c_woken s"
      by (rule consputc_ok [of _ BACKSPACE]) simp
    then obtain s' where "kill_line k s1 = Ret s'" "con_ok s'" "in_ok (c_input s')" "committed (c_input s') = committed ?u"
        "editing (c_input s') = rev (dropWhile (\<lambda>x. x \<noteq> 10) (rev (editing ?u)))" "c_woken s' = c_woken s"
      using Suc.IH [of s1] b(1,3) Suc.prems(3) by auto
    then show ?thesis using s1(1) we b False butlast_kill [OF ne False] by (simp add: Let_def)
  qed
next
  case 0
  then have "editing (c_input s) = []" by simp
  with 0 show ?case by simp
qed

text \<open>Appending a byte, and committing the line.\<close>

definition in_push :: "int \<Rightarrow> input \<Rightarrow> input" where
  "in_push c t = t\<lparr>in_buf := (in_buf t)[unat (in_e t) mod INPUT_BUF := word_of_int c], in_e := in_e t + 1\<rparr>"

lemma in_push_ok:
  assumes "in_ok t" and "in_e t - in_r t < of_nat INPUT_BUF"
  shows "in_ok (in_push c t)" "committed (in_push c t) = committed t"
    "editing (in_push c t) = editing t @ [word_of_int c]"
    "in_e (in_push c t) = in_r (in_push c t) + of_nat INPUT_BUF \<longleftrightarrow> length (committed t) + length (editing t) + 1 = INPUT_BUF"
proof -
  let ?n = "unat (in_e t - in_r t)" and ?k = "unat (in_w t - in_r t)" and ?u = "in_push c t"
  note l = in_lengths [OF assms(1)]
  have n: "?n < INPUT_BUF" using assms(2) by (simp add: word_less_nat_alt)
  have "unat (in_e t + 1 - in_r t) = unat (in_e t - in_r t + of_nat 1)" by (rule arg_cong [of _ _ unat]) simp
  also have "\<dots> = ?n + 1" using n by (intro unat_add_nat_no_wrap) simp
  finally have m: "unat (in_e t + 1 - in_r t) = Suc ?n" by simp
  have e: "in_r t + of_nat ?n = in_e t" by simp
  have a: "in_all ?u = in_all t @ [word_of_int c]"
    using ring_snoc [of INPUT_BUF ?n "in_buf t" "in_r t" "word_of_int c"] n assms(1) m e
    by (simp add: in_all_def in_push_def in_ok_def)
  have k: "?k \<le> length (in_all t)" using assms(1) l(1) by (simp add: in_ok_def)
  show "in_ok ?u" using assms(1) n m by (simp add: in_ok_def in_push_def)
  have w: "in_w ?u = in_w t" "in_r ?u = in_r t" by (simp_all add: in_push_def)
  show "committed ?u = committed t" "editing ?u = editing t @ [word_of_int c]"
    unfolding committed_def editing_def w a using k by simp_all
  have "in_e ?u = in_r ?u + of_nat INPUT_BUF \<longleftrightarrow> in_e t + 1 - in_r t = of_nat INPUT_BUF"
    by (auto simp: in_push_def algebra_simps)
  also have "\<dots> \<longleftrightarrow> Suc ?n = INPUT_BUF" using m by (simp add: word_unat_eq_iff)
  finally show "in_e ?u = in_r ?u + of_nat INPUT_BUF \<longleftrightarrow> length (committed t) + length (editing t) + 1 = INPUT_BUF"
    using l assms(1) by (simp add: in_ok_def)
qed

lemma in_commit: "in_ok t \<Longrightarrow> in_ok (t\<lparr>in_w := in_e t\<rparr>) \<and> committed (t\<lparr>in_w := in_e t\<rparr>) = committed t @ editing t \<and> editing (t\<lparr>in_w := in_e t\<rparr>) = []"
  using in_lengths(1,4) [of t] by (auto simp: in_ok_def committed_def editing_def in_all_def)

lemma consoleintr_char_spec:
  assumes "con_ok s" and "in_ok (c_input s)"
  shows "\<exists>d s'. consoleintr_char c dump s = Ret (d, s') \<and> con_ok s' \<and> in_ok (c_input s')
    \<and> (committed (c_input s'), editing (c_input s')) = line_key c (committed (c_input s), editing (c_input s))
    \<and> d = (dump \<or> c = 16)
    \<and> c_woken s' = (if committed (c_input s') = committed (c_input s) then c_woken s else c_woken s @ [ChanInput])"
proof -
  let ?t = "c_input s"
  note l = in_lengths [OF assms(2)]
  consider (dump) "c = 16" | (kill) "c = 21" | (erase) "c = 8 \<or> c = 127" "editing ?t \<noteq> []" | (nop) "c = 8 \<or> c = 127" "editing ?t = []"
    | (full) "c \<noteq> 16 \<and> c \<noteq> 21 \<and> c \<noteq> 8 \<and> c \<noteq> 127" "\<not> (c \<noteq> 0 \<and> in_e ?t - in_r ?t < of_nat INPUT_BUF)"
    | (put) "c \<noteq> 16 \<and> c \<noteq> 21 \<and> c \<noteq> 8 \<and> c \<noteq> 127" "c \<noteq> 0" "in_e ?t - in_r ?t < of_nat INPUT_BUF" by blast
  then show ?thesis
  proof cases
    case dump
    then show ?thesis using assms by (auto simp: consoleintr_char_def line_key_def)
  next
    case kill
    then show ?thesis using kill_line_spec [OF assms refl] l(5) by (auto simp: consoleintr_char_def line_key_def)
  next
    case erase
    let ?u = "s\<lparr>c_input := ?t\<lparr>in_e := in_e ?t - 1\<rparr>\<rparr>"
    have "con_ok ?u" using assms(1) by (simp add: con_ok_def)
    then obtain s' where "consputc BACKSPACE ?u = Ret s'" "con_ok s'" "c_input s' = c_input ?u" "c_woken s' = c_woken s"
      by (rule consputc_ok [of _ BACKSPACE]) simp
    then show ?thesis using erase l(6) in_back [OF assms(2) erase(2)] by (auto simp: consoleintr_char_def line_key_def Let_def)
  next
    case nop
    then show ?thesis using assms l(6) by (auto simp: consoleintr_char_def line_key_def)
  next
    case full
    have "\<not> (c \<noteq> 0 \<and> length (committed ?t) + length (editing ?t) < INPUT_BUF)"
      using full(2) l(1,4) by (auto simp: word_less_nat_alt simp flip: length_append)
    then show ?thesis using full assms by (auto simp: consoleintr_char_def line_key_def)
  next
    case put
    let ?c = "if c = 13 then 10 else c"
    let ?t2 = "in_push ?c ?t"
    note p = in_push_ok [OF assms(2) put(3), of ?c]
    have "con_ok (s\<lparr>c_input := ?t2\<rparr>)" using assms(1) by (simp add: con_ok_def)
    then obtain s' where s': "consputc ?c (s\<lparr>c_input := ?t2\<rparr>) = Ret s'" "con_ok s'" "c_input s' = ?t2" "c_woken s' = c_woken s"
      by (rule consputc_ok [of _ ?c]) simp
    have lt: "length (committed ?t) + length (editing ?t) < INPUT_BUF"
      using put(3) l(1,4) by (auto simp: word_less_nat_alt simp flip: length_append)
    have r: "consoleintr_char c dump s = Ret (dump, if commits ?c ?t2 then s'\<lparr>c_input := ?t2\<lparr>in_w := in_e ?t2\<rparr>, c_woken := c_woken s' @ [ChanInput]\<rparr> else s')"
      using put s'(1) by (simp add: consoleintr_char_def in_push_def [symmetric] Let_def del: One_nat_def)
    have k: "commits ?c ?t2 \<longleftrightarrow> ?c = 10 \<or> ?c = 4 \<or> length (committed ?t) + length (editing ?t @ [word_of_int ?c]) = INPUT_BUF"
      using p(4) by (simp add: commits_def)
    have v: "line_key c (committed ?t, editing ?t) = (if commits ?c ?t2 then (committed ?t @ editing ?t2, []) else (committed ?t, editing ?t2))"
      using put lt k p(3) by (simp add: line_key_def Let_def)
    show ?thesis
    proof (cases "commits ?c ?t2")
      case True
      then show ?thesis using r v s' in_commit [OF p(1)] p put(1) by (simp add: con_ok_def)
    next
      case False
      then show ?thesis using r v s' p put(1) by simp
    qed
  qed
qed

lemma consoleintr_spec:
  assumes "con_ok s" and "in_ok (c_input s)" and "\<forall>c \<in> set cs. 0 \<le> c"
  shows "\<exists>d s'. consoleintr cs dump s = Ret (d, s') \<and> con_ok s' \<and> in_ok (c_input s')
    \<and> (committed (c_input s'), editing (c_input s')) = fold line_key cs (committed (c_input s), editing (c_input s))"
  using assms
proof (induction cs arbitrary: dump s)
  case (Cons c cs)
  then obtain d s1 where s1: "consoleintr_char c dump s = Ret (d, s1)" "con_ok s1" "in_ok (c_input s1)"
      "(committed (c_input s1), editing (c_input s1)) = line_key c (committed (c_input s), editing (c_input s))"
    using consoleintr_char_spec [of s c dump] by auto
  then show ?case using Cons.IH [OF s1(2,3), of d] Cons.prems(3) by simp
qed simp

text \<open>A read takes bytes off the committed input, up to a newline, an end-of-file mark or the count.\<close>

fun read_spec :: "nat \<Rightarrow> nat \<Rightarrow> bool \<Rightarrow> uchar list \<Rightarrow> uchar list \<Rightarrow> crout \<times> uchar list" where
  "read_spec 0 target killed got com = (CrDone got, com)"
| "read_spec (Suc n) target killed got [] = (if killed then CrKilled got else CrSleep got, [])"
| "read_spec (Suc n) target killed got (c # com) =
     (if c = 4 then (CrDone got, if Suc n < target then c # com else com)
      else if c = 10 then (CrDone (got @ [c]), com)
      else read_spec n target killed (got @ [c]) com)"

lemma in_take:
  assumes "in_ok t" and "in_r t \<noteq> in_w t"
  shows "in_ok (t\<lparr>in_r := in_r t + 1\<rparr>)" "committed t = at t (in_r t) # committed (t\<lparr>in_r := in_r t + 1\<rparr>)"
    "editing (t\<lparr>in_r := in_r t + 1\<rparr>) = editing t"
proof -
  let ?u = "t\<lparr>in_r := in_r t + 1\<rparr>"
  have minus: "unat (x - (in_r t + 1)) = unat (x - in_r t) - 1" if "x \<noteq> in_r t" for x
  proof -
    have "unat (x - (in_r t + 1)) = unat (x - in_r t - 1)" by (rule arg_cong [of _ _ unat]) simp
    also have "\<dots> = unat (x - in_r t) - 1" by (rule unat_minus_one) (use that in simp)
    finally show ?thesis .
  qed
  have w: "0 < unat (in_w t - in_r t)" using assms(2) by (simp add: unat_gt_0)
  then have e: "0 < unat (in_e t - in_r t)" using assms(1) by (simp add: in_ok_def)
  then have er: "in_e t \<noteq> in_r t" by auto
  note m = minus [OF er] minus [OF assms(2) [symmetric]]
  obtain n where n: "unat (in_e t - in_r t) = Suc n" using e by (cases "unat (in_e t - in_r t)") auto
  have a: "in_all t = at t (in_r t) # in_all ?u"
    using m(1) n by (simp add: in_all_def ring_Cons at_def)
  obtain k where k: "unat (in_w t - in_r t) = Suc k" using w by (cases "unat (in_w t - in_r t)") auto
  show "in_ok ?u" using assms(1) by (auto simp: in_ok_def m)
  show "committed t = at t (in_r t) # committed ?u" "editing ?u = editing t"
    unfolding committed_def editing_def a k using m(2) k by simp_all
qed

lemma consoleread_run_spec:
  assumes "in_ok t" and "consoleread_run n target killed got t = (out, t')"
  shows "in_ok t' \<and> (out, committed t') = read_spec n target killed got (committed t) \<and> editing t' = editing t"
  using assms
proof (induction n target killed got t rule: consoleread_run.induct)
  case (2 n target killed got t)
  show ?case
  proof (cases "in_r t = in_w t")
    case True
    then have "committed t = []" by (simp add: committed_def)
    then show ?thesis using 2 True by auto
  next
    case False
    note k = in_take [OF 2(2) False]
    have "t\<lparr>in_r := in_r t\<rparr> = t" by simp
    then show ?thesis using 2 False k by (auto simp: Let_def split: if_splits)
  qed
qed auto

text \<open>C10: the console's line discipline: for every sequence of keys, whatever the state of the screen, the
  interrupt handler returns, keeps the cursor on the screen, and turns the committed input and the line being edited
  exactly as the edit keys say (erase, kill line, commit at a newline, an end-of-file mark or a full buffer); a read
  then takes the committed bytes in order, up to a newline, an end-of-file mark or the count, and leaves the rest and
  the line being edited for the next one.\<close>

theorem console_line_discipline:
  assumes "con_ok s" and "in_ok (c_input s)" and "\<forall>c \<in> set keys. 0 \<le> c"
  shows "\<exists>d s'. consoleintr keys dump s = Ret (d, s') \<and> con_ok s' \<and> in_ok (c_input s')
    \<and> (committed (c_input s'), editing (c_input s')) = fold line_key keys (committed (c_input s), editing (c_input s))
    \<and> (\<forall>n killed out t. consoleread_run n n killed [] (c_input s') = (out, t) \<longrightarrow>
         in_ok t \<and> (out, committed t) = read_spec n n killed [] (committed (c_input s')) \<and> editing t = editing (c_input s'))"
  using consoleintr_spec [OF assms, of dump] consoleread_run_spec by blast

definition con_demo :: console where
  "con_demo = \<lparr>c_cga = \<lparr>crt = (\<lambda>_. 0), pos = 1919\<rparr>, c_uart = True, c_serial = [], c_panicked = False,
     c_input = \<lparr>in_buf = replicate 128 0, in_r = 4294967295, in_w = 4294967295, in_e = 4294967295\<rparr>, c_woken = []\<rparr>"

theorem console_line_discipline_witness:
  "\<exists>d s'. consoleintr [104, 120, 8, 105, 13, 122] False con_demo = Ret (d, s')
    \<and> (committed (c_input s'), editing (c_input s')) = ([104, 105, 10], [122])"
proof -
  have ok: "con_ok con_demo" "in_ok (c_input con_demo)" "\<forall>c \<in> set [104, 120, 8, 105, 13, 122 :: int]. 0 \<le> c"
    by (simp_all add: con_demo_def con_ok_def cga_ok_def in_ok_def)
  have "committed (c_input con_demo) = []" "editing (c_input con_demo) = []"
    by (simp_all add: con_demo_def committed_def editing_def in_all_def ring_def)
  moreover have "fold line_key [104, 120, 8, 105, 13, 122] ([], []) = ([104, 105, 10], [122])"
    by (simp add: line_key_def)
  ultimately show ?thesis using console_line_discipline [OF ok, of False] by auto
qed

end
