(* ===== verification/Kbd.thy ===== *)
theory Kbd
  imports Prelude
begin

section \<open>The keyboard (kbd.c, kbd.h)\<close>

text \<open>
  Decoding of scan codes. A call of \<open>kbdgetc\<close> is given what the status port and the data port hold
  and the modifier state \<open>shift\<close>. The tables of \<open>kbd.h\<close> are the entries listed in order, followed
  by those given by index; every other entry is 0.
\<close>

definition table :: "uchar list \<Rightarrow> (nat \<times> uchar) list \<Rightarrow> nat \<Rightarrow> uchar" where
  "table row sparse i =
     (case map_of sparse i of Some c \<Rightarrow> c | None \<Rightarrow> if i < length row then row ! i else 0)"

abbreviation (input) SHIFT :: uint where "SHIFT \<equiv> 1"
abbreviation (input) CTL :: uint where "CTL \<equiv> 2"
abbreviation (input) ALT :: uint where "ALT \<equiv> 4"
abbreviation (input) CAPSLOCK :: uint where "CAPSLOCK \<equiv> 8"
abbreviation (input) NUMLOCK :: uint where "NUMLOCK \<equiv> 16"
abbreviation (input) SCROLLLOCK :: uint where "SCROLLLOCK \<equiv> 32"
abbreviation (input) E0ESC :: uint where "E0ESC \<equiv> 64"

definition shiftcode :: "nat \<Rightarrow> uchar" where
  "shiftcode = table
     []
     [(0x1D, 2), (0x2A, 1), (0x36, 1), (0x38, 4), (0x9D, 2), (0xB8, 4)]"

definition togglecode :: "nat \<Rightarrow> uchar" where
  "togglecode = table
     []
     [(0x3A, 8), (0x45, 16), (0x46, 32)]"

definition normalmap :: "nat \<Rightarrow> uchar" where
  "normalmap = table
     [0, 27, 49, 50, 51, 52, 53, 54, 55, 56, 57, 48, 45, 61, 8, 9,
      113, 119, 101, 114, 116, 121, 117, 105, 111, 112, 91, 93, 10, 0, 97, 115,
      100, 102, 103, 104, 106, 107, 108, 59, 39, 96, 0, 92, 122, 120, 99, 118,
      98, 110, 109, 44, 46, 47, 0, 42, 0, 32, 0, 0, 0, 0, 0, 0,
      0, 0, 0, 0, 0, 0, 0, 55, 56, 57, 45, 52, 53, 54, 43, 49,
      50, 51, 48, 46, 0, 0, 0, 0]
     [(0x9C, 10), (0xB5, 47), (0xC8, 226), (0xD0, 227), (0xC9, 230), (0xD1, 231), (0xCB, 228), (0xCD, 229), (0x97, 224), (0xCF, 225), (0xD2, 232), (0xD3, 233)]"

definition shiftmap :: "nat \<Rightarrow> uchar" where
  "shiftmap = table
     [0, 27, 33, 64, 35, 36, 37, 94, 38, 42, 40, 41, 95, 43, 8, 9,
      81, 87, 69, 82, 84, 89, 85, 73, 79, 80, 123, 125, 10, 0, 65, 83,
      68, 70, 71, 72, 74, 75, 76, 58, 34, 126, 0, 124, 90, 88, 67, 86,
      66, 78, 77, 60, 62, 63, 0, 42, 0, 32, 0, 0, 0, 0, 0, 0,
      0, 0, 0, 0, 0, 0, 0, 55, 56, 57, 45, 52, 53, 54, 43, 49,
      50, 51, 48, 46, 0, 0, 0, 0]
     [(0x9C, 10), (0xB5, 47), (0xC8, 226), (0xD0, 227), (0xC9, 230), (0xD1, 231), (0xCB, 228), (0xCD, 229), (0x97, 224), (0xCF, 225), (0xD2, 232), (0xD3, 233)]"

definition ctlmap :: "nat \<Rightarrow> uchar" where
  "ctlmap = table
     [0, 0, 0, 0, 0, 0, 0, 0, 0, 0, 0, 0, 0, 0, 0, 0,
      17, 23, 5, 18, 20, 25, 21, 9, 15, 16, 0, 0, 13, 0, 1, 19,
      4, 6, 7, 8, 10, 11, 12, 0, 0, 0, 0, 28, 26, 24, 3, 22,
      2, 14, 13, 0, 0, -17, 0, 0]
     [(0x9C, 13), (0xB5, -17), (0xC8, 226), (0xD0, 227), (0xC9, 230), (0xD1, 231), (0xCB, 228), (0xCD, 229), (0x97, 224), (0xCF, 225), (0xD2, 232), (0xD3, 233)]"

definition charcode :: "uint \<Rightarrow> nat \<Rightarrow> uchar" where
  "charcode k = (if k = 0 then normalmap else if k = 1 then shiftmap else ctlmap)"

definition kbdgetc :: "uchar \<Rightarrow> uchar \<Rightarrow> uint \<Rightarrow> int \<times> uint" where
  "kbdgetc st byte shift =
     (if st AND 0x01 = 0 then (- 1, shift)
      else if byte = 0xE0 then (0, shift OR E0ESC)
      else if byte AND 0x80 \<noteq> 0 then
        let d = (if shift AND E0ESC \<noteq> 0 then byte else byte AND 0x7F)
        in (0, shift AND NOT (ucast (shiftcode (unat d)) OR E0ESC))
      else
        let (d, shift) = (if shift AND E0ESC \<noteq> 0 then (byte OR 0x80, shift AND NOT E0ESC) else (byte, shift));
            shift = shift OR ucast (shiftcode (unat d));
            shift = shift XOR ucast (togglecode (unat d));
            c = uint (charcode (shift AND (CTL OR SHIFT)) (unat d));
            c = (if shift AND CAPSLOCK \<noteq> 0 then
                   if 97 \<le> c \<and> c \<le> 122 then c - 32 else if 65 \<le> c \<and> c \<le> 90 then c + 32 else c
                 else c)
        in (c, shift))"

text \<open>The keys of a sequence of scan codes, each read while its byte is in the buffer.\<close>

fun kbd_keys :: "uchar list \<Rightarrow> uint \<Rightarrow> int list \<times> uint" where
  "kbd_keys [] shift = ([], shift)"
| "kbd_keys (b # bs) shift =
     (let (c, shift) = kbdgetc 1 b shift; (cs, shift) = kbd_keys bs shift in (c # cs, shift))"

subsection \<open>Modifier keys\<close>

lemma shiftcode_cases: "shiftcode i \<in> {0, 1, 2, 4}"
  by (simp add: shiftcode_def table_def)

lemma no_escape: "(ucast (shiftcode i) :: uint) AND E0ESC = 0"
  using shiftcode_cases [of i] by auto

lemma clear_bit: "(x :: 'a::len word) AND m = 0 \<Longrightarrow> bit m n \<Longrightarrow> \<not> bit x n"
proof
  assume a: "x AND m = 0" and b: "bit m n" "bit x n"
  from b have "bit (x AND m) n" by (simp only: bit_and_iff)
  with a show False by simp
qed

lemma bit_consts:
  "bit (0x7F :: uchar) n \<longleftrightarrow> n < 7" "bit (0x80 :: uchar) n \<longleftrightarrow> n = 7" "bit (0x40 :: uint) n \<longleftrightarrow> n = 6"
proof -
  show "bit (0x7F :: uchar) n \<longleftrightarrow> n < 7"
    by (cases "n < 8") (auto simp: numeral_eq_Suc less_Suc_eq)
  have e: "(0x80 :: uchar) = push_bit 7 1" "(0x40 :: uint) = push_bit 6 1" by simp_all
  show "bit (0x80 :: uchar) n \<longleftrightarrow> n = 7" unfolding e(1) by (auto simp only: bit_simps) simp_all
  show "bit (0x40 :: uint) n \<longleftrightarrow> n = 6" unfolding e(2) by (auto simp only: bit_simps) simp_all
qed

lemma bit_zero: "bit (0 :: 'a::len word) n \<longleftrightarrow> False"
  by simp

lemma top_clear: "(byte :: uchar) AND 0x80 = 0 \<Longrightarrow> \<not> bit byte 7"
  by (erule clear_bit) (simp only: bit_consts)

lemma top_set: "(byte :: uchar) AND 0x80 \<noteq> 0 \<Longrightarrow> bit byte 7"
proof (rule ccontr)
  assume a: "byte AND 0x80 \<noteq> 0" and b: "\<not> bit byte 7"
  have "byte AND 0x80 = 0"
    by (rule bit_word_eqI) (use b in \<open>auto simp only: bit_and_iff bit_consts bit_zero\<close>)
  with a show False by simp
qed

lemma byte_top_eqI:
  "(\<And>n. n < 7 \<Longrightarrow> bit (a :: uchar) n = bit b n) \<Longrightarrow> bit a 7 = bit b 7 \<Longrightarrow> a = b"
proof (rule bit_word_eqI)
  fix n assume "\<And>n. n < 7 \<Longrightarrow> bit a n = bit b n" "bit a 7 = bit b 7" "n < LENGTH(8)"
  moreover have "n < 7 \<or> n = 7" using \<open>n < LENGTH(8)\<close> by auto
  ultimately show "bit a n = bit b n" by blast
qed

lemma set_top: "(byte :: uchar) AND 0x80 = 0 \<Longrightarrow> (byte OR 0x80) AND 0x7F = byte \<and> (byte OR 0x80) AND 0x80 \<noteq> 0"
proof (rule conjI)
  assume a: "byte AND 0x80 = 0"
  show "(byte OR 0x80) AND 0x7F = byte"
    by (rule byte_top_eqI) (use top_clear [OF a] in \<open>auto simp only: bit_and_iff bit_or_iff bit_consts\<close>)
  have "bit ((byte OR 0x80) AND 0x80) 7" by (simp only: bit_and_iff bit_or_iff bit_consts) simp
  then show "(byte OR 0x80) AND 0x80 \<noteq> 0" by auto
qed

lemma drop_top: "(byte :: uchar) AND 0x80 \<noteq> 0 \<Longrightarrow> (byte AND 0x7F) OR 0x80 = byte \<and> (byte AND 0x7F) AND 0x80 = 0"
proof (rule conjI)
  assume a: "byte AND 0x80 \<noteq> 0"
  show "(byte AND 0x7F) OR 0x80 = byte"
    by (rule byte_top_eqI) (use top_set [OF a] in \<open>auto simp only: bit_and_iff bit_or_iff bit_consts\<close>)
  show "(byte AND 0x7F) AND 0x80 = 0"
    by (rule byte_top_eqI) (auto simp only: bit_and_iff bit_consts bit_zero)
qed

subsection \<open>Keys\<close>

text \<open>
  What a keyboard sends. Keys have the codes that index the tables of \<open>kbd.h\<close>: below 0x80 the key sends
  its code when it is pressed and its code with the top bit set when it is released; from 0x80 on it
  sends the prefix 0xE0 first, then the code without and with the top bit.
\<close>

definition scan_press :: "uchar \<Rightarrow> uchar list" where
  "scan_press d = (if d AND 0x80 = 0 then [d] else [0xE0, d AND 0x7F])"

definition scan_release :: "uchar \<Rightarrow> uchar list" where
  "scan_release d = (if d AND 0x80 = 0 then [d OR 0x80] else [0xE0, d])"

text \<open>The character of a key under given modifiers, and the modifiers that apply to it when it is pressed.\<close>

definition key_char :: "uint \<Rightarrow> uchar \<Rightarrow> int" where
  "key_char mods d =
     (let c = uint ((if mods AND CTL \<noteq> 0 then ctlmap else if mods AND SHIFT \<noteq> 0 then shiftmap else normalmap) (unat d))
      in if mods AND CAPSLOCK = 0 then c
         else if c \<in> {97..122} then c - 32 else if c \<in> {65..90} then c + 32 else c)"

definition pressed :: "uchar \<Rightarrow> uint \<Rightarrow> uint" where
  "pressed d mods = (mods OR ucast (shiftcode (unat d))) XOR ucast (togglecode (unat d))"

definition released :: "uchar \<Rightarrow> uint \<Rightarrow> uint" where
  "released d mods = mods AND NOT (ucast (shiftcode (unat d)))"

lemma low_mods: "charcode (m AND 3) = (if m AND CTL \<noteq> 0 then ctlmap else if m AND SHIFT \<noteq> 0 then shiftmap else normalmap)"
proof -
  have "m AND (CTL OR SHIFT) = (m AND CTL) OR (m AND SHIFT)" by (simp only: bit.conj_disj_distrib)
  then have e: "m AND 3 = (m AND CTL) OR (m AND SHIFT)" by simp
  have b: "m AND CTL = (if bit m 1 then 2 else 0)" "m AND SHIFT = (if bit m 0 then 1 else 0)"
    by (auto intro!: bit_word_eqI simp: bit_simps bit_1_iff bit_2_iff)
  show ?thesis unfolding charcode_def e b by simp
qed

lemma key_char_eq:
  "key_char m d = (let c = uint (charcode (m AND (CTL OR SHIFT)) (unat d)) in
     if m AND CAPSLOCK \<noteq> 0 then
       if 97 \<le> c \<and> c \<le> 122 then c - 32 else if 65 \<le> c \<and> c \<le> 90 then c + 32 else c
     else c)"
  unfolding key_char_def low_mods [symmetric] by (simp add: Let_def)

lemma kbdgetc_plain:
  assumes "byte AND 0x80 = 0" and "shift AND E0ESC = 0"
  shows "kbdgetc 1 byte shift = (key_char (pressed byte shift) byte, pressed byte shift)"
proof -
  have "byte \<noteq> 0xE0" using assms(1) by auto
  then show ?thesis using assms
    unfolding kbdgetc_def key_char_eq pressed_def by (simp add: Let_def del: if_split)
qed

lemma escape_bits:
  assumes "shift AND E0ESC = 0"
  shows "(shift OR E0ESC) AND E0ESC \<noteq> 0" "(shift OR E0ESC) AND NOT E0ESC = shift"
    "(shift OR E0ESC) AND NOT (m OR E0ESC) = shift AND NOT m" "shift AND NOT (m OR E0ESC) = shift AND NOT m"
proof -
  have b: "\<not> bit shift 6" by (rule clear_bit [OF assms]) (simp add: bit_consts)
  have "bit ((shift OR E0ESC) AND E0ESC) 6" by (simp only: bit_and_iff bit_or_iff bit_consts) simp
  then show "(shift OR E0ESC) AND E0ESC \<noteq> 0" by auto
  show "(shift OR E0ESC) AND NOT E0ESC = shift" "(shift OR E0ESC) AND NOT (m OR E0ESC) = shift AND NOT m"
      "shift AND NOT (m OR E0ESC) = shift AND NOT m"
    by (rule bit_word_eqI, use b in \<open>auto simp only: bit_and_iff bit_or_iff bit_not_iff possible_bit_word bit_consts\<close>)+
qed

lemma kbdgetc_escaped:
  assumes "d AND 0x80 \<noteq> 0" and "shift AND E0ESC = 0" and "d \<noteq> 0xE0"
  shows "kbdgetc 1 0xE0 shift = (0, shift OR E0ESC)"
    and "kbdgetc 1 (d AND 0x7F) (shift OR E0ESC) = (key_char (pressed d shift) d, pressed d shift)"
    and "kbdgetc 1 d (shift OR E0ESC) = (0, released d shift)"
proof -
  note e = escape_bits [OF assms(2)] and d = drop_top [OF assms(1)]
  have "d AND 0x7F \<noteq> 0xE0" using d by auto
  then show "kbdgetc 1 (d AND 0x7F) (shift OR E0ESC) = (key_char (pressed d shift) d, pressed d shift)"
    using d e(1,2) unfolding kbdgetc_def key_char_eq pressed_def by (simp add: Let_def del: if_split)
  show "kbdgetc 1 d (shift OR E0ESC) = (0, released d shift)"
    using assms(1,3) e(1,3) by (simp add: kbdgetc_def Let_def released_def)
qed (simp add: kbdgetc_def)

lemma kbdgetc_release:
  assumes "d AND 0x80 = 0" and "shift AND E0ESC = 0" and "d \<noteq> 0x60"
  shows "kbdgetc 1 (d OR 0x80) shift = (0, released d shift)"
proof -
  note t = set_top [OF assms(1)]
  have "d OR 0x80 \<noteq> 0xE0"
  proof
    assume "d OR 0x80 = 0xE0"
    then have "d = 0xE0 AND 0x7F" using t by metis
    then show False using assms(3) by simp
  qed
  then show ?thesis using t assms(2) escape_bits(4) [OF assms(2)] by (simp add: kbdgetc_def Let_def released_def)
qed

lemma togglecode_cases: "togglecode i \<in> {0, 8, 16, 32}"
  by (simp add: togglecode_def table_def)

lemma pressed_no_escape: "shift AND E0ESC = 0 \<Longrightarrow> pressed d shift AND E0ESC = 0"
proof -
  assume a: "shift AND E0ESC = 0"
  have t: "(ucast (togglecode i) :: uint) AND E0ESC = 0" for i using togglecode_cases [of i] by auto
  have "\<not> bit (pressed d shift) 6"
    using clear_bit [OF a, of 6] clear_bit [OF no_escape, of 6] clear_bit [OF t, of 6]
    by (simp add: pressed_def bit_consts bit_or_iff bit_xor_iff)
  then show ?thesis
    by (intro bit_word_eqI) (auto simp only: bit_and_iff bit_consts bit_zero)
qed

lemma released_pressed:
  "released d (pressed d shift) = (shift XOR ucast (togglecode (unat d))) AND NOT (ucast (shiftcode (unat d)))"
  by (rule bit_word_eqI) (auto simp: released_def pressed_def bit_simps)



end
