(* ===== verification/Grep.thy ===== *)
theory Grep
  imports Prelude
begin

section \<open>grep (grep.c)\<close>

text \<open>
  The matcher on C strings, each given by its bytes before the terminating zero, so that looking at
  the zero is reaching the end of the list. The reference is the language of the pattern: a pattern
  is parsed into items, an item list has a set of words, and a text matches when some part of it is
  such a word. The line loop works on the bytes it holds in \<open>buf\<close> and on what each \<open>read\<close> gives.
\<close>

subsection \<open>The matcher\<close>

function (sequential) matchhere :: "uchar list \<Rightarrow> uchar list \<Rightarrow> bool"
  and matchstar :: "uchar \<Rightarrow> uchar list \<Rightarrow> uchar list \<Rightarrow> bool" where
  "matchhere [] text = True"
| "matchhere (c # re) text =
     (if re \<noteq> [] \<and> hd re = 0x2A then matchstar c (tl re) text
      else if c = 0x24 \<and> re = [] then text = []
      else if text \<noteq> [] \<and> (c = 0x2E \<or> c = hd text) then matchhere re (tl text)
      else False)"
| "matchstar c re [] = matchhere re []"
| "matchstar c re (t # text) =
     (if matchhere re (t # text) then True
      else if t = c \<or> c = 0x2E then matchstar c re text else False)"
  by pat_completeness auto
termination
  by (relation "measure (\<lambda>x. case x of Inl (re, text) \<Rightarrow> 2 * (length re + length text) | Inr (c, re, text) \<Rightarrow> 2 * (length re + length text) + 1)")
    (auto simp: neq_Nil_conv)

fun match_from :: "uchar list \<Rightarrow> uchar list \<Rightarrow> bool" where
  "match_from re [] = matchhere re []"
| "match_from re (t # text) = (if matchhere re (t # text) then True else match_from re text)"

definition match :: "uchar list \<Rightarrow> uchar list \<Rightarrow> bool" where
  "match re text = (if re \<noteq> [] \<and> hd re = 0x5E then matchhere (tl re) text else match_from re text)"

subsection \<open>The line loop\<close>

text \<open>\<open>strchr\<close> on the rest of the buffer: the bytes before the first newline and those after it, unless
  a zero byte or the end comes first.\<close>

fun strchr_nl :: "uchar list \<Rightarrow> (uchar list \<times> uchar list) option" where
  "strchr_nl [] = None"
| "strchr_nl (b # bs) =
     (if b = 0 then None else if b = 0xA then Some ([], bs)
      else map_option (\<lambda>(l, r). (b # l, r)) (strchr_nl bs))"

lemma strchr_nl_SomeD: "strchr_nl bs = Some (l, r) \<Longrightarrow> bs = l @ [0xA] @ r \<and> 0xA \<notin> set l \<and> 0 \<notin> set l"
  by (induction bs arbitrary: l) (auto split: if_splits)

text \<open>The inner loop: what it writes and where \<open>p\<close> stands at its end.\<close>

function grep_lines :: "uchar list \<Rightarrow> uchar list \<Rightarrow> uchar list \<times> uchar list" where
  "grep_lines pattern p =
     (case strchr_nl p of
        None \<Rightarrow> ([], p)
      | Some (line, rest) \<Rightarrow>
          let (out, p) = grep_lines pattern rest
          in ((if match pattern line then line @ [0xA] else []) @ out, p))"
  by pat_completeness auto
termination
  by (relation "measure (\<lambda>(pattern, p). length p)") (auto dest: strchr_nl_SomeD)

declare grep_lines.simps [simp del]

text \<open>
  The outer loop. \<open>held\<close> is the first \<open>m\<close> bytes of \<open>buf\<close>, \<open>inp\<close> what is left of the file, and
  \<open>av\<close> how many bytes each \<open>read\<close> has to give: a file gives all it is asked for, a pipe or the
  console may give less. A read of nothing ends the loop.
\<close>

fun grep :: "uchar list \<Rightarrow> uchar list \<Rightarrow> uchar list \<Rightarrow> nat list \<Rightarrow> uchar list" where
  "grep pattern held inp [] = []"
| "grep pattern held inp (av # avs) =
     (let n = min (min av (length inp)) (1024 - length held - 1)
      in if n = 0 then []
         else let buf = held @ take n inp;
                  (out, p) = grep_lines pattern buf;
                  held = (if length p = length buf then [] else p)
              in out @ grep pattern held (drop n inp) avs)"

text \<open>\<open>main\<close>: \<open>opn\<close> is what \<open>open\<close> and the reads of each file give, \<open>stdin\<close> the standard input. The
  result lists what is written to which descriptor.\<close>

fun grep_files :: "uchar list \<Rightarrow> (string \<Rightarrow> (uchar list \<times> nat list) option) \<Rightarrow> string list \<Rightarrow> (nat \<times> (string + uchar list)) list" where
  "grep_files pattern opn [] = []"
| "grep_files pattern opn (f # fs) =
     (case opn f of
        None \<Rightarrow> [(1, Inl (''grep: cannot open '' @ f))]
      | Some (inp, avs) \<Rightarrow> (1, Inr (grep pattern [] inp avs)) # grep_files pattern opn fs)"

definition grep_main :: "(string \<Rightarrow> (uchar list \<times> nat list) option) \<Rightarrow> uchar list \<times> nat list \<Rightarrow> uchar list option \<Rightarrow> string list \<Rightarrow> (nat \<times> (string + uchar list)) list" where
  "grep_main opn stdin pattern files =
     (case pattern of
        None \<Rightarrow> [(2, Inl ''usage: grep pattern [file ...]'')]
      | Some pat \<Rightarrow>
          if files = [] then [(1, Inr (grep pat [] (fst stdin) (snd stdin)))]
          else grep_files pat opn files)"

subsection \<open>The language of a pattern\<close>

datatype item = One uchar | Star uchar

definition hits :: "uchar \<Rightarrow> uchar \<Rightarrow> bool" where
  "hits c t \<longleftrightarrow> c = 0x2E \<or> c = t"

definition add_item :: "item \<Rightarrow> item list \<times> bool \<Rightarrow> item list \<times> bool" where
  "add_item i r = (i # fst r, snd r)"

lemma add_item_sel [simp]: "fst (add_item i r) = i # fst r" "snd (add_item i r) = snd r"
  by (simp_all add: add_item_def)

function (sequential) items :: "uchar list \<Rightarrow> item list \<times> bool" where
  "items [] = ([], False)"
| "items (c # re) =
     (if re \<noteq> [] \<and> hd re = 0x2A then add_item (Star c) (items (tl re))
      else if c = 0x24 \<and> re = [] then ([], True)
      else add_item (One c) (items re))"
  by pat_completeness auto
termination
  by (relation "measure length") (auto simp: neq_Nil_conv)

inductive words :: "item list \<Rightarrow> uchar list \<Rightarrow> bool" where
  w_nil: "words [] []"
| w_one: "hits c t \<Longrightarrow> words is w \<Longrightarrow> words (One c # is) (t # w)"
| w_star: "list_all (hits c) u \<Longrightarrow> words is w \<Longrightarrow> words (Star c # is) (u @ w)"

inductive_cases words_NilE [elim!]: "words [] w"
inductive_cases words_OneE: "words (One c # is) w"
inductive_cases words_StarE: "words (Star c # is) w"

definition pmatch :: "item list \<times> bool \<Rightarrow> uchar list \<Rightarrow> bool" where
  "pmatch r text \<longleftrightarrow> (\<exists>p s. text = p @ s \<and> words (fst r) p \<and> (snd r \<longrightarrow> s = []))"

lemma pmatch_Nil: "pmatch ([], e) text \<longleftrightarrow> (e \<longrightarrow> text = [])"
  by (auto simp: pmatch_def intro: w_nil exI [of _ "[]"])

lemma pmatchI: "words (fst r) p \<Longrightarrow> (snd r \<longrightarrow> s = []) \<Longrightarrow> pmatch r (p @ s)"
  unfolding pmatch_def by blast

lemma pmatch_One: "pmatch (add_item (One c) r) ss \<longleftrightarrow> (\<exists>t ts. ss = t # ts \<and> hits c t \<and> pmatch r ts)"
proof
  assume "pmatch (add_item (One c) r) ss"
  then obtain p s where *: "ss = p @ s" "words (One c # fst r) p" "snd r \<longrightarrow> s = []" unfolding pmatch_def add_item_sel by blast
  from *(2) obtain t w where "p = t # w" "hits c t" "words (fst r) w" by (rule words_OneE)
  then have "ss = t # (w @ s) \<and> hits c t \<and> pmatch r (w @ s)" using *(1,3) pmatchI [of r w s] by simp
  then show "\<exists>t ts. ss = t # ts \<and> hits c t \<and> pmatch r ts" by blast
next
  assume "\<exists>t ts. ss = t # ts \<and> hits c t \<and> pmatch r ts"
  then obtain t p s where *: "ss = (t # p) @ s" "hits c t" "words (fst r) p" "snd r \<longrightarrow> s = []" by (auto simp: pmatch_def)
  show "pmatch (add_item (One c) r) ss" unfolding *(1) by (rule pmatchI) (use * in \<open>auto intro: w_one\<close>)
qed

lemma pmatch_StarE:
  assumes "pmatch (add_item (Star c) r) ss"
  obtains u w s where "ss = u @ w @ s" "list_all (hits c) u" "words (fst r) w" "snd r \<longrightarrow> s = []"
proof -
  from assms obtain p s where *: "ss = p @ s" "words (Star c # fst r) p" "snd r \<longrightarrow> s = []" by (auto simp: pmatch_def)
  from *(2) obtain u w where "p = u @ w" "list_all (hits c) u" "words (fst r) w" by (rule words_StarE)
  then show thesis using that * by auto
qed

lemma pmatch_StarI:
  "list_all (hits c) u \<Longrightarrow> words (fst r) w \<Longrightarrow> (snd r \<longrightarrow> s = []) \<Longrightarrow> pmatch (add_item (Star c) r) (u @ w @ s)"
  using pmatchI [of "add_item (Star c) r" "u @ w" s] w_star [of c u "fst r" w] by simp

lemma pmatch_Star:
  "pmatch (add_item (Star c) r) ss \<longleftrightarrow> pmatch r ss \<or> (\<exists>t ts. ss = t # ts \<and> hits c t \<and> pmatch (add_item (Star c) r) ts)"
    (is "?l ss \<longleftrightarrow> _ \<or> ?e")
proof
  assume "?l ss"
  then obtain u w s where *: "ss = u @ w @ s" "list_all (hits c) u" "words (fst r) w" "snd r \<longrightarrow> s = []"
    by (rule pmatch_StarE)
  show "pmatch r ss \<or> ?e"
  proof (cases u)
    case Nil
    then show ?thesis using * pmatchI [of r w s] by auto
  next
    case (Cons t v)
    then show ?thesis using * pmatch_StarI [of c v r w s] by auto
  qed
next
  assume "pmatch r ss \<or> ?e"
  then show "?l ss"
  proof
    assume "pmatch r ss"
    then obtain p s where "ss = p @ s" "words (fst r) p" "snd r \<longrightarrow> s = []" by (auto simp: pmatch_def)
    then show ?thesis using pmatch_StarI [of c "[]" r p s] by simp
  next
    assume ?e
    then obtain t ts where t: "ss = t # ts" "hits c t" "?l ts" by blast
    from t(3) obtain u w s where "ts = u @ w @ s" "list_all (hits c) u" "words (fst r) w" "snd r \<longrightarrow> s = []"
      by (rule pmatch_StarE)
    then show ?thesis using t pmatch_StarI [of c "t # u" r w s] by simp
  qed
qed

lemma matchhere_items:
  "matchhere re ss \<longleftrightarrow> pmatch (items re) ss"
  "matchstar c re ss \<longleftrightarrow> pmatch (add_item (Star c) (items re)) ss"
proof (induction re ss and c re ss rule: matchhere_matchstar.induct)
  case (2 c re ss)
  then show ?case by (cases ss) (auto simp: pmatch_Nil pmatch_One hits_def)
next
  case (3 c re)
  then show ?case by (subst pmatch_Star) simp
next
  case (4 c re t ss)
  then show ?case by (subst pmatch_Star) (auto simp: hits_def)
qed (simp add: pmatch_Nil)

lemma match_from_iff: "match_from re ss \<longleftrightarrow> (\<exists>u v. ss = u @ v \<and> matchhere re v)"
proof (induction ss)
  case (Cons t ss)
  then show ?case by (auto simp: Cons_eq_append_conv)
qed simp

subsection \<open>Lines\<close>

definition unlines :: "uchar list list \<Rightarrow> uchar list" where
  "unlines ls = concat (map (\<lambda>l. l @ [0xA]) ls)"

lemma unlines_simps [simp]:
  "unlines [] = []" "unlines (l # ls) = l @ [0xA] @ unlines ls" "unlines (ls @ ms) = unlines ls @ unlines ms"
  by (simp_all add: unlines_def)

lemma unlines_no_nl: "0xA \<notin> set (unlines ls) \<longleftrightarrow> ls = []"
  by (cases ls) auto

lemma strchr_nl_None: "0xA \<notin> set bs \<Longrightarrow> strchr_nl bs = None"
  by (induction bs) auto

lemma strchr_nl_Some: "0xA \<notin> set l \<Longrightarrow> 0 \<notin> set l \<Longrightarrow> strchr_nl (l @ 0xA # r) = Some (l, r)"
  by (induction l) auto

lemma grep_lines_unlines:
  "(\<And>l. l \<in> set ls \<Longrightarrow> 0xA \<notin> set l \<and> 0 \<notin> set l) \<Longrightarrow> 0xA \<notin> set q \<Longrightarrow>
     grep_lines pattern (unlines ls @ q) = (unlines (filter (match pattern) ls), q)"
proof (induction ls)
  case Nil
  then show ?case by (subst grep_lines.simps) (simp add: strchr_nl_None)
next
  case (Cons l ls)
  have "strchr_nl (unlines (l # ls) @ q) = Some (l, unlines ls @ q)"
    using Cons.prems(1) [of l] by (simp add: strchr_nl_Some)
  then show ?case using Cons by (subst grep_lines.simps) simp
qed

lemma unlines_prefix:
  assumes "a @ b = unlines ls @ lst" and "\<And>l. l \<in> set (lst # ls) \<Longrightarrow> 0xA \<notin> set l"
  obtains ls1 ls2 q where "ls = ls1 @ ls2" "a = unlines ls1 @ q" "0xA \<notin> set q" "q @ b = unlines ls2 @ lst"
  using assms
proof (induction ls arbitrary: a thesis)
  case Nil
  then have "set a \<subseteq> set lst" by (metis append_Nil set_append sup_ge1 unlines_simps(1))
  then have "0xA \<notin> set a" using Nil.prems(3) by auto
  then show ?case using Nil.prems(1) [of "[]" "[]" a] Nil.prems(2) by simp
next
  case (Cons l ls)
  show ?case
  proof (cases "length a \<le> length l")
    case True
    then obtain r where r: "l = a @ r" "b = r @ 0xA # unlines ls @ lst"
      using Cons.prems(2) by (auto simp: append_eq_append_conv2 append_eq_append_conv)
    then have "0xA \<notin> set a" using Cons.prems(3) [of l] by auto
    then show ?thesis using Cons.prems(1) [of "[]" "l # ls" a] Cons.prems(2) by simp
  next
    case False
    then obtain us where us: "a = l @ us" "us \<noteq> []" "us @ b = 0xA # unlines ls @ lst"
      using Cons.prems(2) by (auto simp: append_eq_append_conv2)
    then obtain a' where a': "a = l @ [0xA] @ a'" "a' @ b = unlines ls @ lst"
      by (cases us) auto
    obtain ls1 ls2 q where "ls = ls1 @ ls2" "a' = unlines ls1 @ q" "0xA \<notin> set q" "q @ b = unlines ls2 @ lst"
      by (rule Cons.IH [OF _ a'(2)]) (use Cons.prems(3) in auto)
    then show ?thesis using Cons.prems(1) [of "l # ls1" ls2 q] a' by simp
  qed
qed

lemma short_first_line:
  assumes "q @ b = unlines ls @ lst" and "0xA \<notin> set q" and "\<And>l. l \<in> set (lst # ls) \<Longrightarrow> length l \<le> n"
  shows "length q \<le> n"
proof (cases ls)
  case Nil
  then show ?thesis using assms(1) assms(3) [of lst] by (metis append_Nil le_trans length_append le_add1 list.set_intros(1) unlines_simps(1))
next
  case (Cons l ms)
  have "length q \<le> length l"
  proof (rule ccontr)
    assume "\<not> length q \<le> length l"
    then obtain x r where "q = l @ x # r" using assms(1) Cons by (auto simp: append_eq_append_conv2 append_eq_Cons_conv)
    then show False using assms(1,2) Cons by simp
  qed
  then show ?thesis using assms(3) [of l] Cons by simp
qed

lemma grep_held:
  assumes "held @ inp = unlines ls @ lst" and "0xA \<notin> set held"
    and "\<And>l. l \<in> set (lst # ls) \<Longrightarrow> 0xA \<notin> set l \<and> 0 \<notin> set l \<and> length l \<le> 1022"
    and "list_all (\<lambda>av. 1023 \<le> av) avs" and "length inp < length avs"
  shows "grep pattern held inp avs = unlines (filter (match pattern) ls)"
  using assms
proof (induction avs arbitrary: held inp ls)
  case (Cons av avs)
  let ?n = "min (min av (length inp)) (1024 - length held - 1)"
  have lim: "length x \<le> 1022" if "x @ y = unlines zs @ lst" "0xA \<notin> set x" "set zs \<subseteq> set ls" for x y zs
    using short_first_line [OF that(1,2), of 1022] Cons.prems(3) that(3) by auto
  have held: "length held \<le> 1022" using lim [OF Cons.prems(1,2)] by simp
  show ?case
  proof (cases "inp = []")
    case True
    then have "0xA \<notin> set (unlines ls)" using Cons.prems(1,2) by (metis Un_iff append_Nil2 set_append)
    then show ?thesis using True unlines_no_nl by auto
  next
    case False
    note False' = this
    let ?buf = "held @ take ?n inp"
    have n0: "?n \<noteq> 0" using False held Cons.prems(4) by auto
    have "?buf @ drop ?n inp = unlines ls @ lst" using Cons.prems(1) by simp
    then obtain ls1 ls2 q where s: "ls = ls1 @ ls2" "?buf = unlines ls1 @ q" "0xA \<notin> set q" "q @ drop ?n inp = unlines ls2 @ lst"
      by (rule unlines_prefix) (use Cons.prems(3) in blast)
    have g: "grep_lines pattern ?buf = (unlines (filter (match pattern) ls1), q)"
      unfolding s(2) by (rule grep_lines_unlines) (use s Cons.prems(3) in auto)
    have q: "length q \<le> 1022" using lim [OF s(4,3)] s(1) by simp
    define held' where "held' = (if length q = length ?buf then [] else q)"
    have "grep pattern held' (drop ?n inp) avs = unlines (filter (match pattern) ls2)"
    proof (cases "length q = length ?buf")
      case True
      then have "drop ?n inp = []" using q held False Cons.prems(4) by (auto simp: min_def split: if_splits)
      then have "0xA \<notin> set (unlines ls2)" using s(3,4) by (metis Un_iff append_Nil2 set_append)
      then have "ls2 = []" using unlines_no_nl by blast
      then show ?thesis using \<open>drop ?n inp = []\<close> by (cases avs) auto
    next
      case False
      have "length (drop ?n inp) < length avs" using Cons.prems(5) n0 False' by (cases inp) auto
      moreover have "0xA \<notin> set l \<and> 0 \<notin> set l \<and> length l \<le> 1022" if "l \<in> set (lst # ls2)" for l
        by (rule Cons.prems(3)) (use that s(1) in auto)
      moreover have "list_all (\<lambda>av. 1023 \<le> av) avs" using Cons.prems(4) by simp
      moreover have "held' = q" using False by (simp add: held'_def)
      ultimately show ?thesis using Cons.IH [OF s(4,3)] by blast
    qed
    then have "unlines (filter (match pattern) ls1) @ grep pattern held' (drop ?n inp) avs = unlines (filter (match pattern) ls)"
      using s(1) by simp
    then show ?thesis unfolding held'_def by (simp only: grep.simps Let_def n0 if_False g prod.case)
  qed
qed simp

text \<open>
  The reads of a file from a pipe or the console. With \<open>k\<close> bytes of an unfinished line held in the
  buffer, every read that leaves part of the file unread brings a newline; the bytes after its last
  newline are held for the next read.
\<close>

fun newline_reads :: "nat \<Rightarrow> uchar list \<Rightarrow> nat list \<Rightarrow> bool" where
  "newline_reads k [] avs = True"
| "newline_reads k inp [] = False"
| "newline_reads k inp (av # avs) =
     (let n = min (min av (length inp)) (1023 - k); c = take n inp
      in n = length inp \<or> 0xA \<in> set c \<and> newline_reads (length (takeWhile (\<lambda>b. b \<noteq> 0xA) (rev c))) (drop n inp) avs)"

lemma after_last_newline:
  assumes "held @ c = unlines ls @ q" and "0xA \<in> set c" and "0xA \<notin> set q"
  shows "takeWhile (\<lambda>b. b \<noteq> 0xA) (rev c) = rev q" and "length q \<noteq> length (held @ c)"
proof -
  have "ls \<noteq> []" using assms by (metis Un_iff append_Nil set_append unlines_simps(1))
  then obtain ms l where ls: "ls = ms @ [l]" by (metis append_butlast_last_id)
  have "takeWhile (\<lambda>b. b \<noteq> 0xA) (rev c) = takeWhile (\<lambda>b. b \<noteq> 0xA) (rev c @ rev held)"
    using assms(2) by (intro takeWhile_append1 [symmetric, of "0xA"]) simp_all
  also have "rev c @ rev held = rev q @ 0xA # rev l @ rev (unlines ms)"
    using arg_cong [OF assms(1), of rev] ls by simp
  also have "takeWhile (\<lambda>b. b \<noteq> 0xA) \<dots> = rev q"
    using assms(3) by (subst takeWhile_append2) auto
  finally show "takeWhile (\<lambda>b. b \<noteq> 0xA) (rev c) = rev q" .
  show "length q \<noteq> length (held @ c)" unfolding assms(1) ls by simp
qed

lemma grep_newline_reads:
  assumes "held @ inp = unlines ls @ lst" and "0xA \<notin> set held"
    and "\<And>l. l \<in> set (lst # ls) \<Longrightarrow> 0xA \<notin> set l \<and> 0 \<notin> set l"
    and "newline_reads (length held) inp avs"
  shows "grep pattern held inp avs = unlines (filter (match pattern) ls)"
  using assms
proof (induction avs arbitrary: held inp ls)
  case Nil
  then have "inp = []" by (cases inp) auto
  then have "0xA \<notin> set (unlines ls)" using Nil.prems(1,2) by (metis Un_iff append_Nil2 set_append)
  then show ?case using unlines_no_nl by auto
next
  case (Cons av avs)
  let ?n = "min (min av (length inp)) (1023 - length held)" and ?nl = "\<lambda>b :: uchar. b \<noteq> 0xA"
  let ?c = "take ?n inp"
  have m: "1024 - length held - 1 = 1023 - length held" by simp
  show ?case
  proof (cases "inp = []")
    case True
    then have "0xA \<notin> set (unlines ls)" using Cons.prems(1,2) by (metis Un_iff append_Nil2 set_append)
    then show ?thesis using True unlines_no_nl by auto
  next
    case False
    have r: "?n = length inp \<or> 0xA \<in> set ?c \<and> newline_reads (length (takeWhile ?nl (rev ?c))) (drop ?n inp) avs"
      using Cons.prems(4) False by (cases inp) (simp_all add: Let_def)
    have n0: "?n \<noteq> 0" using r False by (metis empty_iff empty_set length_0_conv take_0)
    have "(held @ ?c) @ drop ?n inp = unlines ls @ lst" using Cons.prems(1) by simp
    then obtain ls1 ls2 q where s: "ls = ls1 @ ls2" "held @ ?c = unlines ls1 @ q" "0xA \<notin> set q" "q @ drop ?n inp = unlines ls2 @ lst"
      by (rule unlines_prefix) (use Cons.prems(3) in blast)
    have g: "grep_lines pattern (held @ ?c) = (unlines (filter (match pattern) ls1), q)"
      unfolding s(2) by (rule grep_lines_unlines) (use s Cons.prems(3) in auto)
    define held' where "held' = (if length q = length (held @ ?c) then [] else q)"
    have "grep pattern held' (drop ?n inp) avs = unlines (filter (match pattern) ls2)"
    proof (cases "?n = length inp")
      case True
      then have d: "drop ?n inp = []" by simp
      then have "0xA \<notin> set (unlines ls2)" using s(3,4) by (metis Un_iff append_Nil2 set_append)
      then show ?thesis using d unlines_no_nl by (cases avs) auto
    next
      case False
      note a = after_last_newline [OF s(2) _ s(3)]
      have "newline_reads (length q) (drop ?n inp) avs" "held' = q" using r False a by (auto simp: held'_def)
      moreover have "0xA \<notin> set l \<and> 0 \<notin> set l" if "l \<in> set (lst # ls2)" for l
        by (rule Cons.prems(3)) (use that s(1) in auto)
      ultimately show ?thesis using Cons.IH [OF s(4,3)] by blast
    qed
    then have "unlines (filter (match pattern) ls1) @ grep pattern held' (drop ?n inp) avs = unlines (filter (match pattern) ls)"
      using s(1) by simp
    then show ?thesis unfolding held'_def by (simp only: grep.simps Let_def m n0 if_False g prod.case)
  qed
qed

subsection \<open>Properties\<close>

text \<open>C24: The matcher decides the language of its pattern: a text matches when some part of it is a
  word of the pattern, at the beginning of the text under \<open>^\<close> and up to the end of it under a final
  \<open>$\<close>, where \<open>c*\<close> stands for any number of \<open>c\<close> and \<open>.\<close> for any character.\<close>

theorem match_decides_language:
  "match re ss \<longleftrightarrow>
     (let up = (re \<noteq> [] \<and> hd re = 0x5E); (is, end) = items (if up then tl re else re)
      in \<exists>u p s. ss = u @ p @ s \<and> words is p \<and> (up \<longrightarrow> u = []) \<and> (end \<longrightarrow> s = []))"
proof (cases "re \<noteq> [] \<and> hd re = 0x5E")
  case True
  then show ?thesis unfolding match_def matchhere_items pmatch_def by (simp add: Let_def split_beta)
next
  case False
  then have up: "(re \<noteq> [] \<and> hd re = 0x5E) = False" by blast
  have "match re ss \<longleftrightarrow> (\<exists>u v. ss = u @ v \<and> pmatch (items re) v)"
    using False by (auto simp: match_def match_from_iff matchhere_items)
  also have "\<dots> \<longleftrightarrow> (\<exists>u p s. ss = u @ p @ s \<and> words (fst (items re)) p \<and> (snd (items re) \<longrightarrow> s = []))"
    unfolding pmatch_def by blast
  finally show ?thesis unfolding up by (simp add: Let_def split_beta)
qed

theorem match_decides_language_witness:
  "match [0x61, 0x2A, 0x62, 0x24] [0x63, 0x61, 0x61, 0x62]
    \<and> (\<exists>u p s. [0x63, 0x61, 0x61, 0x62 :: uchar] = u @ p @ s \<and> words [Star 0x61, One 0x62] p \<and> s = [])"
  using match_decides_language [of "[0x61, 0x2A, 0x62, 0x24]" "[0x63, 0x61, 0x61, 0x62]"]
  by (simp add: match_def add_item_def)

text \<open>C25: On a file without zero bytes \<open>grep\<close> writes exactly the lines that match, in order and with their
  newlines, when every read that leaves part of the file unread brings a newline, in particular when
  every read ends at the end of a line; or when the lines are at most 1022 bytes long and every read
  gives as much as the buffer has room for, as it does for a file on disk. What follows the last newline
  is not written.\<close>

theorem grep_prints_matching_lines:
  assumes "inp = unlines ls @ lst"
    and "\<And>l. l \<in> set (lst # ls) \<Longrightarrow> 0xA \<notin> set l \<and> 0 \<notin> set l"
    and "newline_reads 0 inp avs
      \<or> (\<forall>l \<in> set (lst # ls). length l \<le> 1022) \<and> list_all (\<lambda>av. 1023 \<le> av) avs \<and> length inp < length avs"
  shows "grep pattern [] inp avs = unlines (filter (match pattern) ls)"
proof -
  have i: "[] @ inp = unlines ls @ lst" using assms(1) by simp
  from assms(3) show ?thesis
  proof
    assume "newline_reads 0 inp avs"
    then show ?thesis by (intro grep_newline_reads [OF i _ assms(2)]) simp_all
  next
    assume a: "(\<forall>l \<in> set (lst # ls). length l \<le> 1022) \<and> list_all (\<lambda>av. 1023 \<le> av) avs \<and> length inp < length avs"
    show ?thesis by (rule grep_held [OF i]) (use a assms(2) in auto)
  qed
qed

text \<open>The file is read line by line, and in reads that end inside a line.\<close>

theorem grep_prints_matching_lines_witness:
  "grep [0x61] [] [0x61, 0xA, 0x62, 0xA] [2, 2, 0] = [0x61, 0xA]
   \<and> grep [0x61] [] [0x62, 0xA, 0x62, 0x61, 0xA] [3, 2, 0] = [0x62, 0x61, 0xA]
   \<and> grep [0x61] [] [0x61, 0xA, 0x62, 0xA] (replicate 5 2000) = [0x61, 0xA]"
proof -
  have "grep [0x61] [] [0x61, 0xA, 0x62, 0xA] [2, 2, 0] = unlines (filter (match [0x61]) [[0x61], [0x62]])"
    by (rule grep_prints_matching_lines [where lst = "[]"]) (auto simp: Let_def)
  moreover have "grep [0x61] [] [0x62, 0xA, 0x62, 0x61, 0xA] [3, 2, 0] = unlines (filter (match [0x61]) [[0x62], [0x62, 0x61]])"
    by (rule grep_prints_matching_lines [where lst = "[]"]) (auto simp: Let_def)
  moreover have "grep [0x61] [] [0x61, 0xA, 0x62, 0xA] (replicate 5 2000) = unlines (filter (match [0x61]) [[0x61], [0x62]])"
    by (rule grep_prints_matching_lines [where lst = "[]"]) (auto simp: list_all_iff)
  ultimately show ?thesis by (simp add: match_def)
qed

text \<open>C26: When a \<open>read\<close> brings no newline, as a pipe may give a line in two parts, \<open>grep\<close> drops what it
  holds: the rest of the line is then taken for a whole line.\<close>

theorem grep_drops_split_line:
  assumes "0xA \<notin> set a" and "0xA \<notin> set b" and "0 \<notin> set b" and "0 < length a" and "length a \<le> 1022" and "length b \<le> 1022"
  shows "grep pattern [] (a @ b @ [0xA]) [length a, Suc (length b), 0] = (if match pattern b then b @ [0xA] else [])"
proof -
  have "grep_lines pattern a = ([], a)" by (subst grep_lines.simps) (simp add: strchr_nl_None assms(1))
  moreover have "grep_lines pattern (b @ [0xA]) = (unlines (filter (match pattern) [b]), [])"
    using grep_lines_unlines [of "[b]" "[]" pattern] assms(2,3) by simp
  ultimately show ?thesis using assms by (simp add: Let_def)
qed

theorem grep_drops_split_line_witness:
  "grep [0x5E, 0x62] [] ([0x61] @ [0x62] @ [0xA]) [1, 2, 0] = [0x62, 0xA]"
  using grep_drops_split_line [of "[0x61]" "[0x62]" "[0x5E, 0x62]"] by (simp add: match_def)

end
