(* ===== verification/Umalloc.thy ===== *)
theory Umalloc
  imports Prelude "HOL-Library.Monad_Syntax"
begin

section \<open>The user memory allocator (umalloc.c)\<close>

text \<open>
  The circular list of free blocks. The two fields of \<open>union header\<close> are two stores indexed by the
  address of the header, which is 8 bytes long; pointer arithmetic on headers wraps at 32 bits. The
  break of the process, as \<open>sbrk\<close> moves it, is part of the state; which calls of \<open>sbrk\<close> succeed is an
  input. The searches follow pointers until they come to what they look for and are partial
  functions, \<open>None\<close> being a search that never ends.
\<close>

record heap =
  h_ptr :: "uint \<Rightarrow> uint"
  h_size :: "uint \<Rightarrow> uint"
  h_base :: uint
  h_freep :: uint
  h_brk :: uint

subsection \<open>free\<close>

partial_function (option) free_find :: "heap \<Rightarrow> uint \<Rightarrow> uint \<Rightarrow> uint option" where
  "free_find h bp p =
     (if bp > p \<and> bp < h_ptr h p then Some p
      else if p \<ge> h_ptr h p \<and> (bp > p \<or> bp < h_ptr h p) then Some p
      else free_find h bp (h_ptr h p))"

definition set_ptr :: "uint \<Rightarrow> uint \<Rightarrow> heap \<Rightarrow> heap" where
  "set_ptr x y h = h\<lparr>h_ptr := (h_ptr h)(x := y)\<rparr>"

definition set_size :: "uint \<Rightarrow> uint \<Rightarrow> heap \<Rightarrow> heap" where
  "set_size x n h = h\<lparr>h_size := (h_size h)(x := n)\<rparr>"

definition free_join_up :: "uint \<Rightarrow> uint \<Rightarrow> heap \<Rightarrow> heap" where
  "free_join_up bp p h =
     (if bp + 8 * h_size h bp = h_ptr h p
      then let h = set_size bp (h_size h bp + h_size h (h_ptr h p)) h
           in set_ptr bp (h_ptr h (h_ptr h p)) h
      else set_ptr bp (h_ptr h p) h)"

definition free_join_down :: "uint \<Rightarrow> uint \<Rightarrow> heap \<Rightarrow> heap" where
  "free_join_down bp p h =
     (if p + 8 * h_size h p = bp
      then let h = set_size p (h_size h p + h_size h bp) h
           in set_ptr p (h_ptr h bp) h
      else set_ptr p bp h)"

definition free :: "uint \<Rightarrow> heap \<Rightarrow> heap option" where
  "free ap h =
     (let bp = ap - 8
      in Option.bind (free_find h bp (h_freep h)) (\<lambda>p.
         Some ((free_join_down bp p (free_join_up bp p h))\<lparr>h_freep := p\<rparr>)))"

subsection \<open>morecore and malloc\<close>

text \<open>
  What \<open>sbrk\<close> does to the break of the process, by \<open>sys_sbrk\<close>, \<open>growproc\<close>, \<open>allocuvm\<close> and
  \<open>deallocuvm\<close>; \<open>mem\<close> says whether there are pages for a growth. The first component is the
  address returned, all ones for an error.
\<close>

definition sbrk :: "bool \<Rightarrow> uint \<Rightarrow> uint \<Rightarrow> uint \<times> uint" where
  "sbrk mem n brk =
     (if sint n > 0 then
        if brk + n \<ge> 0x80000000 then (- 1, brk)
        else if brk + n < brk then (brk, brk)
        else if mem then (brk, brk + n) else (- 1, brk)
      else if sint n < 0 then
        if brk + n \<ge> brk then (if brk = 0 then (- 1, brk) else (brk, brk))
        else if brk + n = 0 then (- 1, brk) else (brk, brk + n)
      else (brk, brk))"

definition morecore :: "bool \<Rightarrow> uint \<Rightarrow> heap \<Rightarrow> (uint \<times> heap) option" where
  "morecore mem nu h =
     (let nu = (if nu < 4096 then 4096 else nu);
          (p, brk) = sbrk mem (nu * 8) (h_brk h);
          h = h\<lparr>h_brk := brk\<rparr>
      in if p = - 1 then Some (0, h)
         else Option.bind (free (p + 8) (set_size p nu h)) (\<lambda>h. Some (h_freep h, h)))"

definition malloc_take :: "uint \<Rightarrow> uint \<Rightarrow> uint \<Rightarrow> heap \<Rightarrow> uint \<times> heap" where
  "malloc_take nunits prevp p h =
     (let (p, h) =
        (if h_size h p = nunits then (p, set_ptr prevp (h_ptr h p) h)
         else let h = set_size p (h_size h p - nunits) h;
                  p = p + 8 * h_size h p
              in (p, set_size p nunits h))
      in (p + 8, h\<lparr>h_freep := prevp\<rparr>))"

partial_function (option) malloc_loop :: "bool list \<Rightarrow> uint \<Rightarrow> uint \<Rightarrow> uint \<Rightarrow> heap \<Rightarrow> (uint \<times> heap) option" where
  "malloc_loop oks nunits prevp p h =
     (if h_size h p \<ge> nunits then Some (malloc_take nunits prevp p h)
      else if p = h_freep h then
        Option.bind (morecore (oks \<noteq> [] \<and> hd oks) nunits h) (\<lambda>(q, h).
          if q = 0 then Some (0, h) else malloc_loop (tl oks) nunits q (h_ptr h q) h)
      else malloc_loop oks nunits p (h_ptr h p) h)"

definition malloc :: "uint \<Rightarrow> bool list \<Rightarrow> heap \<Rightarrow> (uint \<times> heap) option" where
  "malloc nbytes oks h =
     (let nunits = (nbytes + 8 - 1) div 8 + 1;
          h = (if h_freep h = 0 then set_size (h_base h) 0 (set_ptr (h_base h) (h_base h) (h\<lparr>h_freep := h_base h\<rparr>)) else h);
          prevp = h_freep h
      in malloc_loop oks nunits prevp (h_ptr h prevp) h)"

subsection \<open>Regions\<close>

definition blk_end :: "(uint \<Rightarrow> uint) \<Rightarrow> uint \<Rightarrow> nat" where
  "blk_end sz x = unat x + 8 * unat (sz x)"

definition apart :: "(uint \<Rightarrow> uint) \<Rightarrow> uint \<Rightarrow> uint \<Rightarrow> bool" where
  "apart sz x y \<longleftrightarrow> blk_end sz x \<le> unat y \<or> blk_end sz y \<le> unat x"

text \<open>The free blocks \<open>fs\<close> in address order and the blocks \<open>A\<close> in use are within the heap and disjoint.\<close>

definition regions :: "nat \<Rightarrow> nat \<Rightarrow> (uint \<Rightarrow> uint) \<Rightarrow> uint list \<Rightarrow> uint set \<Rightarrow> bool" where
  "regions lo hi sz fs A \<longleftrightarrow> sorted_wrt (\<lambda>x y. blk_end sz x \<le> unat y) fs
     \<and> (\<forall>x \<in> set fs \<union> A. lo \<le> unat x \<and> 0 < sz x \<and> blk_end sz x \<le> hi)
     \<and> (\<forall>x \<in> set fs. \<forall>a \<in> A. apart sz x a) \<and> (\<forall>a \<in> A. \<forall>b \<in> A. a \<noteq> b \<longrightarrow> apart sz a b)"

definition nonadj :: "(uint \<Rightarrow> uint) \<Rightarrow> uint list \<Rightarrow> bool" where
  "nonadj sz fs \<longleftrightarrow> (\<forall>x \<in> set fs. \<forall>y \<in> set fs. blk_end sz x \<noteq> unat y)"

lemma unat_hdr:
  fixes p n :: uint
  assumes "unat p + 8 * unat n < 2 ^ 32"
  shows "unat (p + 8 * n) = unat p + 8 * unat n"
proof -
  have "unat (8 * n) = 8 * unat n" using assms by (simp add: unat_word_ariths)
  then show ?thesis using assms by (simp add: unat_word_ariths)
qed

lemma blk_end_word:
  assumes "blk_end sz x \<le> hi" and "hi < 2 ^ 32"
  shows "unat (x + 8 * sz x) = blk_end sz x"
  using assms by (simp add: blk_end_def unat_hdr)

lemma blk_end_gt: "0 < sz x \<Longrightarrow> unat x < blk_end sz x"
  by (simp add: blk_end_def unat_gt_0)

lemma blk_end_upd: "blk_end (sz(y := n)) x = (if x = y then unat y + 8 * unat n else blk_end sz x)"
  by (simp add: blk_end_def)

lemma apart_neq: "0 < sz x \<Longrightarrow> apart sz x y \<Longrightarrow> 0 < sz y \<Longrightarrow> x \<noteq> y"
  using blk_end_gt by (fastforce simp: apart_def)

lemma apart_sym: "apart sz x y \<Longrightarrow> apart sz y x"
  by (auto simp: apart_def)

lemma regions_sorted: "regions lo hi sz fs A \<Longrightarrow> sorted_wrt (\<lambda>x y. unat x < unat y) fs"
  unfolding regions_def using blk_end_gt
  by (metis (mono_tags, lifting) UnI1 order_less_le_trans sorted_wrt_mono_rel)

lemma regions_distinct: "regions lo hi sz fs A \<Longrightarrow> distinct fs"
  using regions_sorted sorted_wrt_mono_rel [of fs "\<lambda>x y. unat x < unat y" "(\<noteq>)"] strict_sorted_iff
  by (metis (mono_tags, lifting) distinct_conv_nth nat_neq_iff sorted_wrt_nth_less)

lemma regions_disjoint: "regions lo hi sz fs A \<Longrightarrow> set fs \<inter> A = {}"
  unfolding regions_def using apart_neq by (metis UnI1 UnI2 disjoint_iff)

lemma regionsD:
  assumes "regions lo hi sz fs A"
  shows "x \<in> set fs \<Longrightarrow> a \<in> A \<Longrightarrow> apart sz x a" "a \<in> A \<Longrightarrow> b \<in> A \<Longrightarrow> a \<noteq> b \<Longrightarrow> apart sz a b"
    "x \<in> set fs \<union> A \<Longrightarrow> lo \<le> unat x \<and> 0 < sz x \<and> blk_end sz x \<le> hi"
  using assms unfolding regions_def by blast+

lemma sorted_cong:
  "(\<And>z. z \<in> set xs \<Longrightarrow> blk_end sz' z = blk_end sz z) \<Longrightarrow>
   sorted_wrt (\<lambda>x y. blk_end sz' x \<le> unat y) xs = sorted_wrt (\<lambda>x y. blk_end sz x \<le> unat y) xs"
  by (induction xs) auto

text \<open>A block in use becomes a free one.\<close>

lemma regions_release:
  assumes "regions lo hi sz (xs @ ys) A" and "bp \<in> A"
    and "\<And>x. x \<in> set xs \<Longrightarrow> unat x < unat bp" and "\<And>y. y \<in> set ys \<Longrightarrow> unat bp < unat y"
  shows "regions lo hi sz (xs @ bp # ys) (A - {bp})"
proof -
  have ap: "apart sz x bp" "0 < sz x" "0 < sz bp" if "x \<in> set (xs @ ys)" for x
    using assms(1,2) that by (auto simp: regions_def)
  have "blk_end sz x \<le> unat bp" if "x \<in> set xs" for x
    using ap [of x] that assms(3) [OF that] blk_end_gt [of sz bp] by (auto simp: apart_def)
  moreover have "blk_end sz bp \<le> unat y" if "y \<in> set ys" for y
    using ap [of y] that assms(4) [OF that] blk_end_gt [of sz y] by (auto simp: apart_def)
  ultimately show ?thesis
    using assms(1,2) unfolding regions_def by (auto simp: sorted_wrt_append apart_def)
qed

text \<open>Two free blocks that touch are joined.\<close>

lemma regions_join:
  assumes "regions lo hi sz (xs @ x # y # ys) A" and "blk_end sz x = unat y" and "hi < 2 ^ 32"
  defines "sz' \<equiv> sz(x := sz x + sz y)"
  shows "regions lo hi sz' (xs @ x # ys) A" and "blk_end sz' x = blk_end sz y" and "sz x \<le> sz x + sz y" and "sz y \<le> sz x + sz y"
proof -
  have b: "0 < sz x" "0 < sz y" "blk_end sz y \<le> hi" using assms(1) by (auto simp: regions_def)
  have "unat (sz x + sz y) = unat (sz x) + unat (sz y)"
    using assms(2,3) b(3) by (simp add: blk_end_def unat_word_ariths)
  then show "sz x \<le> sz x + sz y" "sz y \<le> sz x + sz y" and e: "blk_end sz' x = blk_end sz y"
    using assms(2) by (simp_all add: blk_end_def sz'_def word_le_nat_alt)
  have nx: "z \<noteq> x" if "z \<in> set xs \<union> set ys \<union> A" for z
    using that regions_distinct [OF assms(1)] regions_disjoint [OF assms(1)] by auto
  then have z: "blk_end sz' z = blk_end sz z" "sz' z = sz z" if "z \<in> set xs \<union> set ys \<union> A" for z
    using that by (auto simp: sz'_def blk_end_upd)
  have "0 < sz' x" using b(2) \<open>unat (sz x + sz y) = _\<close> by (simp add: sz'_def word_less_nat_alt)
  moreover have "apart sz' x a" if "a \<in> A" for a
  proof -
    have "apart sz x a" "apart sz y a" "0 < sz a" using assms(1) that by (auto simp: regions_def)
    then show ?thesis using e z(1) [of a] that assms(2) blk_end_gt [of sz a] blk_end_gt [of sz y] b by (auto simp: apart_def)
  qed
  moreover have "sorted_wrt (\<lambda>x y. blk_end sz' x \<le> unat y) (xs @ x # ys)"
    using assms(1) e z(1) sorted_cong [of xs sz' sz] sorted_cong [of ys sz' sz] unfolding regions_def
    by (auto simp: sorted_wrt_append)
  moreover have "lo \<le> unat x" using assms(1) by (simp add: regions_def)
  moreover have "apart sz' v a" if "v \<in> set xs \<union> set ys" "a \<in> A" for v a
    using regionsD(1) [OF assms(1), of v a] z(1) [of v] z(1) [of a] that by (auto simp: apart_def)
  moreover have "apart sz' v a" if "v \<in> A" "a \<in> A" "v \<noteq> a" for v a
    using regionsD(2) [OF assms(1) that] z(1) [of v] z(1) [of a] that by (simp add: apart_def)
  moreover have "lo \<le> unat v \<and> 0 < sz' v \<and> blk_end sz' v \<le> hi" if "v \<in> set xs \<union> set ys \<union> A" for v
    using regionsD(3) [OF assms(1), of v] z [of v] that by auto
  ultimately show "regions lo hi sz' (xs @ x # ys) A"
    using e b(3) regions_disjoint [OF assms(1)] unfolding regions_def by auto
qed

subsection \<open>The heap invariant and the searches\<close>

definition heap_ok :: "nat \<Rightarrow> uint set \<Rightarrow> uint list \<Rightarrow> heap \<Rightarrow> bool" where
  "heap_ok lo A fs h \<longleftrightarrow> path (h_ptr h) (h_base h) (h_base h # fs) (h_base h)
     \<and> h_freep h \<in> set (h_base h # fs) \<and> h_size h (h_base h) = 0 \<and> unat (h_base h) < lo \<and> h_base h \<noteq> 0
     \<and> regions lo (unat (h_brk h)) (h_size h) fs A \<and> nonadj (h_size h) fs \<and> lo \<le> unat (h_brk h)"

lemma heap_ok_freep: "heap_ok lo A fs h \<Longrightarrow> h_freep h \<noteq> 0"
  using regionsD(3) [of lo "unat (h_brk h)" "h_size h" fs A 0] unfolding heap_ok_def by auto

lemma path_nth: "path f x as y \<Longrightarrow> i < length as \<Longrightarrow> f (as ! i) = (as @ [y]) ! Suc i"
proof (induction as arbitrary: x i)
  case (Cons a as)
  show ?case
  proof (cases i)
    case 0
    then show ?thesis using Cons.prems by (cases as) auto
  next
    case (Suc j)
    then show ?thesis using Cons by auto
  qed
qed simp

lemma cycle_next:
  assumes "path f b (b # fs) b" and "i < length (b # fs)"
  shows "f ((b # fs) ! i) = (b # fs) ! (Suc i mod length (b # fs))"
  using path_nth [OF assms] assms(2) by (cases "Suc i = length (b # fs)") (auto simp: nth_append)

lemma heap_ok_sorted:
  assumes "heap_ok lo A fs h"
  shows "sorted_wrt (\<lambda>x y. x < y) (h_base h # fs)"
proof -
  have r: "regions lo (unat (h_brk h)) (h_size h) fs A" "unat (h_base h) < lo" using assms by (auto simp: heap_ok_def)
  have "\<forall>x \<in> set fs. unat (h_base h) < unat x" using regionsD(3) [OF r(1)] r(2) by (auto intro: order_less_le_trans)
  with regions_sorted [OF r(1)] show ?thesis by (simp add: word_less_nat_alt)
qed

text \<open>The search of \<open>free\<close> comes to the last block below the one to be freed, wherever it starts.\<close>

lemma free_find_finds:
  assumes path: "path (h_ptr h) b (b # fs) b" and sorted: "sorted_wrt (\<lambda>x y. x < y) (b # fs)"
    and j: "j < length (b # fs)" "(b # fs) ! j < bp" "\<And>k. j < k \<Longrightarrow> k < length (b # fs) \<Longrightarrow> bp < (b # fs) ! k"
    and i: "i < length (b # fs)"
  shows "free_find h bp ((b # fs) ! i) = Some ((b # fs) ! j)"
  using i
proof (induction "(j + length (b # fs) - i) mod length (b # fs)" arbitrary: i rule: less_induct)
  case less
  let ?ns = "b # fs" and ?n = "length (b # fs)"
  note nx = cycle_next [OF path less.prems]
  have lt: "?ns ! k < ?ns ! l" if "k < l" "l < ?n" for k l
    using sorted_wrt_nth_less [OF sorted that] .
  have bpj: "bp < ?ns ! k \<longleftrightarrow> j < k" if "k < ?n" for k
  proof (cases "j < k")
    case False
    then have "?ns ! k \<le> ?ns ! j" using lt [of k j] j(1) by (cases "k = j") auto
    then show ?thesis using j(2) False by auto
  qed (use j(3) that in auto)
  show ?case
  proof (cases "i = j")
    case True
    show ?thesis
    proof (cases "Suc j < ?n")
      case True
      then have "h_ptr h (?ns ! i) = ?ns ! Suc j" using nx \<open>i = j\<close> by simp
      then show ?thesis using \<open>i = j\<close> j(2) j(3) [of "Suc j"] True by (subst free_find.simps) simp
    next
      case False
      then have "h_ptr h (?ns ! i) = b" using nx \<open>i = j\<close> j(1) by (simp add: le_less_Suc_eq)
      moreover have "b \<le> ?ns ! j" using lt [of 0 j] j(1) by (cases "j = 0") auto
      ultimately show ?thesis using \<open>i = j\<close> j(2) by (subst free_find.simps) simp
    qed
  next
    case False
    have c1: "(bp > ?ns ! i \<and> bp < h_ptr h (?ns ! i)) = False"
    proof (rule iffI)
      assume a: "bp > ?ns ! i \<and> bp < h_ptr h (?ns ! i)"
      then have "\<not> j < i" "j < Suc i mod ?n" using bpj [OF less.prems] bpj [of "Suc i mod ?n"] nx by auto
      then show False using False by (metis Suc_leI less_SucE linorder_not_less mod_less_eq_dividend order_less_le_trans)
    qed simp
    have c2: "(?ns ! i \<ge> h_ptr h (?ns ! i) \<and> (bp > ?ns ! i \<or> bp < h_ptr h (?ns ! i))) = False"
    proof (rule iffI)
      assume a: "?ns ! i \<ge> h_ptr h (?ns ! i) \<and> (bp > ?ns ! i \<or> bp < h_ptr h (?ns ! i))"
      have l: "Suc i = ?n" using a nx lt [of i "Suc i"] less.prems by (metis Suc_lessI leD lessI mod_less)
      then have "h_ptr h (?ns ! i) = ?ns ! 0" using nx by simp
      then have "bp > ?ns ! i" using a bpj [of 0] by auto
      then show False using bpj [OF less.prems] False l j(1) by auto
    qed simp
    have "free_find h bp (?ns ! (Suc i mod ?n)) = Some (?ns ! j)"
    proof (rule less.hyps)
      show "(j + ?n - Suc i mod ?n) mod ?n < (j + ?n - i) mod ?n"
        using False less.prems j(1)
        by (cases "Suc i = ?n"; cases "i < j") (auto simp: mod_if)
    qed simp
    then have "free_find h bp (h_ptr h (?ns ! i)) = Some (?ns ! j)" unfolding nx .
    then show ?thesis by (subst free_find.simps) (simp only: c1 c2 if_False)
  qed
qed

subsection \<open>free keeps the invariant\<close>

lemma path_last: "path f x (as @ [p]) y \<Longrightarrow> f p = y"
  by simp

lemma path_link:
  assumes "path f b (as @ [p]) z" and "path f c cs d" and "p \<notin> set as" and "p \<notin> set cs"
  shows "path (f(p := c)) b (as @ [p] @ cs) d"
  using assms by simp

lemma sorted_end_last:
  assumes "regions lo hi sz (xs @ bp # ys) A" and "x \<in> set xs" and "blk_end sz x = unat bp"
  shows "x = last xs"
proof (rule ccontr)
  assume n: "x \<noteq> last xs"
  have "xs \<noteq> []" using assms(2) by auto
  then obtain us p where us: "xs = us @ [p]" by (metis append_butlast_last_id)
  then have "x \<in> set us" using assms(2) n by auto
  then have "blk_end sz x \<le> unat p" "blk_end sz p \<le> unat bp" "0 < sz p"
    using assms(1) us by (auto simp: regions_def sorted_wrt_append)
  then show False using blk_end_gt [of sz p] assms(3) by simp
qed

lemma sorted_end_hd:
  assumes "regions lo hi sz (xs @ bp # ys) A" and "y \<in> set ys" and "blk_end sz bp = unat y"
  shows "ys \<noteq> [] \<and> y = hd ys"
proof (cases ys)
  case (Cons z zs)
  have "y = z"
  proof (rule ccontr)
    assume "y \<noteq> z"
    then have "blk_end sz z \<le> unat y" "blk_end sz bp \<le> unat z" "0 < sz z"
      using assms(1,2) Cons by (auto simp: regions_def sorted_wrt_append)
    then show False using blk_end_gt [of sz z] assms(3) by simp
  qed
  then show ?thesis using Cons by simp
qed (use assms(2) in simp)

definition half_linked :: "nat \<Rightarrow> uint set \<Rightarrow> uint list \<Rightarrow> uint \<Rightarrow> uint list \<Rightarrow> heap \<Rightarrow> bool" where
  "half_linked lo A xs bp ys h \<longleftrightarrow> path (h_ptr h) (h_base h) (h_base h # xs) (h_ptr h (last (h_base h # xs)))
     \<and> path (h_ptr h) bp (bp # ys) (h_base h)
     \<and> regions lo (unat (h_brk h)) (h_size h) (xs @ bp # ys) A
     \<and> (\<forall>x \<in> set (xs @ bp # ys). \<forall>y \<in> set (xs @ ys). blk_end (h_size h) x \<noteq> unat y)
     \<and> h_size h (h_base h) = 0 \<and> unat (h_base h) < lo \<and> h_base h \<noteq> 0 \<and> lo \<le> unat (h_brk h)"

lemma path_end: "path f x as y \<Longrightarrow> as \<noteq> [] \<Longrightarrow> f (last as) = y"
  by (induction as arbitrary: x) auto

lemma path_snoc_last:
  assumes "path f b (b # xs @ ys) b"
  shows "path f b (b # xs) (f (last (b # xs)))" and "f (last (b # xs)) = hd (ys @ [b])" and "path f (f (last (b # xs))) ys b"
proof -
  from assms have "path f b ((b # xs) @ ys) b" by simp
  then obtain z where z: "path f b (b # xs) z" "path f z ys b" unfolding path_append by blast
  have e: "f (last (b # xs)) = z" by (rule path_end [OF z(1)]) simp
  show "path f b (b # xs) (f (last (b # xs)))" "path f (f (last (b # xs))) ys b" unfolding e by (rule z)+
  show "f (last (b # xs)) = hd (ys @ [b])" unfolding e using z(2) by (cases ys) auto
qed

lemma join_up_half_linked:
  assumes ok: "heap_ok lo A (xs @ ys) h" and bp: "bp \<in> A"
    and apart: "\<forall>x \<in> set xs. unat x < unat bp" "\<forall>y \<in> set ys. unat bp < unat y"
  defines "h' \<equiv> free_join_up bp (last (h_base h # xs)) h"
  shows "\<exists>zs. half_linked lo (A - {bp}) xs bp zs h' \<and> h_size h bp \<le> h_size h' bp" and "\<And>a. a \<in> A - {bp} \<Longrightarrow> h_size h' a = h_size h a"
    and "h_base h' = h_base h" and "h_brk h' = h_brk h" and "h_freep h' = h_freep h" and "h_ptr h' (last (h_base h # xs)) = h_ptr h (last (h_base h # xs))"
proof -
  let ?b = "h_base h" and ?p = "last (h_base h # xs)" and ?f = "h_ptr h" and ?sz = "h_size h"
  have lt: "x \<in> set xs \<Longrightarrow> unat x < unat bp" "y \<in> set ys \<Longrightarrow> unat bp < unat y" for x y using apart by auto
  note o = ok [unfolded heap_ok_def]
  have reg: "regions lo (unat (h_brk h)) ?sz (xs @ bp # ys) (A - {bp})"
    by (rule regions_release) (use o bp lt in auto)
  have nb: "x \<noteq> bp" if "x \<in> set (?b # xs @ ys)" for x
    using that lt o bp regionsD(3) [of lo _ ?sz "xs @ ys" A bp] by auto
  note sp = path_snoc_last [OF o [THEN conjunct1]]
  note nx = sp(2) and p1 = sp(1,3)
  have bpe: "unat (bp + 8 * ?sz bp) = blk_end ?sz bp"
    using regionsD(3) [OF reg, of bp] by (intro blk_end_word [OF _ unat_lt_2p32 [of "h_brk h"]]) auto
  have pin: "?p \<in> set (?b # xs)" by (rule last_in_set) simp
  have pnb: "?p \<noteq> bp" using nb pin by auto
  have up: "path (?f(bp := v)) ?b (?b # xs) w = path ?f ?b (?b # xs) w" for v w
    by (rule path_upd) (use nb in auto)
  have link: "path (?f(bp := v)) ?b (?b # xs) ((?f(bp := v)) ?p)" for v
    unfolding up using p1(1) pnb by simp
  have ob: "?sz ?b = 0" "unat ?b < lo" "?b \<noteq> 0" "lo \<le> unat (h_brk h)" "nonadj ?sz (xs @ ys)" using o by simp_all
  have upy: "path (?f(bp := v)) c cs d = path ?f c cs d" if "set cs \<subseteq> set ys" for v c cs d
    by (rule path_upd) (use that nb in auto)
  show "\<exists>zs. half_linked lo (A - {bp}) xs bp zs h' \<and> ?sz bp \<le> h_size h' bp"
  proof (cases "bp + 8 * ?sz bp = ?f ?p")
    case True
    have "ys \<noteq> []"
    proof
      assume "ys = []"
      then have "bp + 8 * ?sz bp = ?b" using True nx by simp
      then show False using bpe o regionsD(3) [OF reg, of bp] blk_end_gt [of ?sz bp] by auto
    qed
    then obtain y zs where ys: "ys = y # zs" by (cases ys) auto
    have e: "blk_end ?sz bp = unat y" using True nx ys bpe by simp
    have fy: "path ?f (?f y) zs ?b" using p1(2) ys nx by simp
    have ybp: "y \<noteq> bp" using nb ys by auto
    define sz' where "sz' = ?sz(bp := ?sz bp + ?sz y)"
    have h': "h' = h\<lparr>h_size := sz', h_ptr := ?f(bp := ?f y)\<rparr>"
      using True nx ys ybp by (simp add: h'_def free_join_up_def set_size_def set_ptr_def Let_def sz'_def)
    have r': "regions lo (unat (h_brk h)) sz' (xs @ bp # zs) (A - {bp})" "blk_end sz' bp = blk_end ?sz y" "?sz bp \<le> sz' bp"
      using regions_join [of lo "unat (h_brk h)" ?sz xs bp y zs, OF _ e unat_lt_2p32] reg ys by (auto simp: sz'_def)
    have "blk_end sz' x = blk_end ?sz (if x = bp then y else x)" for x
      using r'(2) by (simp add: sz'_def blk_end_upd)
    then have "blk_end sz' x \<noteq> unat z" if "x \<in> set (xs @ bp # zs)" "z \<in> set (xs @ zs)" for x z
      using o that ys unfolding nonadj_def by auto
    moreover have "path (?f(bp := ?f y)) bp (bp # zs) ?b" using upy [of zs] fy ys by auto
    moreover have "sz' ?b = 0" using ob nb by (auto simp: sz'_def)
    ultimately have "half_linked lo (A - {bp}) xs bp zs h'"
      unfolding half_linked_def h' using ob r'(1) link by simp
    then show ?thesis using r'(3) h' by auto
  next
    case False
    have h': "h' = h\<lparr>h_ptr := ?f(bp := ?f ?p)\<rparr>"
      using False by (simp add: h'_def free_join_up_def set_ptr_def)
    have ne: "blk_end ?sz bp \<noteq> unat z" if "z \<in> set (xs @ ys)" for z
    proof
      assume e: "blk_end ?sz bp = unat z"
      have "z \<in> set ys" using that e lt(1) [of z] regionsD(3) [OF reg, of bp] blk_end_gt [of ?sz bp] by auto
      then have "z = ?f ?p" using sorted_end_hd [OF reg _ e] nx by (cases ys) auto
      then show False using False e bpe by (metis word_unat_eq_iff)
    qed
    have "blk_end ?sz x \<noteq> unat z" if "x \<in> set (xs @ bp # ys)" "z \<in> set (xs @ ys)" for x z
      using ne ob(5) that unfolding nonadj_def by auto
    moreover have "path (?f(bp := ?f ?p)) bp (bp # ys) ?b" using upy [of ys] p1(2) by simp
    ultimately have "half_linked lo (A - {bp}) xs bp ys h'"
      unfolding half_linked_def h' using ob reg link pnb by (simp del: last.simps path.simps)
    then show ?thesis using h' by auto
  qed
  show "h_base h' = ?b" "h_brk h' = h_brk h" "h_freep h' = h_freep h"
    by (simp_all add: h'_def free_join_up_def set_size_def set_ptr_def Let_def)
  show "h_ptr h' ?p = ?f ?p"
    using pnb unfolding h'_def free_join_up_def set_size_def set_ptr_def Let_def by (simp del: last.simps)
  show "h_size h' a = ?sz a" if "a \<in> A - {bp}" for a
    using that by (auto simp: h'_def free_join_up_def set_size_def set_ptr_def Let_def)
qed

lemma join_down_heap_ok:
  assumes hl: "half_linked lo A xs bp ys h"
  defines "h' \<equiv> free_join_down bp (last (h_base h # xs)) h"
  shows "\<exists>fs. heap_ok lo A fs (h'\<lparr>h_freep := last (h_base h # xs)\<rparr>) \<and> (\<exists>z \<in> set fs. h_size h bp \<le> h_size h' z)" and "\<And>a. a \<in> A \<Longrightarrow> h_size h' a = h_size h a"
    and "h_base h' = h_base h" and "h_brk h' = h_brk h"
proof -
  let ?b = "h_base h" and ?p = "last (h_base h # xs)" and ?f = "h_ptr h" and ?sz = "h_size h"
  note o = hl [unfolded half_linked_def]
  have reg: "regions lo (unat (h_brk h)) ?sz (xs @ bp # ys) A" using o by simp
  have bx: "?b \<notin> set (xs @ bp # ys) \<union> A" using regionsD(3) [OF reg] o by fastforce
  have d: "distinct (xs @ bp # ys)" "set (xs @ bp # ys) \<inter> A = {}" using regions_distinct regions_disjoint reg by blast+
  have pin: "?p \<in> set (?b # xs)" by (rule last_in_set) simp
  have pA: "?p \<notin> A" using pin bx d by auto
  obtain as where as: "?b # xs = as @ [?p]" by (metis append_butlast_last_id list.distinct(1))
  have dd: "distinct (?b # xs @ bp # ys)" using d bx by auto
  have pas: "?p \<notin> set as" "?p \<notin> set (bp # ys)" using dd as pin by (metis Cons_eq_appendI disjoint_iff distinct_append not_distinct_conv_prefix)+
  show "h_base h' = ?b" "h_brk h' = h_brk h"
    by (auto simp: h'_def free_join_down_def set_size_def set_ptr_def Let_def)
  show "h_size h' a = ?sz a" if "a \<in> A" for a
    using that pA by (auto simp: h'_def free_join_down_def set_size_def set_ptr_def Let_def)
  show "\<exists>fs. heap_ok lo A fs (h'\<lparr>h_freep := ?p\<rparr>) \<and> (\<exists>z \<in> set fs. ?sz bp \<le> h_size h' z)"
  proof (cases "?p + 8 * ?sz ?p = bp")
    case True
    have "xs \<noteq> []" using True bx o by auto
    then obtain us q where us: "xs = us @ [q]" by (metis append_butlast_last_id)
    have pq: "?p = q" using us by simp
    have px: "q \<in> set (xs @ bp # ys)" using us by simp
    then have e: "blk_end ?sz q = unat bp"
      using blk_end_word [of ?sz q "unat (h_brk h)"] regionsD(3) [OF reg, of q] True unat_lt_2p32 pq by auto
    define sz' where "sz' = ?sz(q := ?sz q + ?sz bp)"
    have h': "h' = h\<lparr>h_size := sz', h_ptr := ?f(q := ?f bp)\<rparr>"
      using True pas(2) unfolding h'_def pq by (auto simp: free_join_down_def set_size_def set_ptr_def Let_def sz'_def)
    have r': "regions lo (unat (h_brk h)) sz' (us @ q # ys) A" "blk_end sz' q = blk_end ?sz bp" "?sz bp \<le> sz' q"
      using regions_join [of lo "unat (h_brk h)" ?sz us q bp ys A, OF _ e unat_lt_2p32] reg us by (auto simp: sz'_def)
    have be: "blk_end sz' x = blk_end ?sz (if x = q then bp else x)" for x
      using r'(2) by (simp add: sz'_def blk_end_upd)
    have ne: "blk_end ?sz x \<noteq> unat z" if "x \<in> set (us @ q # bp # ys)" "z \<in> set (us @ q # ys)" for x z
      using o that us by auto
    have "nonadj sz' (us @ q # ys)" unfolding nonadj_def be using ne by auto
    moreover have "path (?f(q := ?f bp)) ?b (?b # us @ q # ys) ?b"
    proof -
      have "path ?f (?f bp) ys ?b" using o by simp
      then show ?thesis using path_link [of ?f ?b as q "?f q" "?f bp" ys ?b] o as pas us pq by auto
    qed
    moreover have "sz' ?b = 0" using bx px o by (auto simp: sz'_def)
    ultimately have "heap_ok lo A (us @ q # ys) (h'\<lparr>h_freep := ?p\<rparr>)"
      unfolding heap_ok_def h' pq using o r'(1) by auto
    then show ?thesis using r'(3) h' by (intro exI [of _ "us @ q # ys"] conjI bexI [of _ q]) auto
  next
    case False
    have h': "h' = h\<lparr>h_ptr := ?f(?p := bp)\<rparr>" using False by (simp add: h'_def free_join_down_def set_ptr_def)
    have ne: "blk_end ?sz x \<noteq> unat bp" if "x \<in> set (xs @ bp # ys)" for x
    proof
      assume e: "blk_end ?sz x = unat bp"
      have x: "0 < ?sz x" "blk_end ?sz x \<le> unat (h_brk h)" using regionsD(3) [OF reg, of x] that by auto
      have "x \<in> set xs" using that e reg blk_end_gt [of ?sz x] x(1) by (auto simp: regions_def sorted_wrt_append blk_end_def)
      then have "x = ?p" using sorted_end_last [OF reg _ e] by auto
      then have "unat (?p + 8 * ?sz ?p) = unat bp" using e blk_end_word [OF x(2) unat_lt_2p32] by (simp only:)
      then show False using False by (simp only: word_unat_eq_iff)
    qed
    have "path ?f ?b (as @ [?p]) (?f ?p)" using o unfolding as [symmetric] by blast
    moreover have "path ?f bp (bp # ys) ?b" using o by blast
    ultimately have "path (?f(?p := bp)) ?b (as @ [?p] @ bp # ys) ?b" by (rule path_link) (rule pas)+
    then have "path (?f(?p := bp)) ?b (?b # xs @ bp # ys) ?b"
      using as by (metis append_Cons append_assoc)
    then have "heap_ok lo A (xs @ bp # ys) (h'\<lparr>h_freep := ?p\<rparr>)"
      unfolding heap_ok_def h' using o ne pin unfolding nonadj_def by auto
    then show ?thesis using h' by (intro exI [of _ "xs @ bp # ys"] conjI bexI [of _ bp]) auto
  qed
qed

lemma free_spec:
  assumes ok: "heap_ok lo A fs h" and bp: "bp \<in> A"
  shows "\<exists>h' fs'. free (bp + 8) h = Some h' \<and> heap_ok lo (A - {bp}) fs' h' \<and> (\<forall>a \<in> A - {bp}. h_size h' a = h_size h a)
    \<and> h_base h' = h_base h \<and> h_brk h' = h_brk h \<and> (\<exists>z \<in> set fs'. h_size h bp \<le> h_size h' z)"
proof -
  let ?b = "h_base h" and ?xs = "takeWhile (\<lambda>x. x < bp) fs" and ?ys = "dropWhile (\<lambda>x. x < bp) fs"
  let ?p = "last (h_base h # ?xs)"
  note o = ok [unfolded heap_ok_def]
  have reg: "regions lo (unat (h_brk h)) (h_size h) fs A" using o by simp
  have sorted: "sorted_wrt (\<lambda>x y. x < y) (?b # fs)" by (rule heap_ok_sorted [OF ok])
  have bpf: "bp \<notin> set fs" "?b < bp" using regions_disjoint [OF reg] bp regionsD(3) [OF reg, of bp] o by (auto simp: word_less_nat_alt)
  have lo: "x < bp" if "x \<in> set ?xs" for x using that by (auto dest: set_takeWhileD)
  have hi: "bp < y" if y: "y \<in> set ?ys" for y
  proof (cases ?ys)
    case (Cons z zs)
    have "\<not> z < bp" using Cons by (metis dropWhile_eq_Cons_conv)
    moreover have "z \<noteq> bp" using Cons bpf by (metis list.set_intros(1) set_dropWhileD)
    moreover have "z \<le> y" using sorted y Cons by (metis dual_order.eq_iff list.simps(15) insertE order_less_imp_le sorted_wrt.simps(2) sorted_wrt_append takeWhile_dropWhile_id)
    ultimately show ?thesis by simp
  next
    case Nil
    then show ?thesis using y unfolding Nil by simp
  qed
  have fs: "fs = ?xs @ ?ys" by simp
  have j: "(?b # fs) ! length ?xs = ?p"
    by (metis append_Cons fs last_conv_nth length_Cons lessI list.distinct(1) nth_append diff_Suc_1)
  obtain i where i: "i < length (?b # fs)" "(?b # fs) ! i = h_freep h" using o by (metis in_set_conv_nth)
  have "free_find h bp ((?b # fs) ! i) = Some ((?b # fs) ! length ?xs)"
  proof (rule free_find_finds [OF o [THEN conjunct1] sorted _ _ _ i(1)])
    show "length ?xs < length (?b # fs)" by (simp add: le_imp_less_Suc length_takeWhile_le)
    show "(?b # fs) ! length ?xs < bp" unfolding j using lo bpf(2) by simp
    show "bp < (?b # fs) ! k" if k: "length ?xs < k" "k < length (?b # fs)" for k
    proof -
      obtain m where m: "k = Suc m" "length ?xs \<le> m" "m < length fs" using k by (cases k) auto
      have "drop (length ?xs) fs ! (m - length ?xs) \<in> set (drop (length ?xs) fs)" using m by (intro nth_mem) simp
      then have "(?b # fs) ! k \<in> set ?ys" using m by (simp add: dropWhile_eq_drop)
      then show ?thesis by (rule hi)
    qed
  qed
  then have f: "free (bp + 8) h = Some ((free_join_down bp ?p (free_join_up bp ?p h))\<lparr>h_freep := ?p\<rparr>)"
    unfolding i(2) j by (simp add: free_def Let_def del: last.simps)
  have ok': "heap_ok lo A (?xs @ ?ys) h" using ok by simp
  have lo': "\<forall>x \<in> set ?xs. unat x < unat bp" using lo by (simp only: word_less_nat_alt) blast
  have hi': "\<forall>y \<in> set ?ys. unat bp < unat y" using hi by (simp only: word_less_nat_alt) blast
  note u = join_up_half_linked [OF ok' bp lo' hi']
  let ?h1 = "free_join_up bp ?p h"
  obtain zs where zs: "half_linked lo (A - {bp}) ?xs bp zs ?h1" "h_size h bp \<le> h_size ?h1 bp" using u(1) by blast
  have b1: "h_base ?h1 = ?b" by (rule u(3))
  note d = join_down_heap_ok [OF zs(1)]
  have d1: "\<exists>fs. heap_ok lo (A - {bp}) fs ((free_join_down bp ?p ?h1)\<lparr>h_freep := ?p\<rparr>)
      \<and> (\<exists>z \<in> set fs. h_size ?h1 bp \<le> h_size (free_join_down bp ?p ?h1) z)"
    using d(1) unfolding b1 .
  have d2: "h_size (free_join_down bp ?p ?h1) a = h_size h a" if "a \<in> A - {bp}" for a
    using d(2) [OF that] u(2) [OF that] unfolding b1 by simp
  have d3: "h_base (free_join_down bp ?p ?h1) = ?b" "h_brk (free_join_down bp ?p ?h1) = h_brk h"
    using d(3,4) u(4) unfolding b1 by simp_all
  obtain gs z where "heap_ok lo (A - {bp}) gs ((free_join_down bp ?p ?h1)\<lparr>h_freep := ?p\<rparr>)" "z \<in> set gs"
    "h_size ?h1 bp \<le> h_size (free_join_down bp ?p ?h1) z" using d1 by blast
  then show ?thesis unfolding f using d2 d3 zs(2)
    by (intro exI [of _ "(free_join_down bp ?p ?h1)\<lparr>h_freep := ?p\<rparr>"] exI [of _ gs] conjI)
      (auto simp del: last.simps intro!: bexI [of _ z])
qed

lemma sint_of_small: "unat (n :: uint) < 2 ^ 31 \<Longrightarrow> sint n = int (unat n)"
proof -
  assume n: "unat n < 2 ^ 31"
  have a: "- (2 ^ 31) \<le> int (unat n)" "int (unat n) < 2 ^ 31" by (rule order_trans [OF _ of_nat_0_le_iff], simp) (use n in \<open>simp add: of_nat_less_iff [symmetric, where ?'a = int] del: of_nat_less_iff\<close>)
  have "sint (word_of_int (int (unat n)) :: uint) = int (unat n)"
    unfolding sint_sbintrunc' using signed_take_bit_int_eq_self [OF a] by simp
  then show ?thesis by simp
qed

lemma sbrk_grows:
  assumes "0 < unat n" and "unat n < 2 ^ 31" and "unat brk < 2 ^ 31"
  shows "sbrk mem n brk = (- 1, brk) \<and> (\<not> mem \<or> 2 ^ 31 \<le> unat brk + unat n)
    \<or> sbrk mem n brk = (brk, brk + n) \<and> unat (brk + n) = unat brk + unat n \<and> unat brk + unat n < 2 ^ 31 \<and> brk \<noteq> - 1"
proof -
  have s: "sint n > 0" using assms(1) unfolding sint_of_small [OF assms(2)] by linarith
  have b: "unat (brk + n) = unat brk + unat n" using assms by (simp add: unat_word_ariths)
  have "unat (- 1 :: uint) = 4294967295" by (simp add: unsigned_minus_1_eq_mask mask_eq_exp_minus_1)
  then have m: "brk \<noteq> - 1" using assms(3) by auto
  show ?thesis using s b m assms(3) by (auto simp: sbrk_def word_le_nat_alt word_less_nat_alt)
qed

lemma morecore_spec:
  fixes h :: heap and nu :: uint
  defines "nu' \<equiv> if nu < 4096 then 4096 else nu"
  assumes ok: "heap_ok lo A fs h" and room: "unat (h_brk h) + 8 * unat nu' < 2 ^ 32"
    and sb: "sbrk mem (nu' * 8) (h_brk h) = (h_brk h, h_brk h + nu' * 8)" "h_brk h \<noteq> - 1"
  shows "\<exists>h' fs'. morecore mem nu h = Some (h_freep h', h') \<and> heap_ok lo A fs' h' \<and> (\<forall>a \<in> A. h_size h' a = h_size h a)
    \<and> h_base h' = h_base h \<and> h_brk h' = h_brk h + nu' * 8 \<and> (\<exists>z \<in> set fs'. nu \<le> h_size h' z) \<and> h_freep h' \<noteq> 0"
proof -
  let ?k = "h_brk h"
  let ?h = "set_size ?k nu' (h\<lparr>h_brk := ?k + nu' * 8\<rparr>)"
  note o = ok [unfolded heap_ok_def]
  have reg: "regions lo (unat ?k) (h_size h) fs A" using o by simp
  have old: "unat x < unat ?k" if "x \<in> set fs \<union> A" for x
    using regionsD(3) [OF reg that] blk_end_gt [of "h_size h" x] by simp
  have n0: "0 < nu'" "nu \<le> nu'" unfolding nu'_def by (auto simp: word_gt_0)
  have k: "unat (?k + nu' * 8) = unat ?k + 8 * unat nu'" using unat_hdr [OF room] by (simp add: mult.commute)
  have same: "((h_size h)(?k := nu')) x = h_size h x" "blk_end ((h_size h)(?k := nu')) x = blk_end (h_size h) x" if "x \<in> set fs \<union> A" for x
    using old [OF that] by (auto simp: blk_end_def)
  have new: "blk_end ((h_size h)(?k := nu')) ?k = unat ?k + 8 * unat nu'" by (simp add: blk_end_def)
  have "regions lo (unat (?k + nu' * 8)) ((h_size h)(?k := nu')) fs (insert ?k A)"
    unfolding regions_def
  proof (intro conjI ballI impI)
    show "sorted_wrt (\<lambda>x y. blk_end ((h_size h)(?k := nu')) x \<le> unat y) fs"
      using sorted_cong [of fs "(h_size h)(?k := nu')" "h_size h", OF same(2)] reg by (simp add: regions_def)
  next
    fix x assume "x \<in> set fs \<union> insert ?k A"
    then consider "x = ?k" | "x \<in> set fs \<union> A" by auto
    then show "lo \<le> unat x" "0 < ((h_size h)(?k := nu')) x" "blk_end ((h_size h)(?k := nu')) x \<le> unat (?k + nu' * 8)"
      using o n0 new k same [of x] regionsD(3) [OF reg, of x] by (cases; simp)+
  next
    fix x a assume xa: "x \<in> set fs" "a \<in> insert ?k A"
    have "blk_end (h_size h) x \<le> unat ?k" using regionsD(3) [OF reg, of x] xa by simp
    then show "apart ((h_size h)(?k := nu')) x a"
      using xa regionsD(1) [OF reg xa(1), of a] same(2) [of x] same(2) [of a] by (auto simp: apart_def simp del: fun_upd_apply)
  next
    fix a b assume ab: "a \<in> insert ?k A" "b \<in> insert ?k A" "a \<noteq> b"
    have "blk_end (h_size h) x \<le> unat ?k" if "x \<in> A" for x using regionsD(3) [OF reg, of x] that by simp
    then show "apart ((h_size h)(?k := nu')) a b"
      using ab regionsD(2) [OF reg, of a b] same(2) [of a] same(2) [of b] by (auto simp: apart_def simp del: fun_upd_apply)
  qed
  moreover have "nonadj ((h_size h)(?k := nu')) fs" using o same by (auto simp: nonadj_def simp del: fun_upd_apply)
  ultimately have ok1: "heap_ok lo (insert ?k A) fs ?h"
    using o k unfolding heap_ok_def set_size_def by auto
  obtain h' fs' where f: "free (?k + 8) ?h = Some h'" "heap_ok lo (insert ?k A - {?k}) fs' h'"
    "\<forall>a \<in> insert ?k A - {?k}. h_size h' a = h_size ?h a" "h_base h' = h_base ?h" "h_brk h' = h_brk ?h" "\<exists>z \<in> set fs'. h_size ?h ?k \<le> h_size h' z"
    using free_spec [OF ok1, of ?k] by blast
  have kA: "insert ?k A - {?k} = A" using old by auto
  have "h_freep h' \<noteq> 0" by (rule heap_ok_freep [OF f(2)])
  moreover have "morecore mem nu h = Some (h_freep h', h')"
    using f(1) sb by (simp add: morecore_def nu'_def [symmetric] Let_def)
  ultimately show ?thesis using f kA n0 old by (fastforce simp: set_size_def intro: order_trans)
qed

subsection \<open>malloc keeps the invariant\<close>

lemma regions_take:
  assumes "regions lo hi sz (us @ p # vs) A"
  shows "regions lo hi sz (us @ vs) (insert p A)"
proof -
  have "apart sz x p" if "x \<in> set us \<union> set vs" for x
    using assms that by (auto simp: regions_def sorted_wrt_append apart_def)
  then show ?thesis using assms unfolding regions_def
    by (auto simp: sorted_wrt_append apart_def)
qed

lemma regions_split:
  assumes reg: "regions lo hi sz (us @ p # vs) A" and n: "0 < n" "n < sz p" and hi: "hi < 2 ^ 32"
  defines "q \<equiv> p + 8 * (sz p - n)"
  defines "sz' \<equiv> sz(p := sz p - n, q := n)"
  shows "regions lo hi sz' (us @ p # vs) (insert q A)" and "q \<notin> A" and "q \<notin> set (us @ p # vs)" and "unat p < unat q"
    and "blk_end sz' p = unat q"
proof -
  let ?fs = "us @ p # vs"
  have p: "lo \<le> unat p" "blk_end sz p \<le> hi" using regionsD(3) [OF reg, of p] by auto
  have m: "unat (sz p - n) = unat (sz p) - unat n" using n(2) by (simp add: unat_sub word_le_nat_alt word_less_nat_alt)
  have un: "unat n < unat (sz p)" "0 < unat n" using n by (simp_all add: word_less_nat_alt)
  have uq: "unat q = unat p + 8 * (unat (sz p) - unat n)"
    unfolding q_def using p(2) hi m by (subst unat_hdr) (auto simp: blk_end_def)
  show pq: "unat p < unat q" using uq un by simp
  have q_end: "unat q + 8 * unat n = blk_end sz p" using uq un by (simp add: blk_end_def)
  have nq: "x \<noteq> q" if "x \<in> set us \<union> set vs \<union> A" for x
  proof
    assume "x = q"
    then have "apart sz p q" "0 < sz q" using that reg by (auto simp: regions_def sorted_wrt_append apart_def)
    then show False using pq q_end un blk_end_gt [of sz q] by (auto simp: apart_def)
  qed
  then show "q \<notin> A" "q \<notin> set ?fs" using pq by auto
  have np: "x \<noteq> p" if "x \<in> set us \<union> set vs \<union> A" for x
    using that regions_distinct [OF reg] regions_disjoint [OF reg] by auto
  have qp: "q \<noteq> p" using pq by auto
  have same: "sz' x = sz x" "blk_end sz' x = blk_end sz x" if "x \<in> set us \<union> set vs \<union> A" for x
    using np [OF that] nq [OF that] by (auto simp: sz'_def blk_end_def)
  show ep: "blk_end sz' p = unat q" using uq m qp by (simp add: blk_end_def sz'_def)
  have eq: "blk_end sz' q = blk_end sz p" using q_end by (simp add: blk_end_def sz'_def)
  have pos: "0 < sz' p" "sz' q = n" using m un qp by (auto simp: sz'_def word_less_nat_alt)
  have le: "blk_end sz' p \<le> blk_end sz p" using ep q_end by simp
  have srt: "sorted_wrt (\<lambda>x y. blk_end sz' x \<le> unat y) ?fs"
    using reg sorted_cong [of us sz' sz] sorted_cong [of vs sz' sz] same(2) le unfolding regions_def sorted_wrt_append
    by (auto intro: order_trans)
  have apx: "apart sz p x" if "x \<in> set us \<union> set vs \<union> A" for x
    using that reg by (auto simp: regions_def sorted_wrt_append apart_def)
  have apq: "apart sz' x q" "apart sz' p x" if "x \<in> set us \<union> set vs \<union> A" for x
    using apx [OF that] same(2) [OF that] le eq pq by (auto simp: apart_def)
  have 1: "apart sz' x a" if xa: "x \<in> set ?fs" "a \<in> insert q A" for x a
  proof -
    consider "x = p" "a = q" | "x = p" "a \<in> A" | "x \<in> set us \<union> set vs" "a = q" | "x \<in> set us \<union> set vs" "a \<in> A"
      using xa by auto
    then show ?thesis
    proof cases
      case 4
      then show ?thesis using regionsD(1) [OF reg, of x a] same(2) [of x] same(2) [of a] by (auto simp: apart_def)
    qed (use apq ep in \<open>auto simp: apart_def\<close>)
  qed
  have 2: "apart sz' a b" if "a \<in> insert q A" "b \<in> insert q A" "a \<noteq> b" for a b
  proof -
    have qa: "apart sz' q x" if "x \<in> A" for x using apx [of x] same(2) [of x] that eq pq by (auto simp: apart_def)
    have "apart sz' a b" if "a \<in> A" "b \<in> A" using regionsD(2) [OF reg, of a b] that \<open>a \<noteq> b\<close> same(2) by (auto simp: apart_def)
    moreover have "apart sz' b a = apart sz' a b" by (auto simp: apart_def)
    ultimately show ?thesis using that qa by blast
  qed
  have 3: "lo \<le> unat x \<and> 0 < sz' x \<and> blk_end sz' x \<le> hi" if "x \<in> set ?fs \<union> insert q A" for x
    using that same regionsD(3) [OF reg, of x] p pos n(1) pq le eq
    by (cases "x = q"; cases "x = p") auto
  show "regions lo hi sz' ?fs (insert q A)"
    unfolding regions_def using srt 1 2 3 by blast
qed

lemma malloc_take_spec:
  assumes ok: "heap_ok lo A fs h" and p: "p \<in> set fs" "nunits \<le> h_size h p" "0 < nunits"
    and prevp: "prevp \<in> set (h_base h # fs)" "h_ptr h prevp = p"
  shows "\<exists>q h' fs'. malloc_take nunits prevp p h = (q + 8, h') \<and> q \<notin> A \<and> heap_ok lo (insert q A) fs' h'
    \<and> h_size h' q = nunits \<and> (\<forall>a \<in> A. h_size h' a = h_size h a) \<and> h_base h' = h_base h"
proof -
  note o = ok [unfolded heap_ok_def]
  have reg: "regions lo (unat (h_brk h)) (h_size h) fs A" using o by simp
  obtain us vs where fs: "fs = us @ p # vs" using p(1) by (meson split_list)
  have pA: "p \<notin> A" using regions_disjoint [OF reg] p(1) by auto
  have nb: "h_base h \<notin> set fs \<union> A" using regionsD(3) [OF reg] o by fastforce
  show ?thesis
  proof (cases "h_size h p = nunits")
    case True
    let ?h = "(set_ptr prevp (h_ptr h p) h)\<lparr>h_freep := prevp\<rparr>"
    have d: "distinct (h_base h # fs)" using regions_distinct [OF reg] nb by simp
    have pv: "prevp = last (h_base h # us)"
    proof -
      obtain i where i: "i < length (h_base h # fs)" "(h_base h # fs) ! i = prevp" using prevp(1) by (metis in_set_conv_nth)
      have l: "length us < length (h_base h # fs)" "(h_base h # fs) ! length us = last (h_base h # us)"
        using fs by (simp, metis append_Cons last_conv_nth length_Cons lessI list.distinct(1) nth_append diff_Suc_1)
      have nu: "(h_base h # fs) ! Suc (length us) = p" using fs by simp
      have pn: "Suc (length us) < length (h_base h # fs)" using fs by simp
      have "(h_base h # fs) ! (Suc i mod length (h_base h # fs)) = p"
        using cycle_next [OF o [THEN conjunct1] i(1)] prevp(2) i(2) by simp
      then have "Suc i mod length (h_base h # fs) = Suc (length us)"
        using nth_eq_iff_index_eq [OF d, of "Suc i mod length (h_base h # fs)" "Suc (length us)"] nu pn by simp
      then have "i = length us" using i(1) pn by (auto simp: mod_Suc split: if_splits)
      then show ?thesis using i l by simp
    qed
    obtain as where as: "h_base h # us = as @ [prevp]" unfolding pv by (metis append_butlast_last_id list.distinct(1))
    have pth: "path (h_ptr h) (h_base h) (h_base h # us) p" "path (h_ptr h) (h_ptr h p) vs (h_base h)"
      using o fs by auto
    have np: "prevp \<notin> set as" "prevp \<notin> set vs" using d as fs by (metis Cons_eq_appendI disjoint_iff distinct_append in_set_conv_decomp list.set_intros(2) not_distinct_conv_prefix)+
    have "path ((h_ptr h)(prevp := h_ptr h p)) (h_base h) (as @ [prevp] @ vs) (h_base h)"
      by (rule path_link [OF _ pth(2) np]) (use pth(1) as in simp)
    then have "path ((h_ptr h)(prevp := h_ptr h p)) (h_base h) (h_base h # us @ vs) (h_base h)"
      using as by (metis append_Cons append_assoc)
    moreover have "prevp \<in> set (h_base h # us @ vs)" using as by (metis UnI1 append_Cons in_set_conv_decomp set_append)
    ultimately have "heap_ok lo (insert p A) (us @ vs) ?h"
      using o fs regions_take [OF reg [unfolded fs]] unfolding heap_ok_def set_ptr_def nonadj_def by auto
    moreover have "malloc_take nunits prevp p h = (p + 8, ?h)" using True by (simp add: malloc_take_def)
    ultimately show ?thesis using pA True by (intro exI [of _ p] exI [of _ ?h] exI [of _ "us @ vs"]) (simp add: set_ptr_def)
  next
    case False
    then have lt: "nunits < h_size h p" using p(2) by simp
    let ?q = "p + 8 * (h_size h p - nunits)"
    let ?sz = "(h_size h)(p := h_size h p - nunits, ?q := nunits)"
    let ?h = "h\<lparr>h_size := ?sz, h_freep := prevp\<rparr>"
    note s = regions_split [OF reg [unfolded fs] p(3) lt unat_lt_2p32]
    have qb: "?q \<noteq> h_base h" "p \<noteq> h_base h" using s(4) o regionsD(3) [OF reg, of p] p(1) by auto
    have be: "blk_end ?sz x \<noteq> unat y" if "x \<in> set fs" "y \<in> set fs" for x y
    proof (cases "x = p")
      case True
      then show ?thesis using s(3,5) that(2) fs by (metis word_unat_eq_iff)
    next
      case False
      have "x \<noteq> ?q" using that s(3) fs by auto
      then have "blk_end ?sz x = blk_end (h_size h) x" using False by (simp add: blk_end_def)
      then show ?thesis using o that by (simp add: nonadj_def)
    qed
    have "heap_ok lo (insert ?q A) fs ?h"
      using o s(1) fs prevp(1) qb be unfolding heap_ok_def nonadj_def by auto
    moreover have "malloc_take nunits prevp p h = (?q + 8, ?h)"
      using False by (simp add: malloc_take_def set_size_def Let_def)
    moreover have "?sz a = h_size h a" if "a \<in> A" for a using that pA s(2) by auto
    ultimately show ?thesis using s(2) by (intro exI [of _ ?q] exI [of _ ?h] exI [of _ fs]) (simp del: fun_upd_apply, simp)
  qed
qed

text \<open>The scan of \<open>malloc\<close> stops at a block that is large enough, or comes round to \<open>freep\<close>.\<close>

lemma malloc_scan:
  assumes path: "path (h_ptr h) (h_base h) (h_base h # fs) (h_base h)" and dist: "distinct (h_base h # fs)"
    and base: "h_size h (h_base h) = 0" and nu: "0 < nunits"
  defines "ns \<equiv> h_base h # fs"
  defines "big \<equiv> \<lambda>i. nunits \<le> h_size h (ns ! (i mod length ns))"
  assumes i: "i < length ns" and d: "d < length ns" and k: "h_freep h = ns ! ((i + d) mod length ns)"
    and prevp: "prevp \<in> set ns" "h_ptr h prevp = ns ! i"
  shows "(if \<exists>t \<le> d. big (i + t)
      then \<exists>q prevq. q \<in> set fs \<and> prevq \<in> set ns \<and> h_ptr h prevq = q \<and> nunits \<le> h_size h q
        \<and> malloc_loop oks nunits prevp (ns ! i) h = Some (malloc_take nunits prevq q h)
      else malloc_loop oks nunits prevp (ns ! i) h =
        Option.bind (morecore (oks \<noteq> [] \<and> hd oks) nunits h) (\<lambda>(q, h).
          if q = 0 then Some (0, h) else malloc_loop (tl oks) nunits q (h_ptr h q) h))"
  using i d k prevp
proof (induction d arbitrary: i prevp)
  case 0
  have fs: "ns ! i \<in> set fs" if "big i"
  proof -
    have "ns ! i \<noteq> h_base h" using that base nu 0(1) by (auto simp: big_def)
    then show ?thesis using nth_mem [OF 0(1)] by (auto simp: ns_def)
  qed
  show ?case
  proof (cases "big i")
    case True
    then have "malloc_loop oks nunits prevp (ns ! i) h = Some (malloc_take nunits prevp (ns ! i) h)"
      using 0(1) by (subst malloc_loop.simps) (simp add: big_def)
    then show ?thesis using True fs 0 by (auto simp: big_def)
  next
    case False
    then show ?thesis using 0 by (subst malloc_loop.simps) (simp add: big_def)
  qed
next
  case (Suc d)
  show ?case
  proof (cases "big i")
    case True
    then have "ns ! i \<noteq> h_base h" using base nu Suc.prems(1) by (auto simp: big_def)
    then have "ns ! i \<in> set fs" using nth_mem [OF Suc.prems(1)] by (auto simp: ns_def)
    moreover have "malloc_loop oks nunits prevp (ns ! i) h = Some (malloc_take nunits prevp (ns ! i) h)"
      using True Suc.prems(1) by (subst malloc_loop.simps) (simp add: big_def)
    moreover have "\<exists>t \<le> Suc d. big (i + t)" using True by (intro exI [of _ 0]) simp
    ultimately show ?thesis using True Suc.prems by (auto simp: big_def)
  next
    case False
    let ?j = "Suc i mod length ns"
    have n0: "0 < length ns" by (simp add: ns_def)
    have "(i + Suc d) mod length ns \<noteq> i"
      using Suc.prems(1,2) by (cases "i + Suc d < length ns") (auto simp: mod_if)
    then have nf: "ns ! i \<noteq> h_freep h"
      using Suc.prems(1,3) dist nth_eq_iff_index_eq [of ns i "(i + Suc d) mod length ns"] by (simp add: ns_def)
    have nx: "h_ptr h (ns ! i) = ns ! ?j" using cycle_next [OF path, of i] Suc.prems(1) unfolding ns_def by simp
    have l: "malloc_loop oks nunits prevp (ns ! i) h = malloc_loop oks nunits (ns ! i) (ns ! ?j) h"
      using False nf nx Suc.prems(1) by (subst malloc_loop.simps) (simp add: big_def)
    have "(\<exists>t \<le> Suc d. big (i + t)) \<longleftrightarrow> (\<exists>t \<le> d. big (?j + t))"
    proof -
      have "big (?j + t) = big (i + Suc t)" for t by (simp add: big_def mod_add_left_eq)
      moreover have "(\<exists>t \<le> Suc d. big (i + t)) \<longleftrightarrow> (\<exists>t \<le> d. big (i + Suc t))"
        using False by (metis Suc_le_mono add_0_right not0_implies_Suc)
      ultimately show ?thesis by simp
    qed
    moreover have "h_freep h = ns ! ((?j + d) mod length ns)" using Suc.prems(3) by (simp add: mod_add_left_eq)
    moreover have "?j < length ns" using n0 by simp
    ultimately show ?thesis unfolding l
      using Suc.IH [of ?j "ns ! i"] Suc.prems(1,2) nx by (simp add: nth_mem)
  qed
qed

lemma malloc_scan_round:
  assumes ok: "heap_ok lo A fs h" and nu: "0 < nunits"
  shows "(if \<exists>z \<in> set fs. nunits \<le> h_size h z
      then \<exists>q prevq. q \<in> set fs \<and> prevq \<in> set (h_base h # fs) \<and> h_ptr h prevq = q \<and> nunits \<le> h_size h q
        \<and> malloc_loop oks nunits (h_freep h) (h_ptr h (h_freep h)) h = Some (malloc_take nunits prevq q h)
      else malloc_loop oks nunits (h_freep h) (h_ptr h (h_freep h)) h =
        Option.bind (morecore (oks \<noteq> [] \<and> hd oks) nunits h) (\<lambda>(q, h).
          if q = 0 then Some (0, h) else malloc_loop (tl oks) nunits q (h_ptr h q) h))"
proof -
  let ?ns = "h_base h # fs"
  note o = ok [unfolded heap_ok_def]
  have reg: "regions lo (unat (h_brk h)) (h_size h) fs A" using o by simp
  have d: "distinct ?ns" using regions_distinct [OF reg] regionsD(3) [OF reg] o by fastforce
  obtain k where k: "k < length ?ns" "?ns ! k = h_freep h" using o by (metis in_set_conv_nth)
  let ?i = "Suc k mod length ?ns"
  have i: "?i < length ?ns" by simp
  have f: "h_freep h = ?ns ! ((?i + length fs) mod length ?ns)"
  proof -
    have "(?i + length fs) mod length ?ns = (k + length ?ns) mod length ?ns" by (simp add: mod_add_left_eq)
    also have "\<dots> = k" using k(1) by (simp only: mod_add_self2 mod_less)
    finally show ?thesis using k(2) by simp
  qed
  have nx: "h_ptr h (h_freep h) = ?ns ! ?i" using cycle_next [OF o [THEN conjunct1] k(1)] k(2) by simp
  have "(\<exists>t \<le> length fs. nunits \<le> h_size h (?ns ! ((?i + t) mod length ?ns))) \<longleftrightarrow> (\<exists>z \<in> set fs. nunits \<le> h_size h z)"
  proof
    assume "\<exists>t \<le> length fs. nunits \<le> h_size h (?ns ! ((?i + t) mod length ?ns))"
    then obtain t where t: "nunits \<le> h_size h (?ns ! ((?i + t) mod length ?ns))" by blast
    have "?ns ! ((?i + t) mod length ?ns) \<in> set ?ns" by (rule nth_mem) simp
    moreover have "?ns ! ((?i + t) mod length ?ns) \<noteq> h_base h" using t nu o by auto
    ultimately show "\<exists>z \<in> set fs. nunits \<le> h_size h z" using t by (metis set_ConsD)
  next
    assume "\<exists>z \<in> set fs. nunits \<le> h_size h z"
    then obtain j where j: "j < length ?ns" "nunits \<le> h_size h (?ns ! j)" by (metis in_set_conv_nth list.set_intros(2))
    let ?t = "(j + length ?ns - ?i) mod length ?ns"
    have "?i + (j + length ?ns - ?i) = j + length ?ns" using i by linarith
    then have "(?i + ?t) mod length ?ns = (j + length ?ns) mod length ?ns" by (simp only: mod_add_right_eq)
    then have "(?i + ?t) mod length ?ns = j" using j(1) by (simp only: mod_add_self2 mod_less)
    moreover have "?t \<le> length fs" using mod_less_divisor [of "length ?ns" "j + length ?ns - ?i"] by simp
    ultimately show "\<exists>t \<le> length fs. nunits \<le> h_size h (?ns ! ((?i + t) mod length ?ns))" using j(2) by metis
  qed
  then show ?thesis
    using malloc_scan [of h fs nunits ?i "length fs" "h_freep h" oks, OF o [THEN conjunct1] d _ nu i _ f] o
    unfolding nx by simp
qed

text \<open>When the heap cannot grow by the blocks \<open>morecore\<close> asks for: there are no pages, or the break would come
  to the kernel.\<close>

definition no_room :: "bool list \<Rightarrow> nat \<Rightarrow> heap \<Rightarrow> bool" where
  "no_room oks nunits h \<longleftrightarrow> oks = [] \<or> \<not> hd oks \<or> 2 ^ 31 \<le> unat (h_brk h) + 8 * max 4096 nunits"

lemma malloc_loop_spec:
  assumes ok: "heap_ok lo A fs h" and nu: "0 < nunits" "unat nunits < 2 ^ 28" and brk: "unat (h_brk h) < 2 ^ 31"
  shows "\<exists>p h' fs'. malloc_loop oks nunits (h_freep h) (h_ptr h (h_freep h)) h = Some (p, h') \<and> h_base h' = h_base h
    \<and> unat (h_brk h') < 2 ^ 31 \<and> (\<forall>a \<in> A. h_size h' a = h_size h a)
    \<and> (p = 0 \<and> heap_ok lo A fs' h' \<and> no_room oks (unat nunits) h
       \<or> p \<noteq> 0 \<and> p - 8 \<notin> A \<and> heap_ok lo (insert (p - 8) A) fs' h' \<and> h_size h' (p - 8) = nunits)"
proof -
  have found: "\<exists>p h' fs'. malloc_loop oks nunits (h_freep g) (h_ptr g (h_freep g)) g = Some (p, h') \<and> h_base h' = h_base g
    \<and> unat (h_brk h') < 2 ^ 31 \<and> (\<forall>a \<in> A. h_size h' a = h_size g a)
    \<and> p \<noteq> 0 \<and> p - 8 \<notin> A \<and> heap_ok lo (insert (p - 8) A) fs' h' \<and> h_size h' (p - 8) = nunits"
    if g: "heap_ok lo A gs g" "\<exists>z \<in> set gs. nunits \<le> h_size g z" "unat (h_brk g) < 2 ^ 31" for gs g oks
  proof -
    obtain q prevq where q: "q \<in> set gs" "prevq \<in> set (h_base g # gs)" "h_ptr g prevq = q" "nunits \<le> h_size g q"
      "malloc_loop oks nunits (h_freep g) (h_ptr g (h_freep g)) g = Some (malloc_take nunits prevq q g)"
      using malloc_scan_round [OF g(1) nu(1), of oks] g(2) by auto
    obtain r h' fs' where r: "malloc_take nunits prevq q g = (r + 8, h')" "r \<notin> A" "heap_ok lo (insert r A) fs' h'"
      "h_size h' r = nunits" "\<forall>a \<in> A. h_size h' a = h_size g a" "h_base h' = h_base g"
      using malloc_take_spec [OF g(1) q(1,4) nu(1) q(2,3)] by blast
    have "h_brk h' = h_brk g" using arg_cong [OF r(1), of snd] by (auto simp: malloc_take_def set_size_def set_ptr_def Let_def split: if_splits)
    moreover have "r + 8 \<noteq> 0"
    proof -
      have "regions lo (unat (h_brk h')) (h_size h') fs' (insert r A)" using r(3) by (simp add: heap_ok_def)
      from regionsD(3) [OF this, of r] have "0 < unat (h_size h' r)" "unat r + 8 * unat (h_size h' r) \<le> unat (h_brk h')"
        by (simp_all add: blk_end_def word_less_nat_alt)
      then have "unat r + 8 * 1 < 2 ^ 32" using unat_lt_2p32 [of "h_brk h'"] by linarith
      then have "unat (r + 8) = unat r + 8" using unat_hdr [of r 1] by simp
      then show ?thesis by (metis add_is_0 unat_0 zero_neq_numeral)
    qed
    ultimately show ?thesis using q(5) r g(3) by (intro exI [of _ "r + 8"] exI [of _ h'] exI [of _ fs']) simp
  qed
  show ?thesis
  proof (cases "\<exists>z \<in> set fs. nunits \<le> h_size h z")
    case True
    then show ?thesis using found [OF ok True brk] by blast
  next
    case False
    let ?nu = "if nunits < 4096 then 4096 else nunits" and ?mem = "oks \<noteq> [] \<and> hd oks"
    have l: "malloc_loop oks nunits (h_freep h) (h_ptr h (h_freep h)) h =
        Option.bind (morecore ?mem nunits h) (\<lambda>(q, h). if q = 0 then Some (0, h) else malloc_loop (tl oks) nunits q (h_ptr h q) h)"
      using malloc_scan_round [OF ok nu(1), of oks] False by simp
    have un: "0 < unat ?nu" "unat ?nu < 2 ^ 28" using nu by (auto simp: word_less_nat_alt unat_gt_0)
    then have u8: "unat (?nu * 8) = 8 * unat ?nu" by (simp add: unat_word_ariths)
    have "0 < unat (?nu * 8)" "unat (?nu * 8) < 2 ^ 31" unfolding u8 using un by simp_all
    from sbrk_grows [OF this brk, of ?mem] show ?thesis
    proof
      assume s: "sbrk ?mem (?nu * 8) (h_brk h) = (- 1, h_brk h) \<and> (\<not> ?mem \<or> 2 ^ 31 \<le> unat (h_brk h) + unat (?nu * 8))"
      then have "morecore ?mem nunits h = Some (0, h)" by (simp add: morecore_def Let_def)
      moreover have "unat ?nu = max 4096 (unat nunits)" by (auto simp: word_less_nat_alt)
      then have "no_room oks (unat nunits) h" using s unfolding no_room_def u8 by auto
      ultimately show ?thesis unfolding l using ok brk by auto
    next
      assume s: "sbrk ?mem (?nu * 8) (h_brk h) = (h_brk h, h_brk h + ?nu * 8) \<and> unat (h_brk h + ?nu * 8) = unat (h_brk h) + unat (?nu * 8)
        \<and> unat (h_brk h) + unat (?nu * 8) < 2 ^ 31 \<and> h_brk h \<noteq> - 1"
      have "unat (h_brk h) + 8 * unat ?nu < 2 ^ 32" using s u8 by simp
      from morecore_spec [OF ok this] s obtain g gs where g: "morecore ?mem nunits h = Some (h_freep g, g)" "heap_ok lo A gs g"
        "\<forall>a \<in> A. h_size g a = h_size h a" "h_base g = h_base h" "h_brk g = h_brk h + ?nu * 8" "\<exists>z \<in> set gs. nunits \<le> h_size g z" "h_freep g \<noteq> 0"
        by blast
      have "unat (h_brk g) < 2 ^ 31" using g(5) s by simp
      from found [OF g(2,6) this, of "tl oks"] show ?thesis unfolding l using g by auto
    qed
  qed
qed

subsection \<open>A client of the allocator\<close>

text \<open>
  A program calls \<open>malloc\<close> and \<open>free\<close>, the latter on what it was given and has not freed. It asks for at
  most 0x7FFFFFF0 bytes at a time: with its header such a request is less than \<open>2^31\<close> bytes, so what
  \<open>morecore\<close> passes to \<open>sbrk\<close> is positive as an \<open>int\<close>. The state is the heap with the set of the
  pointers the program holds.
\<close>

inductive um_step :: "heap \<times> uint set \<Rightarrow> heap \<times> uint set \<Rightarrow> bool" where
  um_malloc: "nbytes \<le> 0x7FFFFFF0 \<Longrightarrow> malloc nbytes oks h = Some (p, h') \<Longrightarrow> p \<noteq> 0 \<Longrightarrow> um_step (h, P) (h', insert p P)"
| um_fail: "nbytes \<le> 0x7FFFFFF0 \<Longrightarrow> malloc nbytes oks h = Some (0, h') \<Longrightarrow> um_step (h, P) (h', P)"
| um_free: "p \<in> P \<Longrightarrow> free p h = Some h' \<Longrightarrow> um_step (h, P) (h', P - {p})"

definition um_init :: "heap \<times> uint set \<Rightarrow> bool" where
  "um_init s \<longleftrightarrow> snd s = {} \<and> h_freep (fst s) = 0 \<and> h_base (fst s) \<noteq> 0 \<and> h_base (fst s) < h_brk (fst s) \<and> h_brk (fst s) < 0x80000000"

definition um_inv :: "heap \<times> uint set \<Rightarrow> bool" where
  "um_inv s \<longleftrightarrow> unat (h_brk (fst s)) < 2 ^ 31 \<and> (um_init s \<or> (\<exists>lo fs. heap_ok lo ((\<lambda>p. p - 8) ` snd s) fs (fst s)))"

text \<open>The bytes a program may use of a block.\<close>

definition ubytes :: "heap \<Rightarrow> uint \<Rightarrow> nat set" where
  "ubytes h p = {unat p..<unat p + 8 * (unat (h_size h (p - 8)) - 1)}"

lemma unat_user:
  fixes p :: uint
  assumes "heap_ok lo A fs h" and "p - 8 \<in> A"
  shows "unat p = unat (p - 8) + 8" and "unat p + 8 * (unat (h_size h (p - 8)) - 1) = blk_end (h_size h) (p - 8)"
proof -
  have "regions lo (unat (h_brk h)) (h_size h) fs A" using assms(1) by (simp add: heap_ok_def)
  from regionsD(3) [OF this, of "p - 8"] assms(2) have b: "0 < unat (h_size h (p - 8))"
    "unat (p - 8) + 8 * unat (h_size h (p - 8)) \<le> unat (h_brk h)" by (simp_all add: blk_end_def word_less_nat_alt)
  then have "unat (p - 8) + 8 * 1 < 2 ^ 32" using unat_lt_2p32 [of "h_brk h"] by linarith
  then show "unat p = unat (p - 8) + 8" using unat_hdr [of "p - 8" 1] by simp
  then show "unat p + 8 * (unat (h_size h (p - 8)) - 1) = blk_end (h_size h) (p - 8)" using b(1) by (simp add: blk_end_def)
qed

text \<open>
  The state of the heap as its user sees it: nothing was allocated yet, or the free list is a ring through
  the base block and the blocks on it and the program's own, headers included, are below the break and
  disjoint from each other.
\<close>

definition hblock :: "heap \<Rightarrow> uint \<Rightarrow> nat set" where
  "hblock h x = {unat x..<unat x + 8 * unat (h_size h x)}"

definition separate :: "heap \<Rightarrow> uint set \<Rightarrow> bool" where
  "separate h P \<longleftrightarrow> h_freep h = 0 \<and> P = {}
     \<or> (\<exists>fs. path (h_ptr h) (h_base h) (h_base h # fs) (h_base h) \<and> h_freep h \<in> set (h_base h # fs)
          \<and> distinct fs \<and> set fs \<inter> (\<lambda>p. p - 8) ` P = {}
          \<and> (\<forall>x \<in> set fs \<union> (\<lambda>p. p - 8) ` P. hblock h x \<subseteq> {unat (h_base h)<..<unat (h_brk h)}
               \<and> (\<forall>y \<in> set fs \<union> (\<lambda>p. p - 8) ` P. x \<noteq> y \<longrightarrow> hblock h x \<inter> hblock h y = {}))
          \<and> (\<forall>p \<in> P. ubytes h p \<subseteq> hblock h (p - 8) - {unat (p - 8)..<unat (p - 8) + 8}))"

lemma heap_ok_separate:
  assumes "heap_ok lo ((\<lambda>p. p - 8) ` P) fs h"
  shows "separate h P"
proof -
  let ?A = "(\<lambda>p. p - 8) ` P :: uint set"
  note o = assms [unfolded heap_ok_def]
  have reg: "regions lo (unat (h_brk h)) (h_size h) fs ?A" using o by simp
  have b: "hblock h x = {unat x..<blk_end (h_size h) x}" for x by (simp add: hblock_def blk_end_def)
  have inside: "hblock h x \<subseteq> {unat (h_base h)<..<unat (h_brk h)}" if "x \<in> set fs \<union> ?A" for x
    using regionsD(3) [OF reg that] o unfolding b by auto
  have ap: "apart (h_size h) x y" if "x \<in> set fs \<union> ?A" "y \<in> set fs \<union> ?A" "x \<noteq> y" for x y
  proof -
    have "apart (h_size h) x y" if xy: "x \<in> set fs" "y \<in> set fs"
    proof -
      obtain i j where ij: "i < length fs" "fs ! i = x" "j < length fs" "fs ! j = y"
        using xy by (metis in_set_conv_nth)
      have s: "sorted_wrt (\<lambda>x y. blk_end (h_size h) x \<le> unat y) fs" using reg by (simp add: regions_def)
      show ?thesis
        using sorted_wrt_nth_less [OF s, of i j] sorted_wrt_nth_less [OF s, of j i] ij \<open>x \<noteq> y\<close>
        by (cases i j rule: linorder_cases) (auto simp: apart_def)
    qed
    then show ?thesis using regionsD(1,2) [OF reg] that apart_sym by blast
  qed
  have dis: "hblock h x \<inter> hblock h y = {}" if "x \<in> set fs \<union> ?A" "y \<in> set fs \<union> ?A" "x \<noteq> y" for x y
    using ap [OF that] unfolding apart_def b by auto
  have "ubytes h p \<subseteq> hblock h (p - 8) - {unat (p - 8)..<unat (p - 8) + 8}" if "p \<in> P" for p
    using unat_user [OF assms, of p] that unfolding ubytes_def b by auto
  then show ?thesis
    using o regions_distinct [OF reg] regions_disjoint [OF reg] inside dis unfolding separate_def
    by (intro disjI2 exI [of _ fs] conjI ballI impI) (assumption | blast)+
qed

lemma nunits:
  fixes nbytes :: uint
  assumes "nbytes \<le> 0x7FFFFFF0"
  shows "0 < (nbytes + 8 - 1) div 8 + 1" and "unat ((nbytes + 8 - 1) div 8 + 1) < 2 ^ 28"
    and "unat ((nbytes + 8 - 1) div 8 + 1) = (unat nbytes + 7) div 8 + 1" and "unat nbytes \<le> 8 * (unat ((nbytes + 8 - 1) div 8 + 1) - 1)"
proof -
  have n: "unat nbytes \<le> 2147483632" using assms by (simp add: word_le_nat_alt)
  have e: "nbytes + 8 - 1 = nbytes + 7" by simp
  have s: "unat (nbytes + 7) = unat nbytes + 7" using n by (simp add: unat_word_ariths)
  have u8: "unat (8 :: uint) = 8" by simp
  have d: "unat ((nbytes + 8 - 1) div 8) = (unat nbytes + 7) div 8" unfolding e unat_div s u8 ..
  then show u: "unat ((nbytes + 8 - 1) div 8 + 1) = (unat nbytes + 7) div 8 + 1"
    using n by (subst unat_word_ariths) (simp add: d)
  have "(unat nbytes + 7) div 8 \<le> (2147483632 + 7) div 8" by (rule div_le_mono) (use n in simp)
  then show "unat ((nbytes + 8 - 1) div 8 + 1) < 2 ^ 28" unfolding u by simp
  have "unat nbytes + 7 = 8 * ((unat nbytes + 7) div 8) + (unat nbytes + 7) mod 8" by simp
  moreover have "(unat nbytes + 7) mod 8 \<le> 7" using mod_less_divisor [of 8 "unat nbytes + 7"] by linarith
  ultimately show "unat nbytes \<le> 8 * (unat ((nbytes + 8 - 1) div 8 + 1) - 1)" unfolding u by simp
  show "0 < (nbytes + 8 - 1) div 8 + 1" unfolding word_less_nat_alt u by simp
qed

lemma malloc_spec:
  assumes inv: "um_inv (h, P)" and n: "nbytes \<le> 0x7FFFFFF0"
  shows "\<exists>p h' lo fs. malloc nbytes oks h = Some (p, h') \<and> unat (h_brk h') < 2 ^ 31 \<and> (\<forall>q \<in> P. h_size h' (q - 8) = h_size h (q - 8))
    \<and> (p = 0 \<and> heap_ok lo ((\<lambda>p. p - 8) ` P) fs h' \<and> no_room oks ((unat nbytes + 7) div 8 + 1) h
       \<or> p \<noteq> 0 \<and> p \<notin> P \<and> heap_ok lo ((\<lambda>p. p - 8) ` insert p P) fs h'
         \<and> unat (h_size h' (p - 8)) = (unat nbytes + 7) div 8 + 1)"
proof -
  let ?n = "(nbytes + 8 - 1) div 8 + 1" and ?A = "(\<lambda>p. p - 8) ` P :: uint set"
  let ?h = "if h_freep h = 0 then set_size (h_base h) 0 (set_ptr (h_base h) (h_base h) (h\<lparr>h_freep := h_base h\<rparr>)) else h"
  have brk: "unat (h_brk ?h) < 2 ^ 31" using inv by (auto simp: um_inv_def set_size_def set_ptr_def)
  have "\<exists>lo fs. heap_ok lo ?A fs ?h \<and> (\<forall>q \<in> P. h_size ?h (q - 8) = h_size h (q - 8))"
  proof (cases "um_init (h, P)")
    case True
    then have "heap_ok (unat (h_brk h)) ?A [] ?h"
      by (auto simp: um_init_def heap_ok_def set_size_def set_ptr_def regions_def nonadj_def word_less_nat_alt)
    then show ?thesis using True by (auto simp: um_init_def)
  next
    case False
    then obtain lo fs where ok: "heap_ok lo ?A fs h" using inv by (auto simp: um_inv_def)
    then show ?thesis using heap_ok_freep [OF ok] by auto
  qed
  then obtain lo fs where ok: "heap_ok lo ?A fs ?h" and sz: "\<forall>q \<in> P. h_size ?h (q - 8) = h_size h (q - 8)" by blast
  have m: "malloc nbytes oks h = malloc_loop oks ?n (h_freep ?h) (h_ptr ?h (h_freep ?h)) ?h"
    by (simp add: malloc_def Let_def)
  obtain p h' fs' where l: "malloc nbytes oks h = Some (p, h')" "unat (h_brk h') < 2 ^ 31" "\<forall>a \<in> ?A. h_size h' a = h_size ?h a"
    "p = 0 \<and> heap_ok lo ?A fs' h' \<and> no_room oks (unat ?n) ?h \<or> p \<noteq> 0 \<and> p - 8 \<notin> ?A \<and> heap_ok lo (insert (p - 8) ?A) fs' h' \<and> h_size h' (p - 8) = ?n"
    using malloc_loop_spec [OF ok nunits(1,2) [OF n] brk, of oks] unfolding m by blast
  moreover have "p \<notin> P" if "p - 8 \<notin> ?A" using that by blast
  moreover have "\<forall>q \<in> P. h_size h' (q - 8) = h_size h (q - 8)" using l(3) sz by simp
  moreover have "no_room oks k ?h = no_room oks k h" for k by (simp add: no_room_def set_size_def set_ptr_def)
  ultimately show ?thesis unfolding nunits(3) [OF n, symmetric]
    by (intro exI [of _ p] exI [of _ h'] exI [of _ lo] exI [of _ fs']) (auto simp del: One_nat_def)
qed

lemma um_free_spec:
  assumes inv: "um_inv (h, P)" and p: "p \<in> P"
  shows "\<exists>h' lo fs. free p h = Some h' \<and> heap_ok lo ((\<lambda>p. p - 8) ` (P - {p})) fs h' \<and> h_brk h' = h_brk h
    \<and> (\<forall>q \<in> P - {p}. h_size h' (q - 8) = h_size h (q - 8))"
proof -
  obtain lo fs where ok: "heap_ok lo ((\<lambda>p. p - 8) ` P) fs h" using inv p by (auto simp: um_inv_def um_init_def)
  have im: "(\<lambda>p. p - 8) ` (P - {p}) = (\<lambda>p. p - 8) ` P - {p - 8 :: uint}" by auto
  obtain h' fs' where f: "free (p - 8 + 8) h = Some h'" "heap_ok lo ((\<lambda>p. p - 8) ` P - {p - 8}) fs' h'"
    "\<forall>a \<in> (\<lambda>p. p - 8) ` P - {p - 8}. h_size h' a = h_size h a" "h_brk h' = h_brk h"
    using free_spec [OF ok, of "p - 8"] p by blast
  then show ?thesis unfolding im by (intro exI [of _ h'] exI [of _ lo] exI [of _ fs']) auto
qed

lemma um_step_inv: "um_step s t \<Longrightarrow> um_inv s \<Longrightarrow> um_inv t"
proof (induction rule: um_step.induct)
  case (um_malloc nbytes oks h p h' P)
  then show ?case using malloc_spec [OF um_malloc.prems um_malloc.hyps(1), of oks] by (auto simp: um_inv_def)
next
  case (um_fail nbytes oks h h' P)
  then show ?case using malloc_spec [OF um_fail.prems um_fail.hyps(1), of oks] by (auto simp: um_inv_def)
next
  case (um_free p P h h')
  then show ?case using um_free_spec [OF um_free.prems um_free.hyps(1)] by (auto simp: um_inv_def)
qed

interpretation um: step_invariant um_init um_step um_inv
proof unfold_locales
  show "um_inv s" if "um_init s" for s
    using that by (auto simp: um_inv_def um_init_def word_less_nat_alt)
qed (rule um_step_inv)

subsection \<open>Properties\<close>



subsection \<open>Requests that are too large\<close>

lemma sint_negative: "2 ^ 31 \<le> unat (x :: uint) \<Longrightarrow> sint x < 0"
proof -
  assume "2 ^ 31 \<le> unat x"
  then have "int (2 ^ 31) \<le> int (unat x)" by (rule of_nat_mono)
  then have l: "2147483648 \<le> uint x" by simp
  have "uint x < 2 * 2147483648" using uint_lt2p [of x] by simp
  with l have "uint x div 2147483648 = 1" by (simp add: div_pos_geq)
  then have "bit (uint x) 31" by (simp add: bit_iff_odd)
  then show ?thesis by (simp add: sint_uint signed_take_bit_negative_iff)
qed

lemma malloc_first_huge:
  assumes ini: "um_init (h, {})" and n: "2 ^ 28 \<le> unat n" "unat (h_brk h) + 8 * unat n < 2 ^ 32"
  defines "g \<equiv> set_size (h_base h) 0 (set_ptr (h_base h) (h_base h) (h\<lparr>h_freep := h_base h\<rparr>))"
  shows "\<exists>h'. malloc_loop oks n (h_base h) (h_base h) g = Some (h_brk h + 8, h') \<and> h_brk h' = h_brk h
    \<and> h_size h' (h_brk h) = n"
proof -
  let ?b = "h_base h" and ?k = "h_brk h"
  have i: "?b \<noteq> 0" "?b < ?k" "?k < 0x80000000" using ini by (auto simp: um_init_def)
  have k: "unat ?b < unat ?k" "unat ?k < 2 ^ 31" using i(2,3) by (simp_all add: word_less_nat_alt)
  have n8: "unat (8 * n) = 8 * unat n" "unat (?k + 8 * n) = unat ?k + 8 * unat n"
    using n(2) unat_hdr [of 0 n] unat_hdr [OF n(2)] by simp_all
  have big: "\<not> n < 4096" "n \<noteq> 0" using n(1) by (auto simp: word_less_nat_alt)
  have "sint (8 * n) < 0" by (rule sint_negative) (use n8(1) n(1) in simp)
  moreover have "?k \<le> ?k + 8 * n" "?k \<noteq> 0" using n8(2) k(1) by (auto simp: word_le_nat_alt)
  ultimately have sb: "sbrk m (n * 8) ?k = (?k, ?k)" for m by (simp add: sbrk_def mult.commute)
  have "unat (- 1 :: uint) = 4294967295" by (simp add: unsigned_minus_1_eq_mask mask_eq_exp_minus_1)
  then have m1: "?k \<noteq> - 1" using k(2) by auto
  have up: "?k + 8 * n \<noteq> ?b" using n8(2) k n(1) by auto
  let ?g2 = "set_size ?k n g"
  let ?g3 = "(set_ptr ?b ?k (set_ptr ?k ?b ?g2))\<lparr>h_freep := ?b\<rparr>"
  have "free_find ?g2 ?k ?b = Some ?b"
    using i(2) by (subst free_find.simps) (auto simp: g_def set_size_def set_ptr_def)
  then have "free (?k + 8) ?g2 = Some ?g3"
    using up i(2) by (simp add: free_def free_join_up_def free_join_down_def g_def set_size_def set_ptr_def Let_def)
  then have "morecore m n g = Some (?b, ?g3)" for m
    using sb m1 big by (simp add: morecore_def g_def set_size_def set_ptr_def)
  moreover have "malloc_loop os n ?b (h_ptr ?g3 ?b) ?g3 = Some (?k + 8, (set_ptr ?b ?b ?g3)\<lparr>h_freep := ?b\<rparr>)" for os
    using i(2) by (subst malloc_loop.simps) (auto simp: malloc_take_def g_def set_size_def set_ptr_def)
  ultimately have "malloc_loop oks n ?b ?b g = Some (?k + 8, (set_ptr ?b ?b ?g3)\<lparr>h_freep := ?b\<rparr>)"
    using big(2) i(1) by (subst malloc_loop.simps) (simp add: g_def set_size_def set_ptr_def)
  then show ?thesis using i(2) by (auto simp: g_def set_size_def set_ptr_def)
qed

lemma nunits_huge:
  fixes nbytes :: uint
  assumes "0x7FFFFFF0 < nbytes" and "unat nbytes + 16 \<le> 2 ^ 32"
  shows "unat ((nbytes + 8 - 1) div 8 + 1) = (unat nbytes + 7) div 8 + 1"
    and "2 ^ 28 \<le> (unat nbytes + 7) div 8 + 1" and "8 * ((unat nbytes + 7) div 8 + 1) \<le> unat nbytes + 15"
    and "unat nbytes \<le> 8 * ((unat nbytes + 7) div 8)"
proof -
  have e: "nbytes + 8 - 1 = nbytes + 7" by simp
  have s: "unat (nbytes + 7) = unat nbytes + 7" using assms(2) by (simp add: unat_word_ariths)
  have u8: "unat (8 :: uint) = 8" by simp
  have d: "unat ((nbytes + 8 - 1) div 8) = (unat nbytes + 7) div 8" unfolding e unat_div s u8 ..
  show a: "8 * ((unat nbytes + 7) div 8 + 1) \<le> unat nbytes + 15" by simp
  show "unat ((nbytes + 8 - 1) div 8 + 1) = (unat nbytes + 7) div 8 + 1"
    unfolding unat_word_ariths(1) [of _ 1] d using a assms(2) by simp
  have "2147483633 \<le> unat nbytes" using assms(1) by (simp add: word_less_nat_alt)
  then have "(2147483633 + 7) div 8 \<le> (unat nbytes + 7) div 8" by (intro div_le_mono) simp
  then show "2 ^ 28 \<le> (unat nbytes + 7) div 8 + 1" by simp
  show "unat nbytes \<le> 8 * ((unat nbytes + 7) div 8)" by simp
qed

lemma malloc_wraps: "0xFFFFFFF9 \<le> nbytes \<Longrightarrow> malloc nbytes oks h = malloc 0 oks h"
proof -
  assume "0xFFFFFFF9 \<le> nbytes"
  then have "4294967289 \<le> unat nbytes" by (simp add: word_le_nat_alt)
  moreover have "unat nbytes < 4294967296" using unat_lt_2p32 [of nbytes] by simp
  moreover have "unat (nbytes + 7) = (unat nbytes + 7) mod 4294967296" by (simp add: unat_word_ariths)
  moreover have "(k + 7) mod 4294967296 < 8" if "4294967289 \<le> k" "k < 4294967296" for k :: nat
    using that by (subst mod_if) simp
  ultimately have "unat (nbytes + 7) < 8" by simp
  then have "unat ((nbytes + 7) div 8) = 0" by (simp add: unat_div)
  moreover have "nbytes + 8 - 1 = nbytes + 7" by simp
  ultimately have "(nbytes + 8 - 1) div 8 = 0" by (metis unat_eq_zero)
  then show ?thesis by (simp add: malloc_def)
qed



end
