(* ===== verification/Shell.thy ===== *)
theory Shell
  imports Prelude
begin

section \<open>The shell (sh.c)\<close>

text \<open>
  The parser works on a line of text without zero bytes, followed by a zero byte; a pointer into it
  is an offset. A parsed command keeps the offsets of its words and of their ends; \<open>nulterminate\<close>
  writes zero bytes at the ends. The redirections that \<open>parseredirs\<close> wraps around the command that
  \<open>parseexec\<close> is still filling are collected in a list. The mutually recursive parser takes a
  bound on its recursion, \<open>None\<close> being that the bound was too small; \<open>parsecmd\<close> gives one that is
  always enough. A call of \<open>panic\<close> is the left value with its message.
\<close>

subsection \<open>Commands\<close>

datatype cmd =
  EXEC "(nat \<times> nat) list" | REDIR cmd nat nat nat nat | PIPE cmd cmd | LIST cmd cmd | BACK cmd

abbreviation (input) MAXARGS :: nat where "MAXARGS \<equiv> 10"
abbreviation (input) O_RDONLY :: nat where "O_RDONLY \<equiv> 0"
abbreviation (input) O_WRONLY_CREATE :: nat where "O_WRONLY_CREATE \<equiv> 0x201"

definition whitespace :: "uchar list" where
  "whitespace = [0x20, 0x9, 0xD, 0xA, 0xB]"

definition symbols :: "uchar list" where
  "symbols = [0x3C, 0x7C, 0x3E, 0x26, 0x3B, 0x28, 0x29]"

subsection \<open>Tokens\<close>

definition chr_at :: "uchar list \<Rightarrow> nat \<Rightarrow> uchar" where
  "chr_at t s = (if s < length t then t ! s else 0)"

definition skip_while :: "(uchar \<Rightarrow> bool) \<Rightarrow> uchar list \<Rightarrow> nat \<Rightarrow> nat" where
  "skip_while P t s = s + length (takeWhile P (drop s t))"

definition ws :: "uchar \<Rightarrow> bool" where
  "ws c \<longleftrightarrow> c \<in> set whitespace"

definition word_char :: "uchar \<Rightarrow> bool" where
  "word_char c \<longleftrightarrow> c \<notin> set whitespace \<and> c \<notin> set symbols"

definition gettoken :: "uchar list \<Rightarrow> nat \<Rightarrow> uchar \<times> nat \<times> nat \<times> nat" where
  "gettoken t s =
     (let q = skip_while ws t s; c = chr_at t q;
          (ret, eq) =
            (if c = 0 then (0, q)
             else if c \<in> {0x7C, 0x28, 0x29, 0x3B, 0x26, 0x3C} then (c, q + 1)
             else if c = 0x3E then if chr_at t (q + 1) = 0x3E then (0x2B, q + 2) else (c, q + 1)
             else (0x61, skip_while word_char t q))
      in (ret, q, eq, skip_while ws t eq))"

definition peek :: "uchar list \<Rightarrow> nat \<Rightarrow> uchar list \<Rightarrow> nat \<times> bool" where
  "peek t s toks = (let s = skip_while ws t s in (s, chr_at t s \<noteq> 0 \<and> chr_at t s \<in> set toks))"

subsection \<open>Redirections and arguments\<close>

type_synonym redir = "nat \<times> nat \<times> nat \<times> nat"

lemma skip_while_ge: "s \<le> skip_while P t s"
  by (simp add: skip_while_def)

lemma chr_at_pos: "chr_at t s \<noteq> 0 \<Longrightarrow> s < length t"
  by (simp add: chr_at_def split: if_splits)

lemma skip_while_word: "s < length t \<Longrightarrow> P (t ! s) \<Longrightarrow> s < skip_while P t s"
  by (simp add: skip_while_def Cons_nth_drop_Suc [symmetric])

lemma gettoken_ge: "gettoken t s = (tok, q, eq, s') \<Longrightarrow> s \<le> q \<and> q \<le> eq \<and> eq \<le> s'"
  unfolding gettoken_def Let_def using skip_while_ge le_trans
  by (auto split: if_splits intro: le_SucI)

lemma gettoken_advances:
  assumes "gettoken t s = (tok, q, eq, s')" and "tok \<noteq> 0"
  shows "s < s' \<and> q < length t"
proof -
  let ?q = "skip_while ws t s"
  have c: "chr_at t ?q \<noteq> 0" using assms by (auto simp: gettoken_def Let_def split: if_splits)
  then have l: "?q < length t" by (rule chr_at_pos)
  have "word_char (chr_at t ?q)" if "chr_at t ?q \<notin> {0x7C, 0x28, 0x29, 0x3B, 0x26, 0x3C}" "chr_at t ?q \<noteq> 0x3E"
  proof -
    have "\<not> ws (chr_at t ?q)"
      using l nth_length_takeWhile [of ws "drop s t"] by (auto simp: chr_at_def skip_while_def)
    then show ?thesis using that by (simp add: word_char_def ws_def symbols_def)
  qed
  then have "?q < skip_while word_char t ?q" if "chr_at t ?q \<notin> {0x7C, 0x28, 0x29, 0x3B, 0x26, 0x3C}" "chr_at t ?q \<noteq> 0x3E"
    using that l skip_while_word [OF l, of word_char] by (simp add: chr_at_def)
  then have "?q < eq" using assms(1) c by (auto simp: gettoken_def Let_def split: if_splits)
  moreover have "?q = q" using assms(1) by (auto simp: gettoken_def Let_def split: if_splits)
  ultimately show ?thesis using gettoken_ge [OF assms(1)] l skip_while_ge [of s ws t] by auto
qed

lemma peek_ge: "peek t s toks = (s', b) \<Longrightarrow> s \<le> s' \<and> (b \<longrightarrow> s' < length t \<and> chr_at t s' \<in> set toks \<and> chr_at t s' \<noteq> 0)"
  using skip_while_ge chr_at_pos by (auto simp: peek_def Let_def)

function parseredirs :: "uchar list \<Rightarrow> redir list \<Rightarrow> nat \<Rightarrow> string + redir list \<times> nat" where
  "parseredirs t rs s =
     (let (s, more) = peek t s [0x3C, 0x3E]
      in if \<not> more then Inr (rs, s)
         else let (tok, _, _, s) = gettoken t s; (tok2, q, eq, s) = gettoken t s
              in if tok2 \<noteq> 0x61 then Inl ''missing file for redirection''
                 else parseredirs t (rs @ [if tok = 0x3C then (q, eq, O_RDONLY, 0) else (q, eq, O_WRONLY_CREATE, 1)]) s)"
  by pat_completeness auto
termination
proof (relation "measure (\<lambda>(t, rs, s). length t - s)")
  fix t rs s x s1 b y tok z1 q1 z2 eq1 s2 w tok2 v1 q v2 eq s3
  assume a: "x = peek t s [0x3C, 0x3E]" "(s1, b) = x" "\<not> \<not> b" "y = gettoken t s1" "(tok, z1) = y" "(q1, z2) = z1" "(eq1, s2) = z2"
    "w = gettoken t s2" "(tok2, v1) = w" "(q, v2) = v1" "(eq, s3) = v2" "\<not> tok2 \<noteq> 0x61"
  have 1: "s \<le> s1 \<and> s1 < length t" using peek_ge [of t s "[0x3C, 0x3E]" s1 b] a(1-3) by auto
  have 2: "s1 \<le> s2" using gettoken_ge [of t s1 tok q1 eq1 s2] a(4-7) by auto
  have 3: "s2 < s3" using gettoken_advances [of t s2 tok2 q eq s3] a(8-12) by auto
  show "((t, rs @ [if tok = 0x3C then (q, eq, O_RDONLY, 0) else (q, eq, O_WRONLY_CREATE, 1)], s3), t, rs, s) \<in> measure (\<lambda>(t, rs, s). length t - s)"
    using 1 2 3 by auto
qed simp

declare parseredirs.simps [simp del]

lemma parseredirs_ge: "parseredirs t rs s = Inr (rs', s') \<Longrightarrow> s \<le> s'"
proof (induction "length t - s" arbitrary: rs s rule: less_induct)
  case less
  obtain s1 b where p: "peek t s [0x3C, 0x3E] = (s1, b)" by fastforce
  obtain tok q1 eq1 s2 where g1: "gettoken t s1 = (tok, q1, eq1, s2)" by (metis prod_cases4)
  obtain tok2 q eq s3 where g2: "gettoken t s2 = (tok2, q, eq, s3)" by (metis prod_cases4)
  note e = less.prems [unfolded parseredirs.simps [of t rs s] p Let_def prod.case g1 g2]
  show ?case
  proof (cases b)
    case False
    then show ?thesis using e peek_ge [OF p] by simp
  next
    case True
    then have "tok2 = 0x61" using e by (auto simp: g1 g2 split: if_splits)
    then have "s2 < s3" using gettoken_advances [OF g2] by simp
    then have lt: "s < s3" "s < length t" using peek_ge [OF p] gettoken_ge [OF g1] True by auto
    then have "s3 \<le> s'" using less.hyps [of s3] e True \<open>tok2 = 0x61\<close> by (auto simp: g1 g2 split: if_splits)
    then show ?thesis using lt by simp
  qed
qed

function parseargs :: "uchar list \<Rightarrow> (nat \<times> nat) list \<Rightarrow> redir list \<Rightarrow> nat \<Rightarrow> string + (nat \<times> nat) list \<times> redir list \<times> nat" where
  "parseargs t args rs s =
     (let (s, stop) = peek t s [0x7C, 0x29, 0x26, 0x3B]
      in if stop then Inr (args, rs, s)
         else let (tok, q, eq, s) = gettoken t s
              in if tok = 0 then Inr (args, rs, s)
                 else if tok \<noteq> 0x61 then Inl ''syntax''
                 else if length args + 1 \<ge> MAXARGS then Inl ''too many args''
                 else case parseredirs t rs s of
                        Inl e \<Rightarrow> Inl e
                      | Inr (rs, s) \<Rightarrow> parseargs t (args @ [(q, eq)]) rs s)"
  by pat_completeness auto
termination
  by (relation "measure (\<lambda>(t, args, rs, s). MAXARGS - length args)") auto

declare parseargs.simps [simp del]

subsection \<open>The recursive-descent parser\<close>

type_synonym 'a parsed = "(string + 'a) option"

fun pbind :: "'a parsed \<Rightarrow> ('a \<Rightarrow> 'b parsed) \<Rightarrow> 'b parsed" where
  "pbind None f = None"
| "pbind (Some (Inl e)) f = Some (Inl e)"
| "pbind (Some (Inr x)) f = f x"

definition wrap :: "cmd \<Rightarrow> redir list \<Rightarrow> cmd" where
  "wrap c rs = foldl (\<lambda>c (q, eq, mode, fd). REDIR c q eq mode fd) c rs"

function backs :: "uchar list \<Rightarrow> cmd \<Rightarrow> nat \<Rightarrow> cmd \<times> nat" where
  "backs t c s =
     (let (s, more) = peek t s [0x26]
      in if more then let (_, _, _, s) = gettoken t s in backs t (BACK c) s else (c, s))"
  by pat_completeness auto
termination
proof (relation "measure (\<lambda>(t, c, s). length t - s)")
  fix t c s x s1 b y tok z1 q z2 eq s2
  assume a: "x = peek t s [0x26]" "(s1, b) = x" "b" "y = gettoken t s1" "(tok, z1) = y" "(q, z2) = z1" "(eq, s2) = z2"
  have p: "peek t s [0x26] = (s1, True)" using a(1-3) by simp
  have g: "gettoken t s1 = (tok, q, eq, s2)" using a(4-7) by simp
  have "skip_while ws t s1 = s1"
  proof -
    have c: "s1 < length t" "chr_at t s1 = 0x26" using peek_ge [OF p] by auto
    then have "\<not> ws (t ! s1)" by (simp add: ws_def whitespace_def chr_at_def)
    then show ?thesis using c(1) by (simp add: skip_while_def Cons_nth_drop_Suc [symmetric])
  qed
  then have "tok \<noteq> 0" using g peek_ge [OF p] by (auto simp: gettoken_def Let_def)
  then show "((t, BACK c, s2), t, c, s) \<in> measure (\<lambda>(t, c, s). length t - s)"
    using gettoken_advances [OF g] peek_ge [OF p] by auto
qed simp

declare backs.simps [simp del]

function (sequential) parseline :: "nat \<Rightarrow> uchar list \<Rightarrow> nat \<Rightarrow> (cmd \<times> nat) parsed"
  and parsepipe :: "nat \<Rightarrow> uchar list \<Rightarrow> nat \<Rightarrow> (cmd \<times> nat) parsed"
  and parseblock :: "nat \<Rightarrow> uchar list \<Rightarrow> nat \<Rightarrow> (cmd \<times> nat) parsed"
  and parseexec :: "nat \<Rightarrow> uchar list \<Rightarrow> nat \<Rightarrow> (cmd \<times> nat) parsed" where
  "parseline 0 t s = None"
| "parseline (Suc k) t s =
     pbind (parsepipe k t s) (\<lambda>(c, s).
       let (c, s) = backs t c s; (s, more) = peek t s [0x3B]
       in if more
          then let (_, _, _, s) = gettoken t s
               in pbind (parseline k t s) (\<lambda>(r, s). Some (Inr (LIST c r, s)))
          else Some (Inr (c, s)))"
| "parsepipe 0 t s = None"
| "parsepipe (Suc k) t s =
     pbind (parseexec k t s) (\<lambda>(c, s).
       let (s, more) = peek t s [0x7C]
       in if more
          then let (_, _, _, s) = gettoken t s
               in pbind (parsepipe k t s) (\<lambda>(r, s). Some (Inr (PIPE c r, s)))
          else Some (Inr (c, s)))"
| "parseblock 0 t s = None"
| "parseblock (Suc k) t s =
     (let (s, more) = peek t s [0x28]
      in if \<not> more then Some (Inl ''parseblock'')
         else let (_, _, _, s) = gettoken t s
              in pbind (parseline k t s) (\<lambda>(c, s).
                   let (s, more) = peek t s [0x29]
                   in if \<not> more then Some (Inl ''syntax - missing )'')
                      else let (_, _, _, s) = gettoken t s
                           in pbind (Some (parseredirs t [] s)) (\<lambda>(rs, s). Some (Inr (wrap c rs, s)))))"
| "parseexec 0 t s = None"
| "parseexec (Suc k) t s =
     (let (s, block) = peek t s [0x28]
      in if block then parseblock k t s
         else pbind (Some (parseredirs t [] s)) (\<lambda>(rs, s).
              pbind (Some (parseargs t [] rs s)) (\<lambda>(args, rs, s). Some (Inr (wrap (EXEC args) rs, s)))))"

  by pat_completeness auto
termination
  by (relation "measure (\<lambda>x. case x of Inl (Inl (k, t, s)) \<Rightarrow> k | Inl (Inr (k, t, s)) \<Rightarrow> k | Inr (Inl (k, t, s)) \<Rightarrow> k | Inr (Inr (k, t, s)) \<Rightarrow> k)") auto

text \<open>Writing the zero bytes: \<open>b\<close> is the buffer, which has a zero byte after the text.\<close>

fun nulterminate :: "cmd \<Rightarrow> uchar list \<Rightarrow> uchar list" where
  "nulterminate (EXEC args) b = fold (\<lambda>(q, eq) b. b[eq := 0]) args b"
| "nulterminate (REDIR c q eq mode fd) b = (nulterminate c b)[eq := 0]"
| "nulterminate (PIPE l r) b = nulterminate r (nulterminate l b)"
| "nulterminate (LIST l r) b = nulterminate r (nulterminate l b)"
| "nulterminate (BACK c) b = nulterminate c b"

definition parse_bound :: "uchar list \<Rightarrow> nat" where
  "parse_bound t = 4 * length t + 4"

definition parsecmd :: "uchar list \<Rightarrow> (cmd \<times> uchar list) parsed" where
  "parsecmd t =
     pbind (parseline (parse_bound t) t 0) (\<lambda>(c, s).
       let (s, _) = peek t s []
       in if s \<noteq> length t then Some (Inl ''syntax'') else Some (Inr (c, nulterminate c (t @ [0]))))"

subsection \<open>The parser returns\<close>

lemma skip_while_idem: "skip_while P t (skip_while P t s) = skip_while P t s"
proof -
  have "drop (length (takeWhile P (drop s t)) + s) t = dropWhile P (drop s t)"
    by (metis dropWhile_eq_drop drop_drop)
  moreover have "takeWhile P (dropWhile P xs) = []" for xs by (induction xs) auto
  ultimately show ?thesis by (simp add: skip_while_def add.commute)
qed

lemma peek_gettoken:
  assumes "peek t s toks = (s1, True)" and "gettoken t s1 = (tok, q, eq, s2)"
  shows "s \<le> s1 \<and> s1 < s2 \<and> s1 < length t"
proof -
  have p: "s \<le> s1" "s1 < length t" "chr_at t s1 \<noteq> 0" using peek_ge [OF assms(1)] by auto
  have "skip_while ws t s1 = s1" using assms(1) skip_while_idem by (auto simp: peek_def Let_def)
  then have "tok \<noteq> 0" using assms(2) p(3) by (auto simp: gettoken_def Let_def split: if_splits)
  then show ?thesis using gettoken_advances [OF assms(2)] p by auto
qed

lemma backs_ge: "backs t c s = (c', s') \<Longrightarrow> s \<le> s'"
proof (induction "length t - s" arbitrary: c s rule: less_induct)
  case less
  obtain s1 b where p: "peek t s [0x26] = (s1, b)" by fastforce
  obtain tok q eq s2 where g: "gettoken t s1 = (tok, q, eq, s2)" by (metis prod_cases4)
  show ?case
  proof (cases b)
    case True
    then have e: "backs t (BACK c) s2 = (c', s')" using less.prems by (subst (asm) backs.simps) (simp add: p g)
    have "s < s2" "s < length t" using peek_gettoken [of t s "[0x26]" s1, OF _ g] p True by auto
    then have "length t - s2 < length t - s" by simp
    from less.hyps [OF this e] show ?thesis using \<open>s < s2\<close> by simp
  next
    case False
    then show ?thesis using less.prems peek_ge [OF p] by (subst (asm) backs.simps) (simp add: p)
  qed
qed

lemma parseargs_ge: "parseargs t args rs s = Inr (args', rs', s') \<Longrightarrow> s \<le> s'"
proof (induction "MAXARGS - length args" arbitrary: args rs s rule: less_induct)
  case less
  obtain s1 b where p: "peek t s [0x7C, 0x29, 0x26, 0x3B] = (s1, b)" by fastforce
  obtain tok q eq s2 where g: "gettoken t s1 = (tok, q, eq, s2)" by (metis prod_cases4)
  note e = less.prems [unfolded parseargs.simps [of t args rs s] p Let_def prod.case g]
  note le = peek_ge [OF p] gettoken_ge [OF g]
  show ?case
  proof (cases "b \<or> tok = 0")
    case True
    then show ?thesis using e le by (auto simp: g split: if_splits)
  next
    case False
    then obtain rs2 s3 where r: "parseredirs t rs s2 = Inr (rs2, s3)" "parseargs t (args @ [(q, eq)]) rs2 s3 = Inr (args', rs', s')" "length args + 1 < MAXARGS"
      using e by (auto simp: g split: if_splits sum.splits)
    have "s3 \<le> s'" using less.hyps [OF _ r(2)] r(3) by simp
    then show ?thesis using parseredirs_ge [OF r(1)] le by simp
  qed
qed

lemma pbind_Inr: "pbind m f = Some (Inr y) \<longleftrightarrow> (\<exists>x. m = Some (Inr x) \<and> f x = Some (Inr y))"
  by (cases "(m, f)" rule: pbind.cases) auto

definition returns :: "'a parsed \<Rightarrow> bool" where
  "returns m \<longleftrightarrow> m \<noteq> None"

lemma returns_Some [simp]: "returns (Some x)"
  by (simp add: returns_def)

lemma pbind_total: "returns m \<Longrightarrow> (\<And>x. m = Some (Inr x) \<Longrightarrow> returns (f x)) \<Longrightarrow> returns (pbind m f)"
  unfolding returns_def by (cases "(m, f)" rule: pbind.cases) auto

lemma parseline_InrE:
  assumes "parseline (Suc k) t s = Some (Inr (c, s'))"
  obtains (one) c1 s1 s2 where "parsepipe k t s = Some (Inr (c1, s1))" "backs t c1 s1 = (c, s2)" "peek t s2 [0x3B] = (s', False)"
  | (more) c1 s1 c2 s2 s3 tok q eq s4 r where "parsepipe k t s = Some (Inr (c1, s1))" "backs t c1 s1 = (c2, s2)" "peek t s2 [0x3B] = (s3, True)"
      "gettoken t s3 = (tok, q, eq, s4)" "parseline k t s4 = Some (Inr (r, s'))" "c = LIST c2 r"
proof -
  obtain c1 s1 where h1: "parsepipe k t s = Some (Inr (c1, s1))" using assms by (auto simp: pbind_Inr)
  obtain c2 s2 where h2: "backs t c1 s1 = (c2, s2)" by fastforce
  obtain s3 b where h3: "peek t s2 [0x3B] = (s3, b)" by fastforce
  obtain tok q eq s4 where g: "gettoken t s3 = (tok, q, eq, s4)" by (metis prod_cases4)
  show thesis
  proof (cases b)
    case True
    then obtain r where "parseline k t s4 = Some (Inr (r, s'))" "c = LIST c2 r" using assms h1 h2 h3 g by (auto simp: pbind_Inr)
    then show thesis using more [OF h1 h2 _ g] h3 True by simp
  next
    case False
    then show thesis using one [OF h1] assms h1 h2 h3 by auto
  qed
qed

lemma parsepipe_InrE:
  assumes "parsepipe (Suc k) t s = Some (Inr (c, s'))"
  obtains (one) s1 where "parseexec k t s = Some (Inr (c, s1))" "peek t s1 [0x7C] = (s', False)"
  | (more) c1 s1 s3 tok q eq s4 r where "parseexec k t s = Some (Inr (c1, s1))" "peek t s1 [0x7C] = (s3, True)"
      "gettoken t s3 = (tok, q, eq, s4)" "parsepipe k t s4 = Some (Inr (r, s'))" "c = PIPE c1 r"
proof -
  obtain c1 s1 where h1: "parseexec k t s = Some (Inr (c1, s1))" using assms by (auto simp: pbind_Inr)
  obtain s3 b where h3: "peek t s1 [0x7C] = (s3, b)" by fastforce
  obtain tok q eq s4 where g: "gettoken t s3 = (tok, q, eq, s4)" by (metis prod_cases4)
  show thesis
  proof (cases b)
    case True
    then obtain r where "parsepipe k t s4 = Some (Inr (r, s'))" "c = PIPE c1 r" using assms h1 h3 g by (auto simp: pbind_Inr)
    then show thesis using more [OF h1 _ g] h3 True by simp
  next
    case False
    then show thesis using one assms h1 h3 by auto
  qed
qed

lemma parseblock_InrE:
  assumes "parseblock (Suc k) t s = Some (Inr (c, s'))"
  obtains s1 tok q eq s2 c1 s3 s4 tok' q' eq' s5 rs where "peek t s [0x28] = (s1, True)" "gettoken t s1 = (tok, q, eq, s2)"
    "parseline k t s2 = Some (Inr (c1, s3))" "peek t s3 [0x29] = (s4, True)" "gettoken t s4 = (tok', q', eq', s5)"
    "parseredirs t [] s5 = Inr (rs, s')" "c = wrap c1 rs"
proof -
  obtain s1 b where p: "peek t s [0x28] = (s1, b)" by fastforce
  obtain tok q eq s2 where g: "gettoken t s1 = (tok, q, eq, s2)" by (metis prod_cases4)
  have b: "b" using assms p by (auto split: if_splits)
  obtain c1 s3 where h: "parseline k t s2 = Some (Inr (c1, s3))" using assms b by (auto simp: p g pbind_Inr)
  obtain s4 d where p2: "peek t s3 [0x29] = (s4, d)" by fastforce
  obtain tok' q' eq' s5 where g2: "gettoken t s4 = (tok', q', eq', s5)" by (metis prod_cases4)
  have d: "d" using assms b h by (auto simp: p g p2 split: if_splits)
  obtain rs where "parseredirs t [] s5 = Inr (rs, s')" "c = wrap c1 rs" using assms b d by (auto simp: p g h p2 g2 pbind_Inr)
  then show thesis using that [OF _ g h _ g2] p p2 b d by simp
qed

lemma parseexec_InrE:
  assumes "parseexec (Suc k) t s = Some (Inr (c, s'))"
  obtains (block) s1 where "peek t s [0x28] = (s1, True)" "parseblock k t s1 = Some (Inr (c, s'))"
  | (args) s1 rs s2 args rs2 where "peek t s [0x28] = (s1, False)" "parseredirs t [] s1 = Inr (rs, s2)"
      "parseargs t [] rs s2 = Inr (args, rs2, s')" "c = wrap (EXEC args) rs2"
proof -
  obtain s1 b where p: "peek t s [0x28] = (s1, b)" by fastforce
  show thesis
  proof (cases b)
    case True
    then show thesis using block assms p by simp
  next
    case False
    then obtain rs s2 args rs2 where "parseredirs t [] s1 = Inr (rs, s2)" "parseargs t [] rs s2 = Inr (args, rs2, s')" "c = wrap (EXEC args) rs2"
      using assms by (auto simp: p pbind_Inr)
    then show thesis using args [of s1 rs s2] p False by simp
  qed
qed

lemma parse_ge:
  "parseline k t s = Some (Inr (c, s')) \<Longrightarrow> s \<le> s'"
  "parsepipe k t s = Some (Inr (c, s')) \<Longrightarrow> s \<le> s'"
  "parseblock k t s = Some (Inr (c, s')) \<Longrightarrow> s \<le> s'"
  "parseexec k t s = Some (Inr (c, s')) \<Longrightarrow> s \<le> s'"
proof (induction k arbitrary: s c s')
  case (Suc k)
  {
    case 1
    then show ?case
    proof (cases rule: parseline_InrE)
      case (one c1 s1 s2)
      then show ?thesis using Suc.IH(2) [OF one(1)] backs_ge [OF one(2)] peek_ge [OF one(3)] by simp
    next
      case (more c1 s1 c2 s2 s3 tok q eq s4 r)
      then show ?thesis using Suc.IH(2) [OF more(1)] backs_ge [OF more(2)] peek_ge [OF more(3)] gettoken_ge [OF more(4)] Suc.IH(1) [OF more(5)] by simp
    qed
  next
    case 2
    then show ?case
    proof (cases rule: parsepipe_InrE)
      case (one s1)
      then show ?thesis using Suc.IH(4) [OF one(1)] peek_ge [OF one(2)] by simp
    next
      case (more c1 s1 s3 tok q eq s4 r)
      then show ?thesis using Suc.IH(4) [OF more(1)] peek_ge [OF more(2)] gettoken_ge [OF more(3)] Suc.IH(2) [OF more(4)] by simp
    qed
  next
    case 3
    then show ?case
      by (cases rule: parseblock_InrE)
        (use Suc.IH(1) peek_ge gettoken_ge parseredirs_ge in \<open>meson le_trans\<close>)
  next
    case 4
    then show ?case
    proof (cases rule: parseexec_InrE)
      case (block s1)
      then show ?thesis using peek_ge [OF block(1)] Suc.IH(3) [OF block(2)] by simp
    next
      case (args s1 rs s2 args rs2)
      then show ?thesis using peek_ge [OF args(1)] parseredirs_ge [OF args(2)] parseargs_ge [OF args(3)] by simp
    qed
  }
qed auto

lemma less_left: "s \<le> s1 \<Longrightarrow> s1 < s4 \<and> s1 < (n :: nat) \<Longrightarrow> n - s4 + 1 \<le> n - s"
  by linarith

lemma parse_total:
  "4 * (length t - s) + 4 \<le> k \<Longrightarrow> returns (parseline k t s)"
  "4 * (length t - s) + 3 \<le> k \<Longrightarrow> returns (parsepipe k t s)"
  "4 * (length t - s) + 1 \<le> k \<Longrightarrow> returns (parseblock k t s)"
  "4 * (length t - s) + 2 \<le> k \<Longrightarrow> returns (parseexec k t s)"
proof (induction k arbitrary: s)
  case (Suc k)
  {
    case 1
    have "returns (parsepipe k t s)" using Suc.IH(2) [of s] 1 by simp
    moreover have "returns (parseline k t s4)"
      if "parsepipe k t s = Some (Inr (c1, s1))" "backs t c1 s1 = (c2, s2)" "peek t s2 [0x3B] = (s3, True)" "gettoken t s3 = (tok, q, eq, s4)" for c1 s1 c2 s2 s3 tok q eq s4
      using Suc.IH(1) [of s4] 1 parse_ge(2) [OF that(1)] backs_ge [OF that(2)] peek_gettoken [OF that(3,4)] less_left [of s s3 s4 "length t"] by linarith
    ultimately show ?case by (auto split: prod.split intro!: pbind_total)
  next
    case 2
    have "returns (parseexec k t s)" using Suc.IH(4) [of s] 2 by simp
    moreover have "returns (parsepipe k t s4)"
      if "parseexec k t s = Some (Inr (c1, s1))" "peek t s1 [0x7C] = (s3, True)" "gettoken t s3 = (tok, q, eq, s4)" for c1 s1 s3 tok q eq s4
      using Suc.IH(2) [of s4] 2 parse_ge(4) [OF that(1)] peek_gettoken [OF that(2,3)] less_left [of s s3 s4 "length t"] by linarith
    ultimately show ?case by (auto split: prod.split intro!: pbind_total)
  next
    case 3
    have "returns (parseline k t s4)" if "peek t s [0x28] = (s3, True)" "gettoken t s3 = (tok, q, eq, s4)" for s3 tok q eq s4
      using Suc.IH(1) [of s4] 3 peek_gettoken [OF that] less_left [of s s3 s4 "length t"] by linarith
    then show ?case by (auto split: prod.split intro!: pbind_total)
  next
    case 4
    have "returns (parseblock k t s3)" if "peek t s [0x28] = (s3, b)" for s3 b
      using Suc.IH(3) [of s3] 4 peek_ge [OF that] diff_le_mono2 [of s s3 "length t"] by linarith
    then show ?case by (auto split: prod.split intro!: pbind_total)
  }
qed (auto simp: returns_def)

subsection \<open>Words and their terminators\<close>

fun tokens :: "cmd \<Rightarrow> (nat \<times> nat) list" where
  "tokens (EXEC args) = args"
| "tokens (REDIR c q eq mode fd) = tokens c @ [(q, eq)]"
| "tokens (PIPE l r) = tokens l @ tokens r"
| "tokens (LIST l r) = tokens l @ tokens r"
| "tokens (BACK c) = tokens c"

lemma nulterminate_tokens: "nulterminate c b = fold (\<lambda>(q, eq) b. b[eq := 0]) (tokens c) b"
  by (induction c arbitrary: b) auto

definition good_tok :: "uchar list \<Rightarrow> nat \<times> nat \<Rightarrow> bool" where
  "good_tok t = (\<lambda>(q, eq). q < eq \<and> eq \<le> length t \<and> (\<forall>i. q \<le> i \<and> i < eq \<longrightarrow> word_char (t ! i))
     \<and> (eq < length t \<longrightarrow> \<not> word_char (t ! eq)))"

lemma skip_while_props:
  assumes "s \<le> length t"
  shows "skip_while P t s \<le> length t" "s \<le> i \<Longrightarrow> i < skip_while P t s \<Longrightarrow> P (t ! i)"
    "skip_while P t s < length t \<Longrightarrow> \<not> P (t ! skip_while P t s)"
proof -
  let ?k = "length (takeWhile P (drop s t))"
  have k: "?k \<le> length t - s" using length_takeWhile_le [of P "drop s t"] by simp
  then show "skip_while P t s \<le> length t" using assms by (simp add: skip_while_def)
  show "P (t ! i)" if "s \<le> i" "i < skip_while P t s"
  proof -
    have "takeWhile P (drop s t) ! (i - s) = t ! i" "i - s < ?k"
      using that assms k by (simp_all add: skip_while_def takeWhile_nth)
    then show ?thesis by (metis nth_mem set_takeWhileD)
  qed
  show "\<not> P (t ! skip_while P t s)" if "skip_while P t s < length t"
    using that nth_length_takeWhile [of P "drop s t"] assms by (simp add: skip_while_def less_diff_conv2 add.commute)
qed

lemma gettoken_word:
  assumes "gettoken t s = (0x61, q, eq, s')"
  shows "good_tok t (q, eq)"
proof -
  have q: "q = skip_while ws t s" using assms by (auto simp: gettoken_def Let_def split: if_splits)
  have a: "q < length t" using gettoken_advances [OF assms] by simp
  have e: "eq = skip_while word_char t q" "chr_at t q \<noteq> 0x28" using assms q by (auto simp: gettoken_def Let_def split: if_splits)
  have "q < eq"
  proof -
    have "\<not> ws (t ! q)" using a nth_length_takeWhile [of ws "drop s t"] by (auto simp: q skip_while_def)
    moreover have "t ! q \<notin> set symbols" using assms q a by (auto simp: gettoken_def Let_def chr_at_def symbols_def split: if_splits)
    ultimately show ?thesis unfolding e(1) using skip_while_word [OF a] by (simp add: ws_def word_char_def)
  qed
  then show ?thesis using skip_while_props [where s = q and t = t and P = word_char] a e(1) by (auto simp: good_tok_def)
qed

lemma wrap_tokens: "tokens (wrap c rs) = tokens c @ map (\<lambda>(q, eq, mode, fd). (q, eq)) rs"
proof (induction rs rule: rev_induct)
  case (snoc r rs)
  then show ?case by (cases r) (simp add: wrap_def)
qed (simp add: wrap_def)

lemma parseredirs_good:
  "parseredirs t rs s = Inr (rs', s') \<Longrightarrow> list_all (\<lambda>(q, eq, mode, fd). good_tok t (q, eq)) rs \<Longrightarrow>
     list_all (\<lambda>(q, eq, mode, fd). good_tok t (q, eq)) rs'"
proof (induction "length t - s" arbitrary: rs s rule: less_induct)
  case less
  obtain s1 b where p: "peek t s [0x3C, 0x3E] = (s1, b)" by fastforce
  obtain tok q1 eq1 s2 where g1: "gettoken t s1 = (tok, q1, eq1, s2)" by (metis prod_cases4)
  obtain tok2 q eq s3 where g2: "gettoken t s2 = (tok2, q, eq, s3)" by (metis prod_cases4)
  note e = less.prems(1) [unfolded parseredirs.simps [of t rs s] p Let_def prod.case g1 g2]
  show ?case
  proof (cases b)
    case False
    then show ?thesis using e less.prems(2) by simp
  next
    case True
    then have t2: "tok2 = 0x61" using e by (auto simp: g1 g2 split: if_splits)
    then have "s2 < s3" using gettoken_advances [OF g2] by simp
    then have lt: "length t - s3 < length t - s" using peek_ge [OF p] gettoken_ge [OF g1] True by auto
    show ?thesis using less.hyps [OF lt, of "rs @ [if tok = 0x3C then (q, eq, O_RDONLY, 0) else (q, eq, O_WRONLY_CREATE, 1)]"]
        e True t2 g2 gettoken_word less.prems(2) by (auto simp: g1 split: if_splits)
  qed
qed

lemma parseargs_good:
  "parseargs t args rs s = Inr (args', rs', s') \<Longrightarrow> list_all (good_tok t) args \<Longrightarrow> list_all (\<lambda>(q, eq, mode, fd). good_tok t (q, eq)) rs \<Longrightarrow>
     list_all (good_tok t) args' \<and> list_all (\<lambda>(q, eq, mode, fd). good_tok t (q, eq)) rs'"
proof (induction "MAXARGS - length args" arbitrary: args rs s rule: less_induct)
  case less
  obtain s1 b where p: "peek t s [0x7C, 0x29, 0x26, 0x3B] = (s1, b)" by fastforce
  obtain tok q eq s2 where g: "gettoken t s1 = (tok, q, eq, s2)" by (metis prod_cases4)
  note e = less.prems(1) [unfolded parseargs.simps [of t args rs s] p Let_def prod.case g]
  show ?case
  proof (cases "b \<or> tok = 0")
    case True
    then show ?thesis using e less.prems(2,3) by (auto simp: g split: if_splits)
  next
    case False
    then obtain rs2 s3 where r: "parseredirs t rs s2 = Inr (rs2, s3)" "parseargs t (args @ [(q, eq)]) rs2 s3 = Inr (args', rs', s')" "length args + 1 < MAXARGS" "tok = 0x61"
      using e by (auto simp: g split: if_splits sum.splits)
    have "list_all (good_tok t) (args @ [(q, eq)])" using less.prems(2) gettoken_word g r(4) by simp
    then show ?thesis using less.hyps [OF _ r(2)] r(3) parseredirs_good [OF r(1) less.prems(3)] by simp
  qed
qed

lemma backs_tokens: "backs t c s = (c', s') \<Longrightarrow> tokens c' = tokens c"
proof (induction "length t - s" arbitrary: c s rule: less_induct)
  case less
  obtain s1 b where p: "peek t s [0x26] = (s1, b)" by fastforce
  obtain tok q eq s2 where g: "gettoken t s1 = (tok, q, eq, s2)" by (metis prod_cases4)
  show ?case
  proof (cases b)
    case True
    then have e: "backs t (BACK c) s2 = (c', s')" using less.prems by (subst (asm) backs.simps) (simp add: p g)
    have "s < s2" "s < length t" using peek_gettoken [of t s "[0x26]" s1, OF _ g] p True by auto
    then have "length t - s2 < length t - s" by simp
    from less.hyps [OF this e] show ?thesis by simp
  next
    case False
    then show ?thesis using less.prems by (subst (asm) backs.simps) (simp add: p)
  qed
qed

lemma parse_good:
  "parseline k t s = Some (Inr (c, s')) \<Longrightarrow> list_all (good_tok t) (tokens c)"
  "parsepipe k t s = Some (Inr (c, s')) \<Longrightarrow> list_all (good_tok t) (tokens c)"
  "parseblock k t s = Some (Inr (c, s')) \<Longrightarrow> list_all (good_tok t) (tokens c)"
  "parseexec k t s = Some (Inr (c, s')) \<Longrightarrow> list_all (good_tok t) (tokens c)"
proof (induction k arbitrary: s c s')
  case (Suc k)
  have w: "list_all (good_tok t) (tokens (wrap d rs)) \<longleftrightarrow> list_all (good_tok t) (tokens d) \<and> list_all (\<lambda>(q, eq, mode, fd). good_tok t (q, eq)) rs" for d rs
  proof -
    have "(\<lambda>(q, eq, mode, fd). good_tok t (q, eq)) = good_tok t \<circ> (\<lambda>(q :: nat, eq, mode :: nat, fd :: nat). (q, eq))" by (auto simp: fun_eq_iff)
    then show ?thesis by (simp add: wrap_tokens list.pred_map)
  qed
  {
    case 1
    then show ?case
    proof (cases rule: parseline_InrE)
      case (one c1 s1 s2)
      then show ?thesis using Suc.IH(2) [OF one(1)] backs_tokens [OF one(2)] by simp
    next
      case (more c1 s1 c2 s2 s3 tok q eq s4 r)
      then show ?thesis using Suc.IH(2) [OF more(1)] backs_tokens [OF more(2)] Suc.IH(1) [OF more(5)] by simp
    qed
  next
    case 2
    then show ?case
    proof (cases rule: parsepipe_InrE)
      case (one s1)
      then show ?thesis using Suc.IH(4) by blast
    next
      case (more c1 s1 s3 tok q eq s4 r)
      then show ?thesis using Suc.IH(4) [OF more(1)] Suc.IH(2) [OF more(4)] by simp
    qed
  next
    case 3
    then show ?case
    proof (cases rule: parseblock_InrE)
      case (1 s1 tok q eq s2 c1 s3 s4 tok' q' eq' s5 rs)
      then show ?thesis using Suc.IH(1) [OF 1(3)] parseredirs_good [OF 1(6)] w by simp
    qed
  next
    case 4
    then show ?case
    proof (cases rule: parseexec_InrE)
      case (block s1)
      then show ?thesis using Suc.IH(3) by simp
    next
      case (args s1 rs s2 args rs2)
      then show ?thesis using parseredirs_good [OF args(2)] parseargs_good [OF args(3)] w by simp
    qed
  }
qed auto

text \<open>A command with its words as strings: read from the terminated buffer, or from the line.\<close>

datatype scmd =
  SExec "uchar list list" | SRedir scmd "uchar list" nat nat | SPipe scmd scmd | SList scmd scmd | SBack scmd

definition cstr :: "uchar list \<Rightarrow> nat \<Rightarrow> uchar list" where
  "cstr b q = takeWhile (\<lambda>c. c \<noteq> 0) (drop q b)"

definition word_at :: "uchar list \<Rightarrow> nat \<times> nat \<Rightarrow> uchar list" where
  "word_at t = (\<lambda>(q, eq). take (eq - q) (drop q t))"

fun strings :: "(nat \<times> nat \<Rightarrow> uchar list) \<Rightarrow> cmd \<Rightarrow> scmd" where
  "strings f (EXEC args) = SExec (map f args)"
| "strings f (REDIR c q eq mode fd) = SRedir (strings f c) (f (q, eq)) mode fd"
| "strings f (PIPE l r) = SPipe (strings f l) (strings f r)"
| "strings f (LIST l r) = SList (strings f l) (strings f r)"
| "strings f (BACK c) = SBack (strings f c)"

lemma strings_cong: "list_all (\<lambda>x. f x = g x) (tokens c) \<Longrightarrow> strings f c = strings g c"
  by (induction c) (auto simp: list_all_iff)

lemma fold_zero_nth:
  "i < length b \<Longrightarrow> fold (\<lambda>(q, eq) b. b[eq := 0]) ts b ! i = (if \<exists>q. (q, i) \<in> set ts then 0 else b ! i)"
proof (induction ts arbitrary: b)
  case (Cons x ts)
  then show ?case by (cases x) (auto simp: nth_list_update)
qed simp

lemma length_fold_zero: "length (fold (\<lambda>(q, eq) b. b[eq := 0]) ts b) = length b"
  by (induction ts arbitrary: b) auto

lemma takeWhile_word_at:
  assumes "q \<le> eq" "eq < length b" "b ! eq = (0 :: uchar)" "\<And>i. q \<le> i \<Longrightarrow> i < eq \<Longrightarrow> b ! i \<noteq> 0"
  shows "takeWhile (\<lambda>c. c \<noteq> 0) (drop q b) = take (eq - q) (drop q b)"
  by (rule takeWhile_eq_take_P_nth) (use assms in auto)

lemma nulterminate_strings:
  assumes "list_all (good_tok t) (tokens c)" and "0 \<notin> set t"
  shows "strings (\<lambda>(q, eq). cstr (nulterminate c (t @ [0])) q) c = strings (word_at t) c"
proof (rule strings_cong, unfold list_all_iff, intro ballI)
  let ?b = "nulterminate c (t @ [0])"
  fix x assume x: "x \<in> set (tokens c)"
  obtain q eq where xe: "x = (q, eq)" by fastforce
  have g: "q < eq" "eq \<le> length t" "\<And>i. q \<le> i \<Longrightarrow> i < eq \<Longrightarrow> word_char (t ! i)"
    using assms(1) x xe by (auto simp: list_all_iff good_tok_def)
  have same: "?b ! i = t ! i" if i: "q \<le> i" "i < eq" for i
  proof -
    have "(r, i) \<notin> set (tokens c)" for r
      using assms(1) g(2) g(3) [of i] i by (auto simp: list_all_iff good_tok_def)
    then show ?thesis using i g(2) by (simp add: nulterminate_tokens fold_zero_nth nth_append)
  qed
  have z: "?b ! eq = 0" using x xe g(2) by (auto simp: nulterminate_tokens fold_zero_nth)
  have l: "length ?b = length t + 1" by (simp add: nulterminate_tokens length_fold_zero)
  have "cstr ?b q = take (eq - q) (drop q ?b)"
    unfolding cstr_def by (rule takeWhile_word_at) (use g z l same assms(2) in \<open>auto simp: in_set_conv_nth\<close>)
  also have "\<dots> = take (eq - q) (drop q t)"
    by (rule nth_equalityI) (use g same l in auto)
  finally show "(case x of (q, eq) \<Rightarrow> cstr ?b q) = word_at t x" by (simp add: xe word_at_def)
qed

subsection \<open>Printing and parsing\<close>

definition good_word :: "uchar list \<Rightarrow> bool" where
  "good_word w \<longleftrightarrow> w \<noteq> [] \<and> list_all (\<lambda>c. word_char c \<and> c \<noteq> 0) w"

fun good_scmd :: "scmd \<Rightarrow> bool" where
  "good_scmd (SExec wl) \<longleftrightarrow> length wl < MAXARGS \<and> list_all good_word wl"
| "good_scmd (SRedir c f mode fd) \<longleftrightarrow> good_scmd c \<and> good_word f \<and> (mode, fd) \<in> {(O_RDONLY, 0), (O_WRONLY_CREATE, 1)}"
| "good_scmd (SPipe l r) \<longleftrightarrow> good_scmd l \<and> good_scmd r"
| "good_scmd (SList l r) \<longleftrightarrow> good_scmd l \<and> good_scmd r"
| "good_scmd (SBack c) \<longleftrightarrow> good_scmd c"

fun show_cmd :: "scmd \<Rightarrow> uchar list" where
  "show_cmd (SExec wl) = concat (map (\<lambda>w. w @ [0x20]) wl)"
| "show_cmd (SRedir c f mode fd) = 0x28 # show_cmd c @ 0x29 # (if fd = 0 then 0x3C else 0x3E) # f @ [0x20]"
| "show_cmd (SPipe l r) = 0x28 # show_cmd l @ 0x29 # 0x7C # 0x28 # show_cmd r @ [0x29]"
| "show_cmd (SList l r) = 0x28 # show_cmd l @ 0x29 # 0x3B # 0x28 # show_cmd r @ [0x29]"
| "show_cmd (SBack c) = 0x28 # show_cmd c @ [0x29, 0x26]"

definition solid :: "uchar list \<Rightarrow> bool" where
  "solid r \<longleftrightarrow> r = [] \<or> \<not> ws (hd r)"

lemma ws_symbols [simp]: "\<not> ws 0x28" "\<not> ws 0x29" "\<not> ws 0x3C" "\<not> ws 0x3E" "\<not> ws 0x7C" "\<not> ws 0x26" "\<not> ws 0x3B" "ws 0x20"
  by (simp_all add: ws_def whitespace_def)

lemma solid_simps [simp]: "solid []" "solid (c # r) \<longleftrightarrow> \<not> ws c"
  by (simp_all add: solid_def)

lemma skip_solid: "drop s t = r \<Longrightarrow> solid r \<Longrightarrow> skip_while ws t s = s"
  by (cases r) (auto simp: skip_while_def)

lemma chr_at_drop: "drop s t = r \<Longrightarrow> chr_at t s = (if r = [] then 0 else hd r)"
  by (auto simp: chr_at_def hd_drop_conv_nth)

lemma drop_Suc_Cons: "drop s t = c # r \<Longrightarrow> drop (Suc s) t = r"
  by (metis drop_Suc list.sel(3) tl_drop)

lemma peek_solid:
  assumes "drop s t = r" and "solid r"
  shows "peek t s toks = (s, r \<noteq> [] \<and> hd r \<noteq> 0 \<and> hd r \<in> set toks)"
  using skip_solid [OF assms] chr_at_drop [OF assms(1)] by (auto simp: peek_def)

lemma gettoken_sym:
  assumes "drop s t = c # r" and "c \<in> {0x7C, 0x28, 0x29, 0x3B, 0x26, 0x3C}" and "solid r"
  shows "gettoken t s = (c, s, Suc s, Suc s)"
proof -
  have "skip_while ws t s = s" by (rule skip_solid [OF assms(1)]) (use assms(2) in auto)
  moreover have "skip_while ws t (Suc s) = Suc s" by (rule skip_solid [OF drop_Suc_Cons [OF assms(1)] assms(3)])
  ultimately show ?thesis using assms chr_at_drop [OF assms(1)] by (auto simp: gettoken_def)
qed

lemma gettoken_gt:
  assumes "drop s t = 0x3E # r" and "r \<noteq> []" and "hd r \<noteq> 0x3E" and "solid r"
  shows "gettoken t s = (0x3E, s, Suc s, Suc s)"
proof -
  have "skip_while ws t s = s" by (rule skip_solid [OF assms(1)]) simp
  moreover have "skip_while ws t (Suc s) = Suc s" by (rule skip_solid [OF drop_Suc_Cons [OF assms(1)] assms(4)])
  moreover have "chr_at t (Suc s) = hd r" using chr_at_drop [OF drop_Suc_Cons [OF assms(1)]] assms(2) by simp
  ultimately show ?thesis using assms(3) chr_at_drop [OF assms(1)] by (auto simp: gettoken_def)
qed

lemma word_char_props: "word_char c \<Longrightarrow> \<not> ws c \<and> c \<notin> {0x7C, 0x28, 0x29, 0x3B, 0x26, 0x3C} \<and> c \<noteq> 0x3E"
  by (auto simp: word_char_def ws_def symbols_def)

lemma good_word_hd: "good_word w \<Longrightarrow> \<exists>c v. w = c # v \<and> word_char c \<and> c \<noteq> 0"
  by (cases w) (auto simp: good_word_def)

lemma gettoken_good_word:
  assumes "drop s t = w @ 0x20 # r" and "good_word w" and "solid r"
  shows "gettoken t s = (0x61, s, s + length w, Suc (s + length w))" and "word_at t (s, s + length w) = w"
    and "drop (Suc (s + length w)) t = r"
proof -
  obtain c v where w: "w = c # v" "word_char c" "c \<noteq> 0" using good_word_hd [OF assms(2)] by blast
  have d: "drop (s + length w) t = 0x20 # r" using assms(1) by (metis add.commute append_eq_conv_conj drop_drop)
  then show d': "drop (Suc (s + length w)) t = r" by (rule drop_Suc_Cons)
  have q: "skip_while ws t s = s" by (rule skip_solid [OF assms(1)]) (use w word_char_props [OF w(2)] in simp)
  have "takeWhile word_char (w @ 0x20 # r) = w"
    using assms(2) by (subst takeWhile_append2) (auto simp: good_word_def list_all_iff word_char_def whitespace_def)
  then have e: "skip_while word_char t s = s + length w" by (simp add: skip_while_def assms(1))
  have f: "skip_while ws t (s + length w) = Suc (s + length w)"
    using d assms(3) by (cases r) (auto simp: skip_while_def)
  show "gettoken t s = (0x61, s, s + length w, Suc (s + length w))"
    using q e f chr_at_drop [OF assms(1)] w word_char_props [OF w(2)] by (auto simp: gettoken_def)
  show "word_at t (s, s + length w) = w" by (simp add: word_at_def assms(1))
qed

lemma parseredirs_none:
  assumes "drop s t = r" and "solid r" and "r = [] \<or> hd r \<notin> {0x3C, 0x3E}"
  shows "parseredirs t rs s = Inr (rs, s)"
  using peek_solid [OF assms(1,2), of "[0x3C, 0x3E]"] assms(3) by (subst parseredirs.simps) auto

lemma backs_none:
  assumes "drop s t = r" and "solid r" and "r = [] \<or> hd r \<noteq> 0x26"
  shows "backs t c s = (c, s)"
  using peek_solid [OF assms(1,2), of "[0x26]"] assms(3) by (subst backs.simps) auto

text \<open>What can follow a printed command.\<close>

definition stop :: "uchar list \<Rightarrow> bool" where
  "stop r \<longleftrightarrow> r = [] \<or> hd r = 0x29"

lemma stop_props: "stop r \<Longrightarrow> solid r \<and> (r = [] \<or> hd r \<notin> {0x3C, 0x3E, 0x26, 0x7C, 0x3B})"
  by (auto simp: stop_def solid_def)

lemma words_solid:
  assumes "list_all good_word wl" and "stop r"
  shows "solid (concat (map (\<lambda>w. w @ [0x20]) wl) @ r)"
    and "concat (map (\<lambda>w. w @ [0x20]) wl) @ r = [] \<or> hd (concat (map (\<lambda>w. w @ [0x20]) wl) @ r) \<notin> {0x28, 0x3C, 0x3E, 0x26, 0x7C, 0x3B}"
proof -
  have "solid (concat (map (\<lambda>w. w @ [0x20]) wl) @ r) \<and> (concat (map (\<lambda>w. w @ [0x20]) wl) @ r = []
      \<or> hd (concat (map (\<lambda>w. w @ [0x20]) wl) @ r) \<notin> {0x28, 0x3C, 0x3E, 0x26, 0x7C, 0x3B})"
  proof (cases wl)
    case Nil
    then show ?thesis using stop_props [OF assms(2)] assms(2) by (auto simp: stop_def)
  next
    case (Cons w us)
    then have "good_word w" using assms(1) by simp
    then obtain c v where w: "w = c # v" "word_char c" using good_word_hd by blast
    then show ?thesis using Cons word_char_props [OF w(2)] by auto
  qed
  then show "solid (concat (map (\<lambda>w. w @ [0x20]) wl) @ r)"
    "concat (map (\<lambda>w. w @ [0x20]) wl) @ r = [] \<or> hd (concat (map (\<lambda>w. w @ [0x20]) wl) @ r) \<notin> {0x28, 0x3C, 0x3E, 0x26, 0x7C, 0x3B}" by blast+
qed

lemma parseargs_words:
  assumes "drop s t = concat (map (\<lambda>w. w @ [0x20]) wl) @ r" and "list_all good_word wl" and "stop r" and "length args + length wl < MAXARGS"
  shows "\<exists>as. parseargs t args rs s = Inr (args @ as, rs, s + length (concat (map (\<lambda>w. w @ [0x20 :: uchar]) wl))) \<and> map (word_at t) as = wl"
  using assms
proof (induction wl arbitrary: s args)
  case Nil
  then have d: "drop s t = r" by simp
  note p = peek_solid [OF d, of "[0x7C, 0x29, 0x26, 0x3B]"]
  show ?case
  proof (cases "r = []")
    case True
    have "gettoken t s = (0, s, s, s)" using chr_at_drop [OF d] skip_solid [OF d] True by (simp add: gettoken_def)
    then show ?thesis using p True by (subst parseargs.simps) simp
  next
    case False
    then show ?thesis using p stop_props [OF Nil.prems(3)] Nil.prems(3) by (subst parseargs.simps) (simp add: stop_def)
  qed
next
  case (Cons w wl)
  let ?rest = "concat (map (\<lambda>w. w @ [0x20]) wl) @ r"
  have w: "good_word w" "list_all good_word wl" using Cons.prems(2) by auto
  have d: "drop s t = w @ 0x20 # ?rest" using Cons.prems(1) by simp
  note sol = words_solid [OF w(2) Cons.prems(3)]
  note g = gettoken_good_word [OF d w(1) sol(1)]
  obtain c v where cv: "w = c # v" "word_char c" using good_word_hd [OF w(1)] by blast
  have p: "peek t s [0x7C, 0x29, 0x26, 0x3B] = (s, False)"
    using peek_solid [OF d, of "[0x7C, 0x29, 0x26, 0x3B]"] cv word_char_props [OF cv(2)] by auto
  have r: "parseredirs t rs (Suc (s + length w)) = Inr (rs, Suc (s + length w))"
    by (rule parseredirs_none [OF g(3) sol(1)]) (use sol(2) in auto)
  obtain as where as: "parseargs t (args @ [(s, s + length w)]) rs (Suc (s + length w)) = Inr ((args @ [(s, s + length w)]) @ as, rs,
      Suc (s + length w) + length (concat (map (\<lambda>w. w @ [0x20 :: uchar]) wl)))" "map (word_at t) as = wl"
    using Cons.IH [OF g(3) w(2) Cons.prems(3), of "args @ [(s, s + length w)]"] Cons.prems(4) by auto
  have "parseargs t args rs s = Inr (args @ (s, s + length w) # as, rs, s + length (concat (map (\<lambda>w. w @ [0x20 :: uchar]) (w # wl))))"
    using Cons.prems(4) as(1) by (subst parseargs.simps) (simp add: p g(1) r)
  then show ?case using as(2) g(2) by (intro exI [of _ "(s, s + length w) # as"]) simp
qed

lemma show_solid: "good_scmd c \<Longrightarrow> stop r \<Longrightarrow> solid (show_cmd c @ r)"
  by (cases c) (auto simp: words_solid)

definition parses :: "uchar list \<Rightarrow> scmd \<Rightarrow> bool" where
  "parses t c \<longleftrightarrow> (\<forall>k s r. drop s t = show_cmd c @ r \<longrightarrow> stop r \<longrightarrow> 4 * (length t - s) + 4 \<le> k \<longrightarrow>
     (\<exists>c'. parseline k t s = Some (Inr (c', s + length (show_cmd c))) \<and> strings (word_at t) c' = c))"

lemma parse_block:
  assumes inner: "parses t c"
    and c: "good_scmd c" and d: "drop s t = 0x28 # show_cmd c @ 0x29 # r" and r: "solid r" and k: "4 * (length t - s) + 2 \<le> k"
  shows "\<exists>c'. strings (word_at t) c' = c \<and> drop (s + length (show_cmd c) + 2) t = r
    \<and> parseexec k t s = pbind (Some (parseredirs t [] (s + length (show_cmd c) + 2))) (\<lambda>(rs, s). Some (Inr (wrap c' rs, s)))"
proof -
  obtain k2 where k2: "k = Suc (Suc k2)" using k by (cases k; cases "k - 1") auto
  have lt: "s < length t" using d by (metis drop_all linorder_not_le list.distinct(1))
  have st: "stop (0x29 # r)" by (simp add: stop_def)
  have d1: "drop (Suc s) t = show_cmd c @ 0x29 # r" by (rule drop_Suc_Cons [OF d])
  have p1: "peek t s [0x28] = (s, True)" using peek_solid [OF d, of "[0x28]"] by simp
  have g1: "gettoken t s = (0x28, s, Suc s, Suc s)" by (rule gettoken_sym [OF d]) (use show_solid [OF c st] in auto)
  have "4 * (length t - Suc s) + 4 \<le> k2" using k k2 lt by linarith
  then obtain c' where c': "parseline k2 t (Suc s) = Some (Inr (c', Suc s + length (show_cmd c)))" "strings (word_at t) c' = c"
    using inner d1 st unfolding parses_def by blast
  let ?s3 = "Suc s + length (show_cmd c)"
  have d3: "drop ?s3 t = 0x29 # r" using d1 by (metis add.commute append_eq_conv_conj drop_drop)
  have p3: "peek t ?s3 [0x29] = (?s3, True)" using peek_solid [OF d3, of "[0x29]"] by simp
  have g3: "gettoken t ?s3 = (0x29, ?s3, Suc ?s3, Suc ?s3)" by (rule gettoken_sym [OF d3 _ r]) simp
  have d4: "drop (Suc ?s3) t = r" by (rule drop_Suc_Cons [OF d3])
  have "parseexec k t s = pbind (Some (parseredirs t [] (Suc ?s3))) (\<lambda>(rs, s). Some (Inr (wrap c' rs, s)))"
    unfolding k2 using p1 g1 c'(1) p3 g3 by simp
  then show ?thesis using c'(2) d4 by (intro exI [of _ c']) (simp add: numeral_2_eq_2)
qed

lemma wrap_Nil [simp]: "wrap c [] = c"
  by (simp add: wrap_def)

lemma wrap_single: "wrap c [(q, eq, mode, fd)] = REDIR c q eq mode fd"
  by (simp add: wrap_def)

lemma parse_block_plain:
  assumes "parses t c" and "good_scmd c" and "drop s t = 0x28 # show_cmd c @ 0x29 # r" and "solid r" and "r = [] \<or> hd r \<notin> {0x3C, 0x3E}"
    and "4 * (length t - s) + 2 \<le> k"
  shows "\<exists>c'. strings (word_at t) c' = c \<and> drop (s + length (show_cmd c) + 2) t = r \<and> parseexec k t s = Some (Inr (c', s + length (show_cmd c) + 2))"
proof -
  obtain c' where b: "strings (word_at t) c' = c" "drop (s + length (show_cmd c) + 2) t = r"
    "parseexec k t s = pbind (Some (parseredirs t [] (s + length (show_cmd c) + 2))) (\<lambda>(rs, s). Some (Inr (wrap c' rs, s)))"
    using parse_block [OF assms(1-4,6)] by blast
  have "parseexec k t s = Some (Inr (c', s + length (show_cmd c) + 2))"
    unfolding b(3) parseredirs_none [OF b(2) assms(4,5)] by simp
  then show ?thesis using b(1,2) by blast
qed

lemma parse_tail:
  assumes "parseexec k t s = Some (Inr (c, s'))" and "drop s' t = r" and "stop r"
  shows "parsepipe (Suc k) t s = Some (Inr (c, s'))" and "parseline (Suc (Suc k)) t s = Some (Inr (c, s'))"
proof -
  note r = stop_props [OF assms(3)]
  show p: "parsepipe (Suc k) t s = Some (Inr (c, s'))"
    using assms(1) peek_solid [OF assms(2), of "[0x7C]"] r by auto
  have "backs t c s' = (c, s')" by (rule backs_none [OF assms(2)]) (use r in auto)
  then show "parseline (Suc (Suc k)) t s = Some (Inr (c, s'))"
    unfolding parseline.simps(2) p using peek_solid [OF assms(2), of "[0x3B]"] r by auto
qed

lemma parse_redir:
  assumes "drop s t = (if fd = 0 then 0x3C else 0x3E) # f @ 0x20 # r" and "good_word f" and "(mode, fd) \<in> {(O_RDONLY, 0), (O_WRONLY_CREATE, 1)}" and "stop r"
  shows "parseredirs t [] s = Inr ([(Suc s, Suc s + length f, mode, fd)], Suc (Suc s + length f))" and "word_at t (Suc s, Suc s + length f) = f"
proof -
  obtain c v where cv: "f = c # v" "word_char c" using good_word_hd [OF assms(2)] by blast
  note wc = word_char_props [OF cv(2)]
  note r = stop_props [OF assms(4)]
  have d1: "drop (Suc s) t = f @ 0x20 # r" by (rule drop_Suc_Cons [OF assms(1)])
  note g = gettoken_good_word [OF d1 assms(2)]
  have p: "peek t s [0x3C, 0x3E] = (s, True)" using peek_solid [OF assms(1), of "[0x3C, 0x3E]"] by auto
  have g1: "gettoken t s = (if fd = 0 then 0x3C else 0x3E, s, Suc s, Suc s)"
  proof (cases "fd = 0")
    case True
    then show ?thesis using gettoken_sym [of s t "0x3C" "f @ 0x20 # r"] assms(1) wc cv by auto
  next
    case False
    then show ?thesis using gettoken_gt [of s t "f @ 0x20 # r"] assms(1) wc cv by auto
  qed
  have n: "parseredirs t rs (Suc (Suc s + length f)) = Inr (rs, Suc (Suc s + length f))" for rs
    by (rule parseredirs_none [OF g(3)]) (use r in auto)
  show "parseredirs t [] s = Inr ([(Suc s, Suc s + length f, mode, fd)], Suc (Suc s + length f))"
    using assms(3) r n by (subst parseredirs.simps) (auto simp: p g1 g(1))
  show "word_at t (Suc s, Suc s + length f) = f" using g(2) r by simp
qed

lemma fuel3: "4 * n + 4 \<le> k \<Longrightarrow> \<exists>k2. k = Suc (Suc (Suc k2)) \<and> 4 * n + 1 \<le> k2"
  by (intro exI [of _ "k - 3"]) auto

lemma parse_show: "good_scmd c \<Longrightarrow> parses t c"
proof (induction c)
  case (SExec wl)
  show ?case
    unfolding parses_def
  proof (intro allI impI)
  fix k s r assume a: "drop s t = show_cmd (SExec wl) @ r" "stop r" "4 * (length t - s) + 4 \<le> k"
  obtain k3 where k3: "k = Suc (Suc (Suc k3))" using fuel3 [OF a(3)] by blast
  have w: "list_all good_word wl" "length wl < MAXARGS" using SExec.prems(1) by auto
  have d: "drop s t = concat (map (\<lambda>w. w @ [0x20]) wl) @ r" using a(1) by simp
  note sol = words_solid [OF w(1) a(2)]
  have p: "peek t s [0x28] = (s, False)" using peek_solid [OF d sol(1), of "[0x28]"] sol(2) by auto
  have n: "parseredirs t [] s = Inr ([], s)" by (rule parseredirs_none [OF d sol(1)]) (use sol(2) in auto)
  obtain as where as: "parseargs t [] [] s = Inr (as, [], s + length (show_cmd (SExec wl)))" "map (word_at t) as = wl"
    using parseargs_words [OF d w(1) a(2), of "[]" "[]"] w(2) by auto
  have e: "parseexec (Suc k3) t s = Some (Inr (EXEC as, s + length (show_cmd (SExec wl))))"
    using p n as(1) by simp
  have "drop (s + length (show_cmd (SExec wl))) t = r" using a(1) by (metis add.commute append_eq_conv_conj drop_drop)
  from parse_tail(2) [OF e this a(2)] show "\<exists>c'. parseline k t s = Some (Inr (c', s + length (show_cmd (SExec wl)))) \<and> strings (word_at t) c' = SExec wl" unfolding k3 using as(2) by auto
  qed
next
  case (SRedir c f mode fd)
  show ?case
    unfolding parses_def
  proof (intro allI impI)
  fix k s r assume a: "drop s t = show_cmd (SRedir c f mode fd) @ r" "stop r" "4 * (length t - s) + 4 \<le> k"
  obtain k2 where k2: "k = Suc (Suc k2)" "4 * (length t - s) + 2 \<le> k2" using a(3) by (cases k; cases "k - 1") auto
  let ?tl = "(if fd = 0 then 0x3C else 0x3E) # f @ 0x20 # r"
  have c: "good_scmd c" "good_word f" "(mode, fd) \<in> {(O_RDONLY, 0), (O_WRONLY_CREATE, 1)}" using SRedir.prems(1) by auto
  have d: "drop s t = 0x28 # show_cmd c @ 0x29 # ?tl" using a(1) by simp
  have sl: "solid ?tl" by simp
  obtain c' where b: "strings (word_at t) c' = c" "drop (s + length (show_cmd c) + 2) t = ?tl"
    "parseexec k2 t s = pbind (Some (parseredirs t [] (s + length (show_cmd c) + 2))) (\<lambda>(rs, s). Some (Inr (wrap c' rs, s)))"
    using parse_block [OF SRedir.IH [OF c(1)] c(1) d sl k2(2)] by blast
  note r = parse_redir [OF b(2) c(2,3) a(2)]
  let ?q = "Suc (s + length (show_cmd c) + 2)"
  have e: "parseexec k2 t s = Some (Inr (REDIR c' ?q (?q + length f) mode fd, s + length (show_cmd (SRedir c f mode fd))))"
    unfolding b(3) r(1) by (simp add: wrap_single)
  have "drop (s + length (show_cmd (SRedir c f mode fd))) t = r" using a(1) by (metis add.commute append_eq_conv_conj drop_drop)
  from parse_tail(2) [OF e this a(2)] show "\<exists>c'. parseline k t s = Some (Inr (c', s + length (show_cmd (SRedir c f mode fd)))) \<and> strings (word_at t) c' = SRedir c f mode fd" unfolding k2(1) using b(1) r(2) by auto
  qed
next
  case (SPipe l q)
  show ?case
    unfolding parses_def
  proof (intro allI impI)
  fix k s r assume a: "drop s t = show_cmd (SPipe l q) @ r" "stop r" "4 * (length t - s) + 4 \<le> k"
  obtain k2 where k2: "k = Suc (Suc (Suc k2))" "4 * (length t - s) + 1 \<le> k2" using fuel3 [OF a(3)] by blast
  have c: "good_scmd l" "good_scmd q" using SPipe.prems(1) by auto
  have d: "drop s t = 0x28 # show_cmd l @ 0x29 # 0x7C # 0x28 # show_cmd q @ 0x29 # r" using a(1) by simp
  note st = stop_props [OF a(2)]
  have lt: "s < length t" using d by (metis drop_all linorder_not_le list.distinct(1))
  let ?s1 = "s + length (show_cmd l) + 2"
  have kk: "4 * (length t - s) + 2 \<le> Suc k2" using k2(2) by simp
  have kk2: "4 * (length t - Suc ?s1) + 2 \<le> k2" using k2(2) lt by linarith
  obtain l' where l: "strings (word_at t) l' = l" "drop ?s1 t = 0x7C # 0x28 # show_cmd q @ 0x29 # r" "parseexec (Suc k2) t s = Some (Inr (l', ?s1))"
    using parse_block_plain [OF SPipe.IH(1) [OF c(1)] c(1) d _ _ kk] by auto
  have d2: "drop (Suc ?s1) t = 0x28 # show_cmd q @ 0x29 # r" by (rule drop_Suc_Cons [OF l(2)])
  let ?s2 = "Suc ?s1 + length (show_cmd q) + 2"
  obtain r' where r: "strings (word_at t) r' = q" "drop ?s2 t = r" "parseexec k2 t (Suc ?s1) = Some (Inr (r', ?s2))"
    using parse_block_plain [OF SPipe.IH(2) [OF c(2)] c(2) d2 _ _ kk2] st by auto
  have "parsepipe (Suc k2) t (Suc ?s1) = Some (Inr (r', ?s2))" by (rule parse_tail(1) [OF r(3,2) a(2)])
  moreover have "peek t ?s1 [0x7C] = (?s1, True)" using peek_solid [OF l(2), of "[0x7C]"] by simp
  moreover have "gettoken t ?s1 = (0x7C, ?s1, Suc ?s1, Suc ?s1)" by (rule gettoken_sym [OF l(2)]) auto
  ultimately have pp: "parsepipe (Suc (Suc k2)) t s = Some (Inr (PIPE l' r', ?s2))" using l(3) by simp
  have "backs t (PIPE l' r') ?s2 = (PIPE l' r', ?s2)" by (rule backs_none [OF r(2)]) (use st in auto)
  then have "parseline k t s = Some (Inr (PIPE l' r', ?s2))"
    unfolding k2(1) parseline.simps(2) [of "Suc (Suc k2)"] pp using peek_solid [OF r(2), of "[0x3B]"] st by auto
  then show "\<exists>c'. parseline k t s = Some (Inr (c', s + length (show_cmd (SPipe l q)))) \<and> strings (word_at t) c' = SPipe l q" using l(1) r(1) by auto
  qed
next
  case (SList l q)
  show ?case
    unfolding parses_def
  proof (intro allI impI)
  fix k s r assume a: "drop s t = show_cmd (SList l q) @ r" "stop r" "4 * (length t - s) + 4 \<le> k"
  obtain k2 where k2: "k = Suc (Suc (Suc k2))" "4 * (length t - s) + 1 \<le> k2" using fuel3 [OF a(3)] by blast
  have c: "good_scmd l" "good_scmd q" using SList.prems(1) by auto
  have d: "drop s t = 0x28 # show_cmd l @ 0x29 # 0x3B # 0x28 # show_cmd q @ 0x29 # r" using a(1) by simp
  note st = stop_props [OF a(2)]
  have lt: "s < length t" using d by (metis drop_all linorder_not_le list.distinct(1))
  let ?s1 = "s + length (show_cmd l) + 2"
  have kk: "4 * (length t - s) + 2 \<le> Suc k2" using k2(2) by simp
  have kk2: "4 * (length t - Suc ?s1) + 2 \<le> k2" using k2(2) lt by linarith
  obtain l' where l: "strings (word_at t) l' = l" "drop ?s1 t = 0x3B # 0x28 # show_cmd q @ 0x29 # r" "parseexec (Suc k2) t s = Some (Inr (l', ?s1))"
    using parse_block_plain [OF SList.IH(1) [OF c(1)] c(1) d _ _ kk] by auto
  have d2: "drop (Suc ?s1) t = 0x28 # show_cmd q @ 0x29 # r" by (rule drop_Suc_Cons [OF l(2)])
  let ?s2 = "Suc ?s1 + length (show_cmd q) + 2"
  obtain r' where r: "strings (word_at t) r' = q" "drop ?s2 t = r" "parseexec k2 t (Suc ?s1) = Some (Inr (r', ?s2))"
    using parse_block_plain [OF SList.IH(2) [OF c(2)] c(2) d2 _ _ kk2] st by auto
  have pl: "parseline (Suc (Suc k2)) t (Suc ?s1) = Some (Inr (r', ?s2))" by (rule parse_tail(2) [OF r(3,2) a(2)])
  have "peek t ?s1 [0x7C] = (?s1, False)" using peek_solid [OF l(2), of "[0x7C]"] by simp
  then have pp: "parsepipe (Suc (Suc k2)) t s = Some (Inr (l', ?s1))" unfolding parsepipe.simps(2) l(3) by simp
  have "peek t ?s1 [0x3B] = (?s1, True)" using peek_solid [OF l(2), of "[0x3B]"] by simp
  moreover have "gettoken t ?s1 = (0x3B, ?s1, Suc ?s1, Suc ?s1)" by (rule gettoken_sym [OF l(2)]) auto
  moreover have "backs t l' ?s1 = (l', ?s1)" by (rule backs_none [OF l(2)]) auto
  ultimately have "parseline k t s = Some (Inr (LIST l' r', ?s2))"
    unfolding k2(1) parseline.simps(2) [of "Suc (Suc k2)"] pp by (simp only: pbind.simps prod.case Let_def if_True pl)
  then show "\<exists>c'. parseline k t s = Some (Inr (c', s + length (show_cmd (SList l q)))) \<and> strings (word_at t) c' = SList l q" using l(1) r(1) by auto
  qed
next
  case (SBack c)
  show ?case
    unfolding parses_def
  proof (intro allI impI)
  fix k s r assume a: "drop s t = show_cmd (SBack c) @ r" "stop r" "4 * (length t - s) + 4 \<le> k"
  obtain k2 where k2: "k = Suc (Suc (Suc k2))" "4 * (length t - s) + 1 \<le> k2" using fuel3 [OF a(3)] by blast
  have c: "good_scmd c" using SBack.prems(1) by auto
  have d: "drop s t = 0x28 # show_cmd c @ 0x29 # 0x26 # r" using a(1) by simp
  note st = stop_props [OF a(2)]
  let ?s1 = "s + length (show_cmd c) + 2"
  have kk: "4 * (length t - s) + 2 \<le> Suc k2" using k2(2) by simp
  obtain c' where l: "strings (word_at t) c' = c" "drop ?s1 t = 0x26 # r" "parseexec (Suc k2) t s = Some (Inr (c', ?s1))"
    using parse_block_plain [OF SBack.IH [OF c] c d _ _ kk] by auto
  have d2: "drop (Suc ?s1) t = r" by (rule drop_Suc_Cons [OF l(2)])
  have "peek t ?s1 [0x7C] = (?s1, False)" using peek_solid [OF l(2), of "[0x7C]"] by simp
  then have pp: "parsepipe (Suc (Suc k2)) t s = Some (Inr (c', ?s1))" unfolding parsepipe.simps(2) l(3) by simp
  have "peek t ?s1 [0x26] = (?s1, True)" using peek_solid [OF l(2), of "[0x26]"] by simp
  moreover have "gettoken t ?s1 = (0x26, ?s1, Suc ?s1, Suc ?s1)" by (rule gettoken_sym [OF l(2)]) (use st in auto)
  moreover have "backs t (BACK c') (Suc ?s1) = (BACK c', Suc ?s1)" by (rule backs_none [OF d2]) (use st in auto)
  ultimately have "backs t c' ?s1 = (BACK c', Suc ?s1)" by (subst backs.simps) simp
  moreover have "peek t (Suc ?s1) [0x3B] = (Suc ?s1, False)" using peek_solid [OF d2, of "[0x3B]"] st by auto
  ultimately have "parseline k t s = Some (Inr (BACK c', Suc ?s1))"
    unfolding k2(1) parseline.simps(2) [of "Suc (Suc k2)"] pp by simp
  then show "\<exists>c'. parseline k t s = Some (Inr (c', s + length (show_cmd (SBack c)))) \<and> strings (word_at t) c' = SBack c" using l(1) by auto
  qed
qed

lemma show_no_zero: "good_scmd c \<Longrightarrow> 0 \<notin> set (show_cmd c)"
  by (induction c) (auto simp: list_all_iff good_word_def)

subsection \<open>Running commands\<close>

text \<open>
  \<open>runcmd\<close> on a command whose words are strings. A process is its table of open files. The result
  lists, for a schedule that runs a child as soon as it is forked, the programs started with their
  tables, and the messages printed. The environment says which programs can be executed, which
  files opened and which directories entered; the state counts the pipes made and the calls of \<open>fork\<close> that can still succeed.
\<close>

datatype fobj = FConsole | FPipeR nat | FPipeW nat | FFile "uchar list" nat

datatype ev = Run "uchar list list" "fobj option list" | Msg string "uchar list" | Chdir "uchar list"

record shenv =
  e_exec :: "uchar list list \<Rightarrow> bool"
  e_open :: "uchar list \<Rightarrow> nat \<Rightarrow> bool"
  e_chdir :: "uchar list \<Rightarrow> bool"

definition fd_close :: "nat \<Rightarrow> fobj option list \<Rightarrow> fobj option list" where
  "fd_close i fs = fs[i := None]"

definition fd_alloc :: "fobj \<Rightarrow> fobj option list \<Rightarrow> (nat \<times> fobj option list) option" where
  "fd_alloc x fs = map_option (\<lambda>i. (i, fs[i := Some x])) (find (\<lambda>i. fs ! i = None) [0..<length fs])"

definition fd_dup :: "nat \<Rightarrow> fobj option list \<Rightarrow> fobj option list" where
  "fd_dup i fs = (case fs ! i of None \<Rightarrow> fs | Some x \<Rightarrow> (case fd_alloc x fs of None \<Rightarrow> fs | Some (_, fs) \<Rightarrow> fs))"

fun runcmd :: "shenv \<Rightarrow> scmd \<Rightarrow> fobj option list \<Rightarrow> nat \<times> nat \<Rightarrow> ev list \<times> nat \<times> nat" where
  "runcmd env (SExec argv) fs st =
     (if argv = [] then ([], st)
      else if e_exec env argv then ([Run argv fs], st) else ([Msg ''exec failed'' (hd argv)], st))"
| "runcmd env (SRedir c f mode fd) fs st =
     (case (if e_open env f mode then fd_alloc (FFile f mode) (fd_close fd fs) else None) of
        None \<Rightarrow> ([Msg ''open failed'' f], st)
      | Some (_, fs) \<Rightarrow> runcmd env c fs st)"
| "runcmd env (SList l r) fs st =
     (if snd st = 0 then ([Msg ''fork'' []], st)
      else let (e1, st) = runcmd env l fs (fst st, snd st - 1); (e2, st) = runcmd env r fs st in (e1 @ e2, st))"
| "runcmd env (SPipe l r) fs st =
     (case fd_alloc (FPipeR (fst st)) fs of
        None \<Rightarrow> ([Msg ''pipe'' []], st)
      | Some (p0, fs1) \<Rightarrow>
          (case fd_alloc (FPipeW (fst st)) fs1 of
             None \<Rightarrow> ([Msg ''pipe'' []], st)
           | Some (p1, fs2) \<Rightarrow>
               let st = (Suc (fst st), snd st) in
               if snd st = 0 then ([Msg ''fork'' []], st)
               else let (e1, st) = runcmd env l (fd_close p1 (fd_close p0 (fd_dup p1 (fd_close 1 fs2)))) (fst st, snd st - 1)
                    in if snd st = 0 then (e1 @ [Msg ''fork'' []], st)
                       else let (e2, st) = runcmd env r (fd_close p1 (fd_close p0 (fd_dup p0 (fd_close 0 fs2)))) (fst st, snd st - 1)
                            in (e1 @ e2, st)))"
| "runcmd env (SBack c) fs st =
     (if snd st = 0 then ([Msg ''fork'' []], st) else runcmd env c fs (fst st, snd st - 1))"

text \<open>One line of input as \<open>main\<close> treats it, and \<open>main\<close> on the lines read until an empty one.\<close>

definition sh_line :: "shenv \<Rightarrow> fobj option list \<Rightarrow> uchar list \<Rightarrow> nat \<times> nat \<Rightarrow> ev list \<times> nat \<times> nat" where
  "sh_line env fs line st =
     (if take 3 line = [0x63, 0x64, 0x20] then let d = butlast (drop 3 line) in (Chdir d # (if e_chdir env d then [] else [Msg ''cannot cd'' d]), st)
      else if snd st = 0 then ([Msg ''fork'' []], st)
      else case parsecmd line of
             None \<Rightarrow> ([], st)
           | Some (Inl e) \<Rightarrow> ([Msg e []], (fst st, snd st - 1))
           | Some (Inr (c, b)) \<Rightarrow> runcmd env (strings (\<lambda>(q, eq). cstr b q) c) fs (fst st, snd st - 1))"

fun sh_main :: "shenv \<Rightarrow> fobj option list \<Rightarrow> uchar list list \<Rightarrow> nat \<times> nat \<Rightarrow> ev list" where
  "sh_main env fs [] st = []"
| "sh_main env fs (line # lines) st =
     (if line = [] then []
      else let (e, st') = sh_line env fs line st
           in if take 3 line \<noteq> [0x63, 0x64, 0x20] \<and> snd st = 0 then e else e @ sh_main env fs lines st')"

lemma find_first: "P k \<Longrightarrow> k < n \<Longrightarrow> (\<And>i. i < k \<Longrightarrow> \<not> P i) \<Longrightarrow> find P [0..<n] = Some k"
  unfolding find_Some_iff by (intro exI [of _ k]) auto

lemma fd_allocD:
  assumes "fd_alloc x fs = Some (i, fs')"
  shows "i < length fs" "fs ! i = None" "\<And>j. j < i \<Longrightarrow> fs ! j \<noteq> None" "fs' = fs[i := Some x]"
  using assms by (auto simp: fd_alloc_def find_Some_iff)

lemma fd_dup_low:
  assumes "fs ! i = Some x" and "k < length fs" and "fs ! k = None" and "\<And>j. j < k \<Longrightarrow> fs ! j \<noteq> None"
  shows "fd_dup i fs = fs[k := Some x]"
  using assms find_first [of "\<lambda>i. fs ! i = None" k "length fs"] by (simp add: fd_dup_def fd_alloc_def)

subsection \<open>Properties\<close>

text \<open>C27: The parser returns on every line: with the bound on recursion that \<open>parsecmd\<close> takes from the
  length of the line, it always gives a command or a syntax error.\<close>

theorem shell_parser_returns: "parsecmd t \<noteq> None"
proof -
  have "returns (parseline (parse_bound t) t 0)" by (rule parse_total(1)) (simp add: parse_bound_def)
  then have "returns (parsecmd t)" unfolding parsecmd_def by (rule pbind_total) (auto simp: Let_def split: prod.split)
  then show ?thesis by (simp add: returns_def)
qed

text \<open>C28: Parsing is the inverse of printing: every command whose words are proper words, written out
  with parentheses, is parsed to a command whose words, read as zero-terminated strings from the
  buffer after \<open>nulterminate\<close>, make up the same command.\<close>

theorem shell_parse_print:
  assumes "good_scmd c"
  shows "\<exists>c' b. parsecmd (show_cmd c) = Some (Inr (c', b)) \<and> strings (\<lambda>(q, eq). cstr b q) c' = c"
proof -
  let ?t = "show_cmd c"
  have "parses ?t c" by (rule parse_show [OF assms])
  then obtain c' where c': "parseline (parse_bound ?t) ?t 0 = Some (Inr (c', length ?t))" "strings (word_at ?t) c' = c"
    unfolding parses_def parse_bound_def using stop_def by (metis add_0 append_Nil2 drop0 diff_zero le_refl)
  have "peek ?t (length ?t) [] = (length ?t, False)" by (simp add: peek_def skip_while_def)
  then have "parsecmd ?t = Some (Inr (c', nulterminate c' (?t @ [0])))" unfolding parsecmd_def c'(1) by simp
  moreover have "strings (\<lambda>(q, eq). cstr (nulterminate c' (?t @ [0])) q) c' = c"
    using nulterminate_strings [OF parse_good(1) [OF c'(1)] show_no_zero [OF assms]] c'(2) by simp
  ultimately show ?thesis by blast
qed

theorem shell_parse_print_witness:
  "\<exists>c' b. parsecmd (show_cmd (SPipe (SExec [[0x6C, 0x73]]) (SExec [[0x77, 0x63]]))) = Some (Inr (c', b))
    \<and> strings (\<lambda>(q, eq). cstr b q) c' = SPipe (SExec [[0x6C, 0x73]]) (SExec [[0x77, 0x63]])"
  by (rule shell_parse_print) (simp add: good_word_def word_char_def whitespace_def symbols_def)

text \<open>C29: A pipeline connects its two sides: with standard input and output open and two descriptors
  free, the left command runs with the write end of a new pipe as its standard output, the right
  one with the read end as its standard input, and neither has any other descriptor of the pipe.\<close>

theorem shell_pipe_plumbing:
  assumes "2 \<le> length fs" and "fs ! 0 \<noteq> None" and "fs ! 1 \<noteq> None"
    and "fd_alloc (FPipeR p) fs = Some (p0, fs1)" and "fd_alloc (FPipeW p) fs1 = Some (p1, fs2)"
    and "runcmd env l (fs[1 := Some (FPipeW p)]) (Suc p, n) = (e1, st1)" and "0 < snd st1"
    and "runcmd env r (fs[0 := Some (FPipeR p)]) (fst st1, snd st1 - 1) = (e2, st2)"
  shows "runcmd env (SPipe l r) fs (p, Suc n) = (e1 @ e2, st2)"
proof -
  note a = fd_allocD [OF assms(4)] and b = fd_allocD [OF assms(5)]
  have ge: "2 \<le> p0" using a(2) assms(2,3) by (metis One_nat_def less_2_cases linorder_not_le)
  have p1: "p0 < p1"
  proof -
    have "fs1 ! p0 \<noteq> None" using a(1,4) by simp
    then have "p1 \<noteq> p0" using b(2) by auto
    moreover have "\<not> p1 < p0" using a(3) [of p1] b(2) a(4) by auto
    ultimately show ?thesis by simp
  qed
  have l1: "p1 < length fs" using b(1) a(4) by simp
  have l0: "0 < length fs2" using a(1,4) b(4) by auto
  have f2: "fs2 = fs[p0 := Some (FPipeR p), p1 := Some (FPipeW p)]" using a(4) b(4) by simp
  have n1: "fs ! p1 = None" using b(2) a(4) p1 by simp
  have d1: "fd_dup p1 (fd_close 1 fs2) = fs2[1 := Some (FPipeW p)]"
  proof -
    have "fd_dup p1 (fs2[1 := None]) = fs2[1 := None, 1 := Some (FPipeW p)]"
      by (rule fd_dup_low) (use ge p1 l1 f2 assms(1,2) in \<open>auto simp: nth_list_update\<close>)
    then show ?thesis by (simp add: fd_close_def)
  qed
  have d0: "fd_dup p0 (fd_close 0 fs2) = fs2[0 := Some (FPipeR p)]"
  proof -
    have "fd_dup p0 (fs2[0 := None]) = fs2[0 := None, 0 := Some (FPipeR p)]"
      by (rule fd_dup_low) (use ge p1 l1 f2 assms(1) l0 in \<open>auto simp: nth_list_update\<close>)
    then show ?thesis by (simp add: fd_close_def)
  qed
  have undo: "fs2[k := v, p0 := None, p1 := None] = fs[k := v]" if "k < 2" for k v
    by (rule nth_equalityI) (use that ge p1 l1 a(1,2) n1 f2 in \<open>auto simp: nth_list_update\<close>)
  have "fd_close p1 (fd_close p0 (fd_dup p1 (fd_close 1 fs2))) = fs[1 := Some (FPipeW p)]"
    "fd_close p1 (fd_close p0 (fd_dup p0 (fd_close 0 fs2))) = fs[0 := Some (FPipeR p)]"
    unfolding d0 d1 using undo by (simp_all add: fd_close_def)
  then show ?thesis using assms(4-8) by simp
qed

theorem shell_pipe_plumbing_witness:
  "runcmd \<lparr>e_exec = (\<lambda>_. True), e_open = (\<lambda>_ _. True), e_chdir = (\<lambda>_. True)\<rparr> (SPipe (SExec [[0x6C]]) (SExec [[0x77]])) [Some FConsole, Some FConsole, Some FConsole, None, None] (0, 2)
   = ([Run [[0x6C]] [Some FConsole, Some (FPipeW 0), Some FConsole, None, None], Run [[0x77]] [Some (FPipeR 0), Some FConsole, Some FConsole, None, None]], (1, 0))"
  using shell_pipe_plumbing [of "[Some FConsole, Some FConsole, Some FConsole, None, None]" 0 3
      "[Some FConsole, Some FConsole, Some FConsole, Some (FPipeR 0), None]" 4
      "[Some FConsole, Some FConsole, Some FConsole, Some (FPipeR 0), Some (FPipeW 0)]"
      "\<lparr>e_exec = (\<lambda>_. True), e_open = (\<lambda>_ _. True), e_chdir = (\<lambda>_. True)\<rparr>" "SExec [[0x6C]]" 1
      "[Run [[0x6C]] [Some FConsole, Some (FPipeW 0), Some FConsole, None, None]]" "(1, 1)" "SExec [[0x77]]"
      "[Run [[0x77]] [Some (FPipeR 0), Some FConsole, Some FConsole, None, None]]" "(1, 0)"]
  by (simp add: fd_alloc_def upt_rec numeral_2_eq_2)

end
