(* ===== verification/Ulib.thy ===== *)
theory Ulib
  imports Cstring Printf
begin

section \<open>The user library (ulib.c)\<close>

text \<open>
  The string functions of user programs, over the byte memory of the process; scans that stop only
  at a zero byte are partial functions. \<open>gets\<close> takes the bytes that successive reads of one byte
  give; \<open>stat\<close> takes the results of the system calls it makes.
\<close>

subsection \<open>Strings\<close>

partial_function (option) strcpy :: "uint \<Rightarrow> uint \<Rightarrow> mem \<Rightarrow> mem option" where
  "strcpy s t m = (if m t = 0 then Some (m(s := m t)) else strcpy (s + 1) (t + 1) (m(s := m t)))"

partial_function (option) strcmp :: "uint \<Rightarrow> uint \<Rightarrow> mem \<Rightarrow> int option" where
  "strcmp p q m =
     (if m p \<noteq> 0 \<and> m p = m q then strcmp (p + 1) (q + 1) m else Some (uint (m p) - uint (m q)))"

partial_function (option) ulib_strlen_from :: "uint \<Rightarrow> uint \<Rightarrow> mem \<Rightarrow> uint option" where
  "ulib_strlen_from s n m = (if m (s + n) = 0 then Some n else ulib_strlen_from s (n + 1) m)"

definition ulib_strlen :: "uint \<Rightarrow> mem \<Rightarrow> uint option" where
  "ulib_strlen s m = ulib_strlen_from s 0 m"

definition ulib_memset :: "uint \<Rightarrow> uint \<Rightarrow> uint \<Rightarrow> mem \<Rightarrow> mem" where
  "ulib_memset dst c n m = stosb dst (ucast c) (unat n) m"

partial_function (option) strchr :: "uint \<Rightarrow> uchar \<Rightarrow> mem \<Rightarrow> uint option" where
  "strchr s c m = (if m s = 0 then Some 0 else if m s = c then Some s else strchr (s + 1) c m)"

definition ulib_memmove :: "uint \<Rightarrow> uint \<Rightarrow> int \<Rightarrow> mem \<Rightarrow> mem" where
  "ulib_memmove dst src n m = copy_up (nat n) dst src m"

subsection \<open>Input\<close>

text \<open>\<open>None\<close> among the reads is one that returns less than one byte.\<close>

fun gets_loop :: "nat \<Rightarrow> nat \<Rightarrow> uint \<Rightarrow> uchar option list \<Rightarrow> mem \<Rightarrow> nat \<times> mem" where
  "gets_loop i mx buf [] m = (i, m)"
| "gets_loop i mx buf (r # rs) m =
     (if \<not> i + 1 < mx then (i, m)
      else case r of
             None \<Rightarrow> (i, m)
           | Some c \<Rightarrow>
               let m = m(buf + of_nat i := c); i = i + 1
               in if c = 0xA \<or> c = 0xD then (i, m) else gets_loop i mx buf rs m)"

definition gets :: "uint \<Rightarrow> nat \<Rightarrow> uchar option list \<Rightarrow> mem \<Rightarrow> mem" where
  "gets buf mx rs m = (let (i, m) = gets_loop 0 mx buf rs m in m(buf + of_nat i := 0))"

text \<open>\<open>stat\<close>: the state after the calls it makes, and its result.\<close>

definition ulib_stat :: "('s \<Rightarrow> int \<times> 's) \<Rightarrow> (int \<Rightarrow> 's \<Rightarrow> int \<times> 's) \<Rightarrow> (int \<Rightarrow> 's \<Rightarrow> 's) \<Rightarrow> 's \<Rightarrow> int \<times> 's" where
  "ulib_stat opn fstat close s =
     (let (fd, s) = opn s
      in if fd < 0 then (- 1, s) else let (r, s) = fstat fd s in (r, close fd s))"

partial_function (option) atoi_loop :: "uint \<Rightarrow> uint \<Rightarrow> mem \<Rightarrow> uint option" where
  "atoi_loop n s m =
     (if 48 \<le> m s \<and> m s \<le> 57 then atoi_loop (n * 10 + ucast (m s) - 48) (s + 1) m else Some n)"

definition atoi :: "uint \<Rightarrow> mem \<Rightarrow> uint option" where
  "atoi s m = atoi_loop 0 s m"

subsection \<open>What the scans return\<close>

primrec bytes_at :: "mem \<Rightarrow> uint \<Rightarrow> uchar list \<Rightarrow> bool" where
  "bytes_at m s [] \<longleftrightarrow> True"
| "bytes_at m s (b # bs) \<longleftrightarrow> m s = b \<and> bytes_at m (s + 1) bs"

lemma strcmp_eq_iff:
  assumes "bytes_at m p (a @ [0])" and "bytes_at m q (b @ [0])" and "0 \<notin> set a" and "0 \<notin> set b"
  shows "\<exists>r. strcmp p q m = Some r \<and> (r = 0 \<longleftrightarrow> a = b)"
  using assms
proof (induction a arbitrary: p q b)
  case Nil
  then show ?case by (cases b; subst strcmp.simps) (auto simp: word_uint_eq_iff)
next
  case (Cons x a)
  show ?case
  proof (cases "b \<noteq> [] \<and> hd b = x")
    case True
    then obtain c where b: "b = x # c" by (cases b) auto
    obtain r where "strcmp (p + 1) (q + 1) m = Some r \<and> (r = 0 \<longleftrightarrow> a = c)"
      using Cons.IH [of "p + 1" "q + 1" c] Cons.prems b by auto
    then show ?thesis using Cons.prems b by (subst strcmp.simps) auto
  next
    case False
    then have "m p \<noteq> m q" "m p = x" "a \<noteq> b \<or> True" using Cons.prems by (cases b; auto)+
    then have "uint (m p) \<noteq> uint (m q)" by (simp add: word_uint_eq_iff)
    then show ?thesis using \<open>m p \<noteq> m q\<close> False Cons.prems(4) by (subst strcmp.simps) auto
  qed
qed

lemma atoi_loop_digits:
  assumes "bytes_at m s ds" and "list_all (\<lambda>d. 48 \<le> d \<and> d \<le> 57) ds" and "\<not> (48 \<le> m (s + of_nat (length ds)) \<and> m (s + of_nat (length ds)) \<le> 57)"
  shows "atoi_loop n s m = Some (foldl (\<lambda>n d. n * 10 + ucast d - 48) n ds)"
  using assms
proof (induction ds arbitrary: s n)
  case Nil
  then show ?case by (subst atoi_loop.simps) auto
next
  case (Cons d ds)
  then have "atoi_loop (n * 10 + ucast d - 48) (s + 1) m = Some (foldl (\<lambda>n d. n * 10 + ucast d - 48) (n * 10 + ucast d - 48) ds)"
    by (intro Cons.IH) (auto simp: ac_simps)
  then show ?case using Cons.prems by (subst atoi_loop.simps) auto
qed

lemma print_digits_low: "0 < base \<Longrightarrow> unat base \<le> length ds \<Longrightarrow> set (print_digits k ds base x) \<subseteq> set (take (unat base) ds)"
proof (induction k arbitrary: x)
  case (Suc k)
  have "unat (x mod base) < unat base" using Suc.prems(1) by (simp add: unat_mod word_less_nat_alt)
  then have "ds ! unat (x mod base) \<in> set (take (unat base) ds)"
    using Suc.prems(2) by (auto simp: in_set_conv_nth intro!: exI [of _ "unat (x mod base)"])
  then show ?case using Suc by auto
qed simp

lemma low_digits: "set (take 10 digits_user) = {48, 49, 50, 51, 52, 53, 54, 55, 56, 57}"
  by (simp add: digits_user_def)

lemma digit_low:
  assumes "d \<in> set (take 10 digits_user)"
  shows "48 \<le> d \<and> d \<le> 57" and "(ucast d - 48 :: uint) = of_nat (digit_value digits_user d)"
proof -
  have "d \<in> {48, 49, 50, 51, 52, 53, 54, 55, 56, 57}" using assms low_digits by simp
  then show "48 \<le> d \<and> d \<le> 57" "(ucast d - 48 :: uint) = of_nat (digit_value digits_user d)"
    by (auto simp: digits_user_def upt_rec)
qed

lemma fold_digits:
  "set ds \<subseteq> set (take 10 digits_user) \<Longrightarrow>
    foldl (\<lambda>n d. n * 10 + ucast d - 48) (of_nat a :: uint) ds = of_nat (foldl (\<lambda>acc c. 10 * acc + digit_value digits_user c) a ds)"
proof (induction ds arbitrary: a)
  case (Cons d ds)
  have "(of_nat a * 10 + ucast d - 48 :: uint) = of_nat (10 * a + digit_value digits_user d)"
    using digit_low(2) [of d] Cons.prems by (simp add: algebra_simps del: digit_value.simps)
  then have "foldl (\<lambda>n d. n * 10 + ucast d - 48) (of_nat a :: uint) (d # ds)
      = foldl (\<lambda>n d. n * 10 + ucast d - 48) (of_nat (10 * a + digit_value digits_user d)) ds" by (simp only: foldl_Cons)
  also have "\<dots> = of_nat (foldl (\<lambda>acc c. 10 * acc + digit_value digits_user c) (10 * a + digit_value digits_user d) ds)"
    by (rule Cons.IH) (use Cons.prems in simp)
  finally show ?case by (simp only: foldl_Cons)
qed simp

text \<open>C30: \<open>atoi\<close> reads back what \<open>printf\<close> writes for \<open>%d\<close>: on the numeral of any non-negative 32-bit
  integer, followed by any byte that is not a digit, it returns the integer.\<close>

theorem atoi_reads_printf:
  assumes "0 \<le> sint x" and "bytes_at m s (printint digits_user x 10 True)"
    and "\<not> (48 \<le> m (s + of_nat (length (printint digits_user x 10 True))) \<and> m (s + of_nat (length (printint digits_user x 10 True))) \<le> 57)"
  shows "atoi s m = Some x"
proof -
  let ?ds = "printint digits_user x 10 True"
  have p: "?ds = rev (print_digits 32 digits_user 10 x)" using assms(1) by (simp add: printint_def)
  have low: "set ?ds \<subseteq> set (take 10 digits_user)"
    unfolding p using print_digits_low [of 10 digits_user 32 x] by (simp add: distinct_digits_user)
  have "list_all (\<lambda>d. 48 \<le> d \<and> d \<le> 57) ?ds" unfolding list_all_iff using digit_low(1) low by blast
  then have "atoi s m = Some (foldl (\<lambda>n d. n * 10 + ucast d - 48) 0 ?ds)"
    unfolding atoi_def by (intro atoi_loop_digits [OF assms(2) _ assms(3)])
  also have "foldl (\<lambda>n d. n * 10 + ucast d - 48) (0 :: uint) ?ds = of_nat (read_digits digits_user 10 ?ds)"
    using fold_digits [OF low, of 0] by (simp add: read_digits_def del: digit_value.simps)
  also have "read_digits digits_user 10 ?ds = unat x"
    unfolding p using read_print_digits [of digits_user 10 x 32] unat_lt_2p32 [of x] distinct_digits_user by simp
  finally show ?thesis by simp
qed

theorem atoi_reads_printf_witness:
  "atoi 100 ((\<lambda>_. 0)(100 := 52, 101 := 50)) = Some 42"
proof -
  have "printint digits_user 42 10 True = [52, 50]" by code_simp
  then show ?thesis using atoi_reads_printf [of 42 "(\<lambda>_. 0)(100 := 52, 101 := 50)" 100] by simp
qed

end
