(* ===== verification/Uprogs.thy ===== *)
theory Uprogs
  imports Ulib
begin

section \<open>Small user programs\<close>

text \<open>
  The commands that read files, and those that call the kernel once per argument. What a descriptor
  gives is the list of the results of the reads (each nonempty) and whether the last one failed; an
  outs is the descriptor written to with the bytes. A system call the program makes for its effect
  is recorded with its arguments, its result being an input.
\<close>

type_synonym reads = "uchar list list \<times> bool"

type_synonym outs = "(nat \<times> uchar list) list"

definition msg :: "string \<Rightarrow> uchar list" where
  "msg s = map (\<lambda>c. word_of_nat (of_char c)) s"

text \<open>What one call of \<open>printf\<close> writes, byte by byte in the code; \<open>sayln\<close> is the call whose format
  ends with a newline.\<close>

definition say :: "nat \<Rightarrow> uchar list \<Rightarrow> arg list \<Rightarrow> outs" where
  "say fd fmt args = (case printf fmt args of Ret out \<Rightarrow> [(fd, out)] | _ \<Rightarrow> [])"

definition sayln :: "nat \<Rightarrow> string \<Rightarrow> arg list \<Rightarrow> outs" where
  "sayln fd fmt args = say fd (msg fmt @ [0xA]) args"

subsection \<open>wc (wc.c)\<close>

record wcst =
  wc_l :: uint
  wc_w :: uint
  wc_c :: uint
  wc_inword :: bool

definition wc_ws :: "uchar \<Rightarrow> bool" where
  "wc_ws b \<longleftrightarrow> b \<in> {0x20, 0xD, 0x9, 0xA, 0xB}"

definition wc_byte :: "uchar \<Rightarrow> wcst \<Rightarrow> wcst" where
  "wc_byte b s =
     (let s = s\<lparr>wc_c := wc_c s + 1\<rparr>;
          s = (if b = 0xA then s\<lparr>wc_l := wc_l s + 1\<rparr> else s)
      in if wc_ws b then s\<lparr>wc_inword := False\<rparr>
         else if \<not> wc_inword s then s\<lparr>wc_w := wc_w s + 1, wc_inword := True\<rparr> else s)"

definition wc_count :: "uchar list list \<Rightarrow> wcst" where
  "wc_count chunks = fold (\<lambda>buf s. fold wc_byte buf s) chunks \<lparr>wc_l = 0, wc_w = 0, wc_c = 0, wc_inword = False\<rparr>"

text \<open>The second component says that the program exits.\<close>

definition wc :: "reads \<Rightarrow> uchar list \<Rightarrow> outs \<times> bool" where
  "wc rd name =
     (if snd rd then (sayln 1 ''wc: read error'' [], True)
      else let s = wc_count (fst rd)
           in (sayln 1 ''%d %d %d %s'' [AInt (wc_l s), AInt (wc_w s), AInt (wc_c s), AStr (Some name)], False))"

fun wc_files :: "(uchar list \<Rightarrow> reads option) \<Rightarrow> uchar list list \<Rightarrow> outs" where
  "wc_files opn [] = []"
| "wc_files opn (f # fs) =
     (case opn f of
        None \<Rightarrow> sayln 1 ''wc: cannot open %s'' [AStr (Some f)]
      | Some rd \<Rightarrow> let (out, stop) = wc rd f in if stop then out else out @ wc_files opn fs)"

definition wc_main :: "(uchar list \<Rightarrow> reads option) \<Rightarrow> reads \<Rightarrow> uchar list list \<Rightarrow> outs" where
  "wc_main opn stdin args = (if args = [] then fst (wc stdin []) else wc_files opn args)"

subsection \<open>cat and echo (cat.c, echo.c)\<close>

definition cat :: "reads \<Rightarrow> outs \<times> bool" where
  "cat rd = (map (\<lambda>buf. (1, buf)) (fst rd) @ (if snd rd then sayln 1 ''cat: read error'' [] else []), snd rd)"

fun cat_files :: "(uchar list \<Rightarrow> reads option) \<Rightarrow> uchar list list \<Rightarrow> outs" where
  "cat_files opn [] = []"
| "cat_files opn (f # fs) =
     (case opn f of
        None \<Rightarrow> sayln 1 ''cat: cannot open %s'' [AStr (Some f)]
      | Some rd \<Rightarrow> let (out, stop) = cat rd in if stop then out else out @ cat_files opn fs)"

definition cat_main :: "(uchar list \<Rightarrow> reads option) \<Rightarrow> reads \<Rightarrow> uchar list list \<Rightarrow> outs" where
  "cat_main opn stdin args = (if args = [] then fst (cat stdin) else cat_files opn args)"

fun echo_main :: "uchar list list \<Rightarrow> outs" where
  "echo_main [] = []"
| "echo_main (a # as) = say 1 (msg ''%s%s'') [AStr (Some a), AStr (Some (if as \<noteq> [] then [0x20] else [0xA]))] @ echo_main as"

subsection \<open>ls (ls.c)\<close>

abbreviation (input) DIRSIZ :: nat where "DIRSIZ \<equiv> 14"

definition fmtname :: "uchar list \<Rightarrow> uchar list" where
  "fmtname pth =
     (let p = rev (takeWhile (\<lambda>c. c \<noteq> 0x2F) (rev pth))
      in if length p \<ge> DIRSIZ then p else p @ replicate (DIRSIZ - length p) 0x20)"

record statinfo =
  s_type :: uint
  s_ino :: uint
  s_size :: uint

definition ls_line :: "uchar list \<Rightarrow> statinfo \<Rightarrow> outs" where
  "ls_line pth st = sayln 1 ''%s %d %d %d'' [AStr (Some (fmtname pth)), AInt (s_type st), AInt (s_ino st), AInt (s_size st)]"

text \<open>A directory entry as \<open>ls\<close> reads it: an inode number and the name field, which it cuts at the
  first zero byte.\<close>

fun ls_entries :: "(uchar list \<Rightarrow> statinfo option) \<Rightarrow> uchar list \<Rightarrow> (uint \<times> uchar list) list \<Rightarrow> outs" where
  "ls_entries stat pth [] = []"
| "ls_entries stat pth ((inum, name) # des) =
     (if inum = 0 then ls_entries stat pth des
      else let buf = pth @ [0x2F] @ takeWhile (\<lambda>c. c \<noteq> 0) name
           in (case stat buf of
                 None \<Rightarrow> sayln 1 ''ls: cannot stat %s'' [AStr (Some buf)]
               | Some st \<Rightarrow> ls_line buf st) @ ls_entries stat pth des)"

definition ls :: "(uchar list \<Rightarrow> bool) \<Rightarrow> (uchar list \<Rightarrow> statinfo option) \<Rightarrow> (uchar list \<Rightarrow> statinfo option) \<Rightarrow> (uchar list \<Rightarrow> (uint \<times> uchar list) list) \<Rightarrow> uchar list \<Rightarrow> outs" where
  "ls opn fstat stat dir pth =
     (if \<not> opn pth then sayln 2 ''ls: cannot open %s'' [AStr (Some pth)]
      else case fstat pth of
             None \<Rightarrow> sayln 2 ''ls: cannot stat %s'' [AStr (Some pth)]
           | Some st \<Rightarrow>
               if s_type st = 2 then ls_line pth st
               else if s_type st = 1 then
                 if length pth + 1 + DIRSIZ + 1 > 512 then sayln 1 ''ls: path too long'' []
                 else ls_entries stat pth (dir pth)
               else [])"

definition ls_main :: "(uchar list \<Rightarrow> bool) \<Rightarrow> (uchar list \<Rightarrow> statinfo option) \<Rightarrow> (uchar list \<Rightarrow> statinfo option) \<Rightarrow> (uchar list \<Rightarrow> (uint \<times> uchar list) list) \<Rightarrow> uchar list list \<Rightarrow> outs" where
  "ls_main opn fstat stat dir args = (if args = [] then ls opn fstat stat dir [0x2E] else concat (map (ls opn fstat stat dir) args))"

subsection \<open>kill, ln, mkdir, rm, init (kill.c, ln.c, mkdir.c, rm.c, init.c)\<close>

text \<open>The calls made, and the outs.\<close>

definition kill_main :: "mem \<Rightarrow> uint list \<Rightarrow> uint option list \<times> outs" where
  "kill_main m argv = (if argv = [] then ([], sayln 2 ''usage: kill pid...'' []) else (map (\<lambda>p. atoi p m) argv, []))"

definition ln_main :: "(uchar list \<Rightarrow> uchar list \<Rightarrow> int) \<Rightarrow> uchar list list \<Rightarrow> outs" where
  "ln_main link args =
     (case args of
        [old, new] \<Rightarrow> if link old new < 0 then sayln 2 ''link %s %s: failed'' [AStr (Some old), AStr (Some new)] else []
      | _ \<Rightarrow> sayln 2 ''Usage: ln old new'' [])"

fun each_arg :: "(uchar list \<Rightarrow> int) \<Rightarrow> string \<Rightarrow> uchar list list \<Rightarrow> uchar list list \<times> outs" where
  "each_arg call err [] = ([], [])"
| "each_arg call err (a # as) =
     (if call a < 0 then ([a], sayln 2 err [AStr (Some a)])
      else let (ds, out) = each_arg call err as in (a # ds, out))"

definition mkdir_main :: "(uchar list \<Rightarrow> int) \<Rightarrow> uchar list list \<Rightarrow> uchar list list \<times> outs" where
  "mkdir_main mkdir args = (if args = [] then ([], sayln 2 ''Usage: mkdir files...'' []) else each_arg mkdir ''mkdir: %s failed to create'' args)"

definition rm_main :: "(uchar list \<Rightarrow> int) \<Rightarrow> uchar list list \<Rightarrow> uchar list list \<times> outs" where
  "rm_main unlink args = (if args = [] then ([], sayln 2 ''Usage: rm files...'' []) else each_arg unlink ''rm: %s failed to delete'' args)"

text \<open>
  \<open>init\<close> on the results of its calls: the first \<open>open\<close>, and for each round of its loop the result of
  \<open>fork\<close> and those of the calls of \<open>wait\<close>. In the child the calls are those after an \<open>exec\<close> that
  returns.
\<close>

datatype icall = IOpen | IMknod uint uint | IDup uint | IFork | IExec | IWait | IPrint outs | IExit

fun init_wait :: "int \<Rightarrow> int list \<Rightarrow> icall list" where
  "init_wait pid [] = []"
| "init_wait pid (wpid # ws) =
     (if wpid \<ge> 0 \<and> wpid \<noteq> pid then IWait # IPrint (sayln 1 ''zombie!'' []) # init_wait pid ws else [IWait])"

fun init_rounds :: "(int \<times> int list) list \<Rightarrow> icall list" where
  "init_rounds [] = []"
| "init_rounds ((pid, ws) # rs) =
     IPrint (sayln 1 ''init: starting sh'' []) # IFork #
     (if pid < 0 then [IPrint (sayln 1 ''init: fork failed'' []), IExit]
      else if pid = 0 then [IExec, IPrint (sayln 1 ''init: exec sh failed'' []), IExit]
      else init_wait pid ws @ init_rounds rs)"

definition init_main :: "int \<Rightarrow> (int \<times> int list) list \<Rightarrow> icall list" where
  "init_main fd rs = (if fd < 0 then [IOpen, IMknod 1 1, IOpen] else [IOpen]) @ [IDup 0, IDup 0] @ init_rounds rs"

subsection \<open>Counting\<close>

function words_of :: "uchar list \<Rightarrow> uchar list list" where
  "words_of s =
     (let r = dropWhile wc_ws s
      in if r = [] then [] else takeWhile (\<lambda>b. \<not> wc_ws b) r # words_of (dropWhile (\<lambda>b. \<not> wc_ws b) r))"
  by pat_completeness auto
termination
proof (relation "measure length")
  fix s r
  assume r: "r = dropWhile wc_ws s" "r \<noteq> []"
  then have "\<not> wc_ws (hd r)" using hd_dropWhile by blast
  then have "length (dropWhile (\<lambda>b. \<not> wc_ws b) r) < length r"
    using r(2) by (cases r) (auto simp: le_imp_less_Suc length_dropWhile_le)
  then show "(dropWhile (\<lambda>b. \<not> wc_ws b) r, s) \<in> measure length"
    using r(1) length_dropWhile_le [of wc_ws s] by simp
qed simp

declare words_of.simps [simp del]

lemma words_of_ws: "wc_ws b \<Longrightarrow> words_of (b # s) = words_of s"
  by (subst (1 2) words_of.simps) simp

lemma words_of_word: "\<not> wc_ws b \<Longrightarrow> words_of (b # s) = takeWhile (\<lambda>b. \<not> wc_ws b) (b # s) # words_of (dropWhile (\<lambda>b. \<not> wc_ws b) s)"
  by (subst words_of.simps) simp

text \<open>The bytes that complete a word already begun add no word.\<close>

lemma wc_fold:
  "fold wc_byte s \<lparr>wc_l = l, wc_w = w, wc_c = c, wc_inword = iw\<rparr>
     = \<lparr>wc_l = l + of_nat (count_list s 0xA), wc_w = w + of_nat (length (words_of (if iw then dropWhile (\<lambda>b. \<not> wc_ws b) s else s))),
        wc_c = c + of_nat (length s), wc_inword = (if s = [] then iw else \<not> wc_ws (last s))\<rparr>"
proof (induction s arbitrary: l w c iw)
  case Nil
  show ?case by (subst words_of.simps) simp
next
  case (Cons b s)
  show ?case
  proof (cases "wc_ws b")
    case True
    then show ?thesis using Cons.IH [of "l + (if b = 0xA then 1 else 0)" w "c + 1" False]
      by (auto simp: wc_byte_def Let_def words_of_ws)
  next
    case False
    then have "b \<noteq> 0xA" by (auto simp: wc_ws_def)
    then show ?thesis using False Cons.IH [of l "if iw then w else w + 1" "c + 1" True]
      by (cases iw) (auto simp: wc_byte_def Let_def words_of_word)
  qed
qed

text \<open>C31: \<open>wc\<close> counts lines, words and characters of what it reads, however the reads divide it: its
  counters, at 32 bits, are the numbers of newlines, of maximal runs of other than white-space
  bytes, and of bytes.\<close>

theorem wc_counts:
  "wc_l (wc_count chunks) = of_nat (count_list (concat chunks) 0xA)
   \<and> wc_w (wc_count chunks) = of_nat (length (words_of (concat chunks)))
   \<and> wc_c (wc_count chunks) = of_nat (length (concat chunks))"
proof -
  have "wc_count chunks = fold wc_byte (concat chunks) \<lparr>wc_l = 0, wc_w = 0, wc_c = 0, wc_inword = False\<rparr>"
    unfolding wc_count_def by (induction chunks rule: rev_induct) auto
  then show ?thesis by (simp add: wc_fold)
qed

end
