(* ===== verification/Segs.thy ===== *)
theory Segs
  imports Prelude
begin

section \<open>Segments and gates (mmu.h, seginit of vm.c, tvinit of trap.c)\<close>

text \<open>
  The descriptors through which user programs meet the kernel: the segments \<open>seginit\<close> sets up on each
  processor and the interrupt gates of \<open>tvinit\<close>, field by field at the widths of the bit fields. What
  the processor does with them on an interrupt is \<open>int_gate\<close>, as far as privilege is concerned.
\<close>

subsection \<open>Segment descriptors\<close>

record segdesc =
  sd_lim_15_0 :: "16 word"
  sd_base_15_0 :: "16 word"
  sd_base_23_16 :: "8 word"
  sd_type :: "4 word"
  sd_s :: "1 word"
  sd_dpl :: "2 word"
  sd_p :: "1 word"
  sd_lim_19_16 :: "4 word"
  sd_avl :: "1 word"
  sd_rsv1 :: "1 word"
  sd_db :: "1 word"
  sd_g :: "1 word"
  sd_base_31_24 :: "8 word"

definition SEG :: "4 word \<Rightarrow> uint \<Rightarrow> uint \<Rightarrow> 2 word \<Rightarrow> segdesc" where
  "SEG ty base lim dpl =
     \<lparr>sd_lim_15_0 = ucast (drop_bit 12 lim AND 0xFFFF), sd_base_15_0 = ucast (base AND 0xFFFF),
      sd_base_23_16 = ucast (drop_bit 16 base AND 0xFF), sd_type = ty, sd_s = 1, sd_dpl = dpl, sd_p = 1,
      sd_lim_19_16 = ucast (drop_bit 28 lim), sd_avl = 0, sd_rsv1 = 0, sd_db = 1, sd_g = 1,
      sd_base_31_24 = ucast (drop_bit 24 base)\<rparr>"

definition SEG16 :: "4 word \<Rightarrow> uint \<Rightarrow> uint \<Rightarrow> 2 word \<Rightarrow> segdesc" where
  "SEG16 ty base lim dpl =
     \<lparr>sd_lim_15_0 = ucast (lim AND 0xFFFF), sd_base_15_0 = ucast (base AND 0xFFFF),
      sd_base_23_16 = ucast (drop_bit 16 base AND 0xFF), sd_type = ty, sd_s = 1, sd_dpl = dpl, sd_p = 1,
      sd_lim_19_16 = ucast (drop_bit 16 lim), sd_avl = 0, sd_rsv1 = 0, sd_db = 1, sd_g = 0,
      sd_base_31_24 = ucast (drop_bit 24 base)\<rparr>"

abbreviation (input) SEG_KCODE :: nat where "SEG_KCODE \<equiv> 1"
abbreviation (input) SEG_KDATA :: nat where "SEG_KDATA \<equiv> 2"
abbreviation (input) SEG_KCPU :: nat where "SEG_KCPU \<equiv> 3"
abbreviation (input) SEG_UCODE :: nat where "SEG_UCODE \<equiv> 4"
abbreviation (input) SEG_UDATA :: nat where "SEG_UDATA \<equiv> 5"
abbreviation (input) SEG_TSS :: nat where "SEG_TSS \<equiv> 6"
abbreviation (input) STA_X :: "4 word" where "STA_X \<equiv> 0x8"
abbreviation (input) STA_W :: "4 word" where "STA_W \<equiv> 0x2"
abbreviation (input) STA_R :: "4 word" where "STA_R \<equiv> 0x2"
abbreviation (input) DPL_USER :: "2 word" where "DPL_USER \<equiv> 3"

type_synonym gdt = "nat \<Rightarrow> segdesc"

text \<open>\<open>cpu\<close> is the address of the per-processor variables, \<open>ts\<close> that of the task state, of 104 bytes.\<close>

definition seginit :: "uint \<Rightarrow> gdt \<Rightarrow> gdt" where
  "seginit cpu gdt =
     gdt(SEG_KCODE := SEG (STA_X OR STA_R) 0 0xFFFFFFFF 0,
         SEG_KDATA := SEG STA_W 0 0xFFFFFFFF 0,
         SEG_UCODE := SEG (STA_X OR STA_R) 0 0xFFFFFFFF DPL_USER,
         SEG_UDATA := SEG STA_W 0 0xFFFFFFFF DPL_USER,
         SEG_KCPU := SEG STA_W cpu 8 0)"

definition switchuvm_tss :: "uint \<Rightarrow> gdt \<Rightarrow> gdt" where
  "switchuvm_tss ts gdt = gdt(SEG_TSS := (SEG16 0x9 ts (104 - 1) 0)\<lparr>sd_s := 0\<rparr>)"

text \<open>Base and limit as the processor puts them together.\<close>

definition seg_base :: "segdesc \<Rightarrow> uint" where
  "seg_base d = ucast (sd_base_15_0 d) OR push_bit 16 (ucast (sd_base_23_16 d)) OR push_bit 24 (ucast (sd_base_31_24 d))"

definition seg_limit :: "segdesc \<Rightarrow> uint" where
  "seg_limit d =
     (let lim = ucast (sd_lim_15_0 d) OR push_bit 16 (ucast (sd_lim_19_16 d))
      in if sd_g d = 1 then push_bit 12 lim OR 0xFFF else lim)"

lemma word_bits:
  "bit (0xFFFF :: 'a::len word) n \<longleftrightarrow> n < 16 \<and> n < LENGTH('a)"
  "bit (0xFF :: 'a::len word) n \<longleftrightarrow> n < 8 \<and> n < LENGTH('a)"
  "bit (0xFFF :: 'a::len word) n \<longleftrightarrow> n < 12 \<and> n < LENGTH('a)"
proof -
  have e: "(0xFFFF :: 'a word) = mask 16" "(0xFF :: 'a word) = mask 8" "(0xFFF :: 'a word) = mask 12"
    by (simp_all add: mask_eq_exp_minus_1)
  show "bit (0xFFFF :: 'a word) n \<longleftrightarrow> n < 16 \<and> n < LENGTH('a)"
    "bit (0xFF :: 'a word) n \<longleftrightarrow> n < 8 \<and> n < LENGTH('a)" "bit (0xFFF :: 'a word) n \<longleftrightarrow> n < 12 \<and> n < LENGTH('a)"
    unfolding e by (auto simp: bit_mask_iff)
qed

lemma int_bits: "bit (0xFFFF :: int) n \<longleftrightarrow> n < 16" "bit (0xFF :: int) n \<longleftrightarrow> n < 8" "bit (0xFFF :: int) n \<longleftrightarrow> n < 12"
proof -
  have e: "(0xFFFF :: int) = mask 16" "(0xFF :: int) = mask 8" "(0xFFF :: int) = mask 12"
    by (simp_all add: mask_eq_exp_minus_1)
  show "bit (0xFFFF :: int) n \<longleftrightarrow> n < 16" "bit (0xFF :: int) n \<longleftrightarrow> n < 8" "bit (0xFFF :: int) n \<longleftrightarrow> n < 12"
    unfolding e by (auto simp: bit_mask_iff)
qed

lemma seg_base_parts:
  "(ucast (ucast (base AND 0xFFFF) :: 16 word) :: uint) OR push_bit 16 (ucast (ucast (drop_bit 16 base AND 0xFF) :: 8 word))
     OR push_bit 24 (ucast (ucast (drop_bit 24 base) :: 8 word)) = base"
proof (rule bit_word_eqI)
  fix n assume "n < LENGTH(32)"
  then have n: "n < 32" by simp
  consider "n < 16" | "16 \<le> n" "n < 24" | "24 \<le> n" by linarith
  then show "bit ((ucast (ucast (base AND 0xFFFF) :: 16 word) :: uint) OR push_bit 16 (ucast (ucast (drop_bit 16 base AND 0xFF) :: 8 word))
     OR push_bit 24 (ucast (ucast (drop_bit 24 base) :: 8 word))) n = bit base n"
    using n by cases (auto simp: bit_simps word_bits int_bits)
qed

lemma seg_base_SEG: "seg_base (SEG ty base lim dpl) = base"
  by (simp add: seg_base_def SEG_def seg_base_parts)

lemma seg_base_SEG16: "seg_base (SEG16 ty base lim dpl) = base"
  by (simp add: seg_base_def SEG16_def seg_base_parts)

lemma sd_dpl_SEG: "sd_dpl (SEG ty base lim dpl) = dpl"
  by (simp add: SEG_def)

lemma seg_limit_SEG: "seg_limit (SEG ty base lim dpl) = lim OR 0xFFF"
proof (rule bit_word_eqI)
  fix n assume "n < LENGTH(32)"
  then have n: "n < 32" by simp
  consider "n < 12" | "12 \<le> n" "n < 28" | "28 \<le> n" by linarith
  then show "bit (seg_limit (SEG ty base lim dpl)) n = bit (lim OR 0xFFF) n"
    using n by cases (auto simp: bit_simps word_bits int_bits seg_limit_def SEG_def Let_def)
qed

subsection \<open>Interrupt gates\<close>

record gatedesc =
  g_off_15_0 :: "16 word"
  g_cs :: "16 word"
  g_args :: "5 word"
  g_rsv1 :: "3 word"
  g_type :: "4 word"
  g_s :: "1 word"
  g_dpl :: "2 word"
  g_p :: "1 word"
  g_off_31_16 :: "16 word"

definition SETGATE :: "bool \<Rightarrow> 16 word \<Rightarrow> uint \<Rightarrow> 2 word \<Rightarrow> gatedesc" where
  "SETGATE istrap sel off d =
     \<lparr>g_off_15_0 = ucast (off AND 0xFFFF), g_cs = sel, g_args = 0, g_rsv1 = 0,
      g_type = (if istrap then 0xF else 0xE), g_s = 0, g_dpl = d, g_p = 1, g_off_31_16 = ucast (drop_bit 16 off)\<rparr>"

abbreviation (input) T_SYSCALL :: nat where "T_SYSCALL \<equiv> 64"
abbreviation (input) T_IRQ0 :: nat where "T_IRQ0 \<equiv> 32"

definition tvinit :: "(nat \<Rightarrow> uint) \<Rightarrow> nat \<Rightarrow> gatedesc" where
  "tvinit vectors = (\<lambda>i. SETGATE False (8 * of_nat SEG_KCODE) (vectors i) 0)
     (T_SYSCALL := SETGATE True (8 * of_nat SEG_KCODE) (vectors T_SYSCALL) DPL_USER)"

subsection \<open>The processor\<close>

text \<open>
  What the processor does for vector \<open>n\<close> at privilege level \<open>cpl\<close>: \<open>Enter eip cpl keeps\<close> starts the
  handler at \<open>eip\<close> on a privilege level, keeping the interrupt flag or clearing it; \<open>GPF\<close> and \<open>NPF\<close> are
  the exceptions for a missing privilege and for a gate or segment that is not present. The
  privilege of the gate counts only for the instruction \<open>int\<close> (\<open>soft\<close>).
\<close>

datatype entry = Enter uint "2 word" bool | GPF | NPF

definition int_gate :: "gdt \<Rightarrow> (nat \<Rightarrow> gatedesc) \<Rightarrow> 2 word \<Rightarrow> bool \<Rightarrow> nat \<Rightarrow> entry" where
  "int_gate gdt idt cpl soft n =
     (let g = idt n; d = gdt (unat (drop_bit 3 (g_cs g)))
      in if soft \<and> g_dpl g < cpl then GPF
         else if g_p g = 0 then NPF
         else if \<not> (sd_s d = 1 \<and> bit (sd_type d) 3) \<or> sd_dpl d > cpl then GPF
         else if sd_p d = 0 then NPF
         else Enter (ucast (g_off_15_0 g) OR push_bit 16 (ucast (g_off_31_16 g))) (sd_dpl d) (g_type g = 0xF))"

lemma gate_offset: "(ucast (ucast (off AND 0xFFFF) :: 16 word) :: uint) OR push_bit 16 (ucast (ucast (drop_bit 16 off) :: 16 word)) = off"
proof (rule bit_word_eqI)
  fix n assume "n < LENGTH(32)"
  then have n: "n < 32" by simp
  then show "bit ((ucast (ucast (off AND 0xFFFF) :: 16 word) :: uint) OR push_bit 16 (ucast (ucast (drop_bit 16 off) :: 16 word))) n = bit off n"
    by (cases "n < 16") (auto simp: bit_simps word_bits int_bits)
qed

lemma kcode: "seginit cpu gdt (Suc 0) = SEG 0xA 0 0xFFFFFFFF 0"
  by (simp add: seginit_def)

text \<open>C32: The only way in from user mode. With the segments of \<open>seginit\<close> and the gates of \<open>tvinit\<close>, a
  program at user level that executes \<open>int n\<close> enters the kernel for the system call vector alone,
  at that vector's entry point, on the kernel's level and with interrupts left on; for any other
  vector it gets a general protection fault. An exception or a device interrupt enters at the entry
  point of its vector with interrupts off, from user and from kernel mode. The segments the user
  runs on are on user level and span the whole address space.\<close>

theorem user_entry_points:
  "int_gate (seginit cpu gdt) (tvinit vectors) DPL_USER True n
     = (if n = T_SYSCALL then Enter (vectors T_SYSCALL) 0 True else GPF)
   \<and> int_gate (seginit cpu gdt) (tvinit vectors) cpl False n = Enter (vectors n) 0 (n = T_SYSCALL)
   \<and> {k. sd_dpl (seginit cpu gdt k) = DPL_USER} \<subseteq> {SEG_UCODE, SEG_UDATA} \<union> {k. sd_dpl (gdt k) = DPL_USER}
   \<and> seg_base (seginit cpu gdt SEG_UCODE) = 0 \<and> seg_limit (seginit cpu gdt SEG_UCODE) = 0xFFFFFFFF
   \<and> seg_base (seginit cpu gdt SEG_UDATA) = 0 \<and> seg_limit (seginit cpu gdt SEG_UDATA) = 0xFFFFFFFF"
proof (intro conjI)
  note d = int_gate_def tvinit_def SETGATE_def Let_def kcode gate_offset SEG_def
  have "bit (0xA :: 4 word) 3" by simp
  note d = d this
  show "int_gate (seginit cpu gdt) (tvinit vectors) DPL_USER True n = (if n = T_SYSCALL then Enter (vectors T_SYSCALL) 0 True else GPF)"
    by (auto simp: d)
  show "int_gate (seginit cpu gdt) (tvinit vectors) cpl False n = Enter (vectors n) 0 (n = T_SYSCALL)"
    by (auto simp: d)
qed (auto simp: seginit_def sd_dpl_SEG seg_base_SEG seg_limit_SEG)

end
