(* ===== verification/Trap.thy ===== *)
theory Trap
  imports Sysfile Console Kbd
begin

section \<open>Traps and interrupts (trap.c, kbdintr of kbd.c, uartintr of uart.c)\<close>

text \<open>
  \<open>trap\<close> on the state of one processor, for the process \<open>me\<close> running on it (none while the scheduler
  idles) with the trap frame at \<open>tf\<close> in memory. What the devices hold at that moment is the record
  \<open>trapin\<close>: the processor's number, the faulting address, the scan codes in the keyboard controller
  and the bytes in the serial port. The disk is that of \<open>memide.c\<close>, whose \<open>ideintr\<close> does nothing;
  the acknowledgements to the local APIC are counted.

  The result says how the handler ends: it returns to the interrupted code, the process has exited,
  it has given up the processor (\<open>trap_resume\<close> goes on when it is scheduled again), or it waits inside a
  write to a pipe with these bytes left.
\<close>

record tmachine = kmachine +
  m_shift :: uint
  m_tickslock :: spinlock
  m_eoi :: nat

record trapin =
  ti_cpu :: uint
  ti_cr2 :: uint
  ti_codes :: "uchar list"
  ti_serial :: "uchar list"

datatype trapout = TReturn | TExit | TYield bool | TWait "uchar list"

definition load16 :: "mem \<Rightarrow> uint \<Rightarrow> ushort" where
  "load16 m a = ucast (m a) OR push_bit 8 (ucast (m (a + 1)))"

subsection \<open>Console interrupts\<close>

definition m_cprintf :: "string \<Rightarrow> arg list \<Rightarrow> 'x kmachine_scheme \<Rightarrow> 'x kmachine_scheme res" where
  "m_cprintf fmt args s =
     bindr (con_cprintf (map (\<lambda>c. word_of_nat (of_char c)) fmt) args (m_cons s)) (\<lambda>c. Ret (s\<lparr>m_cons := c\<rparr>))"

fun print_pcs :: "uint list \<Rightarrow> 'x kmachine_scheme \<Rightarrow> 'x kmachine_scheme res" where
  "print_pcs [] s = Ret s"
| "print_pcs (pc # pcs) s = bindr (m_cprintf '' %p'' [AInt pc] s) (\<lambda>s. print_pcs pcs s)"

fun print_procs :: "(uint \<times> string \<times> uchar list \<times> uint list) list \<Rightarrow> 'x kmachine_scheme \<Rightarrow> 'x kmachine_scheme res" where
  "print_procs [] s = Ret s"
| "print_procs ((pid, st, name, pcs) # ps) s =
     bindr (m_cprintf ''%d %s %s'' [AInt pid, AStr (Some (map (\<lambda>c. word_of_nat (of_char c)) st)), AStr (Some (takeWhile (\<lambda>c. c \<noteq> 0) name))] s) (\<lambda>s.
     bindr (print_pcs pcs s) (\<lambda>s.
     bindr (m_cprintf [CHR 0x0A] [] s) (\<lambda>s. print_procs ps s)))"

fun wake_all :: "chan list \<Rightarrow> 'x kernel_scheme \<Rightarrow> 'x kernel_scheme res" where
  "wake_all [] s = Ret s"
| "wake_all (c # cs) s = bindr (k_wakeup c s) (\<lambda>s. wake_all cs s)"

text \<open>\<open>consoleintr\<close> with the wakeups it makes and the listing it prints when the keys ask for it.\<close>

definition m_consoleintr :: "int list \<Rightarrow> 'x kmachine_scheme \<Rightarrow> 'x kmachine_scheme res" where
  "m_consoleintr keys s =
     bindr (consoleintr keys False ((m_cons s)\<lparr>c_woken := []\<rparr>)) (\<lambda>(dump, c).
     bindr (wake_all (c_woken c) (s\<lparr>m_cons := c\<rparr>)) (\<lambda>s.
     if dump then print_procs (procdump s) s else Ret s))"

definition kbdintr :: "uchar list \<Rightarrow> 'x tmachine_scheme \<Rightarrow> 'x tmachine_scheme res" where
  "kbdintr codes s =
     (let (keys, shift) = kbd_keys codes (m_shift s) in m_consoleintr keys (s\<lparr>m_shift := shift\<rparr>))"

definition uartintr :: "uchar list \<Rightarrow> 'x kmachine_scheme \<Rightarrow> 'x kmachine_scheme res" where
  "uartintr bytes s = m_consoleintr (map (\<lambda>b. uartgetc 0x01 b (m_cons s)) bytes) s"

subsection \<open>The trap handler\<close>

definition lapiceoi_trap :: "'x tmachine_scheme \<Rightarrow> 'x tmachine_scheme" where
  "lapiceoi_trap s = s\<lparr>m_eoi := Suc (m_eoi s)\<rparr>"

definition clock_tick :: "'x tmachine_scheme \<Rightarrow> 'x tmachine_scheme res" where
  "clock_tick s =
     bindr (acquire (m_tickslock s) (kcpu (k_kst s))) (\<lambda>(lk, c).
     let s = k_upd_cpu (\<lambda>_. c) (s\<lparr>m_tickslock := lk\<rparr>);
         s = s\<lparr>k_ticks := k_ticks s + 1\<rparr> in
     bindr (k_wakeup ChanTicks s) (\<lambda>s.
     bindr (release (m_tickslock s) (kcpu (k_kst s))) (\<lambda>(lk, c).
     Ret (k_upd_cpu (\<lambda>_. c) (s\<lparr>m_tickslock := lk\<rparr>)))))"

definition user_mode :: "uint \<Rightarrow> 'x kernel_scheme \<Rightarrow> bool" where
  "user_mode tf s \<longleftrightarrow> load16 (k_mem s) (tf + tf_cs) AND 3 = 3"

definition trap_dispatch :: "trapin \<Rightarrow> nat option \<Rightarrow> uint \<Rightarrow> uint \<Rightarrow> 'x tmachine_scheme \<Rightarrow> 'x tmachine_scheme res" where
  "trap_dispatch ti me tf trapno s =
     (if trapno = 32 then
        bindr (if ti_cpu ti = 0 then clock_tick s else Ret s) (\<lambda>s. Ret (lapiceoi_trap s))
      else if trapno = 46 then Ret (lapiceoi_trap s)
      else if trapno = 47 then Ret s
      else if trapno = 33 then bindr (kbdintr (ti_codes ti) s) (\<lambda>s. Ret (lapiceoi_trap s))
      else if trapno = 36 then bindr (uartintr (ti_serial ti) s) (\<lambda>s. Ret (lapiceoi_trap s))
      else if trapno = 39 \<or> trapno = 63 then
        bindr (m_cprintf (''cpu%d: spurious interrupt at %x:%x'' @ [CHR 0x0A])
          [AInt (ti_cpu ti), AInt (ucast (load16 (k_mem s) (tf + tf_cs))), AInt (load32 (k_mem s) (tf + tf_eip))] s) (\<lambda>s.
        Ret (lapiceoi_trap s))
      else
        case me of
          None \<Rightarrow>
            bindr (m_cprintf (''unexpected trap %d from cpu %d eip %x (cr2=0x%x)'' @ [CHR 0x0A])
              [AInt trapno, AInt (ti_cpu ti), AInt (load32 (k_mem s) (tf + tf_eip)), AInt (ti_cr2 ti)] s) (\<lambda>_. Panic ''trap'')
        | Some p \<Rightarrow>
            if load16 (k_mem s) (tf + tf_cs) AND 3 = 0 then
              bindr (m_cprintf (''unexpected trap %d from cpu %d eip %x (cr2=0x%x)'' @ [CHR 0x0A])
                [AInt trapno, AInt (ti_cpu ti), AInt (load32 (k_mem s) (tf + tf_eip)), AInt (ti_cr2 ti)] s) (\<lambda>_. Panic ''trap'')
            else
              bindr (m_cprintf (''pid %d %s: trap %d err %d on cpu %d eip 0x%x addr 0x%x--kill proc'' @ [CHR 0x0A])
                [AInt (pr_pid (k_proc s p)), AStr (Some (takeWhile (\<lambda>c. c \<noteq> 0) (pr_name (k_proc s p)))), AInt trapno,
                 AInt (load32 (k_mem s) (tf + tf_err)), AInt (ti_cpu ti), AInt (load32 (k_mem s) (tf + tf_eip)), AInt (ti_cr2 ti)] s) (\<lambda>s.
              Ret (k_upd p (\<lambda>x. x\<lparr>pr_killed := True\<rparr>) s)))"

definition trap_exit :: "link \<Rightarrow> nat \<Rightarrow> 'x kernel_scheme \<Rightarrow> (trapout \<times> 'x kernel_scheme) res" where
  "trap_exit ln me s = bindr (exit ln me s) (\<lambda>(_, s). Ret (TExit, s))"

definition trap_last :: "link \<Rightarrow> nat option \<Rightarrow> uint \<Rightarrow> 'x kernel_scheme \<Rightarrow> (trapout \<times> 'x kernel_scheme) res" where
  "trap_last ln me tf s =
     (case me of
        None \<Rightarrow> Ret (TReturn, s)
      | Some p \<Rightarrow> if pr_killed (k_proc s p) \<and> user_mode tf s then trap_exit ln p s else Ret (TReturn, s))"

definition trap_end :: "link \<Rightarrow> nat option \<Rightarrow> uint \<Rightarrow> 'x kernel_scheme \<Rightarrow> (trapout \<times> 'x kernel_scheme) res" where
  "trap_end ln me tf s =
     (case me of
        None \<Rightarrow> Ret (TReturn, s)
      | Some p \<Rightarrow>
          if pr_killed (k_proc s p) \<and> user_mode tf s then trap_exit ln p s
          else if pr_state (k_proc s p) = RUNNING \<and> load32 (k_mem s) (tf + tf_trapno) = 32
            then bindr (yield_out p s) (\<lambda>(ie, s). Ret (TYield ie, s))
          else trap_last ln me tf s)"

definition trap_resume :: "link \<Rightarrow> bool \<Rightarrow> nat \<Rightarrow> uint \<Rightarrow> 'x kernel_scheme \<Rightarrow> (trapout \<times> 'x kernel_scheme) res" where
  "trap_resume ln ie p tf s = bindr (yield_back ie s) (\<lambda>s. trap_last ln (Some p) tf s)"

definition trap_syscall :: "link \<Rightarrow> 'x kernel_scheme devsw \<Rightarrow> nat \<Rightarrow> uint \<Rightarrow> 'x kernel_scheme \<Rightarrow> (trapout \<times> 'x kernel_scheme) res" where
  "trap_syscall ln dv p tf s =
     (if pr_killed (k_proc s p) then trap_exit ln p s
      else bindr (syscall ln dv p (k_upd p (\<lambda>x. x\<lparr>pr_tf := tf\<rparr>) s)) (\<lambda>(out, s).
        case out of
          SExit \<Rightarrow> Ret (TExit, s)
        | SWrite left \<Rightarrow> Ret (TWait left, s)
        | SRet _ \<Rightarrow> if pr_killed (k_proc s p) then trap_exit ln p s else Ret (TReturn, s)))"

definition trap ::
  "link \<Rightarrow> 'x tmachine_scheme devsw \<Rightarrow> trapin \<Rightarrow> nat option \<Rightarrow> uint \<Rightarrow> 'x tmachine_scheme \<Rightarrow> (trapout \<times> 'x tmachine_scheme) res" where
  "trap ln dv ti me tf s =
     (let trapno = load32 (k_mem s) (tf + tf_trapno) in
      if trapno = 64 then
        case me of None \<Rightarrow> Fault ''trap: null process'' | Some p \<Rightarrow> trap_syscall ln dv p tf s
      else bindr (trap_dispatch ti me tf trapno s) (\<lambda>s. trap_end ln me tf s))"

subsection \<open>What interrupts keep\<close>

text \<open>An interrupt handler leaves memory and the killed flags alone, and a running process runs on.\<close>

definition steady :: "'x kernel_scheme \<Rightarrow> 'x kernel_scheme \<Rightarrow> bool" where
  "steady s t \<longleftrightarrow> k_mem t = k_mem s \<and> (\<forall>p. pr_killed (k_proc t p) = pr_killed (k_proc s p)
     \<and> (pr_state (k_proc s p) = RUNNING \<longrightarrow> pr_state (k_proc t p) = RUNNING))"

lemma steady_refl [simp]: "steady s s"
  by (simp add: steady_def)

lemma steady_trans: "steady s t \<Longrightarrow> steady t u \<Longrightarrow> steady s u"
  by (simp add: steady_def)

lemma k_mem_upd_cpu [simp]: "k_mem (k_upd_cpu f s) = k_mem s" "k_proc (k_upd_cpu f s) = k_proc s"
  by (simp_all add: k_mem_def k_upd_cpu_def)

lemma steady_acquire_ptable: "acquire_ptable s = Ret t \<Longrightarrow> k_mem t = k_mem s \<and> k_proc t = k_proc s"
  by (auto simp: acquire_ptable_def res_simps k_mem_def k_upd_cpu_def)

lemma steady_release_ptable: "release_ptable s = Ret t \<Longrightarrow> k_mem t = k_mem s \<and> k_proc t = k_proc s"
  by (auto simp: release_ptable_def res_simps k_mem_def k_upd_cpu_def)

lemma wakeup1_keeps: "pr_killed (wakeup1 c t p) = pr_killed (t p)" "pr_state (t p) = RUNNING \<Longrightarrow> pr_state (wakeup1 c t p) = RUNNING"
  by (auto simp: wakeup1_eq wake_if_def)

lemma steady_k_wakeup:
  assumes "k_wakeup c s = Ret t"
  shows "steady s t"
proof -
  from assms obtain u where u: "acquire_ptable s = Ret u" "release_ptable (u\<lparr>k_proc := wakeup1 (Some c) (k_proc u)\<rparr>) = Ret t"
    by (auto simp: k_wakeup_def res_simps)
  show ?thesis using steady_acquire_ptable [OF u(1)] steady_release_ptable [OF u(2)]
    by (simp add: steady_def wakeup1_keeps k_mem_def)
qed

lemma steady_wake_all: "wake_all cs s = Ret t \<Longrightarrow> steady s t"
  by (induction cs arbitrary: s) (auto simp: res_simps intro: steady_trans steady_k_wakeup)

lemma steady_cprintf: "m_cprintf fmt args s = Ret t \<Longrightarrow> steady s t"
  by (auto simp: m_cprintf_def res_simps steady_def k_mem_def)

lemma steady_print_pcs: "print_pcs pcs s = Ret t \<Longrightarrow> steady s t"
  by (induction pcs arbitrary: s) (auto simp: res_simps intro: steady_trans steady_cprintf)

lemma steady_print_procs: "print_procs ps s = Ret t \<Longrightarrow> steady s t"
proof (induction ps arbitrary: s)
  case (Cons x ps)
  obtain pid st name pcs where x: "x = (pid, st, name, pcs)" by (cases x) auto
  from Cons.prems obtain u v w where u: "m_cprintf ''%d %s %s'' [AInt pid, AStr (Some (map (\<lambda>c. word_of_nat (of_char c)) st)), AStr (Some (takeWhile (\<lambda>c. c \<noteq> 0) name))] s = Ret u"
    and v: "print_pcs pcs u = Ret v" and w: "m_cprintf [CHR 0x0A] [] v = Ret w" and t: "print_procs ps w = Ret t"
    by (auto simp: x res_simps)
  show ?case using steady_cprintf [OF u] steady_print_pcs [OF v] steady_cprintf [OF w] Cons.IH [OF t] by (blast intro: steady_trans)
qed simp

lemma steady_m_consoleintr:
  assumes "m_consoleintr keys s = Ret t"
  shows "steady s t"
proof -
  from assms obtain dump c u where "wake_all (c_woken c) (s\<lparr>m_cons := c\<rparr>) = Ret u" "(if dump then print_procs (procdump u) u else Ret u) = Ret t"
    by (auto simp: m_consoleintr_def res_simps)
  then have "steady (s\<lparr>m_cons := c\<rparr>) u" "steady u t"
    by (auto dest: steady_wake_all steady_print_procs split: if_splits)
  moreover have "steady s (s\<lparr>m_cons := c\<rparr>)" by (simp add: steady_def k_mem_def)
  ultimately show ?thesis by (blast intro: steady_trans)
qed

lemma steady_eoi: "steady s (lapiceoi_trap s)"
  by (simp add: steady_def lapiceoi_trap_def k_mem_def)

lemma steady_kbdintr: "kbdintr codes s = Ret t \<Longrightarrow> steady s t"
  using steady_m_consoleintr [of _ "s\<lparr>m_shift := snd (kbd_keys codes (m_shift s))\<rparr>" t]
  by (auto simp: kbdintr_def steady_def k_mem_def split: prod.splits)

lemma steady_clock_tick:
  assumes "clock_tick s = Ret t"
  shows "steady s t"
proof -
  from assms obtain lk c u lk' c' where u: "k_wakeup ChanTicks ((k_upd_cpu (\<lambda>_. c) (s\<lparr>m_tickslock := lk\<rparr>))\<lparr>k_ticks := k_ticks (k_upd_cpu (\<lambda>_. c) (s\<lparr>m_tickslock := lk\<rparr>)) + 1\<rparr>) = Ret u"
    "t = k_upd_cpu (\<lambda>_. c') (u\<lparr>m_tickslock := lk'\<rparr>)"
    by (auto simp: clock_tick_def res_simps Let_def)
  show ?thesis using steady_k_wakeup [OF u(1)] u(2) by (simp add: steady_def k_mem_def k_upd_cpu_def)
qed

lemmas steady_intros = steady_eoi steady_clock_tick steady_kbdintr steady_cprintf steady_m_consoleintr

text \<open>A trap that no device causes kills the process; every other leaves it as it was.\<close>

definition device_trap :: "uint \<Rightarrow> bool" where
  "device_trap n \<longleftrightarrow> n \<in> {32, 33, 36, 39, 46, 47, 63}"

lemma trap_dispatch_device:
  assumes "trap_dispatch ti me tf n s = Ret t" and "device_trap n"
  shows "steady s t"
  using assms
  by (auto simp: trap_dispatch_def device_trap_def uartintr_def res_simps split: if_splits
      intro: steady_intros steady_trans [OF _ steady_eoi])

lemma trap_dispatch_fault:
  assumes "trap_dispatch ti (Some p) tf n s = Ret t" and "\<not> device_trap n"
  shows "k_mem t = k_mem s \<and> pr_killed (k_proc t p)"
proof -
  from assms obtain fmt args u where "m_cprintf fmt args s = Ret u" "t = k_upd p (\<lambda>x. x\<lparr>pr_killed := True\<rparr>) u"
    by (auto simp: trap_dispatch_def device_trap_def res_simps split: if_splits)
  then show ?thesis using steady_cprintf [of fmt args s u]
    by (auto simp: steady_def k_mem_def k_upd_def upd_proc_def)
qed

lemma trap_exit_out: "trap_exit ln p s = Ret (out, t) \<Longrightarrow> out = TExit"
  by (auto simp: trap_exit_def res_simps)

lemma trap_last_out:
  "trap_last ln (Some p) tf s = Ret (out, t) \<Longrightarrow> out = TReturn \<and> user_mode tf t \<Longrightarrow> \<not> pr_killed (k_proc t p)"
  by (auto simp: trap_last_def split: if_splits dest: trap_exit_out)

lemma trap_end_out:
  assumes "trap_end ln (Some p) tf s = Ret (out, t)"
  shows "out = TReturn \<and> user_mode tf t \<Longrightarrow> \<not> pr_killed (k_proc t p)"
    and "pr_killed (k_proc s p) \<and> user_mode tf s \<Longrightarrow> out = TExit"
    and "\<not> (pr_killed (k_proc s p) \<and> user_mode tf s) \<Longrightarrow> pr_state (k_proc s p) = RUNNING \<Longrightarrow> load32 (k_mem s) (tf + tf_trapno) = 32
      \<Longrightarrow> \<exists>ie. out = TYield ie"
  using assms trap_last_out [of ln p tf s out t]
  by (auto simp: trap_end_def res_simps split: if_splits dest: trap_exit_out)

lemma yield_back_keeps: "yield_back ie s = Ret t \<Longrightarrow> k_mem t = k_mem s \<and> k_proc t = k_proc s"
  using steady_release_ptable [of "sched_back ie s" t] by (simp add: yield_back_def sched_back_def)

lemma trap_resume_out:
  assumes "trap_resume ln ie p tf v = Ret (out, u)"
  shows "out = (if pr_killed (k_proc v p) \<and> user_mode tf v then TExit else TReturn)"
proof -
  from assms obtain w where w: "yield_back ie v = Ret w" "trap_last ln (Some p) tf w = Ret (out, u)"
    by (auto simp: trap_resume_def res_simps)
  have "user_mode tf w = user_mode tf v" "k_proc w = k_proc v"
    using yield_back_keeps [OF w(1)] by (simp_all add: user_mode_def)
  then show ?thesis using w(2) by (auto simp: trap_last_def split: if_splits dest: trap_exit_out)
qed

lemma trap_resume_return:
  assumes "trap_resume ln ie p tf v = Ret (TReturn, u)"
  shows "k_proc u = k_proc v \<and> k_mem u = k_mem v"
proof -
  from assms obtain w where w: "yield_back ie v = Ret w" "trap_last ln (Some p) tf w = Ret (TReturn, u)"
    by (auto simp: trap_resume_def res_simps)
  have "u = w" using w(2) by (auto simp: trap_last_def split: if_splits dest: trap_exit_out)
  then show ?thesis using yield_back_keeps [OF w(1)] by simp
qed

subsection \<open>Properties\<close>

text \<open>The kernel's memory at power-on: the zeroed variables of the kernel with an image of memory, and one
  running process.\<close>

definition zero_machine :: "mem \<Rightarrow> proc \<Rightarrow> tmachine" where
  "zero_machine m pr =
     \<lparr>f_log = \<lparr>l_start = 0, l_size = 0, l_outstanding = 0, l_committing = False, l_dev = 0, lh_n = 0, lh_block = []\<rparr>,
      f_bio = \<lparr>bufs = (\<lambda>_. \<lparr>b_busy = False, b_valid = False, b_dirty = False, b_dev = 0, b_blockno = 0, b_prev = 0, b_next = 0, b_qnext = None, b_data = replicate BSIZE 0\<rparr>),
        bdisk = ideinit [], woken = []\<rparr>,
      f_sb = sb_of_bytes (replicate BSIZE 0),
      f_inode = (\<lambda>_. \<lparr>i_dev = 0, i_inum = 0, i_ref = 0, i_busy = False, i_valid = False, i_type = 0, i_major = 0, i_minor = 0, i_nlink = 0, i_size = 0, i_addrs = replicate 13 0\<rparr>),
      k_file = (\<lambda>_. \<lparr>fl_type = FD_NONE, fl_ref = 0, fl_readable = False, fl_writable = False, fl_pipe = 0, fl_ip = 0, fl_off = 0\<rparr>),
      k_pipe = (\<lambda>_. \<lparr>p_data = [], p_nread = 0, p_nwrite = 0, p_readopen = False, p_writeopen = False, p_woken = []\<rparr>),
      k_kst = \<lparr>kmem = \<lparr>lock = \<lparr>locked = 0, lk_name = [], lk_cpu = None\<rparr>, use_lock = False, freelist = 0\<rparr>, kmem_mem = m,
        kcpu = \<lparr>cpu_id = 0, ncli = 0, intena = False, fl_if = False\<rparr>\<rparr>,
      k_proc = (\<lambda>_. pr), k_plock = \<lparr>locked = 0, lk_name = [], lk_cpu = None\<rparr>, k_nextpid = 1, k_initproc = None, k_kpgdir = 0, k_cr3 = 0,
      k_esp0 = 0, k_first = True, k_ticks = 0,
      m_cons = \<lparr>c_cga = \<lparr>crt = (\<lambda>_. 0), pos = 0\<rparr>, c_uart = False, c_serial = [], c_panicked = False,
        c_input = \<lparr>in_buf = replicate INPUT_BUF 0, in_r = 0, in_w = 0, in_e = 0\<rparr>, c_woken = []\<rparr>,
      m_shift = 0, m_tickslock = \<lparr>locked = 0, lk_name = [], lk_cpu = None\<rparr>, m_eoi = 0\<rparr>"

definition a_proc :: proc where
  "a_proc = \<lparr>pr_sz = 4096, pr_pgdir = 0, pr_kstack = 0, pr_state = RUNNING, pr_pid = 1, pr_parent = None, pr_tf = 0, pr_context = 0,
     pr_chan = None, pr_killed = False, pr_ofile = replicate NOFILE None, pr_cwd = None, pr_name = replicate 16 0\<rparr>"

text \<open>C33: How a trap of a process ends. When the handler returns to user mode the process is not marked as
  killed; a process that is killed when it traps from user mode exits, and so does one that traps there
  for any reason but a system call or a device (an exception). On a clock tick a running process that
  is not to exit gives up the processor. When it is scheduled again, in whatever state \<open>v\<close> the machine
  is by then, it exits if it was killed in the meantime and came from user mode, and otherwise returns,
  with the process table and memory as they are in \<open>v\<close>.\<close>

theorem trap_outcomes:
  assumes "trap ln dv ti (Some p) tf s = Ret (out, t)"
  shows "(out = TReturn \<and> user_mode tf t \<longrightarrow> \<not> pr_killed (k_proc t p))
    \<and> (pr_killed (k_proc s p) \<and> user_mode tf s \<longrightarrow> out = TExit)
    \<and> (user_mode tf s \<and> load32 (k_mem s) (tf + tf_trapno) \<noteq> 64 \<and> \<not> device_trap (load32 (k_mem s) (tf + tf_trapno)) \<longrightarrow> out = TExit)
    \<and> (load32 (k_mem s) (tf + tf_trapno) = 32 \<and> pr_state (k_proc s p) = RUNNING \<and> \<not> pr_killed (k_proc s p) \<longrightarrow> (\<exists>ie. out = TYield ie))
    \<and> (trap_resume ln ie p tf v = Ret (out2, u) \<longrightarrow>
        out2 = (if pr_killed (k_proc v p) \<and> user_mode tf v then TExit else TReturn)
        \<and> (out2 = TReturn \<longrightarrow> k_proc u = k_proc v \<and> k_mem u = k_mem v))"
proof -
  let ?n = "load32 (k_mem s) (tf + tf_trapno)"
  have resume: "trap_resume ln ie p tf v = Ret (out2, u) \<longrightarrow>
      out2 = (if pr_killed (k_proc v p) \<and> user_mode tf v then TExit else TReturn)
      \<and> (out2 = TReturn \<longrightarrow> k_proc u = k_proc v \<and> k_mem u = k_mem v)"
    using trap_resume_out [of ln ie p tf v out2 u] trap_resume_return [of ln ie p tf v u] by blast
  show ?thesis
  proof (cases "?n = 64")
    case True
    then have "trap_syscall ln dv p tf s = Ret (out, t)" using assms by (simp add: trap_def)
    then show ?thesis using resume True
      by (auto simp: trap_syscall_def res_simps split: if_splits sysout.splits dest: trap_exit_out)
  next
    case False
    from assms False obtain w where w: "trap_dispatch ti (Some p) tf ?n s = Ret w" "trap_end ln (Some p) tf w = Ret (out, t)"
      by (auto simp: trap_def res_simps)
    note e = trap_end_out [OF w(2)]
    show ?thesis
    proof (cases "device_trap ?n")
      case True
      then have "steady s w" using trap_dispatch_device [OF w(1)] by blast
      then have k: "k_mem w = k_mem s" "pr_killed (k_proc w p) = pr_killed (k_proc s p)"
        "pr_state (k_proc s p) = RUNNING \<Longrightarrow> pr_state (k_proc w p) = RUNNING" by (auto simp: steady_def)
      then have "user_mode tf w = user_mode tf s" by (simp add: user_mode_def)
      then show ?thesis using e k resume True by auto
    next
      case dev: False
      then have k: "k_mem w = k_mem s" "pr_killed (k_proc w p)" using trap_dispatch_fault [OF w(1)] by auto
      then have "user_mode tf w = user_mode tf s" by (simp add: user_mode_def)
      moreover have "?n \<noteq> 32" using dev by (auto simp: device_trap_def)
      ultimately show ?thesis using e k resume by auto
    qed
  qed
qed

definition no_devices :: "tmachine devsw" where
  "no_devices = \<lparr>d_read = (\<lambda>_. None), d_write = (\<lambda>_. None)\<rparr>"

definition no_symbols :: link where
  "no_symbols = \<lparr>ln_end = 0, ln_data = 0, ln_trapret = 0, ln_forkret = 0, ln_initcode = []\<rparr>"

text \<open>A trap that returns at once, and one that is resumed with \<open>ptable.lock\<close> held by the scheduler.\<close>

theorem trap_outcomes_witness:
  "let s = zero_machine ((\<lambda>_. 0)(0x1030 := 47, 0x103C := 0x23)) a_proc;
       ti = \<lparr>ti_cpu = 0, ti_cr2 = 0, ti_codes = [], ti_serial = []\<rparr>;
       v = k_upd_cpu (\<lambda>c. c\<lparr>ncli := 1\<rparr>) (s\<lparr>k_plock := \<lparr>locked = 1, lk_name = [], lk_cpu = Some 0\<rparr>\<rparr>)
   in trap no_symbols no_devices ti (Some 0) 0x1000 s = Ret (TReturn, s) \<and> user_mode 0x1000 s \<and> \<not> pr_killed (k_proc s 0)
     \<and> (\<exists>u. trap_resume no_symbols False 0 0x1000 v = Ret (TReturn, u) \<and> k_proc u = k_proc v)"
proof -
  let ?m = "(\<lambda>_. 0)(0x1030 := 47, 0x103C := 0x23) :: mem"
  let ?s = "zero_machine ?m a_proc"
  let ?t = "\<lparr>ti_cpu = 0, ti_cr2 = 0, ti_codes = [], ti_serial = []\<rparr>"
  let ?v = "k_upd_cpu (\<lambda>c. c\<lparr>ncli := 1\<rparr>) (?s\<lparr>k_plock := \<lparr>locked = 1, lk_name = [], lk_cpu = Some 0\<rparr>\<rparr>)"
  have m: "k_mem ?s = ?m" by (simp add: k_mem_def zero_machine_def)
  have "load32 ?m (0x1000 + tf_trapno) = 47" by (simp add: load32_def)
  then have t: "trap no_symbols no_devices ?t (Some 0) 0x1000 ?s = Ret (TReturn, ?s)"
    by (simp add: trap_def m trap_dispatch_def trap_end_def trap_last_def) (simp add: zero_machine_def a_proc_def)
  have u: "user_mode 0x1000 ?s" by (simp add: user_mode_def m load16_def)
  have k: "\<not> pr_killed (k_proc ?s 0)" using trap_outcomes [OF t] u by blast
  have "\<exists>w. yield_back False ?v = Ret w"
    by (simp add: yield_back_def sched_back_def release_ptable_def release_def holding_def popcli_def
        k_upd_cpu_def zero_machine_def)
  then obtain w where w: "yield_back False ?v = Ret w" by blast
  then have "\<not> pr_killed (k_proc w 0)" using yield_back_keeps [OF w] k by simp
  then have r: "trap_resume no_symbols False 0 0x1000 ?v = Ret (TReturn, w)"
    using w by (simp add: trap_resume_def trap_last_def)
  then have "k_proc w = k_proc ?v" using trap_outcomes [OF t, of False ?v TReturn w] by blast
  then show ?thesis unfolding Let_def using t u k r by blast
qed

end
