(* ===== verification/Ide.thy ===== *)
theory Ide
  imports Memide
begin

section \<open>The IDE driver (ide.c)\<close>

text \<open>
  The driver for a real disk, which can take the place of \<open>memide.c\<close>: a queue of buffers linked by
  \<open>qnext\<close>, of which the first is the one the disk works on. What the driver writes to the ports is
  recorded in order; what it reads from the status port is a stream in the state, and the data of a
  read is an argument of the interrupt. \<open>idelock\<close> makes \<open>ideintr\<close> and the part of \<open>iderw\<close> up to its sleep
  atomic; \<open>iderw\<close> goes on when the interrupt has made its buffer valid and clean.

  The lemmas follow the queue as a list and read the port writes as the commands the controller gets;
  the property is that the disk gets the requests in the order of their submission.
\<close>

subsection \<open>Operations\<close>

datatype io = Outb ushort uchar | Outsl ushort "uchar list"

record ide =
  id_queue :: "nat option"
  id_buf :: "nat \<Rightarrow> buf"
  id_disk1 :: bool
  id_status :: "uchar list"
  id_io :: "io list"
  id_woken :: "chan list"

definition upd_ide :: "nat \<Rightarrow> (buf \<Rightarrow> buf) \<Rightarrow> ide \<Rightarrow> ide" where
  "upd_ide b f s = s\<lparr>id_buf := (id_buf s)(b := f (id_buf s b))\<rparr>"

fun idewait :: "bool \<Rightarrow> uchar list \<Rightarrow> (int \<times> uchar list) res" where
  "idewait checkerr [] = Diverge"
| "idewait checkerr (r # rs) =
     (if r AND 0xC0 \<noteq> 0x40 then idewait checkerr rs
      else Ret (if checkerr \<and> r AND 0x21 \<noteq> 0 then - 1 else 0, rs))"

text \<open>\<open>ideinit\<close>: disk 1 is there if one of a thousand reads of the status port gives a nonzero value.\<close>

definition ide_init :: "ide \<Rightarrow> ide res" where
  "ide_init s =
     bindr (idewait False (id_status s)) (\<lambda>(_, st).
     let tries = take 1000 st in
     if length st < 1000 \<and> list_all (\<lambda>r. r = 0) st then Diverge
     else Ret (s\<lparr>id_status := drop (if list_ex (\<lambda>r. r \<noteq> 0) tries then Suc (length (takeWhile (\<lambda>r. r = 0) tries)) else 1000) st,
                 id_disk1 := (id_disk1 s \<or> list_ex (\<lambda>r. r \<noteq> 0) tries),
                 id_io := id_io s @ [Outb 0x1F6 (0xE0 OR push_bit 4 1), Outb 0x1F6 (0xE0 OR push_bit 4 0)]\<rparr>))"

abbreviation (input) FSSIZE :: uint where "FSSIZE \<equiv> 1000"

text \<open>The port writes that start the request of a buffer.\<close>

definition command :: "buf \<Rightarrow> io list" where
  "command x =
     (let sector = b_blockno x * of_nat (BSIZE div 512) in
      [Outb 0x3F6 0, Outb 0x1F2 (of_nat (BSIZE div 512)), Outb 0x1F3 (ucast (sector AND 0xFF)),
       Outb 0x1F4 (ucast (drop_bit 8 sector AND 0xFF)), Outb 0x1F5 (ucast (drop_bit 16 sector AND 0xFF)),
       Outb 0x1F6 (0xE0 OR push_bit 4 (ucast (b_dev x AND 1)) OR ucast (drop_bit 24 sector AND 0x0F))]
      @ (if b_dirty x then [Outb 0x1F7 0x30, Outsl 0x1F0 (b_data x)] else [Outb 0x1F7 0x20]))"

definition idestart :: "nat option \<Rightarrow> ide \<Rightarrow> ide res" where
  "idestart b s =
     (case b of
        None \<Rightarrow> Panic ''idestart''
      | Some i \<Rightarrow>
          if b_blockno (id_buf s i) \<ge> FSSIZE then Panic ''incorrect blockno''
          else if BSIZE div 512 > 7 then Panic ''idestart''
          else bindr (idewait False (id_status s)) (\<lambda>(_, st).
            Ret (s\<lparr>id_status := st, id_io := id_io s @ command (id_buf s i)\<rparr>)))"

definition ideintr_read :: "uchar list \<Rightarrow> nat \<Rightarrow> ide \<Rightarrow> ide res" where
  "ideintr_read data b s =
     (if b_dirty (id_buf s b) then Ret s
      else bindr (idewait True (id_status s)) (\<lambda>(r, st).
        let s = s\<lparr>id_status := st\<rparr> in
        Ret (if r \<ge> 0 then upd_ide b (\<lambda>x. x\<lparr>b_data := data\<rparr>) s else s)))"

definition ideintr :: "uchar list \<Rightarrow> ide \<Rightarrow> ide res" where
  "ideintr data s =
     (case id_queue s of
        None \<Rightarrow> Ret s
      | Some b \<Rightarrow>
          let s = s\<lparr>id_queue := b_qnext (id_buf s b)\<rparr> in
          bindr (ideintr_read data b s) (\<lambda>s.
          let s = upd_ide b (\<lambda>x. x\<lparr>b_valid := True, b_dirty := False\<rparr>) s;
              s = s\<lparr>id_woken := id_woken s @ [ChanBuf b]\<rparr> in
          if id_queue s \<noteq> None then idestart (id_queue s) s else Ret s))"

text \<open>The loop to the end of the queue.\<close>

partial_function (option) queue_end :: "(nat \<Rightarrow> buf) \<Rightarrow> nat \<Rightarrow> nat option" where
  "queue_end f i = (case b_qnext (f i) of None \<Rightarrow> Some i | Some j \<Rightarrow> queue_end f j)"

definition ide_append :: "nat \<Rightarrow> ide \<Rightarrow> ide res" where
  "ide_append b s =
     (let s = upd_ide b (\<lambda>x. x\<lparr>b_qnext := None\<rparr>) s in
      case id_queue s of
        None \<Rightarrow> Ret (s\<lparr>id_queue := Some b\<rparr>)
      | Some i \<Rightarrow>
          (case queue_end (id_buf s) i of
             None \<Rightarrow> Diverge
           | Some j \<Rightarrow> Ret (upd_ide j (\<lambda>x. x\<lparr>b_qnext := Some b\<rparr>) s)))"

definition ide_done :: "nat \<Rightarrow> ide \<Rightarrow> bool" where
  "ide_done b s \<longleftrightarrow> b_valid (id_buf s b) \<and> \<not> b_dirty (id_buf s b)"

text \<open>\<open>iderw\<close> up to the first test of its waiting loop: the result says whether it has to sleep.\<close>

definition ide_rw :: "nat \<Rightarrow> ide \<Rightarrow> (bool \<times> ide) res" where
  "ide_rw b s =
     (if \<not> b_busy (id_buf s b) then Panic ''iderw: buf not busy''
      else if ide_done b s then Panic ''iderw: nothing to do''
      else if b_dev (id_buf s b) \<noteq> 0 \<and> \<not> id_disk1 s then Panic ''iderw: ide disk 1 not present''
      else bindr (ide_append b s) (\<lambda>s.
        bindr (if id_queue s = Some b then idestart (Some b) s else Ret s) (\<lambda>s. Ret (\<not> ide_done b s, s))))"

subsection \<open>The controller\<close>

text \<open>
  What the controller makes of the port writes: it keeps the last bytes written to the address
  registers, takes the command byte, and for a write the data that follows. A request is the drive,
  the sector and the data to be written.
\<close>

datatype request = ReadReq bool nat | WriteReq bool nat "uchar list"

record ctl =
  r_regs :: "ushort \<Rightarrow> uchar"
  r_write :: bool
  r_reqs :: "request list"

definition ctl_drive :: "(ushort \<Rightarrow> uchar) \<Rightarrow> bool" where
  "ctl_drive r = bit (r 0x1F6) 4"

definition ctl_lba :: "(ushort \<Rightarrow> uchar) \<Rightarrow> nat" where
  "ctl_lba r = unat (r 0x1F3) + 2 ^ 8 * unat (r 0x1F4) + 2 ^ 16 * unat (r 0x1F5) + 2 ^ 24 * unat (r 0x1F6 AND 0x0F)"

fun ctl_step :: "io \<Rightarrow> ctl \<Rightarrow> ctl" where
  "ctl_step (Outb p v) c =
     (if p = 0x1F7 then
        if v = 0x20 then c\<lparr>r_reqs := r_reqs c @ [ReadReq (ctl_drive (r_regs c)) (ctl_lba (r_regs c))]\<rparr>
        else c\<lparr>r_write := (v = 0x30)\<rparr>
      else c\<lparr>r_regs := (r_regs c)(p := v)\<rparr>)"
| "ctl_step (Outsl p d) c =
     (if r_write c \<and> p = 0x1F0
      then c\<lparr>r_write := False, r_reqs := r_reqs c @ [WriteReq (ctl_drive (r_regs c)) (ctl_lba (r_regs c)) d]\<rparr>
      else c)"

definition controller :: "io list \<Rightarrow> ctl" where
  "controller ios = fold ctl_step ios \<lparr>r_regs = (\<lambda>_. 0), r_write = False, r_reqs = []\<rparr>"

definition requests :: "io list \<Rightarrow> request list" where
  "requests ios = r_reqs (controller ios)"

definition request_of :: "buf \<Rightarrow> request" where
  "request_of x =
     (if b_dirty x then WriteReq (odd (unat (b_dev x))) (unat (b_blockno x)) (b_data x)
      else ReadReq (odd (unat (b_dev x))) (unat (b_blockno x)))"

lemma byte_unat: "unat (ucast (x AND 0xFF) :: uchar) = unat (x :: uint) mod 256"
proof -
  have "x AND 0xFF = take_bit 8 x" by (simp add: take_bit_eq_mask mask_eq_exp_minus_1)
  moreover have "unat (256 :: uint) = 256" by simp
  ultimately show ?thesis by (simp add: unsigned_ucast_eq unsigned_take_bit_eq take_bit_eq_mod unat_mod)
qed

lemma lba_bytes:
  assumes "(x :: uint) < FSSIZE"
  shows "unat (ucast (x AND 0xFF) :: uchar) + 2 ^ 8 * unat (ucast (drop_bit 8 x AND 0xFF) :: uchar) = unat x"
    and "(ucast (drop_bit 16 x AND 0xFF) :: uchar) = 0" and "(ucast (drop_bit 24 x AND 0x0F) :: uchar) = 0"
proof -
  have x: "unat x < 1000" using assms by (simp add: word_less_nat_alt)
  have d: "unat (drop_bit 8 x) = unat x div 256" by (simp only: unat_drop_bit_eq) (simp add: drop_bit_eq_div)
  show "unat (ucast (x AND 0xFF) :: uchar) + 2 ^ 8 * unat (ucast (drop_bit 8 x AND 0xFF) :: uchar) = unat x"
    unfolding byte_unat d using x by simp
  have "unat (drop_bit 16 x) = 0" "unat (drop_bit 24 x) = 0" using x by (simp_all only: unat_drop_bit_eq) (simp_all add: drop_bit_eq_div)
  then have "drop_bit 16 x = 0" "drop_bit 24 x = 0" by (simp_all only: unat_eq_zero)
  then show "(ucast (drop_bit 16 x AND 0xFF) :: uchar) = 0" "(ucast (drop_bit 24 x AND 0x0F) :: uchar) = 0" by simp_all
qed

lemma drive_byte:
  "bit ((0xE0 :: uchar) OR push_bit 4 (ucast (d AND 1)) OR 0) 4 = odd (unat (d :: uint))"
  "((0xE0 :: uchar) OR push_bit 4 (ucast (d AND 1)) OR 0) AND 0x0F = 0"
proof -
  have "unat (2 :: uint) = 2" by simp
  then have "unat (d AND 1) = unat d mod 2" by (simp add: and_one_eq unat_mod)
  then have "unat (d AND 1) = 0 \<and> even (unat d) \<or> unat (d AND 1) = unat (1 :: uint) \<and> odd (unat d)" by (auto simp: mod_2_eq_odd)
  then have "d AND 1 = 0 \<and> even (unat d) \<or> d AND 1 = 1 \<and> odd (unat d)" by (simp only: unat_eq_zero word_unat_eq_iff)
  then show "bit ((0xE0 :: uchar) OR push_bit 4 (ucast (d AND 1)) OR 0) 4 = odd (unat d)"
    "((0xE0 :: uchar) OR push_bit 4 (ucast (d AND 1)) OR 0) AND 0x0F = 0"
    by auto
qed

lemma command_requests:
  assumes "b_blockno x < FSSIZE" and "\<not> r_write c"
  shows "r_reqs (fold ctl_step (command x) c) = r_reqs c @ [request_of x]" and "\<not> r_write (fold ctl_step (command x) c)"
proof -
  note l = lba_bytes [OF assms(1)] drive_byte [of "b_dev x"]
  show "r_reqs (fold ctl_step (command x) c) = r_reqs c @ [request_of x]" "\<not> r_write (fold ctl_step (command x) c)"
    using assms(2) l by (simp_all add: command_def Let_def request_of_def ctl_drive_def ctl_lba_def)
qed

text \<open>The controller is between commands, and its requests so far are \<open>rs\<close>.\<close>

definition got :: "io list \<Rightarrow> request list \<Rightarrow> bool" where
  "got ios rs \<longleftrightarrow> \<not> r_write (controller ios) \<and> requests ios = rs"

lemma got_command: "got ios rs \<Longrightarrow> b_blockno x < FSSIZE \<Longrightarrow> got (ios @ command x) (rs @ [request_of x])"
  using command_requests [of x "controller ios"] by (simp add: got_def requests_def controller_def)

subsection \<open>The queue\<close>

primrec qlist :: "(nat \<Rightarrow> buf) \<Rightarrow> nat option \<Rightarrow> nat list \<Rightarrow> bool" where
  "qlist f x [] \<longleftrightarrow> x = None"
| "qlist f x (a # as) \<longleftrightarrow> x = Some a \<and> qlist f (b_qnext (f a)) as"

lemma qlist_cong: "(\<And>i. i \<in> set q \<Longrightarrow> b_qnext (f i) = b_qnext (g i)) \<Longrightarrow> qlist f x q \<longleftrightarrow> qlist g x q"
  by (induction q arbitrary: x) auto

lemma qlist_snoc:
  assumes "qlist f x (q @ [a])" and "distinct (q @ [a])" and "b \<notin> set (q @ [a])" and "b_qnext (f b) = None"
  shows "qlist (f(a := (f a)\<lparr>b_qnext := Some b\<rparr>)) x (q @ [a, b])"
  using assms(1,2,3)
proof (induction q arbitrary: x)
  case Nil
  then show ?case using assms(4) by auto
next
  case (Cons c q)
  then show ?case by auto
qed

lemma queue_end_qlist: "qlist f (Some i) (q @ [a]) \<Longrightarrow> queue_end f i = Some a"
proof (induction q arbitrary: i)
  case Nil
  then show ?case by (subst queue_end.simps) auto
next
  case (Cons c q)
  then have i: "i = c" and q: "qlist f (b_qnext (f c)) (q @ [a])" by auto
  then obtain j where j: "b_qnext (f c) = Some j" by (cases q) auto
  then show ?case using i q Cons.IH [of j] by (subst queue_end.simps) auto
qed

text \<open>The invariant: the queue is a list of distinct buffers, each of which asks for something the disk
  has, and the disk has got the requests submitted but for those of the buffers behind the first.\<close>

definition wants :: "ide \<Rightarrow> nat \<Rightarrow> bool" where
  "wants s b \<longleftrightarrow> b_busy (id_buf s b) \<and> \<not> ide_done b s \<and> b_blockno (id_buf s b) < FSSIZE"

definition queued :: "ide \<Rightarrow> nat list \<Rightarrow> bool" where
  "queued s q \<longleftrightarrow> qlist (id_buf s) (id_queue s) q \<and> distinct q \<and> (\<forall>b \<in> set q. wants s b)"

definition fifo_ok :: "ide \<Rightarrow> nat list \<Rightarrow> request list \<Rightarrow> bool" where
  "fifo_ok s q sub \<longleftrightarrow> queued s q \<and> (\<exists>rs. got (id_io s) rs \<and> sub = rs @ map (\<lambda>b. request_of (id_buf s b)) (tl q))"

lemma ide_append_ok:
  assumes "queued s q" and "b \<notin> set q" and "wants s b"
  shows "\<exists>t. ide_append b s = Ret t \<and> queued t (q @ [b]) \<and> (\<forall>i. request_of (id_buf t i) = request_of (id_buf s i))
     \<and> id_io t = id_io s \<and> id_status t = id_status s \<and> id_woken t = id_woken s"
proof (cases q rule: rev_cases)
  case Nil
  then show ?thesis using assms
    by (auto simp: ide_append_def queued_def upd_ide_def wants_def ide_done_def request_of_def)
next
  case (snoc r a)
  let ?s = "upd_ide b (\<lambda>x. x\<lparr>b_qnext := None\<rparr>) s"
  have q: "qlist (id_buf s) (id_queue s) q" "distinct q" "\<forall>b \<in> set q. wants s b" using assms(1) by (auto simp: queued_def)
  have q1: "qlist (id_buf ?s) (id_queue s) (r @ [a])"
    using q(1) assms(2) by (subst qlist_cong [of "r @ [a]" "id_buf ?s" "id_buf s"]) (auto simp: snoc upd_ide_def)
  then obtain i where i: "id_queue s = Some i" by (cases r) auto
  have e: "queue_end (id_buf ?s) i = Some a" using queue_end_qlist q1 i by simp
  let ?t = "upd_ide a (\<lambda>x. x\<lparr>b_qnext := Some b\<rparr>) ?s"
  have t: "ide_append b s = Ret ?t" using i e by (simp add: ide_append_def upd_ide_def)
  have "qlist (id_buf ?t) (id_queue ?t) (q @ [b])"
    using qlist_snoc [OF q1, of b] q(2) assms(2) i by (simp add: snoc upd_ide_def)
  then have "queued ?t (q @ [b])" using q assms(2,3) by (auto simp: queued_def wants_def ide_done_def upd_ide_def)
  moreover have "\<forall>i. request_of (id_buf ?t i) = request_of (id_buf s i)" by (auto simp: request_of_def upd_ide_def)
  ultimately show ?thesis using t by (auto simp: upd_ide_def)
qed

lemma idestart_ok:
  assumes "idestart (Some b) s = Ret t"
  shows "\<exists>st. t = s\<lparr>id_status := st, id_io := id_io s @ command (id_buf s b)\<rparr> \<and> b_blockno (id_buf s b) < FSSIZE"
  using assms by (auto simp: idestart_def res_simps not_le split: if_splits)

text \<open>A submission.\<close>

lemma ide_rw_ok:
  assumes f: "fifo_ok s q sub" and b: "b \<notin> set q" "b_blockno (id_buf s b) < FSSIZE" and r: "ide_rw b s = Ret (sleeps, t)"
  shows "fifo_ok t (q @ [b]) (sub @ [request_of (id_buf s b)]) \<and> sleeps"
proof -
  from r have w: "wants s b" using b(2) by (auto simp: ide_rw_def wants_def split: if_splits)
  from f obtain rs where q: "queued s q" and g: "got (id_io s) rs" and sub: "sub = rs @ map (\<lambda>b. request_of (id_buf s b)) (tl q)"
    by (auto simp: fifo_ok_def)
  from ide_append_ok [OF q b(1) w] obtain u where u: "ide_append b s = Ret u" "queued u (q @ [b])"
    "\<And>i. request_of (id_buf u i) = request_of (id_buf s i)" "id_io u = id_io s" by blast
  have v: "(if id_queue u = Some b then idestart (Some b) u else Ret u) = Ret t" "sleeps = (\<not> ide_done b t)"
    using r u(1) by (auto simp: ide_rw_def res_simps split: if_splits)
  have h: "id_queue u = Some (hd (q @ [b]))" using u(2) by (cases q) (auto simp: queued_def)
  show ?thesis
  proof (cases "q = []")
    case True
    then obtain st where t: "t = u\<lparr>id_status := st, id_io := id_io u @ command (id_buf u b)\<rparr>" and n: "b_blockno (id_buf u b) < FSSIZE"
      using v h idestart_ok [of b u t] by auto
    have "got (id_io t) (rs @ [request_of (id_buf s b)])" using got_command [OF g n] u(3,4) t by simp
    then show ?thesis using True u(2) sub t v(2) by (auto simp: fifo_ok_def queued_def wants_def ide_done_def)
  next
    case False
    then have "id_queue u \<noteq> Some b" using h b(1) by (cases q) auto
    then have "t = u" using v by simp
    then show ?thesis using False u g sub v(2) by (auto simp: fifo_ok_def queued_def wants_def)
  qed
qed

text \<open>An interrupt.\<close>

lemma ideintr_ok:
  assumes f: "fifo_ok s (b # q) sub" and r: "ideintr data s = Ret t"
  shows "fifo_ok t q sub \<and> ide_done b t \<and> id_woken t = id_woken s @ [ChanBuf b]
    \<and> (\<forall>i. i \<noteq> b \<longrightarrow> id_buf t i = id_buf s i)"
proof -
  from f obtain rs where qu: "queued s (b # q)" and g: "got (id_io s) rs" and sub: "sub = rs @ map (\<lambda>b. request_of (id_buf s b)) q"
    by (auto simp: fifo_ok_def)
  have b: "id_queue s = Some b" "qlist (id_buf s) (b_qnext (id_buf s b)) q" "b \<notin> set q" using qu by (auto simp: queued_def)
  from r b(1) obtain u where u: "ideintr_read data b (s\<lparr>id_queue := b_qnext (id_buf s b)\<rparr>) = Ret u"
    and v: "(let s = upd_ide b (\<lambda>x. x\<lparr>b_valid := True, b_dirty := False\<rparr>) u; s = s\<lparr>id_woken := id_woken s @ [ChanBuf b]\<rparr>
       in if id_queue s \<noteq> None then idestart (id_queue s) s else Ret s) = Ret t"
    by (auto simp: ideintr_def res_simps Let_def)
  have u2: "id_queue u = b_qnext (id_buf s b)" "id_io u = id_io s" "id_woken u = id_woken s" "\<And>i. i \<noteq> b \<Longrightarrow> id_buf u i = id_buf s i"
    using u by (auto simp: ideintr_read_def res_simps upd_ide_def Let_def split: if_splits)
  define w where "w = (upd_ide b (\<lambda>x. x\<lparr>b_valid := True, b_dirty := False\<rparr>) u)\<lparr>id_woken := id_woken (upd_ide b (\<lambda>x. x\<lparr>b_valid := True, b_dirty := False\<rparr>) u) @ [ChanBuf b]\<rparr>"
  have w: "id_queue w = b_qnext (id_buf s b)" "id_io w = id_io s" "id_woken w = id_woken s @ [ChanBuf b]" "ide_done b w"
    "\<And>i. i \<noteq> b \<Longrightarrow> id_buf w i = id_buf s i" using u2 by (auto simp: w_def upd_ide_def ide_done_def)
  have t: "(if id_queue w \<noteq> None then idestart (id_queue w) w else Ret w) = Ret t"
    using v unfolding Let_def w_def .
  have same: "id_buf w i = id_buf s i" if "i \<in> set q" for i using w(5) [of i] b(3) that by (cases "i = b") auto
  have "qlist (id_buf w) (id_queue w) q" using b(2) w(1) same qlist_cong [of q "id_buf s" "id_buf w"] by auto
  then have qw: "queued w q" using qu same by (auto simp: queued_def wants_def ide_done_def)
  show ?thesis
  proof (cases q)
    case Nil
    then have "id_queue w = None" using qw by (simp add: queued_def)
    then have "t = w" using t by simp
    then show ?thesis using qw g sub w Nil by (auto simp: fifo_ok_def)
  next
    case (Cons c r)
    then have c: "id_queue w = Some c" using qw by (simp add: queued_def)
    then obtain st where e: "t = w\<lparr>id_status := st, id_io := id_io w @ command (id_buf w c)\<rparr>" and n: "b_blockno (id_buf w c) < FSSIZE"
      using t idestart_ok [of c w t] by auto
    have "got (id_io t) (rs @ [request_of (id_buf s c)])" using got_command [OF g n] same Cons w(2) e by simp
    moreover have "queued t q" using qw e by (simp add: queued_def wants_def ide_done_def)
    moreover have "map (\<lambda>b. request_of (id_buf t b)) r = map (\<lambda>b. request_of (id_buf s b)) r" using same Cons e by simp
    ultimately show ?thesis using sub w e Cons by (auto simp: fifo_ok_def ide_done_def)
  qed
qed

subsection \<open>The driver at work\<close>

text \<open>
  The driver with the processes that use it: the buffers whose process sleeps in \<open>iderw\<close>, and the
  requests submitted so far. A process that is not waiting may change its buffer; a sleeping one
  goes on after a wakeup that finds its buffer valid and clean.
\<close>

type_synonym idem = "ide \<times> nat set \<times> request list"

inductive ide_step :: "idem \<Rightarrow> idem \<Rightarrow> bool" where
  submit: "b \<notin> A \<Longrightarrow> b_blockno (id_buf s b) < FSSIZE \<Longrightarrow> ide_rw b s = Ret (sleeps, t) \<Longrightarrow>
    ide_step (s, A, sub) (t, if sleeps then insert b A else A, sub @ [request_of (id_buf s b)])"
| interrupt: "ideintr data s = Ret t \<Longrightarrow>
    ide_step (s, A, sub) (t, A - {b. ChanBuf b \<in> set (drop (length (id_woken s)) (id_woken t)) \<and> ide_done b t}, sub)"
| client: "b \<notin> A \<Longrightarrow> ide_step (s, A, sub) (upd_ide b (\<lambda>_. x) s, A, sub)"

definition ide_start :: "idem \<Rightarrow> bool" where
  "ide_start M \<longleftrightarrow> (case M of (s, A, sub) \<Rightarrow> id_queue s = None \<and> id_io s = [] \<and> A = {} \<and> sub = [])"

definition ide_inv :: "idem \<Rightarrow> bool" where
  "ide_inv M \<longleftrightarrow> (case M of (s, A, sub) \<Rightarrow> \<exists>q. fifo_ok s q sub \<and> A = set q)"

lemma fifo_ok_client:
  assumes "fifo_ok s q sub" and "b \<notin> set q"
  shows "fifo_ok (upd_ide b (\<lambda>_. x) s) q sub"
proof -
  have q: "id_buf (upd_ide b (\<lambda>_. x) s) i = id_buf s i" if "i \<in> set q" for i using assms(2) that by (auto simp: upd_ide_def)
  have "qlist (id_buf (upd_ide b (\<lambda>_. x) s)) y q = qlist (id_buf s) y q" for y by (rule qlist_cong) (simp add: q)
  moreover have "map (\<lambda>b. request_of (id_buf s b)) (tl q) = map (\<lambda>i. request_of (id_buf (upd_ide b (\<lambda>_. x) s) i)) (tl q)"
    using q by (cases q) auto
  ultimately show ?thesis using assms(1) q by (auto simp: fifo_ok_def queued_def wants_def ide_done_def upd_ide_def)
qed

lemma ide_inv_step:
  assumes "ide_inv M" and "ide_step M N"
  shows "ide_inv N"
  using assms(2,1)
proof cases
  case (submit b A s sleeps t sub)
  with assms(1) obtain q where q: "fifo_ok s q sub" "A = set q" by (auto simp: ide_inv_def)
  with submit ide_rw_ok [OF q(1), of b sleeps t] have "fifo_ok t (q @ [b]) (sub @ [request_of (id_buf s b)]) \<and> sleeps" by auto
  then show ?thesis using q(2) submit(2) by (auto simp: ide_inv_def intro!: exI [of _ "q @ [b]"])
next
  case (interrupt data s t A sub)
  with assms(1) obtain q where q: "fifo_ok s q sub" "A = set q" by (auto simp: ide_inv_def)
  show ?thesis
  proof (cases q)
    case Nil
    then have "t = s" using q interrupt(3) by (simp add: fifo_ok_def queued_def ideintr_def)
    then show ?thesis using q interrupt(2) by (auto simp: ide_inv_def)
  next
    case (Cons b r)
    with q ideintr_ok [of s b r sub data t] interrupt(3) have i: "fifo_ok t r sub" "ide_done b t" "id_woken t = id_woken s @ [ChanBuf b]" by auto
    have "b \<notin> set r" using q(1) Cons by (simp add: fifo_ok_def queued_def)
    then have "A - {b. ChanBuf b \<in> set (drop (length (id_woken s)) (id_woken t)) \<and> ide_done b t} = set r" using i q(2) Cons by auto
    then show ?thesis using i(1) interrupt(2) by (auto simp: ide_inv_def)
  qed
next
  case (client b A s sub x)
  with assms(1) obtain q where "fifo_ok s q sub" "A = set q" by (auto simp: ide_inv_def)
  then show ?thesis using client fifo_ok_client [of s q sub b x] by (auto simp: ide_inv_def)
qed

lemma ide_inv_start: "ide_start M \<Longrightarrow> ide_inv M"
  by (auto simp: ide_start_def ide_inv_def fifo_ok_def queued_def got_def requests_def controller_def intro!: exI [of _ "[]"])

interpretation idq: step_invariant ide_start ide_step ide_inv
  by unfold_locales (fact ide_inv_start, fact ide_inv_step)

text \<open>The disk answers: \<open>idewait\<close> returns once the stream of statuses has a ready one.\<close>

definition ready_status :: "uchar \<Rightarrow> bool" where
  "ready_status r \<longleftrightarrow> r AND 0xC0 = 0x40"

lemma idewait_returns:
  "0 < length (filter ready_status st) \<Longrightarrow> \<exists>r st'. idewait c st = Ret (r, st') \<and> length (filter ready_status st) = Suc (length (filter ready_status st'))"
  by (induction st) (auto simp: ready_status_def)

lemma idestart_returns:
  "0 < length (filter ready_status (id_status s)) \<Longrightarrow> b_blockno (id_buf s b) < FSSIZE \<Longrightarrow> \<exists>t. idestart (Some b) s = Ret t"
  using idewait_returns [of "id_status s" False] by (auto simp: idestart_def not_le)

lemma ideintr_returns:
  assumes "queued s q" and "2 \<le> length (filter ready_status (id_status s))"
  shows "\<exists>t. ideintr data s = Ret t"
proof (cases q)
  case Nil
  then show ?thesis using assms(1) by (simp add: queued_def ideintr_def)
next
  case (Cons b r)
  then have b: "id_queue s = Some b" "b \<notin> set r" "qlist (id_buf s) (b_qnext (id_buf s b)) r" using assms(1) by (auto simp: queued_def)
  let ?s = "s\<lparr>id_queue := b_qnext (id_buf s b)\<rparr>"
  have two: "filter ready_status (id_status s) \<noteq> []" using assms(2) by auto
  obtain x st where x: "idewait True (id_status s) = Ret (x, st)" "0 < length (filter ready_status st)"
  proof -
    have "0 < length (filter ready_status (id_status s))" using assms(2) by linarith
    from idewait_returns [OF this, of True] obtain x st where "idewait True (id_status s) = Ret (x, st)"
      "length (filter ready_status (id_status s)) = Suc (length (filter ready_status st))" by blast
    then show ?thesis using that [of x st] assms(2) by linarith
  qed
  have "ideintr_read data b ?s = Ret ?s \<or> ideintr_read data b ?s = Ret (?s\<lparr>id_status := st\<rparr>)
      \<or> ideintr_read data b ?s = Ret (upd_ide b (\<lambda>x. x\<lparr>b_data := data\<rparr>) (?s\<lparr>id_status := st\<rparr>))"
    using x(1) by (simp add: ideintr_read_def Let_def)
  then obtain u where u: "ideintr_read data b ?s = Ret u" "id_queue u = b_qnext (id_buf s b)"
    "0 < length (filter ready_status (id_status u))" "\<And>i. i \<noteq> b \<Longrightarrow> id_buf u i = id_buf s i"
    using x(2) two by (auto simp: upd_ide_def)
  show ?thesis
  proof (cases r)
    case Nil
    then show ?thesis using b u by (simp add: ideintr_def upd_ide_def)
  next
    case (Cons c q')
    then have c: "id_queue u = Some c" "c \<noteq> b" "wants s c" using b u(2) assms(1) \<open>q = b # r\<close> by (auto simp: queued_def)
    let ?w = "(upd_ide b (\<lambda>x. x\<lparr>b_valid := True, b_dirty := False\<rparr>) u)\<lparr>id_woken := id_woken u @ [ChanBuf b]\<rparr>"
    have "\<exists>t. idestart (Some c) ?w = Ret t"
      using idestart_returns [of ?w c] u(3,4) c(2,3) by (simp add: upd_ide_def wants_def)
    then show ?thesis using b u c by (simp add: ideintr_def upd_ide_def Let_def)
  qed
qed

text \<open>The status after a read is looked at, but only to skip the transfer: on an error the buffer is marked
  valid with whatever it held before.\<close>

lemma ideintr_read_error:
  assumes "ideintr data s = Ret t" and "id_queue s = Some b" and "\<not> b_dirty (id_buf s b)" and "b_qnext (id_buf s b) = None"
    and "id_status s = r # st" and "ready_status r" and "r AND 0x21 \<noteq> 0"
  shows "b_valid (id_buf t b) \<and> b_data (id_buf t b) = b_data (id_buf s b)"
  using assms by (auto simp: ideintr_def ideintr_read_def ready_status_def Let_def upd_ide_def)

text \<open>C34: The disk queue is first in, first out. In every state the driver can reach with its interrupts
  and the processes that use it, the commands the controller has got are the requests submitted, in
  order, but for those of the buffers that wait behind the first in the queue; a process sleeps in
  \<open>iderw\<close> exactly when its buffer is in the queue. The next interrupt, once the disk is ready, returns
  without panicking, completes the first buffer of the queue and wakes its process.\<close>

theorem ide_fifo:
  assumes "reach ide_start ide_step (s, A, sub)"
  shows "\<exists>q. qlist (id_buf s) (id_queue s) q \<and> distinct q \<and> A = set q
    \<and> sub = requests (id_io s) @ map (\<lambda>b. request_of (id_buf s b)) (tl q)
    \<and> (2 \<le> length (filter ready_status (id_status s)) \<longrightarrow> (\<exists>t. ideintr data s = Ret t
        \<and> (q \<noteq> [] \<longrightarrow> qlist (id_buf t) (id_queue t) (tl q) \<and> ide_done (hd q) t \<and> id_woken t = id_woken s @ [ChanBuf (hd q)])))"
proof -
  have "ide_inv (s, A, sub)" using assms by (rule idq.reach_inv)
  then obtain q where q: "fifo_ok s q sub" "A = set q" by (auto simp: ide_inv_def)
  have i: "\<exists>t. ideintr data s = Ret t \<and> (q \<noteq> [] \<longrightarrow> qlist (id_buf t) (id_queue t) (tl q) \<and> ide_done (hd q) t \<and> id_woken t = id_woken s @ [ChanBuf (hd q)])"
    if r: "2 \<le> length (filter ready_status (id_status s))"
  proof -
    from ideintr_returns [OF _ r] q(1) obtain t where t: "ideintr data s = Ret t" by (auto simp: fifo_ok_def)
    show ?thesis using t q(1) ideintr_ok [of s "hd q" "tl q" sub data t] by (cases q) (auto simp: fifo_ok_def queued_def)
  qed
  show ?thesis using q i by (intro exI [of _ q]) (auto simp: fifo_ok_def queued_def got_def)
qed

text \<open>A disk with two buffers: the first asks for block 7, the second for block 5.\<close>

definition ide_demo :: ide where
  "ide_demo = \<lparr>id_queue = None, id_buf = (\<lambda>i. \<lparr>b_busy = True, b_valid = False, b_dirty = False, b_dev = 0, b_blockno = (if i = 0 then 7 else 5),
     b_prev = 0, b_next = 0, b_qnext = None, b_data = []\<rparr>), id_disk1 = False, id_status = [0x40, 0x40, 0x40], id_io = [], id_woken = []\<rparr>"

theorem ide_fifo_witness:
  "\<exists>s t. ide_rw 0 ide_demo = Ret (True, s) \<and> ide_rw 1 s = Ret (True, t)
     \<and> (\<exists>q. {0, 1} = set q \<and> [ReadReq False 7, ReadReq False 5] = requests (id_io t) @ map (\<lambda>b. request_of (id_buf t b)) (tl q))"
proof -
  have 1: "\<exists>s. ide_rw 0 ide_demo = Ret (True, s) \<and> id_queue s = Some 0 \<and> id_buf s = id_buf ide_demo \<and> id_status s = [0x40, 0x40] \<and> \<not> id_disk1 s"
    by (simp add: ide_rw_def ide_demo_def ide_done_def ide_append_def upd_ide_def idestart_def Let_def fun_eq_iff)
  then obtain s where s: "ide_rw 0 ide_demo = Ret (True, s)" "id_queue s = Some 0" "id_buf s = id_buf ide_demo" "id_status s = [0x40, 0x40]" by blast
  have q: "queue_end f 0 = Some 0" if "b_qnext (f 0) = None" for f using that by (subst queue_end.simps) simp
  obtain t where t: "ide_rw 1 s = Ret (True, t)"
    using s q by (simp add: ide_rw_def ide_done_def ide_append_def upd_ide_def Let_def ide_demo_def)
  have r: "request_of (id_buf ide_demo 0) = ReadReq False 7" "request_of (id_buf s 1) = ReadReq False 5"
    using s(3) by (simp_all add: ide_demo_def request_of_def)
  have "reach ide_start ide_step (ide_demo, {}, [])" by (rule reach_init) (simp add: ide_start_def ide_demo_def)
  from reach_step [OF this submit [OF _ _ s(1)]] have "reach ide_start ide_step (s, {0}, [ReadReq False 7])"
    using r by (simp add: ide_demo_def)
  from reach_step [OF this submit [OF _ _ t]] have "reach ide_start ide_step (t, {1, 0}, [ReadReq False 7, ReadReq False 5])"
    using r s(3) by (simp add: ide_demo_def)
  from ide_fifo [OF this] s(1) t show ?thesis by (auto simp: insert_commute)
qed

end
