(* ===== verification/Mp.thy ===== *)
theory Mp
  imports Kalloc
begin

section \<open>Multiprocessor tables (mp.c)\<close>

text \<open>
  The search for the MP configuration table in memory and its reading. The loop over the table entries
  is a partial function: \<open>None\<close> is a loop that does not end. \<open>cpus\<close> is the list of the processor numbers
  entered; an entry beyond the array of NCPU is a \<open>Fault\<close>.
\<close>

abbreviation (input) NCPU :: nat where "NCPU \<equiv> 8"

record mpst =
  mp_cpus :: "nat list"
  mp_bcpu :: nat
  mp_ismp :: bool
  mp_lapic :: uint
  mp_ioapicid :: uchar
  mp_msgs :: "(string \<times> uint) list"
  mp_imcr :: bool

definition mpbcpu :: "mpst \<Rightarrow> nat" where
  "mpbcpu s = mp_bcpu s"

primrec sum_from :: "nat \<Rightarrow> uint \<Rightarrow> mem \<Rightarrow> uint" where
  "sum_from 0 a m = 0"
| "sum_from (Suc n) a m = ucast (m a) + sum_from n (a + 1) m"

definition sum :: "uint \<Rightarrow> nat \<Rightarrow> mem \<Rightarrow> uchar" where
  "sum a len m = ucast (sum_from len a m)"

abbreviation (input) mp_size :: uint where "mp_size \<equiv> 16"
abbreviation (input) mpconf_size :: uint where "mpconf_size \<equiv> 44"

fun mpsearch1_loop :: "nat \<Rightarrow> uint \<Rightarrow> mem \<Rightarrow> uint" where
  "mpsearch1_loop 0 p m = 0"
| "mpsearch1_loop (Suc n) p m =
     (if [m p, m (p + 1), m (p + 2), m (p + 3)] = [0x5F, 0x4D, 0x50, 0x5F] \<and> sum p 16 m = 0 then p
      else mpsearch1_loop n (p + mp_size) m)"

definition mpsearch1 :: "uint \<Rightarrow> nat \<Rightarrow> mem \<Rightarrow> uint" where
  "mpsearch1 a len m = mpsearch1_loop ((len + 15) div 16) (p2v a) m"

definition mpsearch :: "mem \<Rightarrow> uint" where
  "mpsearch m =
     (let bda = p2v 0x400;
          p = push_bit 4 (push_bit 8 (ucast (m (bda + 0x0F))) OR ucast (m (bda + 0x0E))) in
      if p \<noteq> 0 then
        let mp = mpsearch1 p 1024 m in if mp \<noteq> 0 then mp else mpsearch1 0xF0000 0x10000 m
      else
        let p = (push_bit 8 (ucast (m (bda + 0x14))) OR ucast (m (bda + 0x13))) * 1024;
            mp = mpsearch1 (p - 1024) 1024 m
        in if mp \<noteq> 0 then mp else mpsearch1 0xF0000 0x10000 m)"

text \<open>The table header: length at 4, version at 6, address of the local APIC at 36.\<close>

definition conf_length :: "uint \<Rightarrow> mem \<Rightarrow> uint" where
  "conf_length conf m = ucast (m (conf + 4)) OR push_bit 8 (ucast (m (conf + 5)))"

definition mpconfig :: "mem \<Rightarrow> (uint \<times> uint) option" where
  "mpconfig m =
     (let mp = mpsearch m in
      if mp = 0 \<or> load32 m (mp + 4) = 0 then None
      else let conf = p2v (load32 m (mp + 4)) in
        if [m conf, m (conf + 1), m (conf + 2), m (conf + 3)] \<noteq> [0x50, 0x43, 0x4D, 0x50] then None
        else if m (conf + 6) \<noteq> 1 \<and> m (conf + 6) \<noteq> 4 then None
        else if sum conf (unat (conf_length conf m)) m \<noteq> 0 then None
        else Some (mp, conf))"

abbreviation (input) MPPROC :: uchar where "MPPROC \<equiv> 0x00"
abbreviation (input) MPBUS :: uchar where "MPBUS \<equiv> 0x01"
abbreviation (input) MPIOAPIC :: uchar where "MPIOAPIC \<equiv> 0x02"
abbreviation (input) MPIOINTR :: uchar where "MPIOINTR \<equiv> 0x03"
abbreviation (input) MPLINTR :: uchar where "MPLINTR \<equiv> 0x04"

text \<open>The case of a processor entry at \<open>p\<close>: its APIC number is at 1, its flags are at 3.\<close>

definition mp_processor :: "mem \<Rightarrow> uint \<Rightarrow> mpst \<Rightarrow> mpst res" where
  "mp_processor m p s =
     (let n = length (mp_cpus s);
          s = (if of_nat n \<noteq> (ucast (m (p + 1)) :: uint)
               then s\<lparr>mp_msgs := mp_msgs s @ [(''mpinit: ncpu apicid'', ucast (m (p + 1)))], mp_ismp := False\<rparr> else s) in
      if n \<ge> NCPU then Fault ''cpus''
      else Ret ((if m (p + 3) AND 0x02 \<noteq> 0 then s\<lparr>mp_bcpu := n\<rparr> else s)\<lparr>mp_cpus := mp_cpus s @ [n]\<rparr>))"

partial_function (option) mpinit_loop :: "mem \<Rightarrow> uint \<Rightarrow> uint \<Rightarrow> mpst \<Rightarrow> mpst res option" where
  "mpinit_loop m p e s =
     (if \<not> p < e then Some (Ret s)
      else if m p = MPPROC then
        case mp_processor m p s of Ret s \<Rightarrow> mpinit_loop m (p + 20) e s | r \<Rightarrow> Some r
      else if m p = MPIOAPIC then mpinit_loop m (p + 8) e (s\<lparr>mp_ioapicid := m (p + 1)\<rparr>)
      else if m p = MPBUS \<or> m p = MPIOINTR \<or> m p = MPLINTR then mpinit_loop m (p + 8) e s
      else mpinit_loop m p e (s\<lparr>mp_msgs := mp_msgs s @ [(''mpinit: unknown config type'', ucast (m p))], mp_ismp := False\<rparr>))"

definition mpinit_end :: "mem \<Rightarrow> uint \<Rightarrow> mpst \<Rightarrow> mpst" where
  "mpinit_end m mp s =
     (if \<not> mp_ismp s then s\<lparr>mp_cpus := [0], mp_lapic := 0, mp_ioapicid := 0\<rparr>
      else if m (mp + 12) \<noteq> 0 then s\<lparr>mp_imcr := True\<rparr> else s)"

definition mpinit :: "mem \<Rightarrow> mpst \<Rightarrow> mpst res option" where
  "mpinit m s =
     (let s = s\<lparr>mp_bcpu := 0\<rparr> in
      case mpconfig m of
        None \<Rightarrow> Some (Ret s)
      | Some (mp, conf) \<Rightarrow>
          map_option (\<lambda>r. bindr r (\<lambda>s. Ret (mpinit_end m mp s)))
            (mpinit_loop m (conf + mpconf_size) (conf + conf_length conf m)
              (s\<lparr>mp_ismp := True, mp_lapic := load32 m (conf + 36)\<rparr>)))"

subsection \<open>Reading the table\<close>

definition entry_size :: "uchar \<Rightarrow> uint" where
  "entry_size t = (if t = MPPROC then 20 else 8)"

definition known :: "uchar \<Rightarrow> bool" where
  "known t \<longleftrightarrow> t \<in> {MPPROC, MPBUS, MPIOAPIC, MPIOINTR, MPLINTR}"

text \<open>The addresses \<open>ps\<close> of the entries between \<open>p\<close> and \<open>q\<close>, each before the end \<open>e\<close> of the table and of a
  type that is known.\<close>

definition entries :: "mem \<Rightarrow> uint \<Rightarrow> uint list \<Rightarrow> uint \<Rightarrow> uint \<Rightarrow> bool" where
  "entries m p ps q e \<longleftrightarrow> path (\<lambda>a. a + entry_size (m a)) p ps q \<and> (\<forall>a \<in> set ps. a < e \<and> known (m a))"

definition processors :: "mem \<Rightarrow> uint list \<Rightarrow> uint list" where
  "processors m ps = filter (\<lambda>a. m a = MPPROC) ps"

fun mp_entries :: "mem \<Rightarrow> uint list \<Rightarrow> mpst \<Rightarrow> mpst res" where
  "mp_entries m [] s = Ret s"
| "mp_entries m (a # as) s =
     (if m a = MPPROC then bindr (mp_processor m a s) (\<lambda>s. mp_entries m as s)
      else mp_entries m as (if m a = MPIOAPIC then s\<lparr>mp_ioapicid := m (a + 1)\<rparr> else s))"

lemma mpinit_loop_entries:
  assumes "entries m p ps q e"
  shows "mpinit_loop m p e s = (case mp_entries m ps s of Ret s \<Rightarrow> mpinit_loop m q e s | r \<Rightarrow> Some r)"
  using assms
proof (induction ps arbitrary: p s)
  case Nil
  then show ?case by (simp add: entries_def)
next
  case (Cons a ps)
  then have p: "p = a" "a < e" "known (m a)" and r: "entries m (a + entry_size (m a)) ps q e" by (auto simp: entries_def)
  note IH = Cons.IH [OF r]
  show ?case
  proof (cases "m a = MPPROC")
    case True
    then show ?thesis using p IH by (subst mpinit_loop.simps) (auto simp: entry_size_def split: res.splits)
  next
    case False
    then show ?thesis using p IH by (subst mpinit_loop.simps) (auto simp: entry_size_def known_def)
  qed
qed

text \<open>An entry of an unknown type: the loop does not move on, so it never returns.\<close>

lemma mpinit_loop_unknown:
  assumes "p < e" and "\<not> known (m p)"
  shows "mpinit_loop m p e s = None"
proof -
  have "\<not> (p < e \<and> \<not> known (m p))" if "mpinit_loop m p e s = Some r" for m p e s r
    by (rule mpinit_loop.raw_induct [OF _ that]) (fastforce simp: known_def split: if_splits res.splits)
  then show ?thesis using assms by (cases "mpinit_loop m p e s") auto
qed

lemma mp_entries_ok:
  assumes "length (mp_cpus s) + length (processors m ps) \<le> NCPU" and "mp_cpus s = [0..<length (mp_cpus s)]"
  shows "\<exists>t. mp_entries m ps s = Ret t \<and> mp_cpus t = [0..<length (mp_cpus s) + length (processors m ps)]
    \<and> (mp_ismp t \<longleftrightarrow> mp_ismp s \<and> (\<forall>i < length (processors m ps). unat (m (processors m ps ! i + 1)) = length (mp_cpus s) + i))
    \<and> mp_lapic t = mp_lapic s
    \<and> mp_ioapicid t = fold (\<lambda>a x. if m a = MPIOAPIC then m (a + 1) else x) ps (mp_ioapicid s)"
  using assms
proof (induction ps arbitrary: s)
  case Nil
  then show ?case by (simp add: processors_def)
next
  case (Cons a ps)
  show ?case
  proof (cases "m a = MPPROC")
    case True
    let ?n = "length (mp_cpus s)"
    have n: "?n < NCPU" using Cons.prems(1) True by (simp add: processors_def)
    define t where "t = (let u = (if of_nat ?n \<noteq> (ucast (m (a + 1)) :: uint) then s\<lparr>mp_msgs := mp_msgs s @ [(''mpinit: ncpu apicid'', ucast (m (a + 1)))], mp_ismp := False\<rparr> else s)
      in (if m (a + 3) AND 0x02 \<noteq> 0 then u\<lparr>mp_bcpu := ?n\<rparr> else u)\<lparr>mp_cpus := mp_cpus u @ [?n]\<rparr>)"
    have t: "mp_processor m a s = Ret t" using n by (simp add: mp_processor_def t_def Let_def)
    have id: "of_nat ?n = (ucast (m (a + 1)) :: uint) \<longleftrightarrow> unat (m (a + 1)) = ?n"
    proof -
      have "unat (of_nat ?n :: uint) = ?n" using n by (simp add: unat_of_nat)
      moreover have "unat (ucast (m (a + 1)) :: uint) = unat (m (a + 1))"
        by (simp add: unsigned_ucast_eq take_bit_nat_eq_self_iff order_less_trans [OF unsigned_less])
      ultimately show ?thesis by (auto simp: word_unat_eq_iff)
    qed
    have f: "mp_cpus t = mp_cpus s @ [?n]" "mp_lapic t = mp_lapic s" "mp_ioapicid t = mp_ioapicid s"
      "mp_ismp t \<longleftrightarrow> mp_ismp s \<and> unat (m (a + 1)) = ?n" using id by (auto simp: t_def Let_def)
    have p: "processors m (a # ps) = a # processors m ps" using True by (simp add: processors_def)
    have "mp_cpus t = [0..<length (mp_cpus t)]" "length (mp_cpus t) + length (processors m ps) \<le> NCPU"
      using Cons.prems f(1) p by simp_all
    from Cons.IH [OF this(2,1)] obtain v where v: "mp_entries m ps t = Ret v" "mp_cpus v = [0..<length (mp_cpus t) + length (processors m ps)]"
      "mp_ismp v \<longleftrightarrow> mp_ismp t \<and> (\<forall>i < length (processors m ps). unat (m (processors m ps ! i + 1)) = length (mp_cpus t) + i)"
      "mp_lapic v = mp_lapic t" "mp_ioapicid v = fold (\<lambda>a x. if m a = MPIOAPIC then m (a + 1) else x) ps (mp_ioapicid t)" by blast
    have "mp_ismp v \<longleftrightarrow> mp_ismp s \<and> (\<forall>i < length (processors m (a # ps)). unat (m (processors m (a # ps) ! i + 1)) = ?n + i)"
      unfolding v(3) f(4) p by (auto simp: f(1) less_Suc_eq_0_disj nth_Cons split: nat.splits)
    then show ?thesis using t v f p True by simp
  next
    case False
    then have p: "processors m (a # ps) = processors m ps" by (simp add: processors_def)
    show ?thesis using Cons.IH [of "if m a = MPIOAPIC then s\<lparr>mp_ioapicid := m (a + 1)\<rparr> else s"] Cons.prems False p by (cases "m a = MPIOAPIC") auto
  qed
qed

text \<open>C35: Reading the multiprocessor table. Where all entries of the table are of known types and there
  are at most NCPU processors, \<open>mpinit\<close> returns, with the processors numbered from 0; it reports a
  multiprocessor exactly if the APIC numbers of the entries are 0, 1, 2 and so on in this order, and
  otherwise falls back to one processor. At an entry of a type it does not know it never returns.\<close>

theorem mpinit_reads_table:
  assumes "mpconfig m = Some (mp, conf)" and "mp_cpus s = []"
    and "entries m (conf + mpconf_size) ps q (conf + conf_length conf m)"
    and "length (processors m ps) \<le> NCPU"
  shows "(\<not> q < conf + conf_length conf m \<longrightarrow>
      (\<exists>t. mpinit m s = Some (Ret t)
        \<and> (mp_ismp t \<longleftrightarrow> (\<forall>i < length (processors m ps). unat (m (processors m ps ! i + 1)) = i))
        \<and> mp_cpus t = (if mp_ismp t then [0..<length (processors m ps)] else [0])
        \<and> mp_lapic t = (if mp_ismp t then load32 m (conf + 36) else 0)))
    \<and> (q < conf + conf_length conf m \<and> \<not> known (m q) \<longrightarrow> mpinit m s = None)"
proof -
  let ?s = "s\<lparr>mp_bcpu := 0, mp_ismp := True, mp_lapic := load32 m (conf + 36)\<rparr>"
  obtain t where t: "mp_entries m ps ?s = Ret t" "mp_cpus t = [0..<length (processors m ps)]"
    "mp_ismp t \<longleftrightarrow> (\<forall>i < length (processors m ps). unat (m (processors m ps ! i + 1)) = i)" "mp_lapic t = load32 m (conf + 36)"
    using mp_entries_ok [of ?s m ps] assms(2,4) by auto
  have l: "mpinit_loop m (conf + mpconf_size) (conf + conf_length conf m) ?s = mpinit_loop m q (conf + conf_length conf m) t"
    using mpinit_loop_entries [OF assms(3), of ?s] t(1) by simp
  have i: "mpinit m s = map_option (\<lambda>r. bindr r (\<lambda>s. Ret (mpinit_end m mp s))) (mpinit_loop m q (conf + conf_length conf m) t)"
    unfolding mpinit_def Let_def assms(1) using l by simp
  show ?thesis
  proof (intro conjI impI)
    assume q: "\<not> q < conf + conf_length conf m"
    have "mpinit_loop m q (conf + conf_length conf m) t = Some (Ret t)" using q by (subst mpinit_loop.simps) simp
    then have "mpinit m s = Some (Ret (mpinit_end m mp t))" using i by simp
    moreover have "mp_ismp (mpinit_end m mp t) = mp_ismp t" "mp_cpus (mpinit_end m mp t) = (if mp_ismp t then mp_cpus t else [0])"
      "mp_lapic (mpinit_end m mp t) = (if mp_ismp t then mp_lapic t else 0)" by (simp_all add: mpinit_end_def)
    ultimately show "\<exists>t. mpinit m s = Some (Ret t)
        \<and> (mp_ismp t \<longleftrightarrow> (\<forall>i < length (processors m ps). unat (m (processors m ps ! i + 1)) = i))
        \<and> mp_cpus t = (if mp_ismp t then [0..<length (processors m ps)] else [0])
        \<and> mp_lapic t = (if mp_ismp t then load32 m (conf + 36) else 0)"
      using t(2,3,4) by metis
  next
    assume "q < conf + conf_length conf m \<and> \<not> known (m q)"
    then show "mpinit m s = None" using i mpinit_loop_unknown [of q "conf + conf_length conf m" m t] by simp
  qed
qed

text \<open>A machine with one processor: the floating pointer is at 0x10, the table at 0x100.\<close>

definition mp_demo :: mem where
  "mp_demo = (\<lambda>_. 0)(0x8000040E := 1,
     0x80000010 := 0x5F, 0x80000011 := 0x4D, 0x80000012 := 0x50, 0x80000013 := 0x5F, 0x80000015 := 0x01, 0x8000001A := 0xA4,
     0x80000100 := 0x50, 0x80000101 := 0x43, 0x80000102 := 0x4D, 0x80000103 := 0x50, 0x80000104 := 64, 0x80000106 := 4,
     0x80000107 := 0x8A, 0x8000012F := 2)"

definition mp_start :: mpst where
  "mp_start = \<lparr>mp_cpus = [], mp_bcpu = 0, mp_ismp = False, mp_lapic = 0, mp_ioapicid = 0, mp_msgs = [], mp_imcr = False\<rparr>"

lemma mp_demo_config: "mpconfig mp_demo = Some (0x80000010, 0x80000100)"
  by code_simp

theorem mpinit_reads_table_witness:
  "\<exists>t. mpinit mp_demo mp_start = Some (Ret t) \<and> mp_ismp t \<and> mp_cpus t = [0]"
proof -
  have l: "conf_length 0x80000100 mp_demo = 64" by (simp add: conf_length_def mp_demo_def)
  have "entries mp_demo (0x80000100 + mpconf_size) [0x8000012C] 0x80000140 (0x80000100 + conf_length 0x80000100 mp_demo)"
    unfolding entries_def l by (simp add: entry_size_def known_def mp_demo_def)
  note r = mpinit_reads_table [OF mp_demo_config _ this, of mp_start, unfolded l]
  have p: "processors mp_demo [0x8000012C] = [0x8000012C]" "mp_demo 0x8000012D = 0" "mp_cpus mp_start = []"
    by (simp_all add: processors_def mp_demo_def mp_start_def)
  from r [unfolded p] obtain t where "mpinit mp_demo mp_start = Some (Ret t)" "mp_ismp t" "mp_cpus t = (if mp_ismp t then [0..<1] else [0])"
    using p by auto
  then show ?thesis by auto
qed

end
