(* ===== verification/Boot.thy ===== *)
theory Boot
  imports Ide Cstring
begin

section \<open>The boot loader (bootmain.c)\<close>

text \<open>
  \<open>bootmain\<close> on physical memory and a disk that gives 512 bytes for each sector number. A sector is
  addressed through the same controller as in the driver, so the port writes of \<open>readsect\<close> are what the
  controller makes of them. The loop of \<open>readseg\<close> is a partial function since a segment that wraps
  around the address space would make it run on.
\<close>

type_synonym sectors = "nat \<Rightarrow> uchar list"

abbreviation (input) SECTSIZE :: nat where "SECTSIZE \<equiv> 512"

definition readsect_outs :: "uint \<Rightarrow> io list" where
  "readsect_outs offset =
     [Outb 0x1F2 1, Outb 0x1F3 (ucast offset), Outb 0x1F4 (ucast (drop_bit 8 offset)), Outb 0x1F5 (ucast (drop_bit 16 offset)),
      Outb 0x1F6 (ucast (drop_bit 24 offset OR 0xE0)), Outb 0x1F7 0x20]"

definition insl :: "uint \<Rightarrow> uchar list \<Rightarrow> mem \<Rightarrow> mem" where
  "insl dst bytes m = (\<lambda>a. if unat (a - dst) < SECTSIZE then bytes ! unat (a - dst) else m a)"

definition readsect :: "sectors \<Rightarrow> uint \<Rightarrow> uint \<Rightarrow> mem \<Rightarrow> mem" where
  "readsect disk dst offset m =
     (case requests (readsect_outs offset) of
        [ReadReq _ lba] \<Rightarrow> insl dst (disk lba) m
      | _ \<Rightarrow> m)"

partial_function (option) readseg_loop :: "sectors \<Rightarrow> uint \<Rightarrow> uint \<Rightarrow> uint \<Rightarrow> mem \<Rightarrow> mem option" where
  "readseg_loop disk pa epa offset m =
     (if pa < epa then readseg_loop disk (pa + of_nat SECTSIZE) epa (offset + 1) (readsect disk pa offset m) else Some m)"

definition readseg :: "sectors \<Rightarrow> uint \<Rightarrow> uint \<Rightarrow> uint \<Rightarrow> mem \<Rightarrow> mem option" where
  "readseg disk pa count offset m =
     (let epa = pa + count; pa = pa - offset mod of_nat SECTSIZE; offset = offset div of_nat SECTSIZE + 1
      in readseg_loop disk pa epa offset m)"

text \<open>The program headers: offset at 4, physical address at 12, size in the file at 16, size in memory at 20.\<close>

fun load_segments :: "nat \<Rightarrow> sectors \<Rightarrow> uint \<Rightarrow> mem \<Rightarrow> mem option" where
  "load_segments 0 disk ph m = Some m"
| "load_segments (Suc k) disk ph m =
     (let pa = load32 m (ph + 12); filesz = load32 m (ph + 16) in
      case readseg disk pa filesz (load32 m (ph + 4)) m of
        None \<Rightarrow> None
      | Some m \<Rightarrow>
          let filesz = load32 m (ph + 16); memsz = load32 m (ph + 20);
              m = (if memsz > filesz then stosb (pa + filesz) 0 (unat (memsz - filesz)) m else m)
          in load_segments k disk (ph + 32) m)"

text \<open>The loop runs while \<open>ph\<close> is below \<open>eph\<close>; the count is the number of headers. The result is memory
  and, if the image is an ELF file, the entry point to be called.\<close>

definition bootmain :: "sectors \<Rightarrow> mem \<Rightarrow> (mem \<times> uint option) option" where
  "bootmain disk m =
     (let elf = 0x10000 in
      case readseg disk elf 4096 0 m of
        None \<Rightarrow> None
      | Some m \<Rightarrow>
          if load32 m elf \<noteq> 0x464C457F then Some (m, None)
          else let ph = elf + load32 m (elf + 28);
                   phnum = ucast (m (elf + 44)) OR push_bit 8 (ucast (m (elf + 45))) :: uint
               in map_option (\<lambda>m. (m, Some (load32 m (elf + 24)))) (load_segments (unat phnum) disk ph m))"

subsection \<open>Reading segments\<close>

lemma byte_mod: "unat (ucast (x :: uint) :: uchar) = unat x mod 256"
  by (simp add: unsigned_ucast_eq take_bit_eq_mod)

lemma shifted: "unat (drop_bit n (x :: uint)) = unat x div 2 ^ n"
  by (simp only: unat_drop_bit_eq) (simp add: drop_bit_eq_div)

lemma readsect_lba:
  assumes "unat offset < 2 ^ 24"
  shows "requests (readsect_outs offset) = [ReadReq False (unat offset)]"
proof -
  have z: "drop_bit 24 offset = 0" using shifted [of 24 offset] assms by (simp add: unat_eq_zero [symmetric])
  have d: "unat offset div 65536 mod 256 = unat offset div 65536" using assms by simp
  have "unat offset div 65536 = unat offset div 256 div 256" by (simp add: div_mult2_eq [symmetric])
  moreover have "unat offset div 256 mod 256 + 256 * (unat offset div 256 div 256) = unat offset div 256" by simp
  moreover have "unat offset mod 256 + 256 * (unat offset div 256) = unat offset" by simp
  ultimately have "unat offset mod 256 + 256 * (unat offset div 256 mod 256) + 65536 * (unat offset div 65536) = unat offset" by linarith
  then show ?thesis using z d
    by (simp add: requests_def controller_def readsect_outs_def ctl_drive_def ctl_lba_def byte_mod shifted)
qed

lemma readsect_eq:
  assumes "unat offset < 2 ^ 24"
  shows "readsect disk dst offset m = insl dst (disk (unat offset)) m"
  by (simp add: readsect_def readsect_lba [OF assms])

text \<open>The loop over \<open>n\<close> sectors.\<close>

lemma readseg_loop_eq:
  assumes "unat pa + 512 * n < 2 ^ 32" and "unat epa \<le> unat pa + 512 * n" and "n = 0 \<or> unat pa + 512 * (n - 1) < unat epa"
    and "unat offset + n \<le> 2 ^ 24"
  shows "readseg_loop disk pa epa offset m
     = Some (\<lambda>a. if unat (a - pa) < 512 * n then disk (unat offset + unat (a - pa) div 512) ! (unat (a - pa) mod 512) else m a)"
  using assms
proof (induction n arbitrary: pa offset m)
  case 0
  then show ?case by (subst readseg_loop.simps) (simp add: word_less_nat_alt)
next
  case (Suc n)
  have lt: "pa < epa" using Suc.prems(3) by (simp add: word_less_nat_alt)
  have p: "unat (pa + 512) = unat pa + 512" using Suc.prems(1) by (simp add: unat_word_ariths)
  have o: "unat (offset + 1) = unat offset + 1" using Suc.prems(4) by (simp add: unat_word_ariths)
  have "n = 0 \<or> unat (pa + 512) + 512 * (n - 1) < unat epa" using Suc.prems(3) p by (cases n) auto
  then have IH: "readseg_loop disk (pa + 512) epa (offset + 1) m' = Some (\<lambda>a. if unat (a - (pa + 512)) < 512 * n
      then disk (unat (offset + 1) + unat (a - (pa + 512)) div 512) ! (unat (a - (pa + 512)) mod 512) else m' a)" for m'
    using Suc.prems p o by (intro Suc.IH) simp_all
  have r: "readsect disk pa offset m = insl pa (disk (unat offset)) m" using readsect_eq Suc.prems(4) by simp
  have "(if unat (a - (pa + 512)) < 512 * n then disk (unat (offset + 1) + unat (a - (pa + 512)) div 512) ! (unat (a - (pa + 512)) mod 512)
      else insl pa (disk (unat offset)) m a)
    = (if unat (a - pa) < 512 * Suc n then disk (unat offset + unat (a - pa) div 512) ! (unat (a - pa) mod 512) else m a)" for a
  proof (cases "unat (a - pa) < 512")
    case True
    have "unat (a - pa - 512) = unat (a - pa) + 2 ^ 32 - 512" using True by (simp add: unat_sub_if')
    then have "\<not> unat (a - (pa + 512)) < 512 * n" using Suc.prems(1) by (simp add: algebra_simps)
    then show ?thesis using True by (simp add: insl_def)
  next
    case False
    have e: "unat (a - (pa + 512)) = unat (a - pa) - 512"
      using False by (simp add: diff_diff_eq [symmetric] unat_sub_if' )
    then have "unat (a - pa) div 512 = Suc (unat (a - (pa + 512)) div 512)" "unat (a - pa) mod 512 = unat (a - (pa + 512)) mod 512"
      using False by (simp_all add: le_div_geq le_mod_geq not_less)
    then show ?thesis using False e by (auto simp: insl_def o)
  qed
  then have "readseg_loop disk (pa + 512) epa (offset + 1) (readsect disk pa offset m)
     = Some (\<lambda>a. if unat (a - pa) < 512 * Suc n then disk (unat offset + unat (a - pa) div 512) ! (unat (a - pa) mod 512) else m a)"
    unfolding IH r by (simp only:)
  then show ?case using lt by (subst readseg_loop.simps) simp
qed

lemma sectors_cover: "512 * ((k + 511) div 512) < k + 512" "k \<le> 512 * ((k + 511) div 512)" for k :: nat
  using div_mult_mod_eq [of "k + 511" 512] mod_less_divisor [of 512 "k + 511"] by linarith+

text \<open>The image on the disk: sector 1 is its first.\<close>

definition image :: "sectors \<Rightarrow> nat \<Rightarrow> uchar" where
  "image disk i = disk (Suc (i div 512)) ! (i mod 512)"

lemma readseg_loads:
  assumes "unat offset mod 512 \<le> unat pa" and "unat pa + unat count + 512 < 2 ^ 32"
  shows "\<exists>m'. readseg disk pa count offset m = Some m'
    \<and> (\<forall>i < unat count. m' (pa + of_nat i) = image disk (unat offset + i))
    \<and> (\<forall>a. unat a < unat pa - unat offset mod 512 \<or> unat a \<ge> unat pa + unat count + 512 \<longrightarrow> m' a = m a)"
proof -
  let ?r = "unat offset mod 512" let ?pa = "pa - offset mod 512" let ?o = "offset div 512 + 1"
  define n where "n = (?r + unat count + 511) div 512"
  have r: "unat (offset mod 512) = ?r" by (simp add: unat_mod)
  have pa: "unat ?pa = unat pa - ?r" using assms(1) r by (simp add: unat_sub_if')
  have epa: "unat (pa + count) = unat pa + unat count" using assms(2) by (simp add: unat_word_ariths)
  have o: "unat ?o = unat offset div 512 + 1" "unat offset div 512 < 2 ^ 23"
  proof -
    have "unat offset < 2 ^ 32" by (rule unat_lt_2p32)
    then show d: "unat offset div 512 < 2 ^ 23" by simp
    have "unat (offset div 512) = unat offset div 512" by (simp add: unat_div)
    then show "unat ?o = unat offset div 512 + 1" using d by (simp add: unat_word_ariths)
  qed
  have c: "unat pa < 2 ^ 32" "unat count < 2 ^ 32" by (rule unat_lt_2p32)+
  have n: "512 * n < ?r + unat count + 512" "?r + unat count \<le> 512 * n" unfolding n_def by (rule sectors_cover)+
  have l: "readseg_loop disk ?pa (pa + count) ?o m
     = Some (\<lambda>a. if unat (a - ?pa) < 512 * n then disk (unat ?o + unat (a - ?pa) div 512) ! (unat (a - ?pa) mod 512) else m a)" (is "_ = Some ?m")
  proof (rule readseg_loop_eq)
    show "unat ?pa + 512 * n < 2 ^ 32" "unat (pa + count) \<le> unat ?pa + 512 * n" using pa epa n assms by linarith+
    show "n = 0 \<or> unat ?pa + 512 * (n - 1) < unat (pa + count)" using pa epa n assms by (cases n) auto
    have "512 * n < 2 ^ 32 + 512" using n(1) assms(2) mod_less_divisor [of 512 "unat offset"] by linarith
    then have "n \<le> 2 ^ 23" by simp
    then show "unat ?o + n \<le> 2 ^ 24" using o by simp
  qed
  have "?m (pa + of_nat i) = image disk (unat offset + i)" if i: "i < unat count" for i
  proof -
    have "pa + of_nat i - ?pa = offset mod 512 + of_nat i" by (simp add: algebra_simps)
    moreover have "unat (offset mod 512 + of_nat i) = ?r + i"
    proof -
      have "?r + i < 2 ^ 32" using i assms(1,2) by linarith
      then show ?thesis using r i c by (simp add: unat_word_ariths unat_of_nat)
    qed
    ultimately have e: "unat (pa + of_nat i - ?pa) = ?r + i" by (simp only:)
    have x: "unat offset + i = (?r + i) + (unat offset div 512) * 512" by simp
    have "Suc ((unat offset + i) div 512) = unat ?o + (?r + i) div 512" "(unat offset + i) mod 512 = (?r + i) mod 512"
      unfolding o(1) x div_mult_self1 [OF numeral_neq_zero] mod_mult_self1 by simp_all
    then show ?thesis using e i n by (simp add: image_def)
  qed
  moreover have "?m a = m a" if a: "unat a < unat pa - ?r \<or> unat a \<ge> unat pa + unat count + 512" for a
  proof -
    have w: "unat (a - ?pa) = (if unat ?pa \<le> unat a then unat a - unat ?pa else unat a + 2 ^ 32 - unat ?pa)"
      by (simp only: unat_sub_if' len_of_numeral_defs) simp
    have "512 * n + unat pa \<le> unat a + ?r \<or> unat a < unat ?pa" using a n(1) pa assms(1) by linarith
    then have "\<not> unat (a - ?pa) < 512 * n" unfolding w pa using n(1) assms by auto
    then show ?thesis by simp
  qed
  ultimately show ?thesis using l by (simp add: readseg_def Let_def)
qed

end
