(* ===== verification/Vm_Map.thy ===== *)
theory Vm_Map
  imports Vm
begin

section \<open>What page tables map (vm.c)\<close>

text \<open>
  The page directories that \<open>vm.c\<close> builds, as partial functions from pages to page table entries
  (\<open>lookup\<close>). A directory is well formed (\<open>pd_ok\<close>) if it and its tables are different pages of the
  allocator's pool; \<open>vm_ok\<close> adds that none of them is free. Lemmas: \<open>walkpgdir\<close> changes no mapping,
  \<open>mappages\<close> maps its range and nothing else. Both keep the directory well formed, write only to
  its pages and to pages that were free, and succeed if there are pages enough.
\<close>

subsection \<open>Entries of a table\<close>

lemma and_3FF: "(x :: uint) AND 0x3FF = x mod 1024"
proof -
  have "x AND 0x3FF = take_bit 10 x" by (simp add: take_bit_eq_mask mask_eq_exp_minus_1)
  then show ?thesis by (simp add: take_bit_eq_mod)
qed

lemma unat_shifted: "unat (drop_bit n (x :: uint)) = unat x div 2 ^ n"
  by (simp only: unat_drop_bit_eq) (simp add: drop_bit_eq_div)

lemma unat_PDX: "unat (PDX va) = unat va div 2 ^ 22"
proof -
  have "unat va div 2 ^ 22 < 1024" using unat_lt_2p32 [of va] by simp
  moreover have "unat (1024 :: uint) = 1024" by simp
  ultimately show ?thesis by (simp add: PDX_def and_3FF unat_mod unat_shifted)
qed

lemma unat_PTX: "unat (PTX va) = unat va div 4096 mod 1024"
proof -
  have "unat (1024 :: uint) = 1024" by simp
  then show ?thesis by (simp add: PTX_def and_3FF unat_mod unat_shifted)
qed

lemma PDX_less: "unat (PDX va) < 1024"
  using unat_lt_2p32 [of va] by (simp add: unat_PDX)

lemma PTX_less: "unat (PTX va) < 1024"
  by (simp add: unat_PTX)

lemma same_page: "PDX a = PDX b \<and> PTX a = PTX b \<longleftrightarrow> PGROUNDDOWN a = PGROUNDDOWN b"
proof -
  have d: "unat x div 2 ^ 22 = unat x div 4096 div 1024" for x :: uint by (simp add: div_mult2_eq [symmetric])
  have "x div 1024 = y div 1024 \<and> x mod 1024 = y mod 1024 \<longleftrightarrow> x = y" for x y :: nat
    by (metis div_mult_mod_eq)
  from this [of "unat a div 4096" "unat b div 4096"] show ?thesis
    by (simp only: word_unat_eq_iff unat_PDX unat_PTX unat_PGROUNDDOWN d) simp
qed

definition ent :: "uint \<Rightarrow> uint \<Rightarrow> uint" where
  "ent p i = p + 4 * i"

lemma unat_ent: "p mod 4096 = 0 \<Longrightarrow> unat i < 1024 \<Longrightarrow> unat (ent p i) = unat p + 4 * unat i"
  using page_top [of p] by (simp add: ent_def unat_word_ariths)

lemma ent_aligned: "p mod 4096 = 0 \<Longrightarrow> unat i < 1024 \<Longrightarrow> 4 dvd unat (ent p i)"
  by (simp add: unat_ent page_aligned4)

lemma ent_in_page: "p mod 4096 = 0 \<Longrightarrow> unat i < 1024 \<Longrightarrow> unat (ent p i) \<le> unat x \<Longrightarrow> unat x < unat (ent p i) + 4 \<Longrightarrow> in_page p x"
  by (simp add: in_page_iff unat_ent)

lemma ent_inj:
  assumes "p mod 4096 = 0" and "q mod 4096 = 0" and "unat i < 1024" and "unat j < 1024"
  shows "ent p i = ent q j \<longleftrightarrow> p = q \<and> i = j"
proof
  assume e: "ent p i = ent q j"
  have "in_page p (ent p i)" "in_page q (ent q j)" using assms by (simp_all add: in_page_iff unat_ent)
  then have pq: "p = q" using e pages_apart [OF assms(1,2)] by auto
  have "unat p + 4 * unat i = unat p + 4 * unat j"
    using e pq unat_ent [OF assms(1,3)] unat_ent [OF assms(2,4)] by simp
  then show "p = q \<and> i = j" using pq by (simp add: word_unat_eq_iff)
qed simp

lemma load32_ent_cong:
  assumes "p mod 4096 = 0" and "unat i < 1024" and "\<And>x. in_page p x \<Longrightarrow> m x = m' x"
  shows "load32 m (ent p i) = load32 m' (ent p i)"
  by (rule load32_cong [OF ent_aligned [OF assms(1,2)]]) (rule assms(3), rule ent_in_page [OF assms(1,2)])

lemma load32_store32_ent:
  assumes "p mod 4096 = 0" and "q mod 4096 = 0" and "unat i < 1024" and "unat j < 1024"
  shows "load32 (store32 m (ent p i) v) (ent q j) = (if p = q \<and> i = j then v else load32 m (ent q j))"
  using assms ent_inj [OF assms(1,2,3,4)] load32_store32_diff [of "ent p i" "ent q j" m v]
  by (auto simp: ent_aligned)

lemma store32_ent_out:
  assumes "p mod 4096 = 0" and "unat i < 1024" and "\<not> in_page p x"
  shows "store32 m (ent p i) v x = m x"
proof (rule store32_other [OF ent_aligned [OF assms(1,2)]])
  show "unat x < unat (ent p i) \<or> unat (ent p i) + 4 \<le> unat x"
    using assms ent_in_page [OF assms(1,2)] by (meson not_le)
qed

subsection \<open>Entries\<close>

lemma p2v_v2p [simp]: "p2v (v2p a) = a" "v2p (p2v a) = a"
  by (simp_all add: p2v_def v2p_def)

lemma v2p_aligned: "p mod 4096 = 0 \<Longrightarrow> v2p p mod 4096 = 0"
proof -
  assume "p mod 4096 = 0"
  then have p: "4096 dvd unat p" by (simp add: aligned_unat)
  have "unat (v2p p) = unat p - 0x80000000 \<or> unat (v2p p) = unat p + 0x80000000"
    by (auto simp: v2p_def unat_sub_if')
  then show ?thesis unfolding aligned_unat using p by (auto intro: dvd_diff_nat)
qed

lemma PTE_bits:
  assumes "x mod 4096 = 0" and "f AND NOT 0xFFF = 0"
  shows "PTE_ADDR (x OR f) = x" and "PTE_FLAGS (x OR f) = f"
proof -
  have x: "\<not> bit x n" if "n < 12" for n
  proof -
    have "take_bit 12 x = 0" using assms(1) by (simp add: take_bit_eq_mod)
    then have "\<not> bit (take_bit 12 x) n" by simp
    then show ?thesis using that by (simp add: bit_take_bit_iff)
  qed
  have e: "(0xFFF :: uint) = mask 12" by (simp add: mask_eq_exp_minus_1)
  have f: "\<not> bit f n" if n: "12 \<le> n" "n < 32" for n
  proof
    assume "bit f n"
    then have "bit (f AND NOT 0xFFF) n" unfolding e using n by (simp add: bit_and_iff bit_not_iff bit_mask_iff)
    then show False using assms(2) by (simp only:) simp
  qed
  have b: "bit x n \<and> n \<ge> 12 \<longleftrightarrow> bit x n" "bit f n \<and> n < 12 \<longleftrightarrow> bit f n" if "n < 32" for n
    using x [of n] f [of n] that by (cases "n < 12"; auto)+
  show "PTE_ADDR (x OR f) = x" unfolding PTE_ADDR_def e
    by (rule bit_word_eqI) (use b x in \<open>auto simp: bit_and_iff bit_or_iff bit_not_iff bit_mask_iff\<close>)
  show "PTE_FLAGS (x OR f) = f" unfolding PTE_FLAGS_def e
    by (rule bit_word_eqI) (use b x in \<open>auto simp: bit_and_iff bit_or_iff bit_mask_iff\<close>)
qed

lemma PTE_ADDR_aligned: "PTE_ADDR e mod 4096 = 0"
proof -
  have "PTE_ADDR e = PGROUNDDOWN e" by (simp add: PTE_ADDR_def PGROUNDDOWN_def)
  then show ?thesis by (simp add: PGROUNDDOWN_aligned)
qed

definition present :: "uint \<Rightarrow> bool" where
  "present e \<longleftrightarrow> e AND PTE_P \<noteq> 0"

lemma present_OR [simp]: "present (e OR PTE_P)" "present (e OR 7)"
proof -
  have "bit ((e OR PTE_P) AND PTE_P) 0" "bit ((e OR 7) AND PTE_P) 0" by (simp_all add: bit_simps)
  then show "present (e OR PTE_P)" "present (e OR 7)" by (auto simp: present_def)
qed

lemma not_present_0 [simp]: "\<not> present 0"
  by (simp add: present_def)

subsection \<open>Directories\<close>

definition ptab :: "uint \<Rightarrow> uint" where
  "ptab e = p2v (PTE_ADDR e)"

definition pde :: "mem \<Rightarrow> uint \<Rightarrow> uint \<Rightarrow> uint" where
  "pde m d i = load32 m (ent d i)"

definition lookup :: "mem \<Rightarrow> uint \<Rightarrow> uint \<Rightarrow> uint option" where
  "lookup m d va =
     (let e = pde m d (PDX va) in
      if present e then let x = load32 m (ent (ptab e) (PTX va)) in if present x then Some x else None else None)"

definition slots :: "mem \<Rightarrow> uint \<Rightarrow> uint set" where
  "slots m d = {i. unat i < 1024 \<and> present (pde m d i)}"

definition own :: "mem \<Rightarrow> uint \<Rightarrow> uint set" where
  "own m d = insert d ((\<lambda>i. ptab (pde m d i)) ` slots m d)"

definition pd_ok :: "uint \<Rightarrow> mem \<Rightarrow> uint \<Rightarrow> bool" where
  "pd_ok kend m d \<longleftrightarrow> page_ok kend d
     \<and> (\<forall>i \<in> slots m d. page_ok kend (ptab (pde m d i)) \<and> ptab (pde m d i) \<noteq> d)
     \<and> inj_on (\<lambda>i. ptab (pde m d i)) (slots m d)"

definition vm_ok :: "uint \<Rightarrow> uint \<Rightarrow> kst \<Rightarrow> uint list \<Rightarrow> bool" where
  "vm_ok kend d s xs \<longleftrightarrow> free_pages kend s xs \<and> pd_ok kend (kmem_mem s) d \<and> set xs \<inter> own (kmem_mem s) d = {}"

text \<open>Memory agrees on a set of pages; it is the same but for a set of pages.\<close>

definition agree :: "uint set \<Rightarrow> mem \<Rightarrow> mem \<Rightarrow> bool" where
  "agree A m m' \<longleftrightarrow> (\<forall>p \<in> A. \<forall>x. in_page p x \<longrightarrow> m' x = m x)"

definition touches :: "uint set \<Rightarrow> mem \<Rightarrow> mem \<Rightarrow> bool" where
  "touches A m m' \<longleftrightarrow> (\<forall>x. (\<forall>p \<in> A. \<not> in_page p x) \<longrightarrow> m' x = m x)"

lemma touches_refl [simp]: "touches A m m"
  by (simp add: touches_def)

lemma touches_trans: "touches A m m' \<Longrightarrow> touches B m' m'' \<Longrightarrow> touches (A \<union> B) m m''"
  by (simp add: touches_def)

lemma touches_mono: "touches A m m' \<Longrightarrow> A \<subseteq> B \<Longrightarrow> touches B m m'"
  by (auto simp: touches_def)

lemma touches_agree:
  assumes "touches A m m'" and "A \<inter> B = {}" and "\<And>p. p \<in> A \<union> B \<Longrightarrow> p mod 4096 = 0"
  shows "agree B m m'"
  unfolding agree_def
proof (intro ballI allI impI)
  fix p x assume "p \<in> B" "in_page p x"
  then have "\<forall>q \<in> A. \<not> in_page q x" using assms(2,3) pages_apart [of p _ x] by blast
  then show "m' x = m x" using assms(1) by (simp add: touches_def)
qed

lemma agree_subset: "agree B m m' \<Longrightarrow> A \<subseteq> B \<Longrightarrow> agree A m m'"
  by (auto simp: agree_def)

lemma page_ok_aligned: "page_ok kend p \<Longrightarrow> p mod 4096 = 0"
  by (simp add: page_ok_def)

lemma pd_ok_own: "pd_ok kend m d \<Longrightarrow> p \<in> own m d \<Longrightarrow> page_ok kend p"
  by (auto simp: pd_ok_def own_def)

lemma agree_load: "agree A m m' \<Longrightarrow> p \<in> A \<Longrightarrow> p mod 4096 = 0 \<Longrightarrow> unat i < 1024 \<Longrightarrow> load32 m' (ent p i) = load32 m (ent p i)"
  by (rule load32_ent_cong) (auto simp: agree_def)

lemma agree_pd:
  assumes "pd_ok kend m d" and "agree (own m d) m m'"
  shows "slots m' d = slots m d" and "own m' d = own m d" and "lookup m' d = lookup m d" and "pd_ok kend m' d"
proof -
  have d: "d mod 4096 = 0" using assms(1) by (auto simp: pd_ok_def dest: page_ok_aligned)
  have e: "pde m' d i = pde m d i" if "unat i < 1024" for i
    unfolding pde_def using agree_load [OF assms(2) _ d that] by (simp add: own_def)
  then show sl: "slots m' d = slots m d" by (auto simp: slots_def)
  have es: "pde m' d i = pde m d i" if "i \<in> slots m d" for i using e that by (simp add: slots_def)
  then show "own m' d = own m d" by (simp add: own_def sl)
  show "pd_ok kend m' d" using assms(1) es by (simp add: pd_ok_def sl inj_on_def)
  show "lookup m' d = lookup m d"
  proof
    fix va
    have "load32 m' (ent (ptab (pde m d (PDX va))) (PTX va)) = load32 m (ent (ptab (pde m d (PDX va))) (PTX va))"
      if "present (pde m d (PDX va))"
    proof (rule agree_load [OF assms(2)])
      have "PDX va \<in> slots m d" using that by (simp add: slots_def PDX_less)
      then show "ptab (pde m d (PDX va)) \<in> own m d" "ptab (pde m d (PDX va)) mod 4096 = 0"
        using assms(1) by (auto simp: own_def pd_ok_def dest: page_ok_aligned)
    qed (rule PTX_less)
    then show "lookup m' d va = lookup m d va" by (simp add: lookup_def e PDX_less Let_def)
  qed
qed

lemma free_pages_cong:
  assumes "free_pages kend s xs" and "agree (set xs) (kmem_mem s) m"
  shows "free_pages kend (s\<lparr>kmem_mem := m\<rparr>) xs"
proof -
  have "path (load32 m) (freelist (kmem s)) xs 0"
    by (rule path_page_cong [of "kmem_mem s"]) (use assms in \<open>auto simp: free_pages_def page_ok_def agree_def\<close>)
  then show ?thesis using assms(1) by (simp add: free_pages_def lock_ready_def)
qed

lemma free_pages_page_ok: "free_pages kend s xs \<Longrightarrow> p \<in> set xs \<Longrightarrow> page_ok kend p"
  by (simp add: free_pages_def)

lemma finite_slots: "finite (slots m d)"
  by (rule finite_subset [OF subset_UNIV]) simp

lemma card_slots: "card (slots m d) \<le> 1024"
proof -
  have "card (slots m d) = card (unat ` slots m d)" by (simp add: card_image inj_on_def word_unat_eq_iff)
  also have "\<dots> \<le> card {..<1024 :: nat}" by (rule card_mono) (auto simp: slots_def)
  finally show ?thesis by simp
qed

subsection \<open>walkpgdir\<close>

text \<open>
  One step in the life of a directory: the state \<open>s\<close> with the free pages \<open>ys @ xs\<close> becomes \<open>t\<close> with the
  free pages \<open>xs\<close>. The pages \<open>ys\<close> are taken: as tables, whose number is the growth of the directory, or
  for \<open>k\<close> other purposes.
\<close>

definition grows :: "uint \<Rightarrow> uint \<Rightarrow> nat \<Rightarrow> kst \<Rightarrow> uint list \<Rightarrow> kst \<Rightarrow> uint list \<Rightarrow> bool" where
  "grows kend d k s zs t xs \<longleftrightarrow> vm_ok kend d s zs \<and> vm_ok kend d t xs
     \<and> (\<exists>ys. zs = ys @ xs \<and> own (kmem_mem t) d \<subseteq> own (kmem_mem s) d \<union> set ys \<and> touches (own (kmem_mem s) d \<union> set ys) (kmem_mem s) (kmem_mem t))
     \<and> length zs + card (slots (kmem_mem s) d) = k + length xs + card (slots (kmem_mem t) d)"

lemma grows_refl: "vm_ok kend d s xs \<Longrightarrow> grows kend d 0 s xs s xs"
  by (simp add: grows_def)

lemma grows_trans:
  assumes "grows kend d j s zs t ys" and "grows kend d k t ys u xs"
  shows "grows kend d (j + k) s zs u xs"
proof -
  from assms obtain as bs where a: "zs = as @ ys" "own (kmem_mem t) d \<subseteq> own (kmem_mem s) d \<union> set as"
      "touches (own (kmem_mem s) d \<union> set as) (kmem_mem s) (kmem_mem t)"
    and b: "ys = bs @ xs" "own (kmem_mem u) d \<subseteq> own (kmem_mem t) d \<union> set bs" "touches (own (kmem_mem t) d \<union> set bs) (kmem_mem t) (kmem_mem u)"
    by (auto simp: grows_def)
  have "touches (own (kmem_mem s) d \<union> set (as @ bs)) (kmem_mem s) (kmem_mem u)"
    by (rule touches_mono [OF touches_trans [OF a(3) b(3)]]) (use a(2) in auto)
  moreover have "own (kmem_mem u) d \<subseteq> own (kmem_mem s) d \<union> set (as @ bs)" using a(2) b(2) by auto
  ultimately show ?thesis using assms a(1) b(1) unfolding grows_def by (auto intro!: exI [of _ "as @ bs"])
qed

lemma free_page_apart: "vm_ok kend d s xs \<Longrightarrow> p \<in> set xs \<Longrightarrow> p \<notin> own (kmem_mem s) d \<and> page_ok kend p \<and> p mod 4096 = 0"
  by (auto simp: vm_ok_def dest: free_pages_page_ok page_ok_aligned)

text \<open>A new table at an empty slot of the directory.\<close>

lemma new_table:
  assumes ok: "vm_ok kend d s (p # xs)" and i: "unat i < 1024" and np: "\<not> present (pde (kmem_mem s) d i)"
    and s1: "free_pages kend s1 xs" "kmem_mem s1 = kmem_mem s"
  defines "t \<equiv> wr (ent d i) (v2p p OR 7) (upd_mem (memset p 0 4096) s1)"
  shows "grows kend d 0 s (p # xs) t xs" and "pde (kmem_mem t) d i = v2p p OR 7" and "ptab (v2p p OR 7) = p"
    and "lookup (kmem_mem t) d = lookup (kmem_mem s) d"
proof -
  let ?m = "kmem_mem s" and ?n = "kmem_mem t"
  have pd: "pd_ok kend ?m d" using ok by (simp add: vm_ok_def)
  have d: "d mod 4096 = 0" "page_ok kend d" using pd by (auto simp: pd_ok_def dest: page_ok_aligned)
  have p: "p \<notin> own ?m d" "page_ok kend p" "p mod 4096 = 0" using free_page_apart [OF ok] by auto
  have n: "?n = store32 (memset p 0 4096 ?m) (ent d i) (v2p p OR 7)" using s1(2) by (simp add: t_def wr_def upd_mem_def)
  show pt: "ptab (v2p p OR 7) = p" using PTE_bits(1) [OF v2p_aligned [OF p(3)], of 7] by (simp add: ptab_def)
  have t0: "touches {d, p} ?m ?n" unfolding touches_def n using store32_ent_out [OF d(1) i] by (simp add: memset_page)
  have xs: "set xs \<inter> own ?m d = {}" "p \<notin> set xs" "d \<notin> set xs" "d \<noteq> p" "\<And>q. q \<in> set xs \<Longrightarrow> q mod 4096 = 0"
    using ok p by (auto simp: vm_ok_def own_def free_pages_def page_ok_def)
  have fp: "free_pages kend t xs"
  proof -
    have "agree (set xs) (kmem_mem s1) ?n" unfolding s1(2)
    proof (rule touches_agree [OF t0])
      show "{d, p} \<inter> set xs = {}" using xs by simp
      show "q mod 4096 = 0" if "q \<in> {d, p} \<union> set xs" for q using that d(1) p(3) xs(5) by blast
    qed
    from free_pages_cong [OF s1(1) this] show ?thesis by (simp add: t_def wr_def upd_mem_def)
  qed
  have e: "pde ?n d j = (if j = i then v2p p OR 7 else pde ?m d j)" if "unat j < 1024" for j
  proof -
    have "load32 (memset p 0 4096 ?m) (ent d j) = load32 ?m (ent d j)"
      by (rule load32_ent_cong [OF d(1) that]) (use pages_apart [OF d(1) p(3)] xs(4) in \<open>auto simp: memset_page\<close>)
    then show ?thesis using load32_store32_ent [OF d(1) d(1) i that] by (auto simp: pde_def n)
  qed
  show "pde ?n d i = v2p p OR 7" using e [OF i] by simp
  have ni: "i \<notin> slots ?m d" using np by (simp add: slots_def)
  have sl: "slots ?n d = insert i (slots ?m d)" using e i by (auto simp: slots_def split: if_splits)
  have es: "pde ?n d j = pde ?m d j" if "j \<in> slots ?m d" for j using e [of j] that ni by (auto simp: slots_def)
  have own: "own ?n d = insert p (own ?m d)" using es e [OF i] by (auto simp: own_def sl pt)
  have tabs: "ptab (pde ?m d j) \<noteq> p" if "j \<in> slots ?m d" for j using p(1) that by (auto simp: own_def)
  have pd': "pd_ok kend ?n d"
    using pd p(2) xs(4) es e [OF i] tabs ni unfolding pd_ok_def sl by (auto simp: pt inj_on_def)
  have vm: "vm_ok kend d t xs" using fp pd' xs(1,2) own by (auto simp: vm_ok_def)
  have "own ?n d \<subseteq> own ?m d \<union> set [p]" using own by auto
  moreover have "touches (own ?m d \<union> set [p]) ?m ?n" by (rule touches_mono [OF t0]) (auto simp: own_def)
  ultimately show "grows kend d 0 s (p # xs) t xs"
    using ok vm ni unfolding grows_def by (auto simp: sl finite_slots intro!: exI [of _ "[p]"])
  show "lookup ?n d = lookup ?m d"
  proof
    fix va
    show "lookup ?n d va = lookup ?m d va"
    proof (cases "PDX va = i")
      case True
      have "load32 ?n (ent p (PTX va)) = 0"
        using load32_store32_ent [OF d(1) p(3) i PTX_less, of "memset p 0 4096 ?m" "v2p p OR 7" va] xs(4)
          load32_ent_cong [OF p(3) PTX_less, of "memset p 0 4096 ?m" "\<lambda>_. 0" va]
        by (simp add: n memset_page load32_def [of "\<lambda>_. 0"])
      then show ?thesis using True e [OF i] np by (simp add: lookup_def pt)
    next
      case False
      have "load32 ?n (ent (ptab (pde ?m d (PDX va))) (PTX va)) = load32 ?m (ent (ptab (pde ?m d (PDX va))) (PTX va))"
        if pr: "present (pde ?m d (PDX va))"
      proof -
        let ?q = "ptab (pde ?m d (PDX va))"
        have sl: "PDX va \<in> slots ?m d" using pr by (simp add: slots_def PDX_less)
        have q: "?q mod 4096 = 0" "?q \<noteq> d" "?q \<noteq> p" using pd tabs [OF sl] sl by (auto simp: pd_ok_def dest: page_ok_aligned)
        show ?thesis
          by (rule load32_ent_cong [OF q(1) PTX_less])
            (use t0 pages_apart [OF q(1) d(1) q(2)] pages_apart [OF q(1) p(3) q(3)] in \<open>auto simp: touches_def\<close>)
      qed
      then show ?thesis using False e [OF PDX_less] by (simp add: lookup_def Let_def)
    qed
  qed
qed

lemma walkpgdir_alloc:
  assumes ok: "vm_ok kend d s zs"
  shows "\<exists>pte t xs. walkpgdir d va True s = Ret (pte, t) \<and> grows kend d 0 s zs t xs
    \<and> lookup (kmem_mem t) d = lookup (kmem_mem s) d
    \<and> (if pte = 0 then zs = [] \<and> card (slots (kmem_mem s) d) < 1024
       else present (pde (kmem_mem t) d (PDX va)) \<and> pte = ent (ptab (pde (kmem_mem t) d (PDX va))) (PTX va))"
proof -
  let ?m = "kmem_mem s"
  have pd: "pd_ok kend ?m d" and fp: "free_pages kend s zs" using ok by (auto simp: vm_ok_def)
  have w: "rd s (d + 4 * PDX va) = pde ?m d (PDX va)" by (simp add: rd_def pde_def ent_def)
  have nz: "ent q (PTX va) \<noteq> 0" if "page_ok kend q" for q
  proof
    assume "ent q (PTX va) = 0"
    then have "unat q = 0" using unat_ent [OF page_ok_aligned [OF that] PTX_less [of va]] by simp
    then have "q = 0" by (simp add: unat_eq_zero)
    then show False using that by simp
  qed
  show ?thesis
  proof (cases "present (pde ?m d (PDX va))")
    case True
    then have "walkpgdir d va True s = Ret (ent (ptab (pde ?m d (PDX va))) (PTX va), s)"
      by (simp add: walkpgdir_def w present_def Let_def ptab_def ent_def)
    moreover have "page_ok kend (ptab (pde ?m d (PDX va)))" using pd True by (auto simp: pd_ok_def slots_def PDX_less)
    ultimately show ?thesis using True nz grows_refl [OF ok] by (intro exI conjI) auto
  next
    case False
    from kalloc_spec [OF fp] obtain s1 where s1: "kalloc s = Ret (case zs of [] \<Rightarrow> 0 | p # _ \<Rightarrow> p, s1)" "free_pages kend s1 (tl zs)" "kmem_mem s1 = ?m" by blast
    show ?thesis
    proof (cases zs)
      case Nil
      then have "walkpgdir d va True s = Ret (0, s1)" using s1(1) False by (simp add: walkpgdir_def w present_def Let_def)
      moreover have "grows kend d 0 s zs s1 []"
        using ok s1 Nil by (simp add: grows_def vm_ok_def)
      moreover have "card (slots ?m d) < 1024"
      proof -
        have "slots ?m d \<subseteq> {i. unat i < 1024} - {PDX va}" using False by (auto simp: slots_def)
        then have "unat ` slots ?m d \<subseteq> {..<1024} - {unat (PDX va)}" by (auto simp: word_unat_eq_iff)
        then have "card (unat ` slots ?m d) \<le> card ({..<1024} - {unat (PDX va)})" by (rule card_mono [rotated]) simp
        moreover have "card (unat ` slots ?m d) = card (slots ?m d)" by (rule card_image) (simp add: inj_on_def word_unat_eq_iff)
        ultimately show ?thesis using PDX_less [of va] by simp
      qed
      ultimately show ?thesis using Nil s1(3) by (intro exI [of _ 0] exI [of _ s1] exI [of _ "[]"]) simp
    next
      case (Cons p xs)
      then have p: "p \<noteq> 0" "page_ok kend p" using free_pages_page_ok [OF fp, of p] by auto
      let ?t = "wr (ent d (PDX va)) (v2p p OR 7) (upd_mem (memset p 0 4096) s1)"
      have "walkpgdir d va True s = Ret (ent p (PTX va), ?t)"
        using s1(1) False Cons p by (simp add: walkpgdir_def w present_def Let_def ent_def)
      moreover note nt = new_table [of kend d s p xs "PDX va" s1]
      ultimately show ?thesis using nt ok Cons PDX_less False s1 nz [OF p(2)]
        by (intro exI [of _ "ent p (PTX va)"] exI [of _ ?t] exI [of _ xs]) simp
    qed
  qed
qed

subsection \<open>mappages\<close>

text \<open>Writing the entry of a page whose table is there.\<close>

lemma set_pte:
  fixes v :: uint
  assumes ok: "vm_ok kend d s xs" and pr: "present (pde (kmem_mem s) d (PDX va))"
  defines "t \<equiv> wr (ent (ptab (pde (kmem_mem s) d (PDX va))) (PTX va)) v s"
  shows "grows kend d 0 s xs t xs"
    and "lookup (kmem_mem t) d a = (if PGROUNDDOWN a = PGROUNDDOWN va then if present v then Some v else None else lookup (kmem_mem s) d a)"
proof -
  let ?m = "kmem_mem s" and ?n = "kmem_mem t" let ?q = "ptab (pde ?m d (PDX va))"
  have pd: "pd_ok kend ?m d" using ok by (simp add: vm_ok_def)
  have sl: "PDX va \<in> slots ?m d" using pr by (simp add: slots_def PDX_less)
  have d: "d mod 4096 = 0" and q: "?q mod 4096 = 0" "?q \<noteq> d" "?q \<in> own ?m d"
    using pd sl by (auto simp: pd_ok_def own_def dest: page_ok_aligned)
  have n: "?n = store32 ?m (ent ?q (PTX va)) v" by (simp add: t_def wr_def)
  have tq: "touches {?q} ?m ?n" using store32_ent_out [OF q(1) PTX_less] by (simp add: touches_def n)
  have e: "pde ?n d i = pde ?m d i" if "unat i < 1024" for i
    unfolding pde_def by (rule load32_ent_cong [OF d that]) (use tq pages_apart [OF d q(1) q(2) [symmetric]] in \<open>auto simp: touches_def\<close>)
  have slots: "slots ?n d = slots ?m d" using e by (auto simp: slots_def)
  have es: "pde ?n d i = pde ?m d i" if "i \<in> slots ?m d" for i using e that by (simp add: slots_def)
  have own: "own ?n d = own ?m d" using es by (simp add: own_def slots)
  have pd': "pd_ok kend ?n d" using pd es by (simp add: pd_ok_def slots inj_on_def)
  have "agree (set xs) ?m ?n"
  proof (rule touches_agree [OF tq])
    show "{?q} \<inter> set xs = {}" using ok q(3) by (auto simp: vm_ok_def)
    show "p mod 4096 = 0" if "p \<in> {?q} \<union> set xs" for p using that q(1) free_page_apart [OF ok] by blast
  qed
  then have "free_pages kend t xs" using free_pages_cong [of kend s xs ?n] ok by (simp add: t_def wr_def vm_ok_def)
  then have "vm_ok kend d t xs" using ok pd' own by (simp add: vm_ok_def)
  moreover have "touches (own ?m d \<union> set []) ?m ?n" by (rule touches_mono [OF tq]) (use q(3) in auto)
  ultimately show "grows kend d 0 s xs t xs" using ok own slots by (auto simp: grows_def intro!: exI [of _ "[]"])
  show "lookup ?n d a = (if PGROUNDDOWN a = PGROUNDDOWN va then if present v then Some v else None else lookup ?m d a)"
  proof (cases "present (pde ?m d (PDX a))")
    case True
    let ?r = "ptab (pde ?m d (PDX a))"
    have sa: "PDX a \<in> slots ?m d" using True by (simp add: slots_def PDX_less)
    have r: "?r mod 4096 = 0" using pd sa by (auto simp: pd_ok_def dest: page_ok_aligned)
    have "?r = ?q \<longleftrightarrow> PDX a = PDX va" using pd sl sa by (auto simp: pd_ok_def inj_on_def)
    then have "load32 ?n (ent ?r (PTX a)) = (if PGROUNDDOWN a = PGROUNDDOWN va then v else load32 ?m (ent ?r (PTX a)))"
      unfolding n load32_store32_ent [OF q(1) r PTX_less PTX_less] using same_page [of a va] by metis
    then show ?thesis using True e [OF PDX_less] by (auto simp: lookup_def Let_def)
  next
    case False
    then have "PGROUNDDOWN a \<noteq> PGROUNDDOWN va" using pr same_page [of a va] by auto
    then show ?thesis using False e [OF PDX_less] by (simp add: lookup_def)
  qed
qed

lemma lookup_pte:
  "present (pde m d (PDX va)) \<Longrightarrow> lookup m d va = None \<longleftrightarrow> \<not> present (load32 m (ent (ptab (pde m d (PDX va))) (PTX va)))"
  by (simp add: lookup_def Let_def)

lemma page_step:
  assumes "(a :: uint) mod 4096 = 0" and "unat a + 4096 * Suc n < 2 ^ 32"
  shows "unat (a + 4096) = unat a + 4096" and "(a + 4096) mod 4096 = 0"
proof -
  show "unat (a + 4096) = unat a + 4096" using assms(2) unat_add_nat_no_wrap [of a 4096] by simp
  then show "(a + 4096) mod 4096 = 0" using assms(1) by (simp add: aligned_unat)
qed

text \<open>The pages from \<open>a\<close> on to the \<open>n\<close>-th after it.\<close>

definition in_range :: "uint \<Rightarrow> nat \<Rightarrow> uint \<Rightarrow> bool" where
  "in_range a n va \<longleftrightarrow> unat a \<le> unat va \<and> unat va < unat a + 4096 * Suc n"

lemma div_page: "x div 4096 = i \<longleftrightarrow> 4096 * i \<le> x \<and> x < 4096 * i + 4096" for x :: nat
proof
  assume "x div 4096 = i"
  then show "4096 * i \<le> x \<and> x < 4096 * i + 4096"
    using div_mult_mod_eq [of x 4096] mod_less_divisor [of 4096 x] by auto
next
  assume "4096 * i \<le> x \<and> x < 4096 * i + 4096"
  then show "x div 4096 = i" by (intro div_nat_eqI) simp_all
qed

lemma in_range_0: "a mod 4096 = 0 \<Longrightarrow> in_range a 0 va \<longleftrightarrow> PGROUNDDOWN va = a"
proof -
  assume a: "a mod 4096 = 0"
  then obtain i where i: "unat a = 4096 * i" by (auto simp: aligned_unat elim!: dvdE)
  have "unat (PGROUNDDOWN va) = unat a \<longleftrightarrow> unat va div 4096 = i" by (simp add: unat_PGROUNDDOWN i)
  also have "\<dots> \<longleftrightarrow> 4096 * i \<le> unat va \<and> unat va < 4096 * i + 4096"
    by (rule div_page)
  finally show ?thesis by (auto simp: in_range_def i word_unat_eq_iff)
qed

lemma in_range_Suc:
  assumes "a mod 4096 = 0" and "unat a + 4096 * Suc n < 2 ^ 32"
  shows "in_range a (Suc n) va \<longleftrightarrow> PGROUNDDOWN va = a \<or> in_range (a + 4096) n va"
  using in_range_0 [OF assms(1), of va] page_step [OF assms] by (auto simp: in_range_def)

lemma grows_vm_ok: "grows kend d k s zs t xs \<Longrightarrow> vm_ok kend d t xs"
  by (simp add: grows_def)

text \<open>\<open>mapped m d f A\<close>: the pages with an address in \<open>A\<close> are mapped to the entries \<open>f\<close> gives.\<close>

definition mapped :: "mem \<Rightarrow> uint \<Rightarrow> (uint \<Rightarrow> uint) \<Rightarrow> (uint \<Rightarrow> bool) \<Rightarrow> bool" where
  "mapped m d f A \<longleftrightarrow> (\<forall>va. A va \<longrightarrow> lookup m d va = Some (f va))"

lemma PGROUNDDOWN_self: "a mod 4096 = 0 \<Longrightarrow> PGROUNDDOWN a = a"
  using in_range_0 [of a a] by (simp add: in_range_def)

text \<open>One round of the loop.\<close>

lemma map_one:
  fixes pa perm :: uint
  assumes "vm_ok kend d s zs" and "a mod 4096 = 0" and "lookup (kmem_mem s) d a = None"
  defines "v \<equiv> pa OR perm OR PTE_P"
  shows "(\<exists>t. walkpgdir d a True s = Ret (0, t) \<and> grows kend d 0 s zs t [] \<and> lookup (kmem_mem t) d = lookup (kmem_mem s) d
      \<and> card (slots (kmem_mem t) d) < 1024)
    \<or> (\<exists>pte t xs. walkpgdir d a True s = Ret (pte, t) \<and> pte \<noteq> 0 \<and> rd t pte AND PTE_P = 0 \<and> grows kend d 0 s zs (wr pte v t) xs
      \<and> (\<forall>va. lookup (kmem_mem (wr pte v t)) d va = (if PGROUNDDOWN va = a then Some v else lookup (kmem_mem s) d va)))"
proof -
  from walkpgdir_alloc [OF assms(1), of a] obtain pte t xs where w: "walkpgdir d a True s = Ret (pte, t)" "grows kend d 0 s zs t xs"
    "lookup (kmem_mem t) d = lookup (kmem_mem s) d"
    "if pte = 0 then zs = [] \<and> card (slots (kmem_mem s) d) < 1024
     else present (pde (kmem_mem t) d (PDX a)) \<and> pte = ent (ptab (pde (kmem_mem t) d (PDX a))) (PTX a)" by blast
  show ?thesis
  proof (cases "pte = 0")
    case True
    have "length zs + card (slots (kmem_mem s) d) = length xs + card (slots (kmem_mem t) d)" using w(2) by (simp add: grows_def)
    moreover have "xs = []" using w(2,4) True by (auto simp: grows_def)
    ultimately show ?thesis using w True by simp
  next
    case False
    then have p: "present (pde (kmem_mem t) d (PDX a))" "pte = ent (ptab (pde (kmem_mem t) d (PDX a))) (PTX a)" using w(4) by auto
    have np: "rd t pte AND PTE_P = 0" using lookup_pte [OF p(1)] p(2) w(3) assms(3) by (simp add: rd_def present_def)
    have pr: "present v" using present_OR(1) [of "pa OR perm"] by (simp add: v_def or.assoc)
    note sp = set_pte [OF grows_vm_ok [OF w(2)] p(1), of v, folded p(2)]
    have g: "grows kend d 0 s zs (wr pte v t) xs" using grows_trans [OF w(2) sp(1)] by simp
    have lu: "lookup (kmem_mem (wr pte v t)) d va = (if PGROUNDDOWN va = a then Some v else lookup (kmem_mem s) d va)" for va
      using sp(2) [of va] pr w(3) PGROUNDDOWN_self [OF assms(2)] by simp
    show ?thesis using w(1) False np g lu by blast
  qed
qed

lemma mappages_loop_0: "mappages_loop 0 d a pa perm s =
    bindr (walkpgdir d a True s) (\<lambda>(pte, s).
     if pte = 0 then Ret (- 1, s) else if rd s pte AND PTE_P \<noteq> 0 then Panic ''remap'' else Ret (0, wr pte (pa OR perm OR PTE_P) s))"
  by (subst mappages_loop.simps) (simp only: Let_def nat.case)

lemma mappages_loop_Suc: "mappages_loop (Suc n) d a pa perm s =
    bindr (walkpgdir d a True s) (\<lambda>(pte, s).
     if pte = 0 then Ret (- 1, s) else if rd s pte AND PTE_P \<noteq> 0 then Panic ''remap''
     else mappages_loop n d (a + 4096) (pa + 4096) perm (wr pte (pa OR perm OR PTE_P) s))"
  by (subst mappages_loop.simps) (simp only: Let_def nat.case)

text \<open>How \<open>mappages\<close> can end: it maps the range, or it runs out of pages for a table that is missing. Either
  way it leaves the other pages as they were.\<close>

definition maps_to :: "uint \<Rightarrow> uint \<Rightarrow> kst \<Rightarrow> uint list \<Rightarrow> (uint \<Rightarrow> bool) \<Rightarrow> (uint \<Rightarrow> uint) \<Rightarrow> int \<Rightarrow> kst \<Rightarrow> bool" where
  "maps_to kend d s zs A f r t \<longleftrightarrow> (\<exists>xs. grows kend d 0 s zs t xs
     \<and> (\<forall>va. \<not> A va \<longrightarrow> lookup (kmem_mem t) d va = lookup (kmem_mem s) d va)
     \<and> (r = 0 \<and> mapped (kmem_mem t) d f A \<or> r = - 1 \<and> xs = [] \<and> card (slots (kmem_mem t) d) < 1024))"

lemma mappages_loop_maps:
  assumes "vm_ok kend d s zs" and "a mod 4096 = 0" and "unat a + 4096 * n < 2 ^ 32"
    and "\<And>va. in_range a n va \<Longrightarrow> lookup (kmem_mem s) d va = None"
  shows "\<exists>r t. mappages_loop n d a pa perm s = Ret (r, t)
    \<and> maps_to kend d s zs (in_range a n) (\<lambda>va. (pa + (PGROUNDDOWN va - a)) OR perm OR PTE_P) r t"
  using assms
proof (induction n arbitrary: a pa s zs)
  case 0
  have "lookup (kmem_mem s) d a = None" using 0(4) [of a] by (simp add: in_range_def)
  from map_one [OF 0(1,2) this, of pa perm] show ?case
  proof (elim disjE exE conjE)
    fix t assume "walkpgdir d a True s = Ret (0, t)" "grows kend d 0 s zs t []" "lookup (kmem_mem t) d = lookup (kmem_mem s) d" "card (slots (kmem_mem t) d) < 1024"
    then show ?thesis by (intro exI [of _ "- 1"] exI [of _ t]) (auto simp: mappages_loop_0 maps_to_def)
  next
    fix pte t xs
    let ?u = "wr pte (pa OR perm OR PTE_P) t"
    assume w: "walkpgdir d a True s = Ret (pte, t)" "pte \<noteq> 0" "rd t pte AND PTE_P = 0" "grows kend d 0 s zs ?u xs"
      and lu: "\<forall>va. lookup (kmem_mem ?u) d va = (if PGROUNDDOWN va = a then Some (pa OR perm OR PTE_P) else lookup (kmem_mem s) d va)"
    have "mapped (kmem_mem ?u) d (\<lambda>va. (pa + (PGROUNDDOWN va - a)) OR perm OR PTE_P) (in_range a 0)"
      using lu in_range_0 [OF 0(2)] by (simp add: mapped_def)
    then have "maps_to kend d s zs (in_range a 0) (\<lambda>va. (pa + (PGROUNDDOWN va - a)) OR perm OR PTE_P) 0 ?u"
      unfolding maps_to_def using w(4) lu in_range_0 [OF 0(2)] by auto
    then show ?thesis using w(1,2,3) by (simp add: mappages_loop_0)
  qed
next
  case (Suc n)
  have a4: "unat (a + 4096) = unat a + 4096" "(a + 4096) mod 4096 = 0" using page_step [OF Suc.prems(2), of n] Suc.prems(3) by simp_all
  have rg: "in_range a (Suc n) va \<longleftrightarrow> PGROUNDDOWN va = a \<or> in_range (a + 4096) n va" for va using in_range_Suc [OF Suc.prems(2,3)] .
  have "lookup (kmem_mem s) d a = None" using Suc.prems(4) [of a] by (simp add: in_range_def)
  from map_one [OF Suc.prems(1,2) this, of pa perm] show ?case
  proof (elim disjE exE conjE)
    fix t assume "walkpgdir d a True s = Ret (0, t)" "grows kend d 0 s zs t []" "lookup (kmem_mem t) d = lookup (kmem_mem s) d" "card (slots (kmem_mem t) d) < 1024"
    then show ?thesis by (intro exI [of _ "- 1"] exI [of _ t]) (auto simp: mappages_loop_Suc maps_to_def)
  next
    fix pte t xs
    let ?u = "wr pte (pa OR perm OR PTE_P) t"
    assume w: "walkpgdir d a True s = Ret (pte, t)" "pte \<noteq> 0" "rd t pte AND PTE_P = 0" and g: "grows kend d 0 s zs ?u xs"
      and lu: "\<forall>va. lookup (kmem_mem ?u) d va = (if PGROUNDDOWN va = a then Some (pa OR perm OR PTE_P) else lookup (kmem_mem s) d va)"
    have disj: "PGROUNDDOWN va \<noteq> a" if "in_range (a + 4096) n va" for va
      using in_range_0 [OF Suc.prems(2), of va] a4(1) that by (auto simp: in_range_def)
    have "lookup (kmem_mem ?u) d va = None" if "in_range (a + 4096) n va" for va
      using lu disj [OF that] Suc.prems(4) [of va] rg [of va] that by simp
    from Suc.IH [OF grows_vm_ok [OF g] a4(2) _ this, of "pa + 4096"] a4(1) Suc.prems(3)
    obtain r u' where r: "mappages_loop n d (a + 4096) (pa + 4096) perm ?u = Ret (r, u')"
      "maps_to kend d ?u xs (in_range (a + 4096) n) (\<lambda>va. (pa + 4096 + (PGROUNDDOWN va - (a + 4096))) OR perm OR PTE_P) r u'" by auto
    then obtain ys where ys: "grows kend d 0 ?u xs u' ys" "\<And>va. \<not> in_range (a + 4096) n va \<Longrightarrow> lookup (kmem_mem u') d va = lookup (kmem_mem ?u) d va"
      "r = 0 \<and> mapped (kmem_mem u') d (\<lambda>va. (pa + 4096 + (PGROUNDDOWN va - (a + 4096))) OR perm OR PTE_P) (in_range (a + 4096) n)
        \<or> r = - 1 \<and> ys = [] \<and> card (slots (kmem_mem u') d) < 1024" by (auto simp: maps_to_def)
    have c: "pa + 4096 + (x - (a + 4096)) = pa + (x - a)" for x by simp
    have "lookup (kmem_mem u') d va = Some ((pa + (PGROUNDDOWN va - a)) OR perm OR PTE_P)"
      if m: "mapped (kmem_mem u') d (\<lambda>va. (pa + 4096 + (PGROUNDDOWN va - (a + 4096))) OR perm OR PTE_P) (in_range (a + 4096) n)"
        and v: "in_range a (Suc n) va" for va
    proof (cases "in_range (a + 4096) n va")
      case True
      then show ?thesis using m by (simp add: mapped_def c)
    next
      case False
      then have "PGROUNDDOWN va = a" using v rg by blast
      then show ?thesis using ys(2) [OF False] lu by simp
    qed
    moreover have "lookup (kmem_mem u') d va = lookup (kmem_mem s) d va" if "\<not> in_range a (Suc n) va" for va
      using that ys(2) [of va] lu rg [of va] by simp
    moreover have "grows kend d 0 s zs u' ys" using grows_trans [OF g ys(1)] by simp
    ultimately have "maps_to kend d s zs (in_range a (Suc n)) (\<lambda>va. (pa + (PGROUNDDOWN va - a)) OR perm OR PTE_P) r u'"
      using ys(3) unfolding maps_to_def mapped_def by blast
    then show ?thesis using w r(1) by (simp add: mappages_loop_Suc)
  qed
qed

text \<open>The pages that meet the range of \<open>sz\<close> bytes from \<open>va\<close> on.\<close>

definition pages_of :: "uint \<Rightarrow> uint \<Rightarrow> uint \<Rightarrow> bool" where
  "pages_of va sz x \<longleftrightarrow> PGROUNDDOWN va \<le> x \<and> PGROUNDDOWN x \<le> va + sz - 1"

lemma range_end:
  assumes "0 < sz" and "unat va + unat sz \<le> 2 ^ 32"
  shows "unat sz \<noteq> 0" and "unat (va + sz - 1 :: uint) = unat va + (unat sz - 1)"
proof -
  show z: "unat sz \<noteq> 0" using assms(1) by (metis less_irrefl unat_eq_zero)
  have "va + sz - 1 = va + of_nat (unat sz - 1)" using z by (simp add: of_nat_diff)
  moreover have "unat (va + of_nat (unat sz - 1)) = unat va + (unat sz - 1)"
    by (rule unat_add_nat_no_wrap) (use assms(2) z in simp)
  ultimately show "unat (va + sz - 1 :: uint) = unat va + (unat sz - 1)" by (simp only:)
qed

lemma pages_of_range:
  assumes "0 < sz" and "unat va + unat sz \<le> 2 ^ 32"
  defines "a \<equiv> PGROUNDDOWN va" and "l \<equiv> PGROUNDDOWN (va + sz - 1)"
  shows "unat a + 4096 * unat ((l - a) div 4096) = unat l" and "in_range a (unat ((l - a) div 4096)) x \<longleftrightarrow> pages_of va sz x"
proof -
  note z = range_end(1) [OF assms(1,2)] and e = range_end(2) [OF assms(1,2)]
  let ?i = "unat va div 4096" and ?j = "(unat va + (unat sz - 1)) div 4096"
  have a: "unat a = ?i * 4096" and l: "unat l = ?j * 4096" by (simp_all add: a_def l_def unat_PGROUNDDOWN e)
  have le: "?i \<le> ?j" by (rule div_le_mono) simp
  then have "unat (l - a) = (?j - ?i) * 4096" using a l by (simp add: unat_sub_if' diff_mult_distrib)
  then have n: "unat ((l - a) div 4096) = ?j - ?i" by (simp add: unat_div)
  show u: "unat a + 4096 * unat ((l - a) div 4096) = unat l" using a l n le by (simp add: diff_mult_distrib2)
  have "unat x div 4096 < Suc ?j \<longleftrightarrow> unat x < Suc ?j * 4096" by (rule div_less_iff_less_mult) simp
  then have "unat x < unat l + 4096 \<longleftrightarrow> unat x div 4096 \<le> ?j" using l by (simp add: less_Suc_eq_le algebra_simps)
  moreover have "unat (PGROUNDDOWN x) \<le> unat (va + sz - 1) \<longleftrightarrow> unat x div 4096 \<le> ?j"
    by (simp add: unat_PGROUNDDOWN e less_eq_div_iff_mult_less_eq)
  moreover have "unat a + 4096 * Suc (unat ((l - a) div 4096)) = unat l + 4096" using u by simp
  ultimately show "in_range a (unat ((l - a) div 4096)) x \<longleftrightarrow> pages_of va sz x"
    unfolding in_range_def pages_of_def word_le_nat_alt a_def [symmetric] by presburger
qed

lemma mappages_maps:
  assumes "vm_ok kend d s zs" and "0 < sz" and "unat va + unat sz \<le> 2 ^ 32"
    and "\<And>x. pages_of va sz x \<Longrightarrow> lookup (kmem_mem s) d x = None"
  shows "\<exists>r t. mappages d va sz pa perm s = Ret (r, t)
    \<and> maps_to kend d s zs (pages_of va sz) (\<lambda>x. (pa + (PGROUNDDOWN x - PGROUNDDOWN va)) OR perm OR PTE_P) r t"
proof -
  let ?a = "PGROUNDDOWN va" let ?n = "unat ((PGROUNDDOWN (va + sz - 1) - ?a) div 4096)"
  note p = pages_of_range [OF assms(2,3)]
  have "in_range ?a ?n = pages_of va sz" using p(2) by blast
  moreover have "unat ?a + 4096 * ?n < 2 ^ 32" unfolding p(1) by (rule unat_lt_2p32)
  ultimately show ?thesis
    using mappages_loop_maps [OF assms(1) PGROUNDDOWN_aligned, of va ?n pa perm] assms(4) by (simp add: mappages_def Let_def)
qed

lemma pages_of_aligned:
  assumes "va mod 4096 = 0" and "sz mod 4096 = 0" and "0 < sz" and "unat va + unat sz \<le> 2 ^ 32"
  shows "pages_of va sz x \<longleftrightarrow> unat va \<le> unat x \<and> unat x < unat va + unat sz"
proof -
  let ?n = "unat ((PGROUNDDOWN (va + sz - 1) - PGROUNDDOWN va) div 4096)"
  note p = pages_of_range [OF assms(3,4)]
  obtain i j where i: "unat va = 4096 * i" "unat sz = 4096 * j" using assms(1,2) by (auto simp: aligned_unat elim!: dvdE)
  note z = range_end(1) [OF assms(3,4)] and e = range_end(2) [OF assms(3,4)]
  have "unat (PGROUNDDOWN (va + sz - 1)) = 4096 * (i + j - 1)"
  proof -
    have "unat va + (unat sz - 1) = 4095 + 4096 * (i + j - 1)" using i z by (cases j) auto
    then show ?thesis by (simp add: unat_PGROUNDDOWN e)
  qed
  then have "unat va + 4096 * Suc ?n = unat va + unat sz" using p(1) i z PGROUNDDOWN_self [OF assms(1)] by (cases j) auto
  then show ?thesis using p(2) [of x] PGROUNDDOWN_self [OF assms(1)] by (simp add: in_range_def)
qed

subsection \<open>Pages taken from the free list\<close>

lemma upd_mem_mem [simp]: "kmem_mem (upd_mem f s) = f (kmem_mem s)"
  by (simp add: upd_mem_def)

lemma memset_touches: "touches {p} m (memset p c 4096 m)"
  by (simp add: touches_def memset_page)

lemma free_pages_touch:
  assumes "free_pages kend s xs" and "touches A (kmem_mem s) (f (kmem_mem s))" and "A \<inter> set xs = {}" and "\<And>p. p \<in> A \<Longrightarrow> p mod 4096 = 0"
  shows "free_pages kend (upd_mem f s) xs"
proof -
  have "agree (set xs) (kmem_mem s) (f (kmem_mem s))"
    by (rule touches_agree [OF assms(2,3)]) (use assms(1,4) in \<open>auto simp: free_pages_def dest: page_ok_aligned\<close>)
  from free_pages_cong [OF assms(1) this] show ?thesis by (simp add: upd_mem_def)
qed

text \<open>A page cleared to be a directory: well formed, with no mapping.\<close>

lemma fresh_dir:
  assumes "page_ok kend d" and "free_pages kend s xs" and "d \<notin> set xs"
  defines "t \<equiv> upd_mem (memset d 0 4096) s"
  shows "vm_ok kend d t xs" and "lookup (kmem_mem t) d va = None" and "slots (kmem_mem t) d = {}" and "own (kmem_mem t) d = {d}"
proof -
  have d: "d mod 4096 = 0" using assms(1) by (rule page_ok_aligned)
  have e: "pde (kmem_mem t) d i = 0" if "unat i < 1024" for i
    using load32_ent_cong [OF d that, of "kmem_mem t" "\<lambda>_. 0"] by (simp add: pde_def t_def memset_page load32_def [of "\<lambda>_. 0"])
  show sl: "slots (kmem_mem t) d = {}" using e by (auto simp: slots_def)
  then show own: "own (kmem_mem t) d = {d}" by (simp add: own_def)
  show "lookup (kmem_mem t) d va = None" by (simp add: lookup_def e PDX_less)
  have "free_pages kend t xs" unfolding t_def
    by (rule free_pages_touch [OF assms(2), of "{d}"]) (use assms(3) d memset_touches in blast)+
  then show "vm_ok kend d t xs" using sl own assms(1,3) by (simp add: vm_ok_def pd_ok_def)
qed

text \<open>A page taken for another purpose and filled.\<close>

lemma take_page:
  assumes "vm_ok kend d s (p # xs)" and "free_pages kend s1 xs" and "kmem_mem s1 = kmem_mem s" and "touches {p} (kmem_mem s) (f (kmem_mem s))"
  defines "t \<equiv> upd_mem f s1"
  shows "grows kend d 1 s (p # xs) t xs" and "lookup (kmem_mem t) d = lookup (kmem_mem s) d" and "own (kmem_mem t) d = own (kmem_mem s) d"
proof -
  let ?m = "kmem_mem s" and ?n = "kmem_mem t"
  have pd: "pd_ok kend ?m d" using assms(1) by (simp add: vm_ok_def)
  have p: "p \<notin> own ?m d" "p mod 4096 = 0" "p \<notin> set xs" using free_page_apart [OF assms(1)] assms(1) by (auto simp: vm_ok_def free_pages_def)
  have tm: "touches {p} ?m ?n" using assms(3,4) by (simp add: t_def)
  have "agree (own ?m d) ?m ?n"
  proof (rule touches_agree [OF tm])
    show "{p} \<inter> own ?m d = {}" using p(1) by simp
    show "q mod 4096 = 0" if "q \<in> {p} \<union> own ?m d" for q using that p(2) pd_ok_own [OF pd] page_ok_aligned by blast
  qed
  note a = agree_pd [OF pd this]
  show "lookup ?n d = lookup ?m d" "own ?n d = own ?m d" using a by simp_all
  have "free_pages kend t xs" unfolding t_def
  proof (rule free_pages_touch [OF assms(2), of "{p}"])
    show "touches {p} (kmem_mem s1) (f (kmem_mem s1))" using assms(3,4) by simp
    show "{p} \<inter> set xs = {}" using p(3) by simp
    show "q mod 4096 = 0" if "q \<in> {p}" for q using that p(2) by simp
  qed
  then have vm: "vm_ok kend d t xs" using a assms(1) by (auto simp: vm_ok_def)
  have "touches (own ?m d \<union> set [p]) ?m ?n" by (rule touches_mono [OF tm]) auto
  then show "grows kend d 1 s (p # xs) t xs" using assms(1) vm a unfolding grows_def by (auto intro!: exI [of _ "[p]"])
qed

text \<open>The pool after boot is large.\<close>

lemma boot_page:
  assumes "i < 4096"
  shows "page_ok 0x80112000 (0x80200000 + 4096 * of_nat i)" and "unat (4096 * of_nat i :: uint) = 4096 * i"
proof -
  let ?p = "0x80200000 + 4096 * of_nat i :: uint"
  show w: "unat (4096 * of_nat i :: uint) = 4096 * i" using assms by (simp add: unat_word_ariths unat_of_nat)
  then have u: "unat ?p = 0x80200000 + 4096 * i" using assms by (simp add: unat_word_ariths)
  have "v2p ?p = 0x200000 + 4096 * of_nat i" by (simp add: v2p_def)
  then have v: "unat (v2p ?p) = 0x200000 + 4096 * i" using assms w by (simp add: unat_word_ariths)
  have "?p mod 4096 = 0" unfolding aligned_unat u by (rule dvd_add) simp_all
  moreover have "0x80112000 \<le> ?p" unfolding word_le_nat_alt u by simp
  moreover have "v2p ?p < PHYSTOP" unfolding word_less_nat_alt v using assms by simp
  ultimately show "page_ok 0x80112000 ?p" by (simp only: page_ok_def)
qed

lemma boot_pages: "set xs = {p. page_ok 0x80112000 p} \<Longrightarrow> 4096 \<le> length xs"
proof -
  assume xs: "set xs = {p. page_ok 0x80112000 p}"
  have "(\<lambda>i. 0x80200000 + 4096 * of_nat i) ` {..<4096 :: nat} \<subseteq> set xs"
    unfolding xs by (rule image_subsetI) (use boot_page(1) in blast)
  moreover have "inj_on (\<lambda>i. 0x80200000 + 4096 * of_nat i :: uint) {..<4096 :: nat}"
  proof (rule inj_onI)
    fix i j :: nat assume l: "i \<in> {..<4096}" "j \<in> {..<4096}" and "0x80200000 + 4096 * of_nat i = (0x80200000 + 4096 * of_nat j :: uint)"
    then have e: "4096 * of_nat i = (4096 * of_nat j :: uint)" by (simp only: add_left_cancel)
    have "4096 * i = unat (4096 * of_nat i :: uint)" using boot_page(2) l(1) by simp
    also have "\<dots> = 4096 * j" unfolding e using boot_page(2) l(2) by simp
    finally show "i = j" by simp
  qed
  ultimately have "card {..<4096 :: nat} \<le> card (set xs)" by (metis card_image card_mono finite_set)
  also have "\<dots> \<le> length xs" by (rule card_length)
  finally show ?thesis by simp
qed

subsection \<open>Properties\<close>

text \<open>C36: \<open>mappages\<close> on a well-formed directory and a range of virtual addresses none of which is mapped does not
  panic and keeps the directory well formed: directory and tables stay different pages, none of
  them free. It writes only to the directory's pages and to pages it took from the free list. It leaves every page
  outside the range mapped as it was. If it returns 0 then each page of the range is mapped to the
  physical page at the same distance from \<open>pa\<close>, with the permissions asked for; otherwise it returns -1, and
  then the free list is empty, so with a page for each missing table it returns 0.\<close>

theorem mappages_maps_range:
  assumes "vm_ok kend d s zs" and "0 < sz" and "unat va + unat sz \<le> 2 ^ 32"
    and "\<And>x. pages_of va sz x \<Longrightarrow> lookup (kmem_mem s) d x = None"
  shows "\<exists>r t ys xs. mappages d va sz pa perm s = Ret (r, t) \<and> vm_ok kend d t xs \<and> zs = ys @ xs
    \<and> touches (own (kmem_mem s) d \<union> set ys) (kmem_mem s) (kmem_mem t)
    \<and> (\<forall>x. \<not> pages_of va sz x \<longrightarrow> lookup (kmem_mem t) d x = lookup (kmem_mem s) d x)
    \<and> (r = 0 \<and> (\<forall>x. pages_of va sz x \<longrightarrow>
         lookup (kmem_mem t) d x = Some ((pa + (PGROUNDDOWN x - PGROUNDDOWN va)) OR perm OR PTE_P))
       \<or> r = - 1 \<and> xs = [])
    \<and> (1024 \<le> length zs + card (slots (kmem_mem s) d) \<longrightarrow> r = 0)"
proof -
  from mappages_maps [OF assms] obtain r t where r: "mappages d va sz pa perm s = Ret (r, t)"
    "maps_to kend d s zs (pages_of va sz) (\<lambda>x. (pa + (PGROUNDDOWN x - PGROUNDDOWN va)) OR perm OR PTE_P) r t" by blast
  then show ?thesis unfolding maps_to_def grows_def mapped_def by auto
qed

theorem mappages_maps_range_witness:
  "\<exists>d s t. mappages d 0x5000 0x2000 0x300000 PTE_W s = Ret (0, t) \<and> lookup (kmem_mem t) d 0x6000 = Some 0x301003
     \<and> lookup (kmem_mem t) d 0x7000 = None"
proof -
  let ?k = "0x80112000 :: uint" and ?d = "0x80200000 :: uint"
  have d: "page_ok ?k ?d" by (simp add: page_ok_def v2p_def)
  obtain s xs where s: "free_pages ?k s xs" "set xs = {p. page_ok ?k p}" using boot_kst_boots by blast
  obtain p ps where xs: "xs = p # ps" using s(2) d by (cases xs) auto
  obtain s1 where s1: "free_pages ?k s1 ps" using kalloc_spec [OF s(1)] xs by auto
  have p: "page_ok ?k p" "p \<notin> set ps" using s(1) xs by (auto simp: free_pages_def)
  let ?s = "upd_mem (memset p 0 4096) s1"
  note f = fresh_dir [OF p(1) s1 p(2)]
  have len: "1024 \<le> length ps" using boot_pages [OF s(2)] xs by simp
  obtain t where t: "mappages p 0x5000 0x2000 0x300000 PTE_W ?s = Ret (0, t)"
      "\<And>x. \<not> pages_of 0x5000 0x2000 x \<Longrightarrow> lookup (kmem_mem t) p x = None"
      "\<And>x. pages_of 0x5000 0x2000 x \<Longrightarrow> lookup (kmem_mem t) p x = Some ((0x300000 + (PGROUNDDOWN x - 0x5000)) OR PTE_W OR PTE_P)"
    using mappages_maps_range [OF f(1), of "0x2000" "0x5000" "0x300000" PTE_W] len f(2,3) by (auto simp: PGROUNDDOWN_self)
  have "pages_of 0x5000 0x2000 0x6000" "\<not> pages_of 0x5000 0x2000 0x7000" by (simp_all add: pages_of_def PGROUNDDOWN_def)
  with t(2,3) have "lookup (kmem_mem t) p 0x6000 = Some 0x301003" "lookup (kmem_mem t) p 0x7000 = None"
    by (simp_all add: PGROUNDDOWN_def)
  with t(1) show ?thesis by blast
qed

end
