(* ===== verification/Apic.thy ===== *)
theory Apic
  imports Cstring Kalloc
begin

section \<open>Interrupt controllers, timer and clock (lapic.c, ioapic.c, picirq.c, timer.c)\<close>

text \<open>
  The set-up of the interrupt hardware as the sequence of register and port writes it makes, and the
  reading of the real-time clock. A device register that is read is part of the state or, where its
  value changes with time, an input. Delays do nothing.
\<close>

type_synonym outs8 = "(ushort \<times> uchar) list"

subsection \<open>The 8259A controllers (picirq.c) and the timer (timer.c)\<close>

record pic =
  irqmask :: ushort
  pic_outs :: outs8

abbreviation (input) IO_PIC1 :: ushort where "IO_PIC1 \<equiv> 0x20"
abbreviation (input) IO_PIC2 :: ushort where "IO_PIC2 \<equiv> 0xA0"
abbreviation (input) IRQ_SLAVE :: nat where "IRQ_SLAVE \<equiv> 2"

definition outb :: "ushort \<Rightarrow> uchar \<Rightarrow> 'x pic_scheme \<Rightarrow> 'x pic_scheme" where
  "outb p v s = s\<lparr>pic_outs := pic_outs s @ [(p, v)]\<rparr>"

text \<open>The initial mask: everything but the line of the slave.\<close>

definition pic_start :: pic where
  "pic_start = \<lparr>irqmask = 0xFFFF AND NOT (push_bit IRQ_SLAVE 1), pic_outs = []\<rparr>"

definition picsetmask :: "ushort \<Rightarrow> 'x pic_scheme \<Rightarrow> 'x pic_scheme" where
  "picsetmask msk s = outb (IO_PIC2 + 1) (ucast (drop_bit 8 msk)) (outb (IO_PIC1 + 1) (ucast msk) (s\<lparr>irqmask := msk\<rparr>))"

definition picenable :: "nat \<Rightarrow> 'x pic_scheme \<Rightarrow> 'x pic_scheme" where
  "picenable irq s = picsetmask (irqmask s AND NOT (push_bit irq 1)) s"

definition picinit :: "'x pic_scheme \<Rightarrow> 'x pic_scheme" where
  "picinit s =
     (let s = fold (\<lambda>(p, v). outb p v)
        [(IO_PIC1 + 1, 0xFF), (IO_PIC2 + 1, 0xFF), (IO_PIC1, 0x11), (IO_PIC1 + 1, 32), (IO_PIC1 + 1, push_bit IRQ_SLAVE 1),
         (IO_PIC1 + 1, 0x3), (IO_PIC2, 0x11), (IO_PIC2 + 1, 32 + 8), (IO_PIC2 + 1, of_nat IRQ_SLAVE), (IO_PIC2 + 1, 0x3),
         (IO_PIC1, 0x68), (IO_PIC1, 0x0A), (IO_PIC2, 0x68), (IO_PIC2, 0x0A)] s
      in if irqmask s \<noteq> 0xFFFF then picsetmask (irqmask s) s else s)"

definition TIMER_DIV :: "nat \<Rightarrow> nat" where
  "TIMER_DIV x = (1193182 + x div 2) div x"

definition timerinit :: "'x pic_scheme \<Rightarrow> 'x pic_scheme" where
  "timerinit s = picenable 0 (fold (\<lambda>(p, v). outb p v)
     [(0x43, 0x00 OR 0x04 OR 0x30), (0x40, of_nat (TIMER_DIV 100 mod 256)), (0x40, of_nat (TIMER_DIV 100 div 256))] s)"

text \<open>What the two mask registers hold after the writes made so far, and the lines they let through.\<close>

definition last_out :: "ushort \<Rightarrow> outs8 \<Rightarrow> uchar" where
  "last_out p os = snd (last ((p, 0xFF) # filter (\<lambda>(q, _). q = p) os))"

definition line_open :: "nat \<Rightarrow> 'x pic_scheme \<Rightarrow> bool" where
  "line_open i s \<longleftrightarrow> (if i < 8 then \<not> bit (last_out (IO_PIC1 + 1) (pic_outs s)) i else \<not> bit (last_out (IO_PIC2 + 1) (pic_outs s)) (i - 8))"

lemma line_open_picsetmask: "i < 16 \<Longrightarrow> line_open i (picsetmask msk s) \<longleftrightarrow> \<not> bit msk i"
  by (auto simp: line_open_def picsetmask_def outb_def last_out_def bit_simps)

lemma picenable_opens: "i < 16 \<Longrightarrow> irq < 16 \<Longrightarrow> line_open i (picenable irq s) \<longleftrightarrow> i = irq \<or> \<not> bit (irqmask s) i"
  unfolding picenable_def line_open_picsetmask by (auto simp: bit_simps)

subsection \<open>The I/O APIC (ioapic.c)\<close>

record ioapic =
  io_regs :: "nat \<Rightarrow> uint"

definition ioapicread :: "nat \<Rightarrow> ioapic \<Rightarrow> uint" where
  "ioapicread reg s = io_regs s reg"

definition ioapicwrite :: "nat \<Rightarrow> uint \<Rightarrow> ioapic \<Rightarrow> ioapic" where
  "ioapicwrite reg data s = s\<lparr>io_regs := (io_regs s)(reg := data)\<rparr>"

abbreviation (input) REG_TABLE :: nat where "REG_TABLE \<equiv> 0x10"
abbreviation (input) INT_DISABLED :: uint where "INT_DISABLED \<equiv> 0x00010000"

text \<open>The result says whether the message about the wrong identification is printed.\<close>

definition ioapicinit :: "bool \<Rightarrow> uchar \<Rightarrow> ioapic \<Rightarrow> bool \<times> ioapic" where
  "ioapicinit ismp ioapicid s =
     (if \<not> ismp then (False, s)
      else let maxintr = unat (drop_bit 16 (ioapicread 1 s) AND 0xFF); id = drop_bit 24 (ioapicread 0 s)
           in (id \<noteq> ucast ioapicid,
               fold (\<lambda>i s. ioapicwrite (REG_TABLE + 2 * i + 1) 0 (ioapicwrite (REG_TABLE + 2 * i) (INT_DISABLED OR of_nat (32 + i)) s))
                 [0..<Suc maxintr] s))"

definition ioapicenable :: "bool \<Rightarrow> nat \<Rightarrow> uint \<Rightarrow> ioapic \<Rightarrow> ioapic" where
  "ioapicenable ismp irq cpunum s =
     (if \<not> ismp then s
      else ioapicwrite (REG_TABLE + 2 * irq + 1) (push_bit 24 cpunum) (ioapicwrite (REG_TABLE + 2 * irq) (of_nat (32 + irq)) s))"

lemma ioapicinit_table:
  "i < n \<Longrightarrow> io_regs (fold (\<lambda>i s. ioapicwrite (REG_TABLE + 2 * i + 1) 0 (ioapicwrite (REG_TABLE + 2 * i) (INT_DISABLED OR of_nat (32 + i)) s)) [0..<n] s) (REG_TABLE + 2 * i)
     = INT_DISABLED OR of_nat (32 + i)"
proof (induction n)
  case (Suc n)
  have "REG_TABLE + 2 * n + 1 \<noteq> REG_TABLE + 2 * i" by presburger
  with Suc show ?case by (cases "i = n") (auto simp: ioapicwrite_def)
qed simp

text \<open>After \<open>ioapicinit\<close> every line is off; \<open>ioapicenable\<close> turns one on, at its own vector.\<close>

lemma ioapic_routes:
  assumes "irq \<le> unat (drop_bit 16 (ioapicread 1 s) AND 0xFF)" and "i \<le> unat (drop_bit 16 (ioapicread 1 s) AND 0xFF)"
  shows "io_regs (ioapicenable True irq cpunum (snd (ioapicinit True ioapicid s))) (REG_TABLE + 2 * i)
     = (if i = irq then of_nat (32 + i) else INT_DISABLED OR of_nat (32 + i))"
proof -
  have "REG_TABLE + 2 * irq + 1 \<noteq> REG_TABLE + 2 * i" by presburger
  then show ?thesis using assms(2) ioapicinit_table [of i "Suc (unat (drop_bit 16 (ioapicread 1 s) AND 0xFF))" s]
    by (simp add: ioapicenable_def ioapicinit_def Let_def ioapicwrite_def del: upt_Suc)
qed

subsection \<open>The local APIC (lapic.c)\<close>

text \<open>\<open>la_base\<close> is the pointer \<open>lapic\<close>; the registers are numbered as in the code. \<open>cpunum\<close> warns once when
  it is called with interrupts on.\<close>

record lapic =
  la_base :: uint
  la_reg :: "nat \<Rightarrow> uint"
  la_writes :: "(nat \<times> uint) list"
  la_warned :: bool

definition lapicw :: "nat \<Rightarrow> uint \<Rightarrow> lapic \<Rightarrow> lapic" where
  "lapicw index value s = s\<lparr>la_reg := (la_reg s)(index := value), la_writes := la_writes s @ [(index, value)]\<rparr>"

abbreviation (input) la_ID :: nat where "la_ID \<equiv> 0x20 div 4"
abbreviation (input) la_VER :: nat where "la_VER \<equiv> 0x30 div 4"
abbreviation (input) la_TPR :: nat where "la_TPR \<equiv> 0x80 div 4"
abbreviation (input) la_EOI :: nat where "la_EOI \<equiv> 0xB0 div 4"
abbreviation (input) la_SVR :: nat where "la_SVR \<equiv> 0xF0 div 4"
abbreviation (input) la_ESR :: nat where "la_ESR \<equiv> 0x280 div 4"
abbreviation (input) la_ICRLO :: nat where "la_ICRLO \<equiv> 0x300 div 4"
abbreviation (input) la_ICRHI :: nat where "la_ICRHI \<equiv> 0x310 div 4"
abbreviation (input) la_TIMER :: nat where "la_TIMER \<equiv> 0x320 div 4"
abbreviation (input) la_PCINT :: nat where "la_PCINT \<equiv> 0x340 div 4"
abbreviation (input) la_LINT0 :: nat where "la_LINT0 \<equiv> 0x350 div 4"
abbreviation (input) la_LINT1 :: nat where "la_LINT1 \<equiv> 0x360 div 4"
abbreviation (input) la_ERROR :: nat where "la_ERROR \<equiv> 0x370 div 4"
abbreviation (input) la_TICR :: nat where "la_TICR \<equiv> 0x380 div 4"
abbreviation (input) la_TDCR :: nat where "la_TDCR \<equiv> 0x3E0 div 4"
abbreviation (input) MASKED :: uint where "MASKED \<equiv> 0x00010000"

text \<open>The values the command register gives while the message is being delivered; a stream that ends
  before the bit is clear is a wait without end.\<close>

fun icr_wait :: "uint list \<Rightarrow> bool" where
  "icr_wait [] = False"
| "icr_wait (v # vs) = (if v AND 0x00001000 \<noteq> 0 then icr_wait vs else True)"

definition lapicinit :: "uint list \<Rightarrow> lapic \<Rightarrow> lapic res" where
  "lapicinit icr s =
     (if la_base s = 0 then Ret s
      else let s = fold (\<lambda>(i, v). lapicw i v)
             [(la_SVR, 0x100 OR (32 + 31)), (la_TDCR, 0xB), (la_TIMER, 0x20000 OR (32 + 0)), (la_TICR, 10000000),
              (la_LINT0, MASKED), (la_LINT1, MASKED)] s;
               s = (if drop_bit 16 (la_reg s la_VER) AND 0xFF \<ge> 4 then lapicw la_PCINT MASKED s else s);
               s = fold (\<lambda>(i, v). lapicw i v)
             [(la_ERROR, 32 + 19), (la_ESR, 0), (la_ESR, 0), (la_EOI, 0), (la_ICRHI, 0), (la_ICRLO, 0x80000 OR 0x500 OR 0x8000)] s
           in if icr_wait icr then Ret (lapicw la_TPR 0 s) else Diverge)"

definition cpunum :: "bool \<Rightarrow> lapic \<Rightarrow> uint \<times> lapic" where
  "cpunum ifl s =
     (let s = (if ifl then s\<lparr>la_warned := True\<rparr> else s)
      in (if la_base s \<noteq> 0 then drop_bit 24 (la_reg s la_ID) else 0, s))"

definition lapiceoi :: "lapic \<Rightarrow> lapic" where
  "lapiceoi s = (if la_base s \<noteq> 0 then lapicw la_EOI 0 s else s)"

definition microdelay :: "uint \<Rightarrow> lapic \<Rightarrow> lapic" where
  "microdelay us s = s"

text \<open>Starting another processor at \<open>addr\<close>: the port writes, the warm reset vector in memory, and the
  messages to the processor.\<close>

definition lapicstartap :: "uchar \<Rightarrow> uint \<Rightarrow> mem \<Rightarrow> lapic \<Rightarrow> outs8 \<times> mem \<times> lapic" where
  "lapicstartap apicid addr m s =
     (let wrv = p2v (push_bit 4 0x40 OR 0x67); hi = ucast apicid * 2 ^ 24;
          m = m(wrv := 0, wrv + 1 := 0, wrv + 2 := ucast (drop_bit 4 addr), wrv + 3 := ucast (drop_bit 12 addr)) in
      ([(0x70, 0xF), (0x71, 0x0A)], m,
       fold (\<lambda>(i, v). lapicw i v)
         [(la_ICRHI, hi), (la_ICRLO, 0x500 OR 0x8000 OR 0x4000), (la_ICRLO, 0x500 OR 0x8000),
          (la_ICRHI, hi), (la_ICRLO, 0x600 OR drop_bit 12 addr), (la_ICRHI, hi), (la_ICRLO, 0x600 OR drop_bit 12 addr)] s))"

subsection \<open>The real-time clock\<close>

text \<open>The clock chip is a function from the number of the read and the register to the byte it gives.\<close>

type_synonym cmos = "nat \<Rightarrow> uint \<Rightarrow> uchar"

record rtcdate =
  second :: uint
  minute :: uint
  hour :: uint
  day :: uint
  month :: uint
  year :: uint

definition cmos_read :: "cmos \<Rightarrow> uint \<Rightarrow> nat \<Rightarrow> uint \<times> nat" where
  "cmos_read c reg t = (ucast (c t reg), Suc t)"

definition fill_rtcdate :: "cmos \<Rightarrow> nat \<Rightarrow> rtcdate \<times> nat" where
  "fill_rtcdate c t =
     (let (s, t) = cmos_read c 0x00 t; (mi, t) = cmos_read c 0x02 t; (h, t) = cmos_read c 0x04 t;
          (d, t) = cmos_read c 0x07 t; (mo, t) = cmos_read c 0x08 t; (y, t) = cmos_read c 0x09 t
      in (\<lparr>second = s, minute = mi, hour = h, day = d, month = mo, year = y\<rparr>, t))"

partial_function (option) cmostime_loop :: "cmos \<Rightarrow> nat \<Rightarrow> (rtcdate \<times> nat) option" where
  "cmostime_loop c t =
     (let (t1, t) = fill_rtcdate c t; (a, t) = cmos_read c 0x0A t in
      if a AND 0x80 \<noteq> 0 then cmostime_loop c t
      else let (t2, t) = fill_rtcdate c t in if t1 = t2 then Some (t1, t) else cmostime_loop c t)"

definition CONV :: "uint \<Rightarrow> uint" where
  "CONV x = drop_bit 4 x * 10 + (x AND 0xF)"

definition cmostime :: "cmos \<Rightarrow> nat \<Rightarrow> (rtcdate \<times> nat) option" where
  "cmostime c t =
     (let (sb, t) = cmos_read c 0x0B t; bcd = (sb AND 4 = 0) in
      map_option (\<lambda>(r, t).
        (let r = (if bcd then \<lparr>second = CONV (second r), minute = CONV (minute r), hour = CONV (hour r),
                               day = CONV (day r), month = CONV (month r), year = CONV (year r)\<rparr> else r)
         in r\<lparr>year := year r + 2000\<rparr>, t)) (cmostime_loop c t))"

text \<open>Two digits in a byte, as the clock has them.\<close>

definition bcd :: "nat \<Rightarrow> uchar" where
  "bcd n = of_nat (16 * (n div 10) + n mod 10)"

lemma CONV_bcd:
  assumes "n < 100"
  shows "CONV (ucast (bcd n)) = of_nat n"
proof -
  have all: "list_all (\<lambda>n. CONV (ucast (bcd n)) = of_nat n) [0..<100]" by code_simp
  then show ?thesis using assms by (simp add: list_all_iff)
qed

text \<open>A clock that stands still at a date, encoded in binary coded decimal, while it is read.\<close>

lemma cmostime_reads:
  assumes "\<And>t. c t 0x0A AND 0x80 = 0" and "\<And>t. c t 0x0B AND 4 = 0"
    and "\<And>t. map (c t) [0x00, 0x02, 0x04, 0x07, 0x08, 0x09] = map bcd [s, mi, h, d, mo, y]"
    and "s < 60" and "mi < 60" and "h < 24" and "d < 32" and "mo < 13" and "y < 100"
  shows "\<exists>t'. cmostime c t = Some (\<lparr>second = of_nat s, minute = of_nat mi, hour = of_nat h, day = of_nat d, month = of_nat mo, year = of_nat y + 2000\<rparr>, t')"
proof -
  have a: "(ucast (c t 0x0A) :: uint) AND 0x80 = 0" "(ucast (c t 0x0B) :: uint) AND 4 = 0" for t
  proof -
    have "(ucast (c t 0x0A AND 0x80) :: uint) = 0" "(ucast (c t 0x0B AND 4) :: uint) = 0" using assms(1,2) by simp_all
    then show "(ucast (c t 0x0A) :: uint) AND 0x80 = 0" "(ucast (c t 0x0B) :: uint) AND 4 = 0" by (simp_all only: unsigned_and_eq) simp_all
  qed
  let ?d = "\<lparr>second = ucast (bcd s), minute = ucast (bcd mi), hour = ucast (bcd h), day = ucast (bcd d), month = ucast (bcd mo), year = ucast (bcd y)\<rparr>"
  have f: "fill_rtcdate c t = (?d, t + 6)" for t
    using assms(3) by (simp add: fill_rtcdate_def cmos_read_def)
  have "cmostime_loop c t = Some (?d, t + 13)" for t
    by (subst cmostime_loop.simps) (simp add: f cmos_read_def a)
  then show ?thesis using assms(4-9) a(2) by (simp add: cmostime_def cmos_read_def CONV_bcd)
qed

end
