(* ===== verification/Startup.thy ===== *)
theory Startup
  imports Vm_Map Apic
begin

section \<open>Start-up of the processors (main.c)\<close>

text \<open>
  The page directory the processors start with and the start of the other processors by the
  first one. The code of \<open>entryother.S\<close>, which the linker puts in the kernel's image, is a list of bytes; the
  addresses of \<open>mpenter\<close> and of \<open>entrypgdir\<close> are parameters, as is whether a processor comes up and
  sets \<open>started\<close>, without which the loop never ends. The state has the memory with its allocator, the local APIC and
  the writes to I/O ports; \<open>ap_finds\<close> is what each processor finds in the three words below its code,
  which are the only parameters \<open>entryother.S\<close> has. \<open>main\<close> itself is the sequence of the
  initialisation functions of the other theories.

  Lemmas: the first page directory maps 4 megabytes at both addresses the kernel runs at, and each processor
  gets a stack page of its own.
\<close>

subsection \<open>The first page directory\<close>

abbreviation (input) PTE_PS :: uint where "PTE_PS \<equiv> 0x080"

definition entrypgdir :: "nat \<Rightarrow> uint" where
  "entrypgdir i =
     (if i = 0 then 0 OR PTE_P OR PTE_W OR PTE_PS
      else if i = unat (drop_bit 22 KERNBASE) then 0 OR PTE_P OR PTE_W OR PTE_PS
      else 0)"

text \<open>The translation of an address by a directory whose present entries map pages of 4 megabytes.\<close>

definition big_page :: "(nat \<Rightarrow> uint) \<Rightarrow> uint \<Rightarrow> uint option" where
  "big_page pd va =
     (let e = pd (unat va div 2 ^ 22) in
      if e AND PTE_P = 0 \<or> e AND PTE_PS = 0 then None else Some ((e AND NOT 0x3FFFFF) + va mod 2 ^ 22))"

lemma entrypgdir_maps:
  "big_page entrypgdir va =
     (if unat va < 2 ^ 22 then Some va
      else if 0x80000000 \<le> unat va \<and> unat va < 0x80000000 + 2 ^ 22 then Some (v2p va)
      else None)"
proof -
  let ?i = "unat va div 2 ^ 22"
  have d: "unat (drop_bit 22 KERNBASE) = 512" by simp
  have e: "(0x83 :: uint) AND NOT 0x3FFFFF = 0" by simp
  have z: "?i = 0 \<longleftrightarrow> unat va < 2 ^ 22" by (simp add: div_eq_0_iff)
  have k: "?i = 512 \<longleftrightarrow> 0x80000000 \<le> unat va \<and> unat va < 0x80000000 + 2 ^ 22"
  proof
    assume "?i = 512"
    then show "0x80000000 \<le> unat va \<and> unat va < 0x80000000 + 2 ^ 22" using mult_div_mod_eq [of "2 ^ 22" "unat va"] mod_less_divisor [of "2 ^ 22" "unat va"] by simp
  qed (auto intro!: div_nat_eqI)
  have m: "unat (va mod 2 ^ 22) = unat va - 2 ^ 22 * ?i" by (simp add: unat_mod minus_mult_div_eq_mod)
  have v: "unat (v2p va) = unat va - 0x80000000" if "0x80000000 \<le> unat va" using that by (simp add: v2p_def unat_sub_if')
  show ?thesis
  proof (cases "?i = 0")
    case True
    then have "va mod 2 ^ 22 = va" using m by (simp add: word_unat_eq_iff)
    then show ?thesis using True z by (simp add: big_page_def entrypgdir_def e)
  next
    case False
    show ?thesis
    proof (cases "?i = 512")
      case True
      then have "va mod 2 ^ 22 = v2p va" using m v k by (simp add: word_unat_eq_iff)
      then show ?thesis using True False z k d by (simp add: big_page_def entrypgdir_def e)
    next
      case no: False
      then have "entrypgdir ?i = 0" using False d by (simp add: entrypgdir_def)
      then show ?thesis using False no z k by (simp add: big_page_def Let_def)
    qed
  qed
qed

subsection \<open>The other processors\<close>

record ap_start =
  apic_id :: uchar
  ap_stack :: uint
  ap_entry :: uint
  ap_pgdir :: uint

record smp =
  sm_k :: kst
  sm_lapic :: lapic
  sm_outs :: outs8
  ap_finds :: "ap_start list"

abbreviation (input) KSTACKSIZE :: uint where "KSTACKSIZE \<equiv> 4096"

text \<open>The loop over \<open>cpus\<close>; \<open>c\<close> is the index of the first of the identifiers that are left.\<close>

fun startothers_loop :: "nat \<Rightarrow> uchar list \<Rightarrow> nat \<Rightarrow> (nat \<Rightarrow> bool) \<Rightarrow> uint \<Rightarrow> uint \<Rightarrow> uint \<Rightarrow> smp \<Rightarrow> smp res" where
  "startothers_loop c [] self started code mpenter pgdir s = Ret s"
| "startothers_loop c (apicid # ids) self started code mpenter pgdir s =
     (if c = self then startothers_loop (Suc c) ids self started code mpenter pgdir s
      else bindr (kalloc (sm_k s)) (\<lambda>(stack, k).
        let k = wr (code - 4) (stack + KSTACKSIZE) k;
            k = wr (code - 8) mpenter k;
            k = wr (code - 12) (v2p pgdir) k;
            (outs, m, la) = lapicstartap apicid (v2p code) (kmem_mem k) (sm_lapic s);
            k = upd_mem (\<lambda>_. m) k;
            found = \<lparr>apic_id = apicid, ap_stack = rd k (code - 4), ap_entry = rd k (code - 8), ap_pgdir = rd k (code - 12)\<rparr>;
            s = s\<lparr>sm_k := k, sm_lapic := la, sm_outs := sm_outs s @ outs, ap_finds := ap_finds s @ [found]\<rparr> in
        if \<not> started c then Diverge
        else startothers_loop (Suc c) ids self started code mpenter pgdir s))"

definition startothers :: "uint \<Rightarrow> uint \<Rightarrow> uint \<Rightarrow> uint \<Rightarrow> uchar list \<Rightarrow> nat \<Rightarrow> (nat \<Rightarrow> bool) \<Rightarrow> smp \<Rightarrow> smp res" where
  "startothers entryother_start entryother_size mpenter pgdir ids self started s =
     (let code = p2v 0x7000;
          s = s\<lparr>sm_k := upd_mem (memmove code entryother_start entryother_size) (sm_k s)\<rparr> in
      startothers_loop 0 ids self started code mpenter pgdir s)"

abbreviation (input) code_at :: uint where "code_at \<equiv> 0x80007000"
abbreviation (input) params :: uint where "params \<equiv> 0x80006000"

text \<open>The memory after the parameters are stored and the warm reset vector is set.\<close>

definition ap_mem :: "uint \<Rightarrow> uint \<Rightarrow> uint \<Rightarrow> mem \<Rightarrow> mem" where
  "ap_mem stack mpenter pgdir m =
     (store32 (store32 (store32 m 0x80006FFC (stack + KSTACKSIZE)) 0x80006FF8 mpenter) 0x80006FF4 (v2p pgdir))
       (0x80000467 := 0, 0x80000468 := 0, 0x80000469 := 0, 0x8000046A := 7)"

lemma ap_mem_words:
  "load32 (ap_mem stack mpenter pgdir m) 0x80006FFC = stack + KSTACKSIZE"
  "load32 (ap_mem stack mpenter pgdir m) 0x80006FF8 = mpenter"
  "load32 (ap_mem stack mpenter pgdir m) 0x80006FF4 = v2p pgdir"
  "touches {params, 0x80000000} m (ap_mem stack mpenter pgdir m)"
proof -
  have p: "params mod 4096 = 0" by simp
  have a: "0x80006FFC = ent params 1023" "0x80006FF8 = ent params 1022" "0x80006FF4 = ent params 1021" by (simp_all add: ent_def)
  let ?m = "store32 (store32 (store32 m (ent params 1023) (stack + KSTACKSIZE)) (ent params 1022) mpenter) (ent params 1021) (v2p pgdir)"
  have e: "ap_mem stack mpenter pgdir m = ?m(0x80000467 := 0, 0x80000468 := 0, 0x80000469 := 0, 0x8000046A := 7)" unfolding ap_mem_def a ..
  have q: "ap_mem stack mpenter pgdir m x = ?m x" if "\<not> in_page 0x80000000 x" for x
    using that unfolding e fun_upd_apply by (auto simp: in_page_def)
  have "ap_mem stack mpenter pgdir m x = ?m x" if "in_page params x" for x by (rule q, rule pages_apart [OF p _ _ that]) simp_all
  then have l: "load32 (ap_mem stack mpenter pgdir m) (ent params i) = load32 ?m (ent params i)" if "unat i < 1024" for i
    using load32_ent_cong [OF p that] by blast
  note S = load32_store32_ent [OF p p]
  show "load32 (ap_mem stack mpenter pgdir m) 0x80006FFC = stack + KSTACKSIZE" unfolding a by (simp add: l S)
  show "load32 (ap_mem stack mpenter pgdir m) 0x80006FF8 = mpenter" unfolding a by (simp add: l S)
  show "load32 (ap_mem stack mpenter pgdir m) 0x80006FF4 = v2p pgdir" unfolding a by (simp add: l S)
  have t: "touches {params} n (store32 n (ent params i) v)" if "unat i < 1024" for n i v
    using store32_ent_out [OF p that] by (simp add: touches_def)
  have "touches ({params} \<union> ({params} \<union> {params})) m ?m" by (rule touches_trans [OF t touches_trans [OF t t]]) simp_all
  moreover have "touches {0x80000000} ?m (ap_mem stack mpenter pgdir m)" using q by (simp add: touches_def)
  ultimately have "touches (({params} \<union> ({params} \<union> {params})) \<union> {0x80000000}) m (ap_mem stack mpenter pgdir m)" by (rule touches_trans)
  then show "touches {params, 0x80000000} m (ap_mem stack mpenter pgdir m)" by (simp add: insert_commute)
qed

lemma startothers_step:
  assumes "kalloc (sm_k s) = Ret (p, k)" and "c \<noteq> self" and "started c"
  shows "\<exists>t. startothers_loop c (a # ids) self started code_at mpenter pgdir s = startothers_loop (Suc c) ids self started code_at mpenter pgdir t
    \<and> sm_k t = upd_mem (ap_mem p mpenter pgdir) k
    \<and> ap_finds t = ap_finds s @ [\<lparr>apic_id = a, ap_stack = p + KSTACKSIZE, ap_entry = mpenter, ap_pgdir = v2p pgdir\<rparr>]"
proof -
  let ?k = "wr (code_at - 12) (v2p pgdir) (wr (code_at - 8) mpenter (wr (code_at - 4) (p + KSTACKSIZE) k))"
  have z: "(1792 :: uchar) = 0" by (simp add: word_unat_eq_iff)
  obtain la where la: "lapicstartap a (v2p code_at) (kmem_mem ?k) (sm_lapic s) = ([(0x70, 0xF), (0x71, 0x0A)], ap_mem p mpenter pgdir (kmem_mem k), la)"
    by (simp add: lapicstartap_def ap_mem_def wr_def p2v_def v2p_def Let_def z)
  have k: "upd_mem (\<lambda>_. ap_mem p mpenter pgdir (kmem_mem k)) ?k = upd_mem (ap_mem p mpenter pgdir) k" by (simp add: upd_mem_def wr_def)
  have r: "rd (upd_mem (ap_mem p mpenter pgdir) k) 0x80006FFC = p + KSTACKSIZE" "rd (upd_mem (ap_mem p mpenter pgdir) k) 0x80006FF8 = mpenter"
    "rd (upd_mem (ap_mem p mpenter pgdir) k) 0x80006FF4 = v2p pgdir" by (simp_all add: rd_def ap_mem_words)
  let ?t = "s\<lparr>sm_k := upd_mem (ap_mem p mpenter pgdir) k, sm_lapic := la, sm_outs := sm_outs s @ [(0x70, 0xF), (0x71, 0x0A)],
     ap_finds := ap_finds s @ [\<lparr>apic_id = a, ap_stack = p + KSTACKSIZE, ap_entry = mpenter, ap_pgdir = v2p pgdir\<rparr>]\<rparr>"
  have "startothers_loop c (a # ids) self started code_at mpenter pgdir s = startothers_loop (Suc c) ids self started code_at mpenter pgdir ?t"
    using assms la k r by (simp add: Let_def)
  then show ?thesis by (intro exI [of _ ?t]) simp
qed

text \<open>Each processor but the first gets a page of the allocator as its stack, each a different one.\<close>

lemma startothers_loop_stacks:
  assumes "free_pages kend (sm_k s) xs" and "KERNLINK \<le> kend" and "\<And>c. started c" and "length ids \<le> length xs"
  shows "\<exists>t n. startothers_loop c ids self started code_at mpenter pgdir s = Ret t \<and> n \<le> length ids \<and> free_pages kend (sm_k t) (drop n xs)
    \<and> (\<exists>as. ap_finds t = ap_finds s @ as \<and> map ap_stack as = map (\<lambda>p. p + KSTACKSIZE) (take n xs)
      \<and> map apic_id as = map snd (filter (\<lambda>(i, _). i \<noteq> self) (zip [c..<c + length ids] ids))
      \<and> (\<forall>a \<in> set as. ap_entry a = mpenter \<and> ap_pgdir a = v2p pgdir))"
  using assms(1,4)
proof (induction ids arbitrary: c s xs)
  case Nil
  then show ?case by (intro exI [of _ s] exI [of _ 0]) simp
next
  case (Cons a ids)
  have z: "zip [c..<c + length (a # ids)] (a # ids) = (c, a) # zip [Suc c..<Suc c + length ids] ids" by (simp add: upt_rec)
  show ?case
  proof (cases "c = self")
    case True
    obtain t n where t: "startothers_loop (Suc c) ids self started code_at mpenter pgdir s = Ret t" "n \<le> length ids" "free_pages kend (sm_k t) (drop n xs)"
      "\<exists>as. ap_finds t = ap_finds s @ as \<and> map ap_stack as = map (\<lambda>p. p + KSTACKSIZE) (take n xs)
      \<and> map apic_id as = map snd (filter (\<lambda>(i, _). i \<noteq> self) (zip [Suc c..<Suc c + length ids] ids))
      \<and> (\<forall>a \<in> set as. ap_entry a = mpenter \<and> ap_pgdir a = v2p pgdir)" using Cons.IH [OF Cons.prems(1), of "Suc c"] Cons.prems(2) by auto
    then show ?thesis using True unfolding z by (intro exI [of _ t] exI [of _ n]) simp
  next
    case False
    obtain p ps where xs: "xs = p # ps" using Cons.prems(2) by (cases xs) auto
    obtain k where k: "kalloc (sm_k s) = Ret (p, k)" "free_pages kend k ps" using kalloc_spec [OF Cons.prems(1)] xs by auto
    obtain u where u: "startothers_loop c (a # ids) self started code_at mpenter pgdir s = startothers_loop (Suc c) ids self started code_at mpenter pgdir u"
      "sm_k u = upd_mem (ap_mem p mpenter pgdir) k"
      "ap_finds u = ap_finds s @ [\<lparr>apic_id = a, ap_stack = p + KSTACKSIZE, ap_entry = mpenter, ap_pgdir = v2p pgdir\<rparr>]"
      using startothers_step [of s p k c self started, OF k(1) False assms(3)] by blast
    have lo: "x \<notin> set ps" if "x < KERNLINK" for x using that free_pages_page_ok [OF k(2), of x] assms(2) by (auto simp: page_ok_def)
    have "free_pages kend (sm_k u) ps" unfolding u(2)
      by (rule free_pages_touch [where f = "ap_mem p mpenter pgdir", OF k(2) ap_mem_words(4)]) (use lo in auto)
    then obtain t n as where t: "startothers_loop (Suc c) ids self started code_at mpenter pgdir u = Ret t" "n \<le> length ids" "free_pages kend (sm_k t) (drop n ps)"
      "ap_finds t = ap_finds u @ as" "map ap_stack as = map (\<lambda>p. p + KSTACKSIZE) (take n ps)"
      "map apic_id as = map snd (filter (\<lambda>(i, _). i \<noteq> self) (zip [Suc c..<Suc c + length ids] ids))"
      "\<forall>a \<in> set as. ap_entry a = mpenter \<and> ap_pgdir a = v2p pgdir" using Cons.IH [of u ps "Suc c"] Cons.prems(2) xs by auto
    let ?as = "\<lparr>apic_id = a, ap_stack = p + KSTACKSIZE, ap_entry = mpenter, ap_pgdir = v2p pgdir\<rparr> # as"
    have "ap_finds t = ap_finds s @ ?as" using t(4) u(3) by simp
    then show ?thesis using u(1) t False xs unfolding z by (intro exI [of _ t] exI [of _ "Suc n"] conjI exI [of _ ?as]) simp_all
  qed
qed

end
