(* ===== verification/Vm_Space.thy ===== *)
theory Vm_Space
  imports Vm_Map
begin

section \<open>Address spaces (vm.c)\<close>

text \<open>
  A whole address space: the kernel's part, the same in each, and \<open>n\<close> pages of user memory from 0 on,
  each in a page of its own (\<open>space_ok\<close>). Lemmas: \<open>setupkvm\<close> makes an address space without user
  memory, \<open>inituvm\<close> gives it the first process's page, and \<open>copyuvm\<close> makes a copy of it in fresh pages.
\<close>

subsection \<open>The kernel's part\<close>

definition kregion :: "kmap \<Rightarrow> uint \<Rightarrow> bool" where
  "kregion k = pages_of (km_virt k) (km_phys_end k - km_phys_start k)"

definition kentry :: "kmap \<Rightarrow> uint \<Rightarrow> uint" where
  "kentry k va = (km_phys_start k + (PGROUNDDOWN va - PGROUNDDOWN (km_virt k))) OR km_perm k OR PTE_P"

text \<open>The entry for an address in the first region of the table that has it.\<close>

fun kern_map :: "kmap list \<Rightarrow> uint \<Rightarrow> uint option" where
  "kern_map [] va = None"
| "kern_map (k # ks) va = (if kregion k va then Some (kentry k va) else kern_map ks va)"

fun kmaps_ok :: "kmap list \<Rightarrow> bool" where
  "kmaps_ok [] \<longleftrightarrow> True"
| "kmaps_ok (k # ks) \<longleftrightarrow> km_phys_end k \<noteq> km_phys_start k
     \<and> unat (km_virt k) + unat (km_phys_end k - km_phys_start k) \<le> 2 ^ 32
     \<and> (\<forall>va. kregion k va \<longrightarrow> kern_map ks va = None) \<and> kmaps_ok ks"

lemma map_kernel_maps:
  assumes "vm_ok kend d s zs" and "kmaps_ok ks" and "\<And>va. kern_map ks va \<noteq> None \<Longrightarrow> lookup (kmem_mem s) d va = None"
  shows "\<exists>r t xs. map_kernel ks d s = Ret (r, t) \<and> grows kend d 0 s zs t xs
    \<and> (r = d \<and> (\<forall>va. lookup (kmem_mem t) d va = (case kern_map ks va of Some e \<Rightarrow> Some e | None \<Rightarrow> lookup (kmem_mem s) d va))
       \<or> r = 0 \<and> xs = [] \<and> card (slots (kmem_mem t) d) < 1024)"
  using assms
proof (induction ks arbitrary: s zs)
  case Nil
  then show ?case using grows_refl by fastforce
next
  case (Cons k ks)
  let ?sz = "km_phys_end k - km_phys_start k"
  have pos: "0 < ?sz" using Cons.prems(2) by (simp add: word_neq_0_conv [symmetric])
  have un: "lookup (kmem_mem s) d x = None" if "pages_of (km_virt k) ?sz x" for x using Cons.prems(3) [of x] that by (simp add: kregion_def)
  have lim: "unat (km_virt k) + unat ?sz \<le> 2 ^ 32" using Cons.prems(2) by simp
  obtain r t where r: "mappages d (km_virt k) ?sz (km_phys_start k) (km_perm k) s = Ret (r, t)"
    "maps_to kend d s zs (pages_of (km_virt k) ?sz)
      (\<lambda>x. (km_phys_start k + (PGROUNDDOWN x - PGROUNDDOWN (km_virt k))) OR km_perm k OR PTE_P) r t"
    using mappages_maps [OF Cons.prems(1) pos lim, where pa = "km_phys_start k" and perm = "km_perm k"] un by blast
  then obtain ys where g: "grows kend d 0 s zs t ys" and out: "\<And>x. \<not> kregion k x \<Longrightarrow> lookup (kmem_mem t) d x = lookup (kmem_mem s) d x"
    and c: "r = 0 \<and> (\<forall>x. kregion k x \<longrightarrow> lookup (kmem_mem t) d x = Some (kentry k x)) \<or> r = - 1 \<and> ys = [] \<and> card (slots (kmem_mem t) d) < 1024"
    by (auto simp: maps_to_def mapped_def kregion_def kentry_def)
  from c show ?case
  proof (elim disjE conjE)
    assume "r = - 1" "ys = []" "card (slots (kmem_mem t) d) < 1024"
    then show ?thesis using r(1) g by auto
  next
    assume r0: "r = 0" and ins: "\<forall>x. kregion k x \<longrightarrow> lookup (kmem_mem t) d x = Some (kentry k x)"
    have "lookup (kmem_mem t) d va = None" if "kern_map ks va \<noteq> None" for va
    proof -
      have "\<not> kregion k va" using that Cons.prems(2) by auto
      then show ?thesis using that Cons.prems(3) [of va] out [of va] by simp
    qed
    from Cons.IH [OF grows_vm_ok [OF g] _ this] Cons.prems(2)
    obtain r' u xs where u: "map_kernel ks d t = Ret (r', u)" "grows kend d 0 t ys u xs"
      "r' = d \<and> (\<forall>va. lookup (kmem_mem u) d va = (case kern_map ks va of Some e \<Rightarrow> Some e | None \<Rightarrow> lookup (kmem_mem t) d va))
       \<or> r' = 0 \<and> xs = [] \<and> card (slots (kmem_mem u) d) < 1024" by auto
    have "(case kern_map ks va of Some e \<Rightarrow> Some e | None \<Rightarrow> lookup (kmem_mem t) d va)
      = (case kern_map (k # ks) va of Some e \<Rightarrow> Some e | None \<Rightarrow> lookup (kmem_mem s) d va)" for va
      using Cons.prems(2) ins out [of va] by (auto split: option.split)
    then show ?thesis using u r(1) r0 grows_trans [OF g u(2)] by auto
  qed
qed

text \<open>The end of the kernel's code, where its data starts, is at the start of a page between the
  address the kernel is linked at and the end of physical memory.\<close>

definition kdata_ok :: "uint \<Rightarrow> bool" where
  "kdata_ok kdata \<longleftrightarrow> kdata mod 4096 = 0 \<and> KERNLINK < kdata \<and> kdata < p2v PHYSTOP"

lemma kregions:
  assumes "kdata_ok kdata"
  shows "kregion \<lparr>km_virt = KERNBASE, km_phys_start = 0, km_phys_end = EXTMEM, km_perm = PTE_W\<rparr> va
      \<longleftrightarrow> 0x80000000 \<le> unat va \<and> unat va < 0x80100000"
    and "kregion \<lparr>km_virt = KERNLINK, km_phys_start = v2p KERNLINK, km_phys_end = v2p kdata, km_perm = 0\<rparr> va
      \<longleftrightarrow> 0x80100000 \<le> unat va \<and> unat va < unat kdata"
    and "kregion \<lparr>km_virt = kdata, km_phys_start = v2p kdata, km_phys_end = PHYSTOP, km_perm = PTE_W\<rparr> va
      \<longleftrightarrow> unat kdata \<le> unat va \<and> unat va < 0x8E000000"
    and "kregion \<lparr>km_virt = DEVSPACE, km_phys_start = DEVSPACE, km_phys_end = 0, km_perm = PTE_W\<rparr> va \<longleftrightarrow> 0xFE000000 \<le> unat va"
    and "unat (v2p kdata - v2p KERNLINK) = unat kdata - 0x80100000" and "unat (PHYSTOP - v2p kdata) = 0x8E000000 - unat kdata"
    and "0x80100000 < unat kdata" and "unat kdata < 0x8E000000"
proof -
  show k: "0x80100000 < unat kdata" "unat kdata < 0x8E000000" using assms by (simp_all add: kdata_ok_def word_less_nat_alt p2v_def)
  have al: "4096 dvd unat kdata" using assms by (simp add: kdata_ok_def aligned_unat)
  have e: "v2p kdata - v2p KERNLINK = kdata - 0x80100000" "PHYSTOP - v2p kdata = 0x8E000000 - kdata" by (simp_all add: v2p_def)
  show u2: "unat (v2p kdata - v2p KERNLINK) = unat kdata - 0x80100000" unfolding e using k by (simp add: unat_sub_if')
  show u3: "unat (PHYSTOP - v2p kdata) = 0x8E000000 - unat kdata" unfolding e using k by (simp add: unat_sub_if')
  have a2: "(v2p kdata - v2p KERNLINK) mod 4096 = 0" unfolding aligned_unat u2 by (rule dvd_diff_nat [OF al]) simp
  have a3: "(PHYSTOP - v2p kdata) mod 4096 = 0" unfolding aligned_unat u3 by (rule dvd_diff_nat [OF _ al]) simp
  show "kregion \<lparr>km_virt = KERNBASE, km_phys_start = 0, km_phys_end = EXTMEM, km_perm = PTE_W\<rparr> va
      \<longleftrightarrow> 0x80000000 \<le> unat va \<and> unat va < 0x80100000"
    using pages_of_aligned [of KERNBASE EXTMEM va] by (simp add: kregion_def)
  show "kregion \<lparr>km_virt = KERNLINK, km_phys_start = v2p KERNLINK, km_phys_end = v2p kdata, km_perm = 0\<rparr> va
      \<longleftrightarrow> 0x80100000 \<le> unat va \<and> unat va < unat kdata"
    using pages_of_aligned [of KERNLINK "v2p kdata - v2p KERNLINK" va, OF _ a2] u2 k by (simp add: kregion_def word_less_nat_alt)
  show "kregion \<lparr>km_virt = kdata, km_phys_start = v2p kdata, km_phys_end = PHYSTOP, km_perm = PTE_W\<rparr> va
      \<longleftrightarrow> unat kdata \<le> unat va \<and> unat va < 0x8E000000"
    using pages_of_aligned [of kdata "PHYSTOP - v2p kdata" va, OF _ a3] u3 k assms by (simp add: kregion_def word_less_nat_alt kdata_ok_def)
  show "kregion \<lparr>km_virt = DEVSPACE, km_phys_start = DEVSPACE, km_phys_end = 0, km_perm = PTE_W\<rparr> va \<longleftrightarrow> 0xFE000000 \<le> unat va"
    using pages_of_aligned [of DEVSPACE "0 - DEVSPACE" va] unat_lt_2p32 [of va] by (simp add: kregion_def word_less_nat_alt)
qed

lemma kmaps_kmaps_ok: "kdata_ok kdata \<Longrightarrow> kmaps_ok (kmaps kdata)"
proof -
  assume k: "kdata_ok kdata"
  note r = kregions [OF k]
  have "v2p kdata \<noteq> v2p KERNLINK" "PHYSTOP \<noteq> v2p kdata" using r(5-8) by auto
  then show ?thesis using r(5-8) by (auto simp: kmaps_def r(1-4))
qed

lemma kern_map_user: "kdata_ok kdata \<Longrightarrow> unat va < 0x80000000 \<Longrightarrow> kern_map (kmaps kdata) va = None"
  using kregions(1-4) [of kdata va] kregions(7) [of kdata] by (simp add: kmaps_def)

text \<open>\<open>setupkvm\<close> takes a page for the directory and maps the kernel in it.\<close>

lemma setupkvm_maps:
  assumes "free_pages kend s zs" and "kdata_ok kdata"
  shows "\<exists>r t ys xs. setupkvm kdata s = Ret (r, t) \<and> free_pages kend t xs \<and> zs = ys @ xs \<and> touches (set ys) (kmem_mem s) (kmem_mem t)
    \<and> (r = 0 \<and> xs = [] \<and> length zs < 1025
       \<or> r \<noteq> 0 \<and> vm_ok kend r t xs \<and> own (kmem_mem t) r \<subseteq> set ys \<and> lookup (kmem_mem t) r = kern_map (kmaps kdata)
         \<and> length zs = Suc (length xs + card (slots (kmem_mem t) r)))"
proof -
  from kalloc_spec [OF assms(1)] obtain s1 where a: "kalloc s = Ret (case zs of [] \<Rightarrow> 0 | p # _ \<Rightarrow> p, s1)" "free_pages kend s1 (tl zs)" "kmem_mem s1 = kmem_mem s"
    by blast
  show ?thesis
  proof (cases zs)
    case Nil
    then show ?thesis using a by (intro exI [of _ 0] exI [of _ s1] exI [of _ "[]"]) (simp add: setupkvm_def)
  next
    case (Cons d ps)
    have d: "page_ok kend d" "d \<notin> set ps" "d \<noteq> 0" using assms(1) Cons by (auto simp: free_pages_def)
    let ?s = "upd_mem (memset d 0 4096) s1"
    have "free_pages kend s1 ps" using a(2) Cons by simp
    note f = fresh_dir [OF d(1) this d(2)]
    from map_kernel_maps [OF f(1) kmaps_kmaps_ok [OF assms(2)], unfolded f(2)]
    obtain r t xs where m: "map_kernel (kmaps kdata) d ?s = Ret (r, t)" "grows kend d 0 ?s ps t xs"
      "r = d \<and> (\<forall>va. lookup (kmem_mem t) d va = (case kern_map (kmaps kdata) va of Some e \<Rightarrow> Some e | None \<Rightarrow> None))
       \<or> r = 0 \<and> xs = [] \<and> card (slots (kmem_mem t) d) < 1024" by auto
    have run: "setupkvm kdata s = Ret (r, t)" using a(1) Cons d(3) m(1) by (simp add: setupkvm_def p2v_def)
    from m(2) f(3,4) obtain ys where ys: "ps = ys @ xs" "own (kmem_mem t) d \<subseteq> insert d (set ys)" "touches (insert d (set ys)) (kmem_mem ?s) (kmem_mem t)"
      "vm_ok kend d t xs" "length ps = length xs + card (slots (kmem_mem t) d)" by (auto simp: grows_def)
    have "touches (set (d # ys)) (kmem_mem s) (kmem_mem t)"
      using touches_trans [OF memset_touches [of d "kmem_mem s" 0] ys(3) [unfolded upd_mem_mem a(3)]] by (simp add: insert_absorb2)
    moreover have "lookup (kmem_mem t) d = kern_map (kmaps kdata)" if "r = d" using that m(3) d(3) by (fastforce split: option.splits)
    ultimately show ?thesis using run ys m(3) d(3) Cons
      by (intro exI [of _ r] exI [of _ t] exI [of _ "d # ys"] exI [of _ xs]) (auto simp: vm_ok_def)
  qed
qed

subsection \<open>User memory\<close>

definition space_ok :: "uint \<Rightarrow> uint \<Rightarrow> uint \<Rightarrow> nat \<Rightarrow> kst \<Rightarrow> uint list \<Rightarrow> bool" where
  "space_ok kend kdata d n s zs \<longleftrightarrow> vm_ok kend d s zs \<and> 4096 * n \<le> 0x80000000
     \<and> (\<forall>va. 4096 * n \<le> unat va \<longrightarrow> lookup (kmem_mem s) d va = kern_map (kmaps kdata) va)
     \<and> (\<forall>va. unat va < 4096 * n \<longrightarrow> (\<exists>e. lookup (kmem_mem s) d va = Some e \<and> page_ok kend (ptab e) \<and> ptab e \<notin> set zs \<union> own (kmem_mem s) d))
     \<and> (\<forall>va vb e e'. unat va < 4096 * n \<longrightarrow> unat vb < 4096 * n \<longrightarrow> lookup (kmem_mem s) d va = Some e \<longrightarrow> lookup (kmem_mem s) d vb = Some e'
         \<longrightarrow> ptab e = ptab e' \<longrightarrow> PGROUNDDOWN va = PGROUNDDOWN vb)"

lemma space_okD:
  assumes "space_ok kend kdata d n s zs"
  shows "vm_ok kend d s zs" and "4096 * n \<le> 0x80000000"
    and "4096 * n \<le> unat va \<Longrightarrow> lookup (kmem_mem s) d va = kern_map (kmaps kdata) va"
    and "unat va < 4096 * n \<Longrightarrow> \<exists>e. lookup (kmem_mem s) d va = Some e"
    and "unat va < 4096 * n \<Longrightarrow> lookup (kmem_mem s) d va = Some e \<Longrightarrow> page_ok kend (ptab e) \<and> ptab e \<notin> set zs \<and> ptab e \<notin> own (kmem_mem s) d"
    and "unat va < 4096 * n \<Longrightarrow> unat vb < 4096 * n \<Longrightarrow> lookup (kmem_mem s) d va = Some e \<Longrightarrow> lookup (kmem_mem s) d vb = Some e'
       \<Longrightarrow> ptab e = ptab e' \<Longrightarrow> PGROUNDDOWN va = PGROUNDDOWN vb"
proof -
  show "vm_ok kend d s zs" "4096 * n \<le> 0x80000000" using assms by (simp_all add: space_ok_def)
  show "4096 * n \<le> unat va \<Longrightarrow> lookup (kmem_mem s) d va = kern_map (kmaps kdata) va" using assms by (simp add: space_ok_def)
  show "unat va < 4096 * n \<Longrightarrow> \<exists>e. lookup (kmem_mem s) d va = Some e" using assms unfolding space_ok_def by blast
  show "unat va < 4096 * n \<Longrightarrow> lookup (kmem_mem s) d va = Some e \<Longrightarrow> page_ok kend (ptab e) \<and> ptab e \<notin> set zs \<and> ptab e \<notin> own (kmem_mem s) d"
    using assms unfolding space_ok_def by fastforce
  show "unat va < 4096 * n \<Longrightarrow> unat vb < 4096 * n \<Longrightarrow> lookup (kmem_mem s) d va = Some e \<Longrightarrow> lookup (kmem_mem s) d vb = Some e'
       \<Longrightarrow> ptab e = ptab e' \<Longrightarrow> PGROUNDDOWN va = PGROUNDDOWN vb" using assms unfolding space_ok_def by blast
qed

lemma user_page:
  assumes "4096 * Suc i \<le> 0x80000000"
  defines "a \<equiv> of_nat (4096 * i) :: uint"
  shows "unat a = 4096 * i" and "a mod 4096 = 0" and "PGROUNDDOWN va = a \<longleftrightarrow> 4096 * i \<le> unat va \<and> unat va < 4096 * Suc i"
    and "pages_of a 4096 va \<longleftrightarrow> PGROUNDDOWN va = a"
proof -
  show a: "unat a = 4096 * i" unfolding a_def using assms(1) by (simp only: unat_of_nat) (simp add: take_bit_eq_mod)
  then show al: "a mod 4096 = 0" by (simp add: aligned_unat)
  show p: "PGROUNDDOWN va = a \<longleftrightarrow> 4096 * i \<le> unat va \<and> unat va < 4096 * Suc i" using in_range_0 [OF al, of va] a by (auto simp: in_range_def)
  show "pages_of a 4096 va \<longleftrightarrow> PGROUNDDOWN va = a" using pages_of_aligned [OF al, of 4096 va] a assms(1) unfolding p by auto
qed

lemma space_ok_add:
  assumes ok: "space_ok kend kdata d i s (p # ys @ xs)" and lim: "4096 * Suc i \<le> 0x80000000" and vm: "vm_ok kend d t xs"
    and own: "own (kmem_mem t) d \<subseteq> own (kmem_mem s) d \<union> set ys"
    and lu: "\<And>va. lookup (kmem_mem t) d va = (if PGROUNDDOWN va = of_nat (4096 * i) then Some e else lookup (kmem_mem s) d va)"
    and e: "ptab e = p"
  shows "space_ok kend kdata d (Suc i) t xs"
proof -
  let ?new = "\<lambda>va. PGROUNDDOWN va = (of_nat (4096 * i) :: uint)"
  note D = space_okD [OF ok] and U = user_page(3) [OF lim]
  have old: "unat va < 4096 * i" if "unat va < 4096 * Suc i" "\<not> ?new va" for va using that U [of va] by auto
  have p: "p \<notin> own (kmem_mem s) d" "page_ok kend p" "p \<notin> set (ys @ xs)"
    using free_page_apart [OF D(1), of p] D(1) by (auto simp: vm_ok_def free_pages_def)
  have fr: "ptab x \<noteq> p" "page_ok kend (ptab x)" "ptab x \<notin> set xs \<union> own (kmem_mem t) d"
    if "lookup (kmem_mem s) d va = Some x" "unat va < 4096 * i" for va x using D(5) [OF that(2,1)] own by auto
  have "lookup (kmem_mem t) d va = kern_map (kmaps kdata) va" if "4096 * Suc i \<le> unat va" for va
    using that D(3) [of va] lu [of va] U [of va] by simp
  moreover have "\<exists>x. lookup (kmem_mem t) d va = Some x \<and> page_ok kend (ptab x) \<and> ptab x \<notin> set xs \<union> own (kmem_mem t) d"
    if "unat va < 4096 * Suc i" for va
  proof (cases "?new va")
    case True
    then show ?thesis using lu [of va] e p own by auto
  next
    case False
    then show ?thesis using lu [of va] D(4) [OF old [OF that False]] fr [OF _ old [OF that False]] by auto
  qed
  moreover have "PGROUNDDOWN va = PGROUNDDOWN vb" if "unat va < 4096 * Suc i" "unat vb < 4096 * Suc i"
    "lookup (kmem_mem t) d va = Some x" "lookup (kmem_mem t) d vb = Some y" "ptab x = ptab y" for va vb x y
  proof (cases "?new va \<or> ?new vb")
    case True
    have "?new va" if "?new vb" using that lu fr(1) [of va x] old [of va] \<open>unat va < 4096 * Suc i\<close>
      \<open>lookup (kmem_mem t) d va = Some x\<close> \<open>lookup (kmem_mem t) d vb = Some y\<close> \<open>ptab x = ptab y\<close> e by (cases "?new va") simp_all
    moreover have "?new vb" if "?new va" using that lu fr(1) [of vb y] old [of vb] \<open>unat vb < 4096 * Suc i\<close>
      \<open>lookup (kmem_mem t) d va = Some x\<close> \<open>lookup (kmem_mem t) d vb = Some y\<close> \<open>ptab x = ptab y\<close> e by (cases "?new vb") simp_all
    ultimately show ?thesis using True by auto
  next
    case False
    then have n: "\<not> ?new va" "\<not> ?new vb" by simp_all
    have "lookup (kmem_mem s) d va = Some x" "lookup (kmem_mem s) d vb = Some y" using lu [of va] lu [of vb] n that(3,4) by simp_all
    from D(6) [OF old [OF that(1) n(1)] old [OF that(2) n(2)] this that(5)] show ?thesis .
  qed
  ultimately show ?thesis using vm lim unfolding space_ok_def by blast
qed

text \<open>One more page of user memory, as \<open>inituvm\<close>, \<open>allocuvm\<close> and \<open>copyuvm\<close> add it.\<close>

lemma add_page:
  fixes flags :: uint
  assumes ok: "space_ok kend kdata d i s (p # zs)" and lim: "4096 * Suc i \<le> 0x80000000" and kd: "kdata_ok kdata"
    and s1: "free_pages kend s1 zs" "kmem_mem s1 = kmem_mem s" and f: "touches {p} (kmem_mem s) (f (kmem_mem s))"
    and fl: "flags AND NOT 0xFFF = 0" and enough: "1024 \<le> length zs + card (slots (kmem_mem s) d)"
  shows "\<exists>t ys xs. mappages d (of_nat (4096 * i)) 4096 (v2p p) flags (upd_mem f s1) = Ret (0, t) \<and> zs = ys @ xs
    \<and> space_ok kend kdata d (Suc i) t xs \<and> touches (insert p (own (kmem_mem s) d \<union> set ys)) (kmem_mem s) (kmem_mem t)
    \<and> own (kmem_mem t) d \<subseteq> own (kmem_mem s) d \<union> set ys \<and> agree {p} (f (kmem_mem s)) (kmem_mem t)
    \<and> (\<forall>va. lookup (kmem_mem t) d va = (if PGROUNDDOWN va = of_nat (4096 * i) then Some (v2p p OR (flags OR PTE_P)) else lookup (kmem_mem s) d va))
    \<and> length zs + card (slots (kmem_mem s) d) = length xs + card (slots (kmem_mem t) d)"
proof -
  let ?a = "of_nat (4096 * i) :: uint" and ?u = "upd_mem f s1" and ?e = "v2p p OR (flags OR PTE_P)"
  note D = space_okD [OF ok] and U = user_page [OF lim]
  note tp = take_page [where f = f, OF D(1) s1 f]
  have "lookup (kmem_mem ?u) d x = None" if "pages_of ?a 4096 x" for x
  proof -
    have x: "4096 * i \<le> unat x" "unat x < 0x80000000" using that lim unfolding U(4) U(3) by simp_all
    then show ?thesis using D(3) [OF x(1)] kern_map_user [OF kd x(2)] tp(2) by simp
  qed
  moreover have "unat ?a + unat (4096 :: uint) \<le> 2 ^ 32" using U(1) lim by simp
  ultimately obtain r t where r: "mappages d ?a 4096 (v2p p) flags ?u = Ret (r, t)"
    "maps_to kend d ?u zs (pages_of ?a 4096) (\<lambda>x. (v2p p + (PGROUNDDOWN x - PGROUNDDOWN ?a)) OR flags OR PTE_P) r t"
    using mappages_maps [OF grows_vm_ok [OF tp(1)], of 4096 ?a "v2p p" flags] by auto
  then obtain xs where g: "grows kend d 0 ?u zs t xs" and out: "\<And>va. PGROUNDDOWN va \<noteq> ?a \<Longrightarrow> lookup (kmem_mem t) d va = lookup (kmem_mem s) d va"
    and c: "r = 0 \<and> mapped (kmem_mem t) d (\<lambda>x. (v2p p + (PGROUNDDOWN x - PGROUNDDOWN ?a)) OR flags OR PTE_P) (pages_of ?a 4096)
      \<or> r = - 1 \<and> xs = [] \<and> card (slots (kmem_mem t) d) < 1024" using tp(2) U(4) unfolding maps_to_def by auto
  have len: "length zs + card (slots (kmem_mem s) d) = length xs + card (slots (kmem_mem t) d)"
    using g tp(1) unfolding grows_def by simp
  have r0: "r = 0" using c len enough by auto
  have ins: "lookup (kmem_mem t) d va = Some ?e" if "PGROUNDDOWN va = ?a" for va
    using c r0 that PGROUNDDOWN_self [OF U(2)] U(4) [of va] by (auto simp: mapped_def or.assoc)
  have lu: "lookup (kmem_mem t) d va = (if PGROUNDDOWN va = ?a then Some ?e else lookup (kmem_mem s) d va)" for va using ins out by simp
  from g tp(3) obtain ys where ys: "zs = ys @ xs" "own (kmem_mem t) d \<subseteq> own (kmem_mem s) d \<union> set ys"
    "touches (own (kmem_mem s) d \<union> set ys) (kmem_mem ?u) (kmem_mem t)" by (auto simp: grows_def)
  have p: "p \<notin> own (kmem_mem s) d" "page_ok kend p" "p mod 4096 = 0" "p \<notin> set zs"
    using free_page_apart [OF D(1), of p] D(1) by (auto simp: vm_ok_def free_pages_def)
  have mu: "kmem_mem ?u = f (kmem_mem s)" using s1(2) by simp
  have "touches (insert p (own (kmem_mem s) d \<union> set ys)) (kmem_mem s) (kmem_mem t)"
    using touches_trans [OF f ys(3) [unfolded mu]] by simp
  moreover have "agree {p} (f (kmem_mem s)) (kmem_mem t)"
  proof (rule touches_agree [OF ys(3) [unfolded mu]])
    show "(own (kmem_mem s) d \<union> set ys) \<inter> {p} = {}" using p(1,4) ys(1) by auto
    show "q mod 4096 = 0" if "q \<in> own (kmem_mem s) d \<union> set ys \<union> {p}" for q
      using that p(3) free_page_apart [OF D(1)] D(1) pd_ok_own [of kend "kmem_mem s" d q] page_ok_aligned ys(1) by (auto simp: vm_ok_def)
  qed
  moreover have "space_ok kend kdata d (Suc i) t xs"
  proof (rule space_ok_add [OF ok [unfolded ys(1)] lim grows_vm_ok [OF g] ys(2) lu])
    show "ptab ?e = p" using PTE_bits(1) [OF v2p_aligned [OF p(3)], of "flags OR PTE_P"] fl by (simp add: ptab_def bit.conj_disj_distrib2)
  qed
  ultimately show ?thesis using r(1) r0 ys(1,2) lu len by blast
qed

subsection \<open>copyuvm\<close>

text \<open>What a process sees at a user address: the flags of its page and the byte.\<close>

definition user_byte :: "mem \<Rightarrow> uint \<Rightarrow> uint \<Rightarrow> (uint \<times> uchar) option" where
  "user_byte m d va = map_option (\<lambda>e. (PTE_FLAGS e, m (ptab e + va mod 4096))) (lookup m d va)"

lemma page_in_page: "p mod 4096 = 0 \<Longrightarrow> in_page p (p + va mod 4096)"
  by (simp add: in_page_def word_mod_less_divisor)

lemma ptab_aligned: "ptab e mod 4096 = 0"
proof -
  have "p2v (PTE_ADDR e) = v2p (PTE_ADDR e)" by (simp add: p2v_def v2p_def)
  then show ?thesis using v2p_aligned [OF PTE_ADDR_aligned] by (simp add: ptab_def)
qed

text \<open>Another directory, its tables and the pages it maps below \<open>4096 * n\<close>, which are in neither of two sets.\<close>

definition other_ok :: "uint \<Rightarrow> mem \<Rightarrow> uint \<Rightarrow> nat \<Rightarrow> uint set \<Rightarrow> bool" where
  "other_ok kend m q n A \<longleftrightarrow> pd_ok kend m q \<and> own m q \<inter> A = {}
     \<and> (\<forall>va. unat va < 4096 * n \<longrightarrow> (\<exists>e. lookup m q va = Some e \<and> ptab e \<notin> A))"

lemma other_ok_touch:
  assumes "other_ok kend m q n A" and "touches B m m'" and "B \<subseteq> A" and "\<forall>p \<in> B. p mod 4096 = 0"
  shows "lookup m' q = lookup m q" and "own m' q = own m q" and "pd_ok kend m' q"
    and "unat va < 4096 * n \<Longrightarrow> user_byte m' q va = user_byte m q va"
    and "C \<subseteq> A \<Longrightarrow> other_ok kend m' q n C"
proof -
  have pd: "pd_ok kend m q" and o: "own m q \<inter> A = {}" using assms(1) by (simp_all add: other_ok_def)
  have "agree (own m q) m m'"
  proof (rule touches_agree [OF assms(2)])
    show "B \<inter> own m q = {}" using o assms(3) by blast
    show "p mod 4096 = 0" if "p \<in> B \<union> own m q" for p using that assms(4) pd_ok_own [OF pd] page_ok_aligned by blast
  qed
  note a = agree_pd [OF pd this]
  show lu: "lookup m' q = lookup m q" "own m' q = own m q" "pd_ok kend m' q" using a by simp_all
  show "user_byte m' q va = user_byte m q va" if va: "unat va < 4096 * n"
  proof -
    obtain e where e: "lookup m q va = Some e" "ptab e \<notin> B" using assms(1,3) va unfolding other_ok_def by blast
    have "m' (ptab e + va mod 4096) = m (ptab e + va mod 4096)"
    proof -
      have "\<not> in_page p (ptab e + va mod 4096)" if "p \<in> B" for p
        by (rule pages_apart [OF ptab_aligned bspec [OF assms(4) that] _ page_in_page [OF ptab_aligned]]) (use that e(2) in blast)
      then show ?thesis using assms(2) by (simp add: touches_def)
    qed
    then show ?thesis using e lu(1) by (simp add: user_byte_def)
  qed
  show "other_ok kend m' q n C" if "C \<subseteq> A" using assms(1) that unfolding other_ok_def lu(1,2) using lu(3) by blast
qed

lemma memmove_page:
  assumes "p mod 4096 = 0" and "q mod 4096 = 0" and "p \<noteq> q"
  shows "touches {p} m (memmove p q 4096 m)" and "memmove p q 4096 m (p + va mod 4096) = m (q + va mod 4096)"
proof -
  have "unat r + unat (4096 :: uint) \<le> 2 ^ 32" if "r mod 4096 = 0" for r :: uint
  proof -
    have "4096 dvd unat r" using that by (simp only: aligned_unat)
    then obtain i where "unat r = 4096 * i" by (rule dvdE)
    then show ?thesis using unat_lt_2p32 [of r] by simp
  qed
  then have e: "memmove p q 4096 m = (\<lambda>x. if x - p < 4096 then m (q + (x - p)) else m x)" using assms by (intro memmove_eq)
  show "touches {p} m (memmove p q 4096 m)" by (simp add: e touches_def in_page_def)
  show "memmove p q 4096 m (p + va mod 4096) = m (q + va mod 4096)" by (simp add: e word_mod_less_divisor)
qed

lemma flags_bits: "PTE_FLAGS e AND NOT 0xFFF = 0" "present e \<Longrightarrow> PTE_FLAGS e OR PTE_P = PTE_FLAGS e"
proof -
  have m: "(0xFFF :: uint) = mask 12" by (simp add: mask_eq_exp_minus_1)
  show "PTE_FLAGS e AND NOT 0xFFF = 0" unfolding PTE_FLAGS_def m by (rule bit_word_eqI) (auto simp: bit_simps)
  assume p: "present e"
  have "bit e 0"
  proof (rule ccontr)
    assume "\<not> bit e 0"
    then have "e AND 1 = 0" by (simp add: and_one_eq bit_0 even_iff_mod_2_eq_zero)
    then show False using p by (simp add: present_def)
  qed
  then have "bit (PTE_FLAGS e OR 1) n = bit (PTE_FLAGS e) n" for n
    unfolding PTE_FLAGS_def m by (cases n) (simp_all add: bit_simps)
  then show "PTE_FLAGS e OR PTE_P = PTE_FLAGS e" by (intro bit_word_eqI) simp
qed

lemma lookup_present: "lookup m d va = Some e \<Longrightarrow> present e"
  by (auto simp: lookup_def Let_def split: if_splits)

lemma lookup_page: "PGROUNDDOWN a = PGROUNDDOWN b \<Longrightarrow> lookup m d a = lookup m d b"
  using same_page [of a b] by (simp add: lookup_def Let_def cong: if_cong)

lemma walkpgdir_lookup:
  assumes "pd_ok kend (kmem_mem s) q" and "lookup (kmem_mem s) q va = Some e"
  shows "\<exists>pte. walkpgdir q va False s = Ret (pte, s) \<and> pte \<noteq> 0 \<and> rd s pte = e"
proof -
  let ?e = "pde (kmem_mem s) q (PDX va)"
  have pr: "present ?e" "load32 (kmem_mem s) (ent (ptab ?e) (PTX va)) = e" using assms(2) by (auto simp: lookup_def Let_def split: if_splits)
  then have "page_ok kend (ptab ?e)" using assms(1) by (simp add: pd_ok_def slots_def PDX_less)
  then have "unat (ptab ?e) \<noteq> 0" "ptab ?e mod 4096 = 0" by (auto simp: unat_eq_zero dest: page_ok_aligned)
  then have "unat (ent (ptab ?e) (PTX va)) \<noteq> 0" by (simp add: unat_ent PTX_less)
  then have "ent (ptab ?e) (PTX va) \<noteq> 0" by auto
  moreover have "walkpgdir q va False s = Ret (ent (ptab ?e) (PTX va), s)"
    using pr(1) by (simp add: walkpgdir_def rd_def pde_def ent_def ptab_def present_def Let_def)
  ultimately show ?thesis using pr(2) by (simp add: rd_def)
qed

text \<open>One round of \<open>copyuvm\<close>: the page at \<open>4096 * i\<close>.\<close>

lemma copy_page:
  assumes ok: "space_ok kend kdata d i s zs" and oth: "other_ok kend (kmem_mem s) q n (set zs \<union> own (kmem_mem s) d)" and i: "i < n"
    and kd: "kdata_ok kdata" and lim: "4096 * n \<le> 0x80000000" and enough: "1024 < length zs + card (slots (kmem_mem s) d)"
  shows "\<exists>p t ys xs. (\<forall>k. copyuvm_loop (Suc k) (of_nat (4096 * i)) kend q d s = copyuvm_loop k (of_nat (4096 * Suc i)) kend q d t)
    \<and> zs = p # ys @ xs \<and> space_ok kend kdata d (Suc i) t xs
    \<and> touches (own (kmem_mem s) d \<union> set (p # ys)) (kmem_mem s) (kmem_mem t) \<and> own (kmem_mem t) d \<subseteq> own (kmem_mem s) d \<union> set ys
    \<and> (\<forall>va. unat va < 4096 * i \<longrightarrow> lookup (kmem_mem t) d va = lookup (kmem_mem s) d va)
    \<and> (\<forall>va. 4096 * i \<le> unat va \<longrightarrow> unat va < 4096 * Suc i \<longrightarrow> user_byte (kmem_mem t) d va = user_byte (kmem_mem s) q va
        \<and> (\<exists>e. lookup (kmem_mem t) d va = Some e \<and> ptab e = p))
    \<and> length zs + card (slots (kmem_mem s) d) = Suc (length xs + card (slots (kmem_mem t) d))"
proof -
  let ?a = "of_nat (4096 * i) :: uint" and ?m = "kmem_mem s"
  have lim': "4096 * Suc i \<le> 0x80000000" using i lim by simp
  note U = user_page [OF lim']
  have "unat ?a < 4096 * n" using i U(1) by simp
  then obtain e where e: "lookup ?m q ?a = Some e" "ptab e \<notin> set zs \<union> own ?m d" using oth unfolding other_ok_def by blast
  obtain pte where pte: "walkpgdir q ?a False s = Ret (pte, s)" "pte \<noteq> 0" "rd s pte = e"
    using walkpgdir_lookup [of kend s q ?a e] oth e(1) unfolding other_ok_def by blast
  have pr: "present e" using e(1) by (rule lookup_present)
  obtain p zs' where zs: "zs = p # zs'" using enough card_slots [of ?m d] by (cases zs) auto
  obtain s1 where s1: "kalloc s = Ret (p, s1)" "free_pages kend s1 zs'" "kmem_mem s1 = ?m"
    using kalloc_spec [of kend s zs] space_okD(1) [OF ok] zs by (auto simp: vm_ok_def)
  have p: "p mod 4096 = 0" "p \<noteq> 0" "p \<noteq> ptab e" using free_page_apart [OF space_okD(1) [OF ok], of p] zs e(2) by auto
  note mv = memmove_page [OF p(1) ptab_aligned p(3), of ?m]
  have en: "1024 \<le> length zs' + card (slots ?m d)" using enough zs by simp
  let ?e = "v2p p OR (PTE_FLAGS e OR PTE_P)"
  obtain t ys xs where t: "mappages d ?a 4096 (v2p p) (PTE_FLAGS e) (upd_mem (memmove p (ptab e) 4096) s1) = Ret (0, t)" "zs' = ys @ xs"
    "space_ok kend kdata d (Suc i) t xs" "touches (insert p (own ?m d \<union> set ys)) ?m (kmem_mem t)" "own (kmem_mem t) d \<subseteq> own ?m d \<union> set ys"
    "agree {p} (memmove p (ptab e) 4096 ?m) (kmem_mem t)"
    "\<And>va. lookup (kmem_mem t) d va = (if PGROUNDDOWN va = ?a then Some ?e else lookup ?m d va)"
    "length zs' + card (slots ?m d) = length xs + card (slots (kmem_mem t) d)"
    using add_page [where f = "memmove p (ptab e) 4096", OF ok [unfolded zs] lim' kd s1(2,3) mv(1) flags_bits(1) en] by blast
  have nx: "of_nat (4096 * Suc i) = ?a + 4096" by (simp add: algebra_simps)
  have "copyuvm_loop (Suc k) ?a kend q d s = copyuvm_loop k (of_nat (4096 * Suc i)) kend q d t" for k
    unfolding nx using pte pr s1(1) p(2) t(1) by (simp add: present_def ptab_def [symmetric] del: of_nat_mult of_nat_Suc)
  moreover have "lookup (kmem_mem t) d va = lookup ?m d va" if "unat va < 4096 * i" for va using t(7) [of va] U(3) [of va] that by simp
  moreover have "user_byte (kmem_mem t) d va = user_byte ?m q va \<and> (\<exists>e. lookup (kmem_mem t) d va = Some e \<and> ptab e = p)"
    if va: "4096 * i \<le> unat va" "unat va < 4096 * Suc i" for va
  proof -
    have pg: "PGROUNDDOWN va = ?a" using U(3) va by simp
    then have lq: "lookup ?m q va = Some e" using lookup_page [of va ?a ?m q] PGROUNDDOWN_self [OF U(2)] e(1) by simp
    note b = PTE_bits [OF v2p_aligned [OF p(1)], of "PTE_FLAGS e", OF flags_bits(1)]
    have te: "ptab ?e = p" using b(1) by (simp add: ptab_def flags_bits(2) [OF pr])
    have "kmem_mem t (p + va mod 4096) = ?m (ptab e + va mod 4096)"
      using t(6) page_in_page [OF p(1), of va] mv(2) [of va] by (simp add: agree_def)
    then show ?thesis using t(7) [of va] pg lq te b(2) by (simp add: user_byte_def flags_bits(2) [OF pr])
  qed
  ultimately show ?thesis using t zs by (intro exI [of _ p] exI [of _ t] exI [of _ ys] exI [of _ xs]) simp
qed

lemma copyuvm_loop_copies:
  assumes "space_ok kend kdata d i s zs" and "other_ok kend (kmem_mem s) q (i + k) (set zs \<union> own (kmem_mem s) d)"
    and kd: "kdata_ok kdata" and "4096 * (i + k) \<le> 0x80000000" and "1024 + k \<le> length zs + card (slots (kmem_mem s) d)"
  shows "\<exists>t ys xs. copyuvm_loop k (of_nat (4096 * i)) kend q d s = Ret (d, t) \<and> zs = ys @ xs \<and> space_ok kend kdata d (i + k) t xs
    \<and> touches (own (kmem_mem s) d \<union> set ys) (kmem_mem s) (kmem_mem t) \<and> own (kmem_mem t) d \<subseteq> own (kmem_mem s) d \<union> set ys
    \<and> (\<forall>va. unat va < 4096 * i \<longrightarrow> lookup (kmem_mem t) d va = lookup (kmem_mem s) d va)
    \<and> (\<forall>va. 4096 * i \<le> unat va \<longrightarrow> unat va < 4096 * (i + k) \<longrightarrow> user_byte (kmem_mem t) d va = user_byte (kmem_mem s) q va
        \<and> (\<exists>e. lookup (kmem_mem t) d va = Some e \<and> ptab e \<in> set ys))"
  using assms
proof (induction k arbitrary: i s zs)
  case 0
  then show ?case by (intro exI [of _ s] exI [of _ "[]"] exI [of _ zs]) simp
next
  case (Suc k)
  let ?m = "kmem_mem s"
  obtain p t ys xs where st: "\<And>k. copyuvm_loop (Suc k) (of_nat (4096 * i)) kend q d s = copyuvm_loop k (of_nat (4096 * Suc i)) kend q d t"
    and zs: "zs = p # ys @ xs" and sp: "space_ok kend kdata d (Suc i) t xs"
    and tc: "touches (own ?m d \<union> set (p # ys)) ?m (kmem_mem t)" and ow: "own (kmem_mem t) d \<subseteq> own ?m d \<union> set ys"
    and lo: "\<And>va. unat va < 4096 * i \<Longrightarrow> lookup (kmem_mem t) d va = lookup ?m d va"
    and hi: "\<And>va. 4096 * i \<le> unat va \<Longrightarrow> unat va < 4096 * Suc i \<Longrightarrow> user_byte (kmem_mem t) d va = user_byte ?m q va
        \<and> (\<exists>e. lookup (kmem_mem t) d va = Some e \<and> ptab e = p)"
    and len: "length zs + card (slots ?m d) = Suc (length xs + card (slots (kmem_mem t) d))"
    using copy_page [OF Suc.prems(1,2) _ kd Suc.prems(4)] Suc.prems(5) by auto
  have al: "x mod 4096 = 0" if "x \<in> own ?m d \<union> set zs" for x
    using that free_page_apart [OF space_okD(1) [OF Suc.prems(1)], of x] space_okD(1) [OF Suc.prems(1)] pd_ok_own [of kend ?m d x] page_ok_aligned
    by (auto simp: vm_ok_def)
  have sub: "own ?m d \<union> set (p # ys) \<subseteq> set zs \<union> own ?m d" "set xs \<union> own (kmem_mem t) d \<subseteq> set zs \<union> own ?m d" using zs ow by auto
  have al': "\<forall>x \<in> own ?m d \<union> set (p # ys). x mod 4096 = 0" using sub(1) al by blast
  note ot = other_ok_touch [OF Suc.prems(2) tc sub(1) al']
  have "other_ok kend (kmem_mem t) q (Suc i + k) (set xs \<union> own (kmem_mem t) d)" using ot(5) [OF sub(2)] by simp
  from Suc.IH [OF sp this kd] Suc.prems(4,5) len
  obtain u ys' xs' where u: "copyuvm_loop k (of_nat (4096 * Suc i)) kend q d t = Ret (d, u)" "xs = ys' @ xs'" "space_ok kend kdata d (Suc i + k) u xs'"
    "touches (own (kmem_mem t) d \<union> set ys') (kmem_mem t) (kmem_mem u)" "own (kmem_mem u) d \<subseteq> own (kmem_mem t) d \<union> set ys'"
    "\<And>va. unat va < 4096 * Suc i \<Longrightarrow> lookup (kmem_mem u) d va = lookup (kmem_mem t) d va"
    "\<And>va. 4096 * Suc i \<le> unat va \<Longrightarrow> unat va < 4096 * (Suc i + k) \<Longrightarrow> user_byte (kmem_mem u) d va = user_byte (kmem_mem t) q va
        \<and> (\<exists>e. lookup (kmem_mem u) d va = Some e \<and> ptab e \<in> set ys')" by auto
  have "touches (own ?m d \<union> set (p # ys @ ys')) ?m (kmem_mem u)"
    by (rule touches_mono [OF touches_trans [OF tc u(4)]]) (use ow in auto)
  moreover have "user_byte (kmem_mem u) d va = user_byte ?m q va \<and> (\<exists>e. lookup (kmem_mem u) d va = Some e \<and> ptab e \<in> set (p # ys @ ys'))"
    if va: "4096 * i \<le> unat va" "unat va < 4096 * (i + Suc k)" for va
  proof (cases "unat va < 4096 * Suc i")
    case True
    obtain e where e: "lookup (kmem_mem t) d va = Some e" "ptab e = p" using hi [OF va(1) True] by blast
    have "agree {p} (kmem_mem t) (kmem_mem u)"
    proof (rule touches_agree [OF u(4)])
      show "(own (kmem_mem t) d \<union> set ys') \<inter> {p} = {}" using space_okD(5) [OF sp True e(1)] e(2) u(2) by auto
      show "x mod 4096 = 0" if "x \<in> own (kmem_mem t) d \<union> set ys' \<union> {p}" for x using that al [of x] sub(2) u(2) zs by auto
    qed
    then have "kmem_mem u (p + va mod 4096) = kmem_mem t (p + va mod 4096)" using page_in_page [of p va] al [of p] zs by (simp add: agree_def)
    then show ?thesis using hi [OF va(1) True] u(6) [OF True] e by (simp add: user_byte_def)
  next
    case False
    then show ?thesis using u(7) [of va] va(2) ot(4) [of va] by auto
  qed
  moreover have "own (kmem_mem u) d \<subseteq> own ?m d \<union> set (p # ys @ ys')" using u(5) ow by auto
  moreover have "lookup (kmem_mem u) d va = lookup ?m d va" if "unat va < 4096 * i" for va using that u(6) [of va] lo [of va] by simp
  ultimately show ?case using st [of k] u(1,2,3) zs by (intro exI [of _ u] exI [of _ "p # ys @ ys'"] exI [of _ xs']) simp
qed

lemma space_ok_touch:
  assumes "space_ok kend kdata q n s zs" and "touches B (kmem_mem s) (kmem_mem t)" and "B \<inter> own (kmem_mem s) q = {}" and "\<forall>p \<in> B. p mod 4096 = 0"
    and "free_pages kend t xs" and "set xs \<subseteq> set zs"
  shows "space_ok kend kdata q n t xs" and "lookup (kmem_mem t) q = lookup (kmem_mem s) q"
proof -
  have vm: "vm_ok kend q s zs" using space_okD(1) [OF assms(1)] .
  then have pd: "pd_ok kend (kmem_mem s) q" by (simp add: vm_ok_def)
  have "agree (own (kmem_mem s) q) (kmem_mem s) (kmem_mem t)"
    by (rule touches_agree [OF assms(2,3)]) (use assms(4) pd_ok_own [OF pd] page_ok_aligned in blast)
  note a = agree_pd [OF pd this]
  show lu: "lookup (kmem_mem t) q = lookup (kmem_mem s) q" using a by simp
  have "vm_ok kend q t xs" using vm assms(5,6) a by (auto simp: vm_ok_def)
  then show "space_ok kend kdata q n t xs" using assms(1,6) unfolding space_ok_def lu a(2) by blast
qed

lemma space_other_ok: "space_ok kend kdata q n s zs \<Longrightarrow> other_ok kend (kmem_mem s) q n (set zs)"
  unfolding space_ok_def other_ok_def vm_ok_def by blast

lemma setupkvm_space:
  assumes "free_pages kend s zs" and "kdata_ok kdata" and "1025 \<le> length zs"
  shows "\<exists>d t ys xs. setupkvm kdata s = Ret (d, t) \<and> d \<noteq> 0 \<and> zs = ys @ xs \<and> space_ok kend kdata d 0 t xs \<and> own (kmem_mem t) d \<subseteq> set ys
    \<and> touches (set ys) (kmem_mem s) (kmem_mem t) \<and> length zs = Suc (length xs + card (slots (kmem_mem t) d))"
proof -
  obtain d t ys xs where "setupkvm kdata s = Ret (d, t)" "zs = ys @ xs" "touches (set ys) (kmem_mem s) (kmem_mem t)" "d \<noteq> 0" "vm_ok kend d t xs"
    "own (kmem_mem t) d \<subseteq> set ys" "lookup (kmem_mem t) d = kern_map (kmaps kdata)" "length zs = Suc (length xs + card (slots (kmem_mem t) d))"
    using setupkvm_maps [OF assms(1,2)] assms(3) by auto
  then show ?thesis by (intro exI [of _ d] exI [of _ t] exI [of _ ys] exI [of _ xs]) (simp add: space_ok_def)
qed

text \<open>The first process's memory: one page that starts with the bytes of \<open>initcode\<close>.\<close>

lemma pokes_eq: "length bs \<le> 4096 \<Longrightarrow> pokes a bs m x = (if unat (x - a) < length bs then bs ! unat (x - a) else m x)"
proof (induction bs arbitrary: a m)
  case Nil
  then show ?case by simp
next
  case (Cons b bs)
  have e: "x - (a + 1) = x - a - 1" by (simp add: algebra_simps)
  show ?case
  proof (cases "x = a")
    case True
    have u: "unat (0 - 1 :: uint) = 0xFFFFFFFF" by (simp only: unat_sub_if') simp
    have "a - (a + 1) = 0 - 1" by simp
    then have "\<not> unat (a - (a + 1)) < length bs" using Cons.prems by (simp only: u) simp
    then have "pokes (a + 1) bs (m(a := b)) x = (m(a := b)) x" unfolding True [symmetric]
      by (subst Cons.IH) (use Cons.prems in simp_all)
    then show ?thesis using True by simp
  next
    case False
    then have nz: "x - a \<noteq> 0" by simp
    have "unat (x - (a + 1)) = unat (x - a) - 1" unfolding e by (rule unat_minus_one [OF nz])
    moreover have "unat (x - a) \<noteq> 0" using nz by (metis unat_eq_zero)
    moreover have "pokes (a + 1) bs (m(a := b)) x = (if unat (x - (a + 1)) < length bs then bs ! unat (x - (a + 1)) else (m(a := b)) x)"
      by (rule Cons.IH) (use Cons.prems in simp)
    ultimately show ?thesis using False by (cases "unat (x - a)") auto
  qed
qed

lemma inituvm_space:
  assumes "space_ok kend kdata d 0 s (p # zs)" and "kdata_ok kdata" and "length ini < 4096" and "1024 \<le> length zs + card (slots (kmem_mem s) d)"
  shows "\<exists>t ys xs. inituvm d ini s = Ret t \<and> zs = ys @ xs \<and> space_ok kend kdata d 1 t xs
    \<and> (\<forall>va. unat va < 4096 \<longrightarrow> user_byte (kmem_mem t) d va = Some (7, if unat va < length ini then ini ! unat va else 0))
    \<and> length zs \<le> length xs + 1024"
proof -
  let ?m = "kmem_mem s" and ?e = "v2p p OR (PTE_W OR PTE_U OR PTE_P)"
  note D = space_okD [OF assms(1)]
  obtain s1 where s1: "kalloc s = Ret (p, s1)" "free_pages kend s1 zs" "kmem_mem s1 = ?m"
    using kalloc_spec [of kend s "p # zs"] D(1) by (auto simp: vm_ok_def)
  have p: "p mod 4096 = 0" "p \<noteq> 0" using free_page_apart [OF D(1), of p] by auto
  obtain t ys xs where t: "mappages d 0 4096 (v2p p) (PTE_W OR PTE_U) (upd_mem (memset p 0 4096) s1) = Ret (0, t)" "zs = ys @ xs"
    "space_ok kend kdata d 1 t xs" "agree {p} (memset p 0 4096 ?m) (kmem_mem t)"
    "\<And>va. lookup (kmem_mem t) d va = (if PGROUNDDOWN va = 0 then Some ?e else lookup ?m d va)"
    "length zs + card (slots ?m d) = length xs + card (slots (kmem_mem t) d)"
    using add_page [where f = "memset p 0 4096" and flags = "PTE_W OR PTE_U", OF assms(1) _ assms(2) s1(2,3) memset_touches _ assms(4)] by auto
  let ?t = "upd_mem (pokes p ini) t"
  have run: "inituvm d ini s = Ret ?t" using assms(3) s1(1) p(2) t(1) by (simp add: inituvm_def Let_def)
  have tc: "touches {p} (kmem_mem t) (kmem_mem ?t)"
    using assms(3) by (auto simp: touches_def in_page_def pokes_eq word_less_nat_alt)
  have pt: "ptab ?e = p" "PTE_FLAGS ?e = 7" using PTE_bits [OF v2p_aligned [OF p(1)], of "PTE_W OR PTE_U OR PTE_P"] by (simp_all add: ptab_def)
  have l0: "lookup (kmem_mem t) d 0 = Some ?e" using t(5) [of 0] by (simp add: PGROUNDDOWN_self)
  have o: "p \<notin> own (kmem_mem t) d" "p \<notin> set xs" using space_okD(5) [OF t(3) _ l0] pt(1) by auto
  have fp: "free_pages kend ?t xs"
    by (rule free_pages_touch [of kend t xs "{p}"]) (use space_okD(1) [OF t(3)] tc o(2) p(1) in \<open>simp_all add: vm_ok_def\<close>)
  have st: "space_ok kend kdata d 1 ?t xs" "lookup (kmem_mem ?t) d = lookup (kmem_mem t) d"
    using space_ok_touch [OF t(3) tc _ _ fp] o(1) p(1) by simp_all
  have "user_byte (kmem_mem ?t) d va = Some (7, if unat va < length ini then ini ! unat va else 0)" if va: "unat va < 4096" for va
  proof -
    have "PGROUNDDOWN va = 0" using user_page(3) [of 0 va] va by simp
    moreover have "va mod 4096 = va" using va by (simp add: word_unat_eq_iff unat_mod)
    moreover have "kmem_mem t (p + va) = 0" using t(4) page_in_page [OF p(1), of va] \<open>va mod 4096 = va\<close> by (simp add: agree_def memset_page)
    ultimately show ?thesis using st(2) t(5) [of va] pt assms(3) by (simp add: user_byte_def pokes_eq)
  qed
  moreover have "length zs \<le> length xs + 1024" using t(6) card_slots [of "kmem_mem t" d] by simp
  ultimately show ?thesis using run t(2) st(1) by (intro exI [of _ ?t] exI [of _ ys] exI [of _ xs]) simp
qed

lemma copyuvm_space:
  assumes ok: "space_ok kend kdata q n s zs" and kd: "kdata_ok kdata" and n: "n = (unat sz + 4095) div 4096" and enough: "1025 + n \<le> length zs"
  shows "\<exists>d t ys xs. copyuvm kend kdata q sz s = Ret (d, t) \<and> d \<noteq> 0 \<and> zs = ys @ xs \<and> space_ok kend kdata d n t xs \<and> space_ok kend kdata q n t xs
    \<and> lookup (kmem_mem t) q = lookup (kmem_mem s) q
    \<and> (\<forall>va. unat va < 4096 * n \<longrightarrow> user_byte (kmem_mem t) d va = user_byte (kmem_mem s) q va \<and> user_byte (kmem_mem t) q va = user_byte (kmem_mem s) q va
        \<and> (\<exists>e. lookup (kmem_mem t) d va = Some e \<and> ptab e \<in> set ys))"
proof -
  let ?m = "kmem_mem s"
  have fp: "free_pages kend s zs" using space_okD(1) [OF ok] by (simp add: vm_ok_def)
  obtain d s1 as zs1 where d: "setupkvm kdata s = Ret (d, s1)" "d \<noteq> 0" "zs = as @ zs1" "space_ok kend kdata d 0 s1 zs1"
    "own (kmem_mem s1) d \<subseteq> set as" "touches (set as) ?m (kmem_mem s1)" "length zs = Suc (length zs1 + card (slots (kmem_mem s1) d))"
    using setupkvm_space [OF fp kd] enough by auto
  have al: "\<forall>p \<in> set zs. p mod 4096 = 0" using free_page_apart [OF space_okD(1) [OF ok]] by blast
  have al1: "\<forall>p \<in> set as. p mod 4096 = 0" and sub1: "set as \<subseteq> set zs" "set zs1 \<union> own (kmem_mem s1) d \<subseteq> set zs" using al d(3,5) by auto
  note o1 = other_ok_touch [OF space_other_ok [OF ok] d(6) sub1(1) al1]
  have "other_ok kend (kmem_mem s1) q (0 + n) (set zs1 \<union> own (kmem_mem s1) d)" using o1(5) [OF sub1(2)] by simp
  from copyuvm_loop_copies [OF d(4) this kd] space_okD(2) [OF ok] enough d(7)
  obtain t bs xs where t: "copyuvm_loop n 0 kend q d s1 = Ret (d, t)" "zs1 = bs @ xs" "space_ok kend kdata d n t xs"
    "touches (own (kmem_mem s1) d \<union> set bs) (kmem_mem s1) (kmem_mem t)"
    "\<And>va. unat va < 4096 * n \<Longrightarrow> user_byte (kmem_mem t) d va = user_byte (kmem_mem s1) q va
        \<and> (\<exists>e. lookup (kmem_mem t) d va = Some e \<and> ptab e \<in> set bs)" by auto
  have tc: "touches (set (as @ bs)) ?m (kmem_mem t)"
    by (rule touches_mono [OF touches_trans [OF d(6) t(4)]]) (use d(5) in auto)
  have sub: "set (as @ bs) \<subseteq> set zs" "set xs \<subseteq> set zs" using d(3) t(2) by auto
  have al2: "\<forall>p \<in> set (as @ bs). p mod 4096 = 0" using al sub(1) by blast
  have no: "set (as @ bs) \<inter> own ?m q = {}" using sub(1) space_okD(1) [OF ok] by (auto simp: vm_ok_def)
  have fx: "free_pages kend t xs" using space_okD(1) [OF t(3)] by (simp add: vm_ok_def)
  note q = space_ok_touch [OF ok tc no al2 fx sub(2)] and o2 = other_ok_touch [OF space_other_ok [OF ok] tc sub(1) al2]
  have run: "copyuvm kend kdata q sz s = Ret (d, t)" using d(1,2) t(1) n by (simp add: copyuvm_def)
  have "user_byte (kmem_mem t) d va = user_byte ?m q va \<and> user_byte (kmem_mem t) q va = user_byte ?m q va
      \<and> (\<exists>e. lookup (kmem_mem t) d va = Some e \<and> ptab e \<in> set (as @ bs))" if "unat va < 4096 * n" for va
    using t(5) [OF that] o1(4) [OF that] o2(4) [OF that] by auto
  then show ?thesis using run d(2,3) t(2,3) q by (intro exI [of _ d] exI [of _ t] exI [of _ "as @ bs"] exI [of _ xs]) simp
qed

subsection \<open>Properties\<close>

text \<open>C37: \<open>copyuvm\<close>, which makes the memory of a forked child. From an address space of \<open>n\<close> user pages, with
  pages enough (one for the directory, one for each of the at most 1024 tables, one for each user page) it
  returns a new directory. It describes an address space of the same size, with the kernel mapped
  as in every other, in which a process sees at each user address the byte and the page flags
  that the parent sees there. The parent's memory is unchanged and the two
  share no page of user memory, so neither sees later writes of the other.\<close>

theorem copyuvm_copies:
  assumes "space_ok kend kdata q n s zs" and "kdata_ok kdata" and "n = (unat sz + 4095) div 4096" and "1025 + n \<le> length zs"
  shows "\<exists>d t xs. copyuvm kend kdata q sz s = Ret (d, t) \<and> space_ok kend kdata d n t xs \<and> space_ok kend kdata q n t xs
    \<and> (\<forall>va. unat va < 4096 * n \<longrightarrow> user_byte (kmem_mem t) d va = user_byte (kmem_mem s) q va \<and> user_byte (kmem_mem t) q va = user_byte (kmem_mem s) q va)
    \<and> (\<forall>va vb e e'. unat va < 4096 * n \<longrightarrow> unat vb < 4096 * n \<longrightarrow> lookup (kmem_mem t) d va = Some e \<longrightarrow> lookup (kmem_mem t) q vb = Some e'
        \<longrightarrow> PTE_ADDR e \<noteq> PTE_ADDR e')"
proof -
  from copyuvm_space [OF assms] obtain d t ys xs where d: "copyuvm kend kdata q sz s = Ret (d, t)" "zs = ys @ xs"
    "space_ok kend kdata d n t xs" "space_ok kend kdata q n t xs" "lookup (kmem_mem t) q = lookup (kmem_mem s) q"
    "\<And>va. unat va < 4096 * n \<Longrightarrow> user_byte (kmem_mem t) d va = user_byte (kmem_mem s) q va \<and> user_byte (kmem_mem t) q va = user_byte (kmem_mem s) q va
        \<and> (\<exists>e. lookup (kmem_mem t) d va = Some e \<and> ptab e \<in> set ys)" by blast
  have "PTE_ADDR e \<noteq> PTE_ADDR e'" if "unat va < 4096 * n" "unat vb < 4096 * n" "lookup (kmem_mem t) d va = Some e" "lookup (kmem_mem t) q vb = Some e'"
    for va vb e e'
  proof -
    have "ptab e \<in> set ys" using d(6) [OF that(1)] that(3) by auto
    moreover have "ptab e' \<notin> set zs" using space_okD(5) [OF assms(1) that(2)] that(4) d(5) by simp
    ultimately show ?thesis using d(2) by (auto simp: ptab_def)
  qed
  then show ?thesis using d by blast
qed

theorem copyuvm_copies_witness:
  "\<exists>s q d t. copyuvm 0x80112000 0x80108000 q 4096 s = Ret (d, t) \<and> user_byte (kmem_mem t) d 1 = Some (7, 20) \<and> user_byte (kmem_mem t) q 1 = Some (7, 20)"
proof -
  let ?k = "0x80112000 :: uint" and ?d = "0x80108000 :: uint"
  have kd: "kdata_ok ?d" by (simp add: kdata_ok_def p2v_def)
  obtain s zs where s: "free_pages ?k s zs" "4096 \<le> length zs" using boot_kst_boots boot_pages by blast
  obtain q s1 ys xs where q: "space_ok ?k ?d q 0 s1 xs" "length zs = Suc (length xs + card (slots (kmem_mem s1) q))"
    using setupkvm_space [OF s(1) kd] s(2) by auto
  have l: "3071 \<le> length xs" using q(2) s(2) card_slots [of "kmem_mem s1" q] by simp
  then obtain p ps where xs: "xs = p # ps" by (cases xs) auto
  obtain s2 ws where s2: "space_ok ?k ?d q 1 s2 ws" "length ps \<le> length ws + 1024"
      "\<And>va. unat va < 4096 \<Longrightarrow> user_byte (kmem_mem s2) q va = Some (7, if unat va < 3 then [10, 20, 30] ! unat va else 0)"
    using inituvm_space [OF q(1) [unfolded xs] kd, of "[10, 20, 30]"] l xs by auto
  have b: "user_byte (kmem_mem s2) q 1 = Some (7, 20)" using s2(3) [of 1] by simp
  obtain d t where "copyuvm ?k ?d q 4096 s2 = Ret (d, t)" "user_byte (kmem_mem t) d 1 = user_byte (kmem_mem s2) q 1"
      "user_byte (kmem_mem t) q 1 = user_byte (kmem_mem s2) q 1"
    using copyuvm_copies [OF s2(1) kd, of 4096] l xs s2(2) by auto
  then show ?thesis using b by auto
qed

end
