(* ===== verification/Fmap.thy ===== *)
theory Fmap
  imports Fs_Inode
begin

section \<open>The contents of a file in its blocks (fs.c, mkfs.c)\<close>

text \<open>
  What the block addresses of an inode mean, for the kernel's \<open>bmap\<close> and for \<open>mkfs\<close> alike: 12 direct
  blocks and an indirect block with 128 more addresses. \<open>rd\<close> gives the contents of the blocks, \<open>as\<close> is
  the field \<open>addrs\<close>, an address 0 is a block the file does not have yet, which reads as zeroes. The lemmas say
  what the four ways to change a file do: to write a block it has, and to add a direct block, the
  indirect block, or a block through the indirect block.
\<close>

definition baddr :: "(uint \<Rightarrow> block) \<Rightarrow> uint list \<Rightarrow> nat \<Rightarrow> uint" where
  "baddr rd as bn = (if bn < NDIRECT then as ! bn else if as ! NDIRECT = 0 then 0 else get32 (rd (as ! NDIRECT)) (4 * (bn - NDIRECT)))"

definition fblocks :: "(uint \<Rightarrow> block) \<Rightarrow> uint list \<Rightarrow> uint set" where
  "fblocks rd as = insert (as ! NDIRECT) (baddr rd as ` {..<MAXFILE}) - {0}"

definition fbyte :: "(uint \<Rightarrow> block) \<Rightarrow> uint list \<Rightarrow> nat \<Rightarrow> uchar" where
  "fbyte rd as k = (let a = baddr rd as (k div BSIZE) in if a = 0 then 0 else rd a ! (k mod BSIZE))"

text \<open>The addresses of a file are different and in the set \<open>D\<close> of data blocks.\<close>

definition fmap_ok :: "uint set \<Rightarrow> (uint \<Rightarrow> block) \<Rightarrow> uint list \<Rightarrow> bool" where
  "fmap_ok D rd as \<longleftrightarrow> length as = 13 \<and> fblocks rd as \<subseteq> D \<and> (\<forall>b \<in> D. length (rd b) = BSIZE)
     \<and> (\<forall>i < MAXFILE. \<forall>j < MAXFILE. baddr rd as i = baddr rd as j \<longrightarrow> baddr rd as i \<noteq> 0 \<longrightarrow> i = j)
     \<and> (\<forall>i < MAXFILE. baddr rd as i \<noteq> 0 \<longrightarrow> baddr rd as i \<noteq> as ! NDIRECT)"

lemma fmap_okD:
  assumes "fmap_ok D rd as"
  shows "length as = 13" and "fblocks rd as \<subseteq> D" and "b \<in> D \<Longrightarrow> length (rd b) = BSIZE"
    and "i < MAXFILE \<Longrightarrow> j < MAXFILE \<Longrightarrow> baddr rd as i = baddr rd as j \<Longrightarrow> baddr rd as i \<noteq> 0 \<Longrightarrow> i = j"
    and "i < MAXFILE \<Longrightarrow> baddr rd as i \<noteq> 0 \<Longrightarrow> baddr rd as i \<noteq> as ! NDIRECT"
  using assms by (auto simp: fmap_ok_def)

lemma baddr_fblocks: "bn < MAXFILE \<Longrightarrow> baddr rd as bn \<noteq> 0 \<Longrightarrow> baddr rd as bn \<in> fblocks rd as"
  by (auto simp: fblocks_def)

text \<open>The addresses decide the rest.\<close>

lemma fmap_okI:
  assumes "length as' = 13" and "\<And>b. b \<in> D \<Longrightarrow> length (rd' b) = BSIZE" and "fmap_ok D rd as"
    and "\<And>i. i < MAXFILE \<Longrightarrow> baddr rd' as' i = (if i = bn \<and> new then a else baddr rd as i)"
    and "as' ! NDIRECT = (if ind then a else as ! NDIRECT)"
    and "a \<in> D" and "a \<notin> fblocks rd as" and "a \<noteq> 0" and "\<not> (new \<and> ind)" and "ind \<Longrightarrow> as ! NDIRECT = 0" and "bn < MAXFILE" and "new \<Longrightarrow> baddr rd as bn = 0"
  shows "fmap_ok D rd' as'" and "fblocks rd' as' = (if new \<or> ind then insert a (fblocks rd as) else fblocks rd as)"
proof -
  have na: "baddr rd as i \<noteq> a" if "i < MAXFILE" for i using assms(7,8) baddr_fblocks [OF that, of rd as] by auto
  have nd: "as ! NDIRECT \<noteq> a" using assms(7,8) by (auto simp: fblocks_def)
  have mem: "x \<in> baddr rd' as' ` {..<MAXFILE} \<longleftrightarrow> (new \<and> x = a) \<or> x \<in> baddr rd as ` {..<MAXFILE}" if "x \<noteq> 0" for x
  proof
    assume "x \<in> baddr rd' as' ` {..<MAXFILE}"
    then obtain i where "i < MAXFILE" "x = baddr rd' as' i" by auto
    then show "(new \<and> x = a) \<or> x \<in> baddr rd as ` {..<MAXFILE}" using assms(4) [of i] by (auto split: if_splits)
  next
    assume "(new \<and> x = a) \<or> x \<in> baddr rd as ` {..<MAXFILE}"
    then consider "new" "x = a" | i where "i < MAXFILE" "x = baddr rd as i" by auto
    then show "x \<in> baddr rd' as' ` {..<MAXFILE}"
    proof cases
      case 1
      then show ?thesis using assms(4) [OF assms(11)] assms(11) by (auto intro!: image_eqI [of _ _ bn])
    next
      case 2
      then have "baddr rd' as' i = x" using assms(4) [of i] assms(12) that by auto
      then show ?thesis using 2(1) by auto
    qed
  qed
  have "x \<in> fblocks rd' as' \<longleftrightarrow> x \<in> (if new \<or> ind then insert a (fblocks rd as) else fblocks rd as)" for x
    using mem [of x] assms(5,8,10) by (cases "x = 0"; cases ind; cases new) (auto simp: fblocks_def)
  then show fb: "fblocks rd' as' = (if new \<or> ind then insert a (fblocks rd as) else fblocks rd as)" by blast
  have "fblocks rd' as' \<subseteq> D" using fmap_okD(2) [OF assms(3)] assms(6) unfolding fb by auto
  moreover have "i = j" if "i < MAXFILE" "j < MAXFILE" "baddr rd' as' i = baddr rd' as' j" "baddr rd' as' i \<noteq> 0" for i j
    using that assms(4) [OF that(1)] assms(4) [OF that(2)] fmap_okD(4) [OF assms(3) that(1,2)] na [OF that(1)] na [OF that(2)]
    by (auto split: if_splits)
  moreover have "baddr rd' as' i \<noteq> as' ! NDIRECT" if "i < MAXFILE" "baddr rd' as' i \<noteq> 0" for i
    using that assms(4) [OF that(1)] assms(5,9,10) fmap_okD(5) [OF assms(3) that(1)] na [OF that(1)] nd by (auto split: if_splits)
  ultimately show "fmap_ok D rd' as'" using assms(1,2) unfolding fmap_ok_def by blast
qed

abbreviation (input) zeroes :: block where "zeroes \<equiv> replicate BSIZE 0"

lemma get32_zeroes: "k + 3 < BSIZE \<Longrightarrow> get32 zeroes k = 0"
  by (simp add: get32_def)

lemma kdiv: "k < MAXFILE * BSIZE \<Longrightarrow> k div BSIZE < MAXFILE" for k :: nat
  by (simp add: less_mult_imp_div_less)

text \<open>Writing a block the file has.\<close>

lemma fwrite:
  assumes ok: "fmap_ok D rd as" and bn: "bn < MAXFILE" and a: "baddr rd as bn = a" "a \<noteq> 0" and d: "length d = BSIZE"
  shows "fmap_ok D (rd(a := d)) as" and "fblocks (rd(a := d)) as = fblocks rd as" and "baddr (rd(a := d)) as = baddr rd as"
    and "k < MAXFILE * BSIZE \<Longrightarrow> fbyte (rd(a := d)) as k = (if k div BSIZE = bn then d ! (k mod BSIZE) else fbyte rd as k)"
proof -
  have "a \<noteq> as ! NDIRECT" using fmap_okD(5) [OF ok bn] a by simp
  then show b: "baddr (rd(a := d)) as = baddr rd as" by (auto simp: baddr_def)
  then show f: "fblocks (rd(a := d)) as = fblocks rd as" by (simp add: fblocks_def)
  show "fmap_ok D (rd(a := d)) as" using ok d unfolding fmap_ok_def b f by simp
  show "fbyte (rd(a := d)) as k = (if k div BSIZE = bn then d ! (k mod BSIZE) else fbyte rd as k)" if k: "k < MAXFILE * BSIZE"
  proof (cases "k div BSIZE = bn")
    case True
    then show ?thesis using a by (simp add: fbyte_def b Let_def)
  next
    case False
    then have "baddr rd as (k div BSIZE) \<noteq> a" using fmap_okD(4) [OF ok kdiv [OF k] bn] a by metis
    then show ?thesis using False by (simp add: fbyte_def b Let_def)
  qed
qed

text \<open>Adding a block that is all zeroes does not change the bytes of the file.\<close>

lemma fbyte_add:
  assumes "\<And>i. i < MAXFILE \<Longrightarrow> baddr rd' as' i = (if i = bn \<and> new then a else baddr rd as i)" and "rd' a = zeroes" and "new \<Longrightarrow> baddr rd as bn = 0"
    and "\<And>i. i < MAXFILE \<Longrightarrow> baddr rd as i \<noteq> 0 \<Longrightarrow> rd' (baddr rd as i) = rd (baddr rd as i)" and "k < MAXFILE * BSIZE"
  shows "fbyte rd' as' k = fbyte rd as k"
proof -
  let ?i = "k div BSIZE"
  have i: "?i < MAXFILE" using kdiv [OF assms(5)] .
  show ?thesis
  proof (cases "?i = bn \<and> new")
    case True
    have "k mod BSIZE < BSIZE" by simp
    then have "zeroes ! (k mod BSIZE) = 0" by (rule nth_replicate)
    then show ?thesis using True assms(1) [OF i] assms(2,3) by (simp add: fbyte_def Let_def)
  next
    case False
    have "baddr rd' as' ?i = baddr rd as ?i" unfolding assms(1) [OF i] by (rule if_not_P [OF False])
    then show ?thesis using assms(4) [OF i] by (simp add: fbyte_def Let_def)
  qed
qed

lemma fadd_direct:
  assumes ok: "fmap_ok D rd as" and bn: "bn < NDIRECT" "as ! bn = 0" and a: "a \<in> D" "a \<notin> fblocks rd as" "a \<noteq> 0"
  shows "fmap_ok D (rd(a := zeroes)) (as[bn := a])" and "fblocks (rd(a := zeroes)) (as[bn := a]) = insert a (fblocks rd as)"
    and "i < MAXFILE \<Longrightarrow> baddr (rd(a := zeroes)) (as[bn := a]) i = (if i = bn then a else baddr rd as i)" and "k < MAXFILE * BSIZE \<Longrightarrow> fbyte (rd(a := zeroes)) (as[bn := a]) k = fbyte rd as k"
proof -
  have l: "length as = 13" using fmap_okD(1) [OF ok] .
  have nd: "as ! NDIRECT \<noteq> a" using a by (auto simp: fblocks_def)
  have b: "baddr (rd(a := zeroes)) (as[bn := a]) i = (if i = bn \<and> True then a else baddr rd as i)" for i
    using bn l nd by (auto simp: baddr_def)
  have b0: "baddr rd as bn = 0" using bn by (simp add: baddr_def)
  note I = fmap_okI [OF _ _ ok b, where ind = False]
  show "fmap_ok D (rd(a := zeroes)) (as[bn := a])" "fblocks (rd(a := zeroes)) (as[bn := a]) = insert a (fblocks rd as)"
    using I fmap_okD(3) [OF ok] a bn b0 l by simp_all
  show "baddr (rd(a := zeroes)) (as[bn := a]) i = (if i = bn then a else baddr rd as i)" using b by simp
  show "k < MAXFILE * BSIZE \<Longrightarrow> fbyte (rd(a := zeroes)) (as[bn := a]) k = fbyte rd as k"
    by (rule fbyte_add [OF b]) (use b0 a(2) baddr_fblocks [of _ rd as] in auto)
qed

lemma fadd_indirect:
  assumes ok: "fmap_ok D rd as" and n: "as ! NDIRECT = 0" and a: "a \<in> D" "a \<notin> fblocks rd as" "a \<noteq> 0"
  shows "fmap_ok D (rd(a := zeroes)) (as[NDIRECT := a])" and "fblocks (rd(a := zeroes)) (as[NDIRECT := a]) = insert a (fblocks rd as)"
    and "i < MAXFILE \<Longrightarrow> baddr (rd(a := zeroes)) (as[NDIRECT := a]) i = baddr rd as i" and "k < MAXFILE * BSIZE \<Longrightarrow> fbyte (rd(a := zeroes)) (as[NDIRECT := a]) k = fbyte rd as k"
proof -
  have l: "length as = 13" using fmap_okD(1) [OF ok] .
  show b': "baddr (rd(a := zeroes)) (as[NDIRECT := a]) i = baddr rd as i" if "i < MAXFILE" for i
    using n l a(3) that get32_zeroes [of "4 * (i - NDIRECT)"] by (auto simp: baddr_def)
  then have b: "baddr (rd(a := zeroes)) (as[NDIRECT := a]) i = (if i = 0 \<and> False then a else baddr rd as i)" if "i < MAXFILE" for i using that by simp
  note I = fmap_okI [OF _ _ ok b, where ind = True]
  show "fmap_ok D (rd(a := zeroes)) (as[NDIRECT := a])" "fblocks (rd(a := zeroes)) (as[NDIRECT := a]) = insert a (fblocks rd as)"
    using I fmap_okD(3) [OF ok] a n l by simp_all
  show "k < MAXFILE * BSIZE \<Longrightarrow> fbyte (rd(a := zeroes)) (as[NDIRECT := a]) k = fbyte rd as k"
    by (rule fbyte_add [OF b]) (use a(2) baddr_fblocks [of _ rd as] in auto)
qed

lemma fadd_entry:
  assumes ok: "fmap_ok D rd as" and bn: "NDIRECT \<le> bn" "bn < MAXFILE" and ib: "as ! NDIRECT = ib" "ib \<noteq> 0" and b0: "baddr rd as bn = 0"
    and a: "a \<in> D" "a \<notin> fblocks rd as" "a \<noteq> 0"
  defines "rd' \<equiv> rd(a := zeroes, ib := put32 (rd ib) (4 * (bn - NDIRECT)) a)"
  shows "fmap_ok D rd' as" and "fblocks rd' as = insert a (fblocks rd as)" and "i < MAXFILE \<Longrightarrow> baddr rd' as i = (if i = bn then a else baddr rd as i)" and "k < MAXFILE * BSIZE \<Longrightarrow> fbyte rd' as k = fbyte rd as k"
proof -
  have l: "length as = 13" using fmap_okD(1) [OF ok] .
  have ia: "ib \<noteq> a" "ib \<in> D" using a ib fmap_okD(2) [OF ok] by (auto simp: fblocks_def)
  then have li: "length (rd ib) = BSIZE" using fmap_okD(3) [OF ok] by blast
  have b: "baddr rd' as i = (if i = bn \<and> True then a else baddr rd as i)" if "i < MAXFILE" for i
  proof (cases "i < NDIRECT")
    case True
    then show ?thesis using bn by (simp add: baddr_def)
  next
    case False
    then have "get32 (put32 (rd ib) (4 * (bn - NDIRECT)) a) (4 * (i - NDIRECT)) = (if i = bn then a else get32 (rd ib) (4 * (i - NDIRECT)))"
    proof (cases "i = bn")
      case True
      then show ?thesis using that bn li by (simp add: get32_put32)
    next
      case i: False
      have "4 * (i - NDIRECT) + 4 \<le> 4 * (bn - NDIRECT) \<or> 4 * (bn - NDIRECT) + 4 \<le> 4 * (i - NDIRECT)" using i False bn by linarith
      then show ?thesis using i by (simp add: get32_put32_diff)
    qed
    then show ?thesis using False ib by (simp add: baddr_def rd'_def)
  qed
  note I = fmap_okI [OF _ _ ok b, where ind = False]
  show "fmap_ok D rd' as" "fblocks rd' as = insert a (fblocks rd as)" using I fmap_okD(3) [OF ok] a bn b0 l li by (simp_all add: rd'_def)
  show "i < MAXFILE \<Longrightarrow> baddr rd' as i = (if i = bn then a else baddr rd as i)" using b by simp
  have na: "baddr rd as i \<noteq> ib" "baddr rd as i \<noteq> a" if "i < MAXFILE" "baddr rd as i \<noteq> 0" for i
    using fmap_okD(5) [OF ok that] ib(1) a(2) baddr_fblocks [OF that] by auto
  show "k < MAXFILE * BSIZE \<Longrightarrow> fbyte rd' as k = fbyte rd as k"
    by (rule fbyte_add [OF b]) (use b0 na ia(1) in \<open>auto simp: rd'_def\<close>)
qed

lemma fmap_ok_mono: "fmap_ok D rd as \<Longrightarrow> D \<subseteq> D' \<Longrightarrow> (\<And>b. b \<in> D' \<Longrightarrow> length (rd b) = BSIZE) \<Longrightarrow> fmap_ok D' rd as"
  by (auto simp: fmap_ok_def)

text \<open>A file depends on its own blocks only.\<close>

lemma file_cong:
  assumes "\<And>b. b \<in> fblocks rd as \<Longrightarrow> rd' b = rd b"
  shows "i < MAXFILE \<Longrightarrow> baddr rd' as i = baddr rd as i" and "fblocks rd' as = fblocks rd as"
    and "k < MAXFILE * BSIZE \<Longrightarrow> fbyte rd' as k = fbyte rd as k"
    and "fmap_ok D rd as \<Longrightarrow> (\<And>b. b \<in> D \<Longrightarrow> length (rd' b) = BSIZE) \<Longrightarrow> fmap_ok D rd' as"
proof -
  have b: "baddr rd' as i = baddr rd as i" for i using assms [of "as ! NDIRECT"] by (auto simp: baddr_def fblocks_def)
  then show "i < MAXFILE \<Longrightarrow> baddr rd' as i = baddr rd as i" by simp
  show f: "fblocks rd' as = fblocks rd as" using b by (auto simp: fblocks_def)
  show "fbyte rd' as k = fbyte rd as k" if "k < MAXFILE * BSIZE"
    using assms [of "baddr rd as (k div BSIZE)"] baddr_fblocks [OF kdiv [OF that], of rd as] by (auto simp: fbyte_def b Let_def)
  show "fmap_ok D rd' as" if "fmap_ok D rd as" "\<And>b. b \<in> D \<Longrightarrow> length (rd' b) = BSIZE" using that f b by (auto simp: fmap_ok_def)
qed

subsection \<open>Inodes in their blocks\<close>

lemma length_put_addrs [simp]: "length (put_addrs d k as) = length d"
proof -
  have "length (fold (\<lambda>i d. put32 d (k + 4 * i) (as ! i)) is d) = length d" for "is" by (induction "is" arbitrary: d) simp_all
  then show ?thesis by (simp add: put_addrs_def)
qed

lemma length_put_dinode [simp]: "length (put_dinode d k di) = length d"
  by (simp add: put_dinode_def)

lemma put_addrs_n:
  assumes "k + 4 * n \<le> length d"
  shows "i < n \<Longrightarrow> get32 (fold (\<lambda>i d. put32 d (k + 4 * i) (as ! i)) [0..<n] d) (k + 4 * i) = as ! i"
    and "j < k \<or> k + 4 * n \<le> j \<Longrightarrow> fold (\<lambda>i d. put32 d (k + 4 * i) (as ! i)) [0..<n] d ! j = d ! j"
    and "length (fold (\<lambda>i d. put32 d (k + 4 * i) (as ! i)) [0..<n] d) = length d"
  using assms
proof (induction n)
  case (Suc n)
  let ?d = "fold (\<lambda>i d. put32 d (k + 4 * i) (as ! i)) [0..<n] d"
  {
    case 1
    then show ?case using Suc.IH(1,3) by (cases "i = n") (auto simp: get32_put32_diff)
  next
    case 2
    then show ?case using Suc.IH(2) by (auto simp: nth_put32_other)
  next
    case 3
    then show ?case using Suc.IH(3) by simp
  }
qed simp_all

lemma get32_same: "(\<And>i. j \<le> i \<Longrightarrow> i < j + 4 \<Longrightarrow> d' ! i = d ! i) \<Longrightarrow> get32 d' j = get32 d j"
  by (simp add: get32_def)

lemma get16_same: "(\<And>i. j \<le> i \<Longrightarrow> i < j + 2 \<Longrightarrow> d' ! i = d ! i) \<Longrightarrow> get16 d' j = get16 d j"
  by (simp add: get16_def)

lemma nth_put16_other: "j < k \<or> k + 2 \<le> j \<Longrightarrow> put16 bs k v ! j = bs ! j"
  by (auto simp: put16_def)

lemma put_dinode_other: "j < k \<or> k + 64 \<le> j \<Longrightarrow> k + 64 \<le> length d \<Longrightarrow> put_dinode d k di ! j = d ! j"
  unfolding put_dinode_def put_addrs_def by (subst put_addrs_n(2)) (auto simp: nth_put32_other nth_put16_other)

lemma get_put_dinode:
  assumes "k + 64 \<le> length d" and "length (di_addrs di) = 13"
  shows "get_dinode (put_dinode d k di) k = di"
proof -
  let ?h = "put32 (put16 (put16 (put16 (put16 d k (di_type di)) (k + 2) (di_major di)) (k + 4) (di_minor di)) (k + 6) (di_nlink di)) (k + 8) (di_size di)"
  let ?d = "put_dinode d k di"
  have p: "?d = fold (\<lambda>i d. put32 d (k + 12 + 4 * i) (di_addrs di ! i)) [0..<13] ?h" by (simp add: put_dinode_def put_addrs_def)
  have l: "k + 12 + 4 * 13 \<le> length ?h" using assms(1) by simp
  note A = put_addrs_n [where as = "di_addrs di", OF l]
  have h: "?d ! j = ?h ! j" if "j < k + 12" for j unfolding p by (rule A(2)) (use that in simp)
  have "get16 ?d j = get16 ?h j" if "j + 2 \<le> k + 12" for j by (rule get16_same) (use h that in simp)
  moreover have "get16 (put32 e (k + 8) v) j = get16 e j" if "j + 2 \<le> k + 8" for e v j by (rule get16_same) (use that in \<open>simp add: nth_put32_other\<close>)
  ultimately have "get16 ?d k = di_type di" "get16 ?d (k + 2) = di_major di" "get16 ?d (k + 4) = di_minor di" "get16 ?d (k + 6) = di_nlink di"
    using assms(1) by (simp_all add: get16_put16_diff)
  moreover have "get32 ?d (k + 8) = get32 ?h (k + 8)" by (rule get32_same) (use h in simp)
  then have "get32 ?d (k + 8) = di_size di" using assms(1) by simp
  moreover have "map (\<lambda>i. get32 ?d (k + 12 + 4 * i)) [0..<13] = di_addrs di"
    unfolding p by (rule nth_equalityI) (use assms(2) A(1) in simp_all)
  ultimately show ?thesis by (simp add: get_dinode_def)
qed

lemma get_dinode_other:
  assumes "j + 64 \<le> k \<or> k + 64 \<le> j" and "k + 64 \<le> length d"
  shows "get_dinode (put_dinode d k di) j = get_dinode d j"
proof -
  have "put_dinode d k di ! i = d ! i" if "j \<le> i" "i < j + 64" for i by (rule put_dinode_other) (use that assms in auto)
  then have "get16 (put_dinode d k di) i = get16 d i" if "j \<le> i" "i + 2 \<le> j + 64" for i using that by (intro get16_same) simp
  moreover have "get32 (put_dinode d k di) i = get32 d i" if "j \<le> i" "i + 4 \<le> j + 64" for i
    using that \<open>\<And>i. j \<le> i \<Longrightarrow> i < j + 64 \<Longrightarrow> put_dinode d k di ! i = d ! i\<close> by (intro get32_same) simp
  ultimately show ?thesis by (simp add: get_dinode_def)
qed

end
