(* ===== verification/Mkfs.thy ===== *)
theory Mkfs
  imports Fs_Dir Fmap
begin

section \<open>The file system image (mkfs.c)\<close>

text \<open>
  The program that runs on the host and builds the disk image: super block, root directory, one file for
  each argument, bitmap. The state is the image file, as its sectors and their number, and the global
  variables. A run can end early: \<open>Exit\<close> is \<open>perror\<close> followed by \<open>exit(1)\<close>, \<open>Assert\<close> a failed assertion.
  The host is a parameter: \<open>files\<close> gives for the name of a file what its reads return, one list for
  each \<open>read\<close> until one returns no bytes, or \<open>None\<close> if it cannot be opened. Seeks and writes of the image succeed.
  Progress messages are left out. Numbers on the disk are little endian, which is what
  \<open>xshort\<close> and \<open>xint\<close> arrange on any host; reading and writing a structure goes through its bytes.

  Lemmas: \<open>iappend\<close> adds bytes at the end of a file and changes no other, and the image holds each
  file with its name and contents.
\<close>

subsection \<open>Outcomes and state\<close>

datatype mk_fail = Exit string | Assert string

definition bindm :: "mk_fail + 'a \<Rightarrow> ('a \<Rightarrow> mk_fail + 'b) \<Rightarrow> mk_fail + 'b" where
  "bindm x f = (case x of Inl e \<Rightarrow> Inl e | Inr v \<Rightarrow> f v)"

lemma bindm_simps [simp]: "bindm (Inr v) f = f v" "bindm (Inl e) f = Inl e"
  by (simp_all add: bindm_def)

lemma bindm_cong [fundef_cong]: "x = y \<Longrightarrow> (\<And>v. y = Inr v \<Longrightarrow> f v = g v) \<Longrightarrow> bindm x f = bindm y g"
  by (auto simp: bindm_def split: sum.splits)

record mkst =
  img :: "nat \<Rightarrow> block"
  img_len :: nat
  m_sb :: superblock
  freeinode :: uint
  freeblock :: uint

abbreviation (input) FSSIZE :: nat where "FSSIZE \<equiv> 1000"
abbreviation (input) NINODES :: nat where "NINODES \<equiv> 200"
abbreviation (input) nbitmap :: nat where "nbitmap \<equiv> FSSIZE div (BSIZE * 8) + 1"
abbreviation (input) ninodeblocks :: nat where "ninodeblocks \<equiv> NINODES div IPB + 1"
abbreviation (input) nlog :: nat where "nlog \<equiv> LOGSIZE"

subsection \<open>Byte order\<close>

definition xshort :: "ushort \<Rightarrow> uchar list" where
  "xshort x = [ucast x, ucast (drop_bit 8 x)]"

definition xint :: "uint \<Rightarrow> uchar list" where
  "xint x = [ucast x, ucast (drop_bit 8 x), ucast (drop_bit 16 x), ucast (drop_bit 24 x)]"

subsection \<open>Sectors and inodes\<close>

text \<open>The offset \<open>sec * BSIZE\<close> is computed in 32 bits.\<close>

definition sector :: "uint \<Rightarrow> nat" where
  "sector sec = unat (sec * 512) div BSIZE"

definition wsect :: "uint \<Rightarrow> block \<Rightarrow> mkst \<Rightarrow> mkst" where
  "wsect sec buf s = s\<lparr>img := (img s)(sector sec := buf), img_len := max (img_len s) (Suc (sector sec))\<rparr>"

definition rsect :: "uint \<Rightarrow> mkst \<Rightarrow> mk_fail + block" where
  "rsect sec s = (if sector sec < img_len s then Inr (img s (sector sec)) else Inl (Exit ''read''))"

definition winode :: "uint \<Rightarrow> dinode \<Rightarrow> mkst \<Rightarrow> mk_fail + mkst" where
  "winode inum ip s =
     (let bn = IBLOCK inum (m_sb s) in
      bindm (rsect bn s) (\<lambda>buf. Inr (wsect bn (put_dinode buf (dioff inum) ip) s)))"

definition rinode :: "uint \<Rightarrow> mkst \<Rightarrow> mk_fail + dinode" where
  "rinode inum s =
     (let bn = IBLOCK inum (m_sb s) in
      bindm (rsect bn s) (\<lambda>buf. Inr (get_dinode buf (dioff inum))))"

definition mk_ialloc :: "ushort \<Rightarrow> mkst \<Rightarrow> mk_fail + uint \<times> mkst" where
  "mk_ialloc ty s =
     (let inum = freeinode s; s = s\<lparr>freeinode := freeinode s + 1\<rparr>;
          din = \<lparr>di_type = ty, di_major = 0, di_minor = 0, di_nlink = 1, di_size = 0, di_addrs = replicate 13 0\<rparr> in
      bindm (winode inum din s) (\<lambda>s. Inr (inum, s)))"

fun mk_balloc_loop :: "nat \<Rightarrow> nat \<Rightarrow> block \<Rightarrow> block" where
  "mk_balloc_loop 0 i buf = buf"
| "mk_balloc_loop (Suc k) i buf = mk_balloc_loop k (Suc i) (buf[i div 8 := buf ! (i div 8) OR push_bit (i mod 8) 1])"

definition mk_balloc :: "int \<Rightarrow> mkst \<Rightarrow> mk_fail + mkst" where
  "mk_balloc used s =
     (if \<not> used < 4096 then Inl (Assert ''used < BSIZE*8'')
      else Inr (wsect (sb_bmapstart (m_sb s)) (mk_balloc_loop (nat used) 0 (replicate BSIZE 0)) s))"

subsection \<open>Appending to a file\<close>

text \<open>The block for \<open>fbn\<close>, allocated if the file does not have it.\<close>

definition iappend_block :: "nat \<Rightarrow> dinode \<Rightarrow> mkst \<Rightarrow> mk_fail + uint \<times> dinode \<times> mkst" where
  "iappend_block fbn din s =
     (if fbn < NDIRECT then
        let (din, s) =
          (if di_addrs din ! fbn = 0
           then (din\<lparr>di_addrs := (di_addrs din)[fbn := freeblock s]\<rparr>, s\<lparr>freeblock := freeblock s + 1\<rparr>)
           else (din, s)) in
        Inr (di_addrs din ! fbn, din, s)
      else
        let (din, s) =
          (if di_addrs din ! NDIRECT = 0
           then (din\<lparr>di_addrs := (di_addrs din)[NDIRECT := freeblock s]\<rparr>, s\<lparr>freeblock := freeblock s + 1\<rparr>)
           else (din, s)) in
        bindm (rsect (di_addrs din ! NDIRECT) s) (\<lambda>indirect.
        let (indirect, s) =
          (if get32 indirect (4 * (fbn - NDIRECT)) = 0 then
             let indirect = put32 indirect (4 * (fbn - NDIRECT)) (freeblock s); s = s\<lparr>freeblock := freeblock s + 1\<rparr> in
             (indirect, wsect (di_addrs din ! NDIRECT) indirect s)
           else (indirect, s)) in
        Inr (get32 indirect (4 * (fbn - NDIRECT)), din, s)))"

lemma block_rest: "unat ((off div 512 + 1) * 512 - off) = BSIZE - unat off mod BSIZE" for off :: uint
proof -
  have "off div 512 * 512 + off mod 512 = off" by (rule div_mult_mod_eq)
  then have "(off div 512 + 1) * 512 - off = (off div 512 + 1) * 512 - (off div 512 * 512 + off mod 512)" by simp
  also have "\<dots> = 512 - off mod 512" by (simp only: distrib_right) simp
  finally have e: "(off div 512 + 1) * 512 - off = 512 - off mod 512" .
  have "off mod 512 < 512" by (rule word_mod_less_divisor) simp
  then have "unat (512 - off mod 512) = unat (512 :: uint) - unat (off mod 512)" by (intro unat_sub) simp
  then show ?thesis unfolding e by (simp add: unat_mod)
qed

lemma block_rest_pos: "0 < unat (off div 512 * 512 + 512 - off)" for off :: uint
  using block_rest [of off] by (simp add: distrib_right)

function iappend_loop :: "uchar list \<Rightarrow> uint \<Rightarrow> dinode \<Rightarrow> mkst \<Rightarrow> mk_fail + uint \<times> dinode \<times> mkst" where
  "iappend_loop p off din s =
     (if p = [] then Inr (off, din, s)
      else let fbn = off div 512 in
        if \<not> fbn < 140 then Inl (Assert ''fbn < MAXFILE'')
        else bindm (iappend_block (unat fbn) din s) (\<lambda>(x, din, s).
          let n1 = min (length p) (unat ((fbn + 1) * 512 - off)); k = unat (off - fbn * 512) in
          bindm (rsect x s) (\<lambda>buf.
          iappend_loop (drop n1 p) (off + of_nat n1) din (wsect x (take k buf @ take n1 p @ drop (k + n1) buf) s))))"
  by pat_completeness auto
termination
  by (relation "measure (\<lambda>(p, off, din, s). length p)") (auto intro!: diff_less simp: block_rest_pos)

declare iappend_loop.simps [simp del]

definition iappend :: "uint \<Rightarrow> uchar list \<Rightarrow> mkst \<Rightarrow> mk_fail + mkst" where
  "iappend inum p s =
     bindm (rinode inum s) (\<lambda>din.
     bindm (iappend_loop p (di_size din) din s) (\<lambda>(off, din, s).
     winode inum (din\<lparr>di_size := off\<rparr>) s))"

subsection \<open>The program\<close>

definition sb_bytes :: "superblock \<Rightarrow> uchar list" where
  "sb_bytes sb = xint (sb_size sb) @ xint (sb_nblocks sb) @ xint (sb_ninodes sb) @ xint (sb_nlog sb)
     @ xint (sb_logstart sb) @ xint (sb_inodestart sb) @ xint (sb_bmapstart sb)"

definition mk_sb :: superblock where
  "mk_sb =
     (let nmeta = 2 + nlog + ninodeblocks + nbitmap; nblocks = FSSIZE - nmeta in
      \<lparr>sb_size = of_nat FSSIZE, sb_nblocks = of_nat nblocks, sb_ninodes = of_nat NINODES, sb_nlog = of_nat nlog,
       sb_logstart = 2, sb_inodestart = of_nat (2 + nlog), sb_bmapstart = of_nat (2 + nlog + ninodeblocks)\<rparr>)"

definition mk_entry :: "uint \<Rightarrow> uchar list \<Rightarrow> uchar list" where
  "mk_entry inum name = xshort (ucast inum) @ strncpy_list DIRSIZ name"

fun mk_append_all :: "uint \<Rightarrow> uchar list list \<Rightarrow> mkst \<Rightarrow> mk_fail + mkst" where
  "mk_append_all inum [] s = Inr s"
| "mk_append_all inum (buf # chunks) s = bindm (iappend inum buf s) (\<lambda>s. mk_append_all inum chunks s)"

definition skip_underscore :: "uchar list \<Rightarrow> uchar list" where
  "skip_underscore a = (if hd0 a = 95 then tl a else a)"

fun mk_files :: "(uchar list \<Rightarrow> uchar list list option) \<Rightarrow> uint \<Rightarrow> uchar list list \<Rightarrow> mkst \<Rightarrow> mk_fail + mkst" where
  "mk_files files rootino [] s = Inr s"
| "mk_files files rootino (a # as) s =
     (if 47 \<in> set a then Inl (Assert ''index(argv[i], /) == 0'')
      else case files a of
        None \<Rightarrow> Inl (Exit ''open'')
      | Some chunks \<Rightarrow>
          bindm (mk_ialloc T_FILE s) (\<lambda>(inum, s).
          bindm (iappend rootino (mk_entry inum (skip_underscore a)) s) (\<lambda>s.
          bindm (mk_append_all inum chunks s) (\<lambda>s. mk_files files rootino as s))))"

definition mk_fix_root :: "uint \<Rightarrow> mkst \<Rightarrow> mk_fail + mkst" where
  "mk_fix_root rootino s =
     bindm (rinode rootino s) (\<lambda>din.
     let off = (di_size din div 512 + 1) * 512 in winode rootino (din\<lparr>di_size := off\<rparr>) s)"

definition mk_format :: "mkst \<Rightarrow> mkst" where
  "mk_format s =
     (let s = s\<lparr>m_sb := mk_sb, freeblock := of_nat (2 + nlog + ninodeblocks + nbitmap)\<rparr>;
          s = fold (\<lambda>i. wsect (of_nat i) (replicate BSIZE 0)) [0..<FSSIZE] s;
          buf = sb_bytes mk_sb @ replicate (BSIZE - length (sb_bytes mk_sb)) 0 in
      wsect 1 buf s)"

text \<open>The image starts empty, \<open>open\<close> having truncated it; \<open>freeinode\<close> starts at 1.\<close>

definition mkst0 :: mkst where
  "mkst0 = \<lparr>img = (\<lambda>_. replicate BSIZE 0), img_len = 0,
     m_sb = \<lparr>sb_size = 0, sb_nblocks = 0, sb_ninodes = 0, sb_nlog = 0, sb_logstart = 0, sb_inodestart = 0, sb_bmapstart = 0\<rparr>,
     freeinode = 1, freeblock = 0\<rparr>"

definition mkfs :: "bool \<Rightarrow> (uchar list \<Rightarrow> uchar list list option) \<Rightarrow> uchar list list \<Rightarrow> mk_fail + mkst" where
  "mkfs opened files argv =
     (if length argv < 2 then Inl (Exit ''Usage: mkfs fs.img files...'')
      else if \<not> opened then Inl (Exit ''open'')
      else bindm (mk_ialloc T_DIR (mk_format mkst0)) (\<lambda>(rootino, s).
        if rootino \<noteq> ROOTINO then Inl (Assert ''rootino == ROOTINO'')
        else bindm (iappend rootino (mk_entry rootino [46]) s) (\<lambda>s.
        bindm (iappend rootino (mk_entry rootino [46, 46]) s) (\<lambda>s.
        bindm (mk_files files rootino (drop 2 argv) s) (\<lambda>s.
        bindm (mk_fix_root rootino s) (\<lambda>s.
        mk_balloc (sint (freeblock s)) s))))))"

subsection \<open>What the image holds\<close>

definition mrd :: "mkst \<Rightarrow> uint \<Rightarrow> block" where
  "mrd s b = img s (unat b)"

text \<open>The layout, and that the blocks not yet given out are zero.\<close>

definition base_ok :: "mkst \<Rightarrow> bool" where
  "base_ok s \<longleftrightarrow> m_sb s = mk_sb \<and> img_len s = FSSIZE \<and> (\<forall>i. length (img s i) = BSIZE)
     \<and> 59 \<le> unat (freeblock s) \<and> unat (freeblock s) \<le> FSSIZE \<and> (\<forall>i. unat (freeblock s) \<le> i \<longrightarrow> img s i = zeroes)"

definition data_blocks :: "mkst \<Rightarrow> uint set" where
  "data_blocks s = {b. 59 \<le> unat b \<and> unat b < unat (freeblock s)}"

text \<open>A file of \<open>n\<close> bytes has exactly the blocks that many bytes need.\<close>

definition has_blocks :: "(uint \<Rightarrow> block) \<Rightarrow> uint list \<Rightarrow> nat \<Rightarrow> bool" where
  "has_blocks rd as n \<longleftrightarrow> (\<forall>i < MAXFILE. baddr rd as i \<noteq> 0 \<longleftrightarrow> BSIZE * i < n) \<and> (as ! NDIRECT \<noteq> 0 \<longleftrightarrow> NDIRECT * BSIZE < n)"

definition nblk :: "nat \<Rightarrow> nat" where
  "nblk n = (n + (BSIZE - 1)) div BSIZE + (if NDIRECT * BSIZE < n then 1 else 0)"

lemma sector_small: "unat b < 2 ^ 23 \<Longrightarrow> sector b = unat b"
  by (simp add: sector_def unat_word_ariths)

lemma base_sect:
  assumes "base_ok s" and "unat b < FSSIZE"
  shows "rsect b s = Inr (mrd s b)" and "mrd (wsect b d s) = (mrd s)(b := d)" and "img_len (wsect b d s) = FSSIZE"
    and "m_sb (wsect b d s) = m_sb s" "freeblock (wsect b d s) = freeblock s" "freeinode (wsect b d s) = freeinode s"
    and "img (wsect b d s) i = (if i = unat b then d else img s i)"
  using assms sector_small [of b] by (auto simp: base_ok_def rsect_def wsect_def mrd_def fun_eq_iff word_unat_eq_iff [of _ b])

lemma base_wsect: "base_ok s \<Longrightarrow> unat b < unat (freeblock s) \<Longrightarrow> length d = BSIZE \<Longrightarrow> base_ok (wsect b d s)"
  using sector_small [of b] by (auto simp: base_ok_def wsect_def)

lemma mrd_freeblock [simp]: "mrd (s\<lparr>freeblock := a\<rparr>) = mrd s"
  by (simp add: mrd_def fun_eq_iff)

text \<open>Taking the next free block.\<close>

lemma take_block:
  assumes "base_ok s" and "unat (freeblock s) < FSSIZE"
  defines "t \<equiv> s\<lparr>freeblock := freeblock s + 1\<rparr>"
  shows "base_ok t" and "unat (freeblock t) = Suc (unat (freeblock s))" and "freeblock s \<in> data_blocks t" and "freeblock s \<noteq> 0"
    and "data_blocks s \<subseteq> data_blocks t" and "(mrd s)(freeblock s := zeroes) = mrd s" and "freeblock s \<notin> data_blocks s"
proof -
  show u: "unat (freeblock t) = Suc (unat (freeblock s))" using assms(2) unat_add_nat_no_wrap [of "freeblock s" 1] by (simp add: t_def)
  show "base_ok t" using assms(1,2) u by (auto simp: base_ok_def t_def)
  show "freeblock s \<in> data_blocks t" "data_blocks s \<subseteq> data_blocks t" "freeblock s \<notin> data_blocks s"
    using u assms(1) by (auto simp: data_blocks_def base_ok_def)
  show "freeblock s \<noteq> 0" using assms(1) by (auto simp: base_ok_def)
  show "(mrd s)(freeblock s := zeroes) = mrd s" using assms(1) by (auto simp: base_ok_def mrd_def fun_eq_iff)
qed

text \<open>How the blocks of a file can change: it keeps its blocks, gets new ones from the free ones, and
  no other block in use is written.\<close>

definition extends :: "mkst \<Rightarrow> uint list \<Rightarrow> mkst \<Rightarrow> uint list \<Rightarrow> bool" where
  "extends s as t bs \<longleftrightarrow> base_ok t \<and> fmap_ok (data_blocks t) (mrd t) bs \<and> freeinode t = freeinode s \<and> unat (freeblock s) \<le> unat (freeblock t)
     \<and> (\<forall>b \<in> fblocks (mrd t) bs. b \<in> fblocks (mrd s) as \<or> unat (freeblock s) \<le> unat b)
     \<and> (\<forall>b. unat b < unat (freeblock s) \<longrightarrow> b \<notin> fblocks (mrd s) as \<longrightarrow> mrd t b = mrd s b)"

lemma extends_refl: "base_ok s \<Longrightarrow> fmap_ok (data_blocks s) (mrd s) as \<Longrightarrow> extends s as s as"
  by (simp add: extends_def)

lemma extends_trans:
  assumes "extends s as t bs" and "extends t bs u cs"
  shows "extends s as u cs"
proof -
  have le: "unat (freeblock s) \<le> unat (freeblock t)" "unat (freeblock t) \<le> unat (freeblock u)" using assms by (auto simp: extends_def)
  have st: "b \<in> fblocks (mrd s) as \<or> unat (freeblock s) \<le> unat b" if "b \<in> fblocks (mrd t) bs" for b using assms(1) that by (auto simp: extends_def)
  have "b \<in> fblocks (mrd s) as \<or> unat (freeblock s) \<le> unat b" if "b \<in> fblocks (mrd u) cs" for b
  proof -
    have "b \<in> fblocks (mrd t) bs \<or> unat (freeblock t) \<le> unat b" using assms(2) that by (auto simp: extends_def)
    then show ?thesis using st [of b] le(1) by linarith
  qed
  moreover have "mrd u b = mrd s b" if "unat b < unat (freeblock s)" "b \<notin> fblocks (mrd s) as" for b
  proof -
    have "b \<notin> fblocks (mrd t) bs" using st [of b] that by auto
    then show ?thesis using assms that le(1) by (auto simp: extends_def)
  qed
  ultimately show ?thesis using assms le unfolding extends_def by auto
qed

lemma add_direct:
  assumes "base_ok s" and "fmap_ok (data_blocks s) (mrd s) as" and "bn < NDIRECT" and "as ! bn = 0" and "unat (freeblock s) < FSSIZE"
  defines "t \<equiv> s\<lparr>freeblock := freeblock s + 1\<rparr>" and "bs \<equiv> as[bn := freeblock s]"
  shows "extends s as t bs" and "k < MAXFILE * BSIZE \<Longrightarrow> fbyte (mrd t) bs k = fbyte (mrd s) as k"
    and "i < MAXFILE \<Longrightarrow> baddr (mrd t) bs i = (if i = bn then freeblock s else baddr (mrd s) as i)"
proof -
  note T = take_block [OF assms(1,5), folded t_def]
  have ok: "fmap_ok (data_blocks t) (mrd s) as" by (rule fmap_ok_mono [OF assms(2) T(5)]) (use assms(1) in \<open>simp add: base_ok_def mrd_def\<close>)
  have nf: "freeblock s \<notin> fblocks (mrd s) as" using T(7) fmap_okD(2) [OF assms(2)] by blast
  have m: "mrd t = mrd s" by (simp add: t_def)
  note F = fadd_direct [OF ok assms(3,4) T(3) nf T(4), folded bs_def, unfolded T(6)]
  show "extends s as t bs" using F(1,2) T(1,2) unfolding extends_def m by (auto simp: t_def)
  show "k < MAXFILE * BSIZE \<Longrightarrow> fbyte (mrd t) bs k = fbyte (mrd s) as k" using F(4) unfolding m .
  show "i < MAXFILE \<Longrightarrow> baddr (mrd t) bs i = (if i = bn then freeblock s else baddr (mrd s) as i)" using F(3) unfolding m .
qed

lemma add_indirect:
  assumes "base_ok s" and "fmap_ok (data_blocks s) (mrd s) as" and "as ! NDIRECT = 0" and "unat (freeblock s) < FSSIZE"
  defines "t \<equiv> s\<lparr>freeblock := freeblock s + 1\<rparr>" and "bs \<equiv> as[NDIRECT := freeblock s]"
  shows "extends s as t bs" and "k < MAXFILE * BSIZE \<Longrightarrow> fbyte (mrd t) bs k = fbyte (mrd s) as k"
    and "i < MAXFILE \<Longrightarrow> baddr (mrd t) bs i = baddr (mrd s) as i"
proof -
  note T = take_block [OF assms(1,4), folded t_def]
  have ok: "fmap_ok (data_blocks t) (mrd s) as" by (rule fmap_ok_mono [OF assms(2) T(5)]) (use assms(1) in \<open>simp add: base_ok_def mrd_def\<close>)
  have nf: "freeblock s \<notin> fblocks (mrd s) as" using T(7) fmap_okD(2) [OF assms(2)] by blast
  have m: "mrd t = mrd s" by (simp add: t_def)
  note F = fadd_indirect [OF ok assms(3) T(3) nf T(4), folded bs_def, unfolded T(6)]
  show "extends s as t bs" using F(1,2) T(1,2) unfolding extends_def m by (auto simp: t_def)
  show "k < MAXFILE * BSIZE \<Longrightarrow> fbyte (mrd t) bs k = fbyte (mrd s) as k" using F(4) unfolding m .
  show "i < MAXFILE \<Longrightarrow> baddr (mrd t) bs i = baddr (mrd s) as i" using F(3) unfolding m .
qed

lemma add_entry:
  assumes "base_ok s" and "fmap_ok (data_blocks s) (mrd s) as" and "as ! NDIRECT = ib" "ib \<noteq> 0" and bn: "NDIRECT \<le> bn" "bn < MAXFILE"
    and "baddr (mrd s) as bn = 0" and "unat (freeblock s) < FSSIZE"
  defines "t \<equiv> wsect ib (put32 (mrd s ib) (4 * (bn - NDIRECT)) (freeblock s)) (s\<lparr>freeblock := freeblock s + 1\<rparr>)"
  shows "extends s as t as" and "k < MAXFILE * BSIZE \<Longrightarrow> fbyte (mrd t) as k = fbyte (mrd s) as k"
    and "i < MAXFILE \<Longrightarrow> baddr (mrd t) as i = (if i = bn then freeblock s else baddr (mrd s) as i)"
    and "unat (freeblock t) = Suc (unat (freeblock s))"
proof -
  let ?u = "s\<lparr>freeblock := freeblock s + 1\<rparr>"
  note T = take_block [OF assms(1,8)]
  have ok: "fmap_ok (data_blocks ?u) (mrd s) as" by (rule fmap_ok_mono [OF assms(2) T(5)]) (use assms(1) in \<open>simp add: base_ok_def mrd_def\<close>)
  have nf: "freeblock s \<notin> fblocks (mrd s) as" using T(7) fmap_okD(2) [OF assms(2)] by blast
  have ib: "ib \<in> fblocks (mrd s) as" using assms(3,4) by (auto simp: fblocks_def)
  then have ibd: "59 \<le> unat ib" "unat ib < unat (freeblock s)" using fmap_okD(2) [OF assms(2)] by (auto simp: data_blocks_def)
  have l: "length (mrd s ib) = BSIZE" using assms(1) by (simp add: base_ok_def mrd_def)
  have lim: "unat ib < FSSIZE" using ibd assms(8) by simp
  note W = base_sect(2,5,6) [OF T(1) lim]
  have m: "mrd t = (mrd s)(ib := put32 (mrd s ib) (4 * (bn - NDIRECT)) (freeblock s))" unfolding t_def W(1) by simp
  have bt: "base_ok t" unfolding t_def by (rule base_wsect [OF T(1)]) (use ibd T(2) l in simp_all)
  note F = fadd_entry [OF ok bn assms(3,4,7) T(3) nf T(4), unfolded T(6), folded m]
  show fb: "unat (freeblock t) = Suc (unat (freeblock s))" unfolding t_def W(2) T(2) ..
  have "data_blocks t = data_blocks ?u" unfolding data_blocks_def t_def W(2) ..
  then have "fmap_ok (data_blocks t) (mrd t) as" using F(1) by simp
  moreover have "freeinode t = freeinode s" unfolding t_def W(3) by simp
  moreover have "mrd t b = mrd s b" if "b \<notin> fblocks (mrd s) as" for b using that ib m by auto
  ultimately show "extends s as t as" using F(2) bt fb unfolding extends_def by auto
  show "k < MAXFILE * BSIZE \<Longrightarrow> fbyte (mrd t) as k = fbyte (mrd s) as k" using F(4) .
  show "i < MAXFILE \<Longrightarrow> baddr (mrd t) as i = (if i = bn then freeblock s else baddr (mrd s) as i)" using F(3) .
qed

text \<open>The blocks that one more byte needs.\<close>

definition newblk :: "nat \<Rightarrow> nat" where
  "newblk n = (if n mod BSIZE \<noteq> 0 then 0 else if n = NDIRECT * BSIZE then 2 else 1)"

lemma has_blocksD:
  "has_blocks rd as n \<Longrightarrow> i < MAXFILE \<Longrightarrow> baddr rd as i = 0 \<longleftrightarrow> n \<le> BSIZE * i" "has_blocks rd as n \<Longrightarrow> as ! NDIRECT = 0 \<longleftrightarrow> n \<le> NDIRECT * BSIZE"
  unfolding has_blocks_def by (metis not_le)+

lemma has_blocks_same: "n mod BSIZE \<noteq> 0 \<Longrightarrow> has_blocks rd as n \<Longrightarrow> has_blocks rd as (Suc n)"
  by (auto simp: has_blocks_def less_Suc_eq)

lemma has_blocks_new:
  assumes "has_blocks rd as (BSIZE * bn)" and "\<And>i. i < MAXFILE \<Longrightarrow> baddr rd' bs i = (if i = bn then a else baddr rd as i)" and "a \<noteq> 0"
    and "bs ! NDIRECT \<noteq> 0 \<longleftrightarrow> NDIRECT \<le> bn"
  shows "has_blocks rd' bs (Suc (BSIZE * bn))"
  using assms by (auto simp: has_blocks_def)

definition block_spec :: "nat \<Rightarrow> dinode \<Rightarrow> mkst \<Rightarrow> uint \<Rightarrow> uint list \<Rightarrow> mkst \<Rightarrow> bool" where
  "block_spec n din s x bs t \<longleftrightarrow> iappend_block (n div BSIZE) din s = Inr (x, din\<lparr>di_addrs := bs\<rparr>, t) \<and> extends s (di_addrs din) t bs
    \<and> (\<forall>k < MAXFILE * BSIZE. fbyte (mrd t) bs k = fbyte (mrd s) (di_addrs din) k) \<and> baddr (mrd t) bs (n div BSIZE) = x \<and> x \<noteq> 0
    \<and> has_blocks (mrd t) bs (Suc n) \<and> unat (freeblock t) = unat (freeblock s) + newblk n"

lemma rsect_own:
  assumes "base_ok s" and "fmap_ok (data_blocks s) (mrd s) as" and "as ! NDIRECT \<noteq> 0"
  shows "rsect (as ! NDIRECT) s = Inr (mrd s (as ! NDIRECT))"
proof -
  have "as ! NDIRECT \<in> data_blocks s" using fmap_okD(2) [OF assms(2)] assms(3) by (auto simp: fblocks_def)
  then show ?thesis by (intro base_sect(1) [OF assms(1)]) (use assms(1) in \<open>auto simp: data_blocks_def base_ok_def\<close>)
qed

lemma block_old:
  assumes base: "base_ok s" and ok: "fmap_ok (data_blocks s) (mrd s) (di_addrs din)" and hb: "has_blocks (mrd s) (di_addrs din) n"
    and n: "n < MAXFILE * BSIZE" "n mod BSIZE \<noteq> 0"
  shows "block_spec n din s (baddr (mrd s) (di_addrs din) (n div BSIZE)) (di_addrs din) s"
proof -
  have lt: "BSIZE * (n div BSIZE) < n" using mult_div_mod_eq [of BSIZE n] n(2) by linarith
  have x: "baddr (mrd s) (di_addrs din) (n div BSIZE) \<noteq> 0" using hb kdiv [OF n(1)] lt by (auto simp: has_blocks_def)
  have "iappend_block (n div BSIZE) din s = Inr (baddr (mrd s) (di_addrs din) (n div BSIZE), din\<lparr>di_addrs := di_addrs din\<rparr>, s)"
    using x rsect_own [OF base ok] by (auto simp: iappend_block_def baddr_def split: if_splits)
  then show ?thesis using extends_refl [OF base ok] x has_blocks_same [OF n(2) hb] n(2) by (simp add: block_spec_def newblk_def)
qed

lemma block_new_direct:
  assumes base: "base_ok s" and ok: "fmap_ok (data_blocks s) (mrd s) (di_addrs din)" and hb: "has_blocks (mrd s) (di_addrs din) (BSIZE * bn)"
    and bn: "bn < NDIRECT" and sp: "unat (freeblock s) < FSSIZE"
  shows "block_spec (BSIZE * bn) din s (freeblock s) ((di_addrs din)[bn := freeblock s]) (s\<lparr>freeblock := freeblock s + 1\<rparr>)"
proof -
  have a0: "di_addrs din ! bn = 0" using has_blocksD(1) [OF hb, of bn] bn by (simp add: baddr_def)
  note A = add_direct [OF base ok bn a0 sp]
  have l: "length (di_addrs din) = 13" using fmap_okD(1) [OF ok] .
  have f0: "freeblock s \<noteq> 0" using take_block(4) [OF base sp] .
  have "has_blocks (mrd (s\<lparr>freeblock := freeblock s + 1\<rparr>)) ((di_addrs din)[bn := freeblock s]) (Suc (BSIZE * bn))"
    by (rule has_blocks_new [OF hb A(3) f0]) (use hb bn in \<open>auto simp: has_blocks_def\<close>)
  moreover have "iappend_block bn din s = Inr (freeblock s, din\<lparr>di_addrs := (di_addrs din)[bn := freeblock s]\<rparr>, s\<lparr>freeblock := freeblock s + 1\<rparr>)"
    using a0 bn l by (simp add: iappend_block_def)
  ultimately show ?thesis using A f0 bn take_block(2) [OF base sp] by (simp add: block_spec_def newblk_def)
qed

lemma block_new_entry:
  assumes base: "base_ok s" and ok: "fmap_ok (data_blocks s) (mrd s) (di_addrs din)" and hb: "has_blocks (mrd s) (di_addrs din) (BSIZE * bn)"
    and bn: "NDIRECT < bn" "bn < MAXFILE" and sp: "unat (freeblock s) < FSSIZE"
  shows "\<exists>t. block_spec (BSIZE * bn) din s (freeblock s) (di_addrs din) t"
proof -
  let ?ib = "di_addrs din ! NDIRECT"
  let ?t = "wsect ?ib (put32 (mrd s ?ib) (4 * (bn - NDIRECT)) (freeblock s)) (s\<lparr>freeblock := freeblock s + 1\<rparr>)"
  have ib: "?ib \<noteq> 0" and b0: "baddr (mrd s) (di_addrs din) bn = 0"
    using has_blocksD(2) [OF hb] has_blocksD(1) [OF hb bn(2)] bn by simp_all
  note A = add_entry [OF base ok refl ib less_imp_le [OF bn(1)] bn(2) b0 sp]
  have g0: "get32 (mrd s ?ib) (4 * (bn - NDIRECT)) = 0" using b0 bn ib by (simp add: baddr_def)
  have "length (mrd s ?ib) = BSIZE" using base by (simp add: base_ok_def mrd_def)
  then have "iappend_block bn din s = Inr (freeblock s, din\<lparr>di_addrs := di_addrs din\<rparr>, ?t)"
    using rsect_own [OF base ok ib] g0 bn ib by (simp add: iappend_block_def Let_def)
  moreover have f0: "freeblock s \<noteq> 0" using take_block(4) [OF base sp] .
  moreover have "has_blocks (mrd ?t) (di_addrs din) (Suc (BSIZE * bn))" by (rule has_blocks_new [OF hb A(3) f0]) (use ib bn in auto)
  ultimately have "block_spec (BSIZE * bn) din s (freeblock s) (di_addrs din) ?t" using A bn by (simp add: block_spec_def newblk_def)
  then show ?thesis ..
qed

lemma block_new_indirect:
  assumes base: "base_ok s" and ok: "fmap_ok (data_blocks s) (mrd s) (di_addrs din)" and hb: "has_blocks (mrd s) (di_addrs din) (BSIZE * NDIRECT)"
    and sp: "unat (freeblock s) + 1 < FSSIZE"
  shows "\<exists>x bs t. block_spec (BSIZE * NDIRECT) din s x bs t"
proof -
  let ?f = "freeblock s" and ?as = "di_addrs din"
  let ?s = "s\<lparr>freeblock := ?f + 1\<rparr>" and ?bs = "?as[NDIRECT := ?f]"
  let ?t = "wsect ?f (put32 (mrd ?s ?f) (4 * (NDIRECT - NDIRECT)) (freeblock ?s)) (?s\<lparr>freeblock := freeblock ?s + 1\<rparr>)"
  have sp1: "unat ?f < FSSIZE" using sp by simp
  have n0: "?as ! NDIRECT = 0" and b0: "baddr (mrd s) ?as NDIRECT = 0" using has_blocksD(2) [OF hb] has_blocksD(1) [OF hb, of NDIRECT] by simp_all
  note A = add_indirect [OF base ok n0 sp1] and T = take_block [OF base sp1]
  have l: "length ?as = 13" using fmap_okD(1) [OF ok] .
  have ok1: "fmap_ok (data_blocks ?s) (mrd ?s) ?bs" using A(1) by (simp add: extends_def)
  have ib: "?bs ! NDIRECT = ?f" "?bs ! NDIRECT \<noteq> 0" using l T(4) by simp_all
  have b1: "baddr (mrd ?s) ?bs NDIRECT = 0" using A(3) [of NDIRECT] b0 by simp
  have sp2: "unat (freeblock ?s) < FSSIZE" using T(2) sp by simp
  note B = add_entry [OF T(1) ok1 ib(1) T(4) _ _ b1 sp2]
  have g0: "get32 (mrd ?s ?f) (4 * (NDIRECT - NDIRECT)) = 0" using b1 ib by (simp add: baddr_def)
  have lm: "length (mrd ?s ?f) = BSIZE" using T(1) by (simp add: base_ok_def mrd_def)
  have rs: "rsect ?f ?s = Inr (mrd ?s ?f)" using rsect_own [OF T(1) ok1 ib(2)] ib(1) by simp
  have run: "iappend_block NDIRECT din s = Inr (freeblock ?s, din\<lparr>di_addrs := ?bs\<rparr>, ?t)"
    using n0 rs g0 lm ib(1) by (simp add: iappend_block_def Let_def)
  have f1: "freeblock ?s \<noteq> 0" using take_block(4) [OF T(1) sp2] .
  have "has_blocks (mrd ?t) ?bs (Suc (BSIZE * NDIRECT))"
    by (rule has_blocks_new [OF hb _ f1]) (use B(3) A(3) ib in auto)
  moreover have "extends s ?as ?t ?bs" by (rule extends_trans [OF A(1) B(1)]) simp_all
  moreover have "fbyte (mrd ?t) ?bs k = fbyte (mrd s) ?as k" if "k < MAXFILE * BSIZE" for k using B(2) [OF _ _ that] A(2) [OF that] by simp
  moreover have "baddr (mrd ?t) ?bs NDIRECT = freeblock ?s" using B(3) by simp
  moreover have "unat (freeblock ?t) = unat (freeblock s) + newblk (BSIZE * NDIRECT)" using B(4) T(2) by (simp add: newblk_def)
  ultimately have "block_spec (BSIZE * NDIRECT) din s (freeblock ?s) ?bs ?t" using run f1 by (simp add: block_spec_def)
  then show ?thesis by blast
qed

lemma iappend_block_spec:
  assumes base: "base_ok s" and ok: "fmap_ok (data_blocks s) (mrd s) (di_addrs din)" and hb: "has_blocks (mrd s) (di_addrs din) n"
    and n: "n < MAXFILE * BSIZE" and sp: "unat (freeblock s) + newblk n \<le> FSSIZE"
  shows "\<exists>x bs t. block_spec n din s x bs t"
proof (cases "n mod BSIZE = 0")
  case False
  then show ?thesis using block_old [OF base ok hb n] by blast
next
  case True
  let ?bn = "n div BSIZE"
  have e: "BSIZE * ?bn = n" using True mult_div_mod_eq [of BSIZE n] by linarith
  have bn: "?bn < MAXFILE" using kdiv [OF n] .
  have hb': "has_blocks (mrd s) (di_addrs din) (BSIZE * ?bn)" using hb e by simp
  have sp': "unat (freeblock s) < FSSIZE" using sp True by (simp add: newblk_def split: if_splits)
  consider "?bn < NDIRECT" | "?bn = NDIRECT" | "NDIRECT < ?bn" by linarith
  then show ?thesis
  proof cases
    case 1
    then show ?thesis using block_new_direct [OF base ok hb' 1 sp'] e by auto
  next
    case 2
    then have "n = NDIRECT * BSIZE" using e by simp
    then show ?thesis using block_new_indirect [OF base ok] hb' sp 2 e by (auto simp: newblk_def)
  next
    case 3
    then show ?thesis using block_new_entry [OF base ok hb' 3 bn sp'] e by auto
  qed
qed

lemma within_block:
  assumes "n < m" and "m \<le> n + (BSIZE - n mod BSIZE)"
  shows "nblk m = nblk n + newblk n" and "has_blocks rd as (Suc n) \<Longrightarrow> has_blocks rd as m"
    and "n \<le> k \<and> k < m \<longleftrightarrow> k div BSIZE = n div BSIZE \<and> n mod BSIZE \<le> k mod BSIZE \<and> k mod BSIZE < n mod BSIZE + (m - n)"
proof -
  define q r where "q = n div BSIZE" and "r = n mod BSIZE"
  have n: "n = BSIZE * q + r" "r < BSIZE" by (simp_all add: q_def r_def)
  have m: "BSIZE * q + r < m" "m \<le> BSIZE * q + BSIZE" using assms n by (simp_all add: r_def [symmetric])
  have c: "(m + (BSIZE - 1)) div BSIZE = Suc q" by (rule div_nat_eqI) (use m in auto)
  have cn: "(n + (BSIZE - 1)) div BSIZE = (if r = 0 then q else Suc q)" by (rule div_nat_eqI) (use n in auto)
  have i: "NDIRECT * BSIZE < m \<longleftrightarrow> NDIRECT \<le> q" using m n(2) by auto
  have j: "NDIRECT * BSIZE < n \<longleftrightarrow> NDIRECT < q \<or> NDIRECT = q \<and> r \<noteq> 0" using n by auto
  have "q = NDIRECT \<and> r = 0" if "n = NDIRECT * BSIZE" using that by (simp add: q_def r_def)
  then have e: "n = NDIRECT * BSIZE \<longleftrightarrow> NDIRECT = q \<and> r = 0" using n(1) by auto
  show "nblk m = nblk n + newblk n" unfolding nblk_def newblk_def c cn i j e r_def [symmetric] by auto
  have b: "BSIZE * i < Suc n \<longleftrightarrow> BSIZE * i < m" for i
  proof -
    have "BSIZE * i < Suc n \<longleftrightarrow> i \<le> q" "BSIZE * i < m \<longleftrightarrow> i \<le> q" using n m by auto
    then show ?thesis by simp
  qed
  show "has_blocks rd as m" if "has_blocks rd as (Suc n)" using that b b [of NDIRECT] unfolding has_blocks_def by (simp add: mult.commute)
  define kq kr where "kq = k div BSIZE" and "kr = k mod BSIZE"
  have k: "k = BSIZE * kq + kr" "kr < BSIZE" by (simp_all add: kq_def kr_def)
  have kd: "kq = q" if "n \<le> k" "k < m" unfolding kq_def by (rule div_nat_eqI) (use that m n in auto)
  show "n \<le> k \<and> k < m \<longleftrightarrow> k div BSIZE = n div BSIZE \<and> n mod BSIZE \<le> k mod BSIZE \<and> k mod BSIZE < n mod BSIZE + (m - n)"
    unfolding q_def [symmetric] r_def [symmetric] kq_def [symmetric] kr_def [symmetric]
  proof
    assume h: "n \<le> k \<and> k < m"
    then have "kq = q" using kd by simp
    then show "kq = q \<and> r \<le> kr \<and> kr < r + (m - n)" using h k n by auto
  qed (use k n m in auto)
qed

text \<open>Writing part of a block.\<close>

lemma write_block:
  assumes "base_ok s" and "fmap_ok (data_blocks s) (mrd s) as" and bn: "bn < MAXFILE" and x: "baddr (mrd s) as bn = x" "x \<noteq> 0" and d: "length d = BSIZE"
  shows "extends s as (wsect x d s) as" and "freeblock (wsect x d s) = freeblock s" and "rsect x s = Inr (mrd s x)"
    and "has_blocks (mrd s) as n \<Longrightarrow> has_blocks (mrd (wsect x d s)) as n"
    and "k < MAXFILE * BSIZE \<Longrightarrow> fbyte (mrd (wsect x d s)) as k = (if k div BSIZE = bn then d ! (k mod BSIZE) else fbyte (mrd s) as k)"
proof -
  have "x \<in> fblocks (mrd s) as" using baddr_fblocks [OF bn, of "mrd s" as] x by simp
  then have "x \<in> data_blocks s" and xf: "x \<in> fblocks (mrd s) as" using fmap_okD(2) [OF assms(2)] by auto
  then have lt: "unat x < unat (freeblock s)" "unat x < FSSIZE" using assms(1) by (auto simp: data_blocks_def base_ok_def)
  note W = base_sect [OF assms(1) lt(2)] and F = fwrite [OF assms(2) bn x d]
  show fb: "freeblock (wsect x d s) = freeblock s" "rsect x s = Inr (mrd s x)" using W by simp_all
  show "extends s as (wsect x d s) as"
    using base_wsect [OF assms(1) lt(1) d] F(1,2) W(6) fb(1) xf unfolding extends_def W(2) data_blocks_def by auto
  show "has_blocks (mrd s) as n \<Longrightarrow> has_blocks (mrd (wsect x d s)) as n" using F(3) unfolding W(2) has_blocks_def by simp
  show "k < MAXFILE * BSIZE \<Longrightarrow> fbyte (mrd (wsect x d s)) as k = (if k div BSIZE = bn then d ! (k mod BSIZE) else fbyte (mrd s) as k)"
    unfolding W(2) by (rule F(4))
qed

lemma spliced:
  assumes "j < length b" and "r + n1 \<le> length b" and "n1 \<le> length p"
  shows "(take r b @ take n1 p @ drop (r + n1) b) ! j = (if r \<le> j \<and> j < r + n1 then p ! (j - r) else b ! j)"
  using assms by (auto simp: nth_append)

lemma write_part:
  assumes "base_ok s" and "fmap_ok (data_blocks s) (mrd s) as" and n: "n < MAXFILE * BSIZE" and x: "baddr (mrd s) as (n div BSIZE) = x" "x \<noteq> 0"
    and n1: "0 < n1" "n1 \<le> length p" "n mod BSIZE + n1 \<le> BSIZE" and k: "k < MAXFILE * BSIZE"
  shows "fbyte (mrd (wsect x (take (n mod BSIZE) (mrd s x) @ take n1 p @ drop (n mod BSIZE + n1) (mrd s x)) s)) as k
    = (if n \<le> k \<and> k < n + n1 then p ! (k - n) else fbyte (mrd s) as k)"
proof -
  let ?r = "n mod BSIZE" and ?b = "mrd s x" let ?d = "take ?r ?b @ take n1 p @ drop (?r + n1) ?b"
  have l: "length ?b = BSIZE" using assms(1) by (simp add: base_ok_def mrd_def)
  have w: "n \<le> k \<and> k < n + n1 \<longleftrightarrow> k div BSIZE = n div BSIZE \<and> ?r \<le> k mod BSIZE \<and> k mod BSIZE < ?r + n1"
    using within_block(3) [of n "n + n1" k] n1 by simp
  have "fbyte (mrd (wsect x ?d s)) as k = (if k div BSIZE = n div BSIZE then ?d ! (k mod BSIZE) else fbyte (mrd s) as k)"
    by (rule write_block(5) [OF assms(1,2) kdiv [OF n] x _ k]) (use l n1 in simp)
  moreover have "?d ! (k mod BSIZE) = (if ?r \<le> k mod BSIZE \<and> k mod BSIZE < ?r + n1 then p ! (k mod BSIZE - ?r) else ?b ! (k mod BSIZE))"
    by (rule spliced) (use l n1 in simp_all)
  moreover have "k - n = k mod BSIZE - ?r" if "k div BSIZE = n div BSIZE"
    using that mult_div_mod_eq [of BSIZE k] mult_div_mod_eq [of BSIZE n] by linarith
  moreover have "fbyte (mrd s) as k = ?b ! (k mod BSIZE)" if "k div BSIZE = n div BSIZE" using that x by (simp add: fbyte_def)
  ultimately show ?thesis unfolding w by (cases "k div BSIZE = n div BSIZE") auto
qed

lemma iappend_loop_step:
  assumes "p \<noteq> []" and "unat off < MAXFILE * BSIZE" and "iappend_block (unat off div BSIZE) din s = Inr (x, din', t)" and "rsect x t = Inr b"
  defines "r \<equiv> unat off mod BSIZE" and "n1 \<equiv> min (length p) (BSIZE - unat off mod BSIZE)"
  shows "iappend_loop p off din s = iappend_loop (drop n1 p) (off + of_nat n1) din' (wsect x (take r b @ take n1 p @ drop (r + n1) b) t)"
proof -
  have bn: "unat (off div 512) = unat off div BSIZE" by (simp add: unat_div)
  then have "off div 512 < 140" using kdiv [OF assms(2)] by (simp add: word_less_nat_alt)
  moreover have "unat (off - off div 512 * 512) = r" unfolding r_def minus_div_mult_eq_mod by (simp add: unat_mod)
  moreover have "min (length p) (unat (off div 512 * 512 + 512 - off)) = n1" using block_rest [of off] by (simp add: n1_def distrib_right)
  ultimately show ?thesis
    unfolding iappend_loop.simps [of p] using assms(1,3,4) by (simp add: Let_def bn cong: if_cong)
qed

lemma iappend_loop_spec:
  assumes "base_ok s" and "fmap_ok (data_blocks s) (mrd s) (di_addrs din)" and "has_blocks (mrd s) (di_addrs din) (unat off)"
    and "unat off + length p \<le> MAXFILE * BSIZE" and "unat (freeblock s) + nblk (unat off + length p) \<le> FSSIZE + nblk (unat off)"
  shows "\<exists>bs t. iappend_loop p off din s = Inr (off + of_nat (length p), din\<lparr>di_addrs := bs\<rparr>, t) \<and> extends s (di_addrs din) t bs
    \<and> has_blocks (mrd t) bs (unat off + length p) \<and> unat (freeblock t) + nblk (unat off) = unat (freeblock s) + nblk (unat off + length p)
    \<and> (\<forall>k < MAXFILE * BSIZE. fbyte (mrd t) bs k = (if unat off \<le> k \<and> k < unat off + length p then p ! (k - unat off) else fbyte (mrd s) (di_addrs din) k))"
  using assms
proof (induction "length p" arbitrary: p off din s rule: less_induct)
  case less
  let ?n = "unat off" and ?as = "di_addrs din"
  show ?case
  proof (cases "p = []")
    case True
    then show ?thesis using extends_refl [OF less.prems(1,2)] less.prems(3)
      by (intro exI [of _ ?as] exI [of _ s]) (auto simp: iappend_loop.simps)
  next
    case False
    define r n1 where "r = ?n mod BSIZE" and "n1 = min (length p) (BSIZE - r)"
    have n1: "0 < n1" "n1 \<le> length p" "?n + n1 \<le> ?n + (BSIZE - ?n mod BSIZE)" "r + n1 \<le> BSIZE" using False by (auto simp: n1_def r_def)
    have lim: "?n < MAXFILE * BSIZE" using less.prems(4) False by (cases p) auto
    note wb = within_block [of ?n "?n + n1", OF _ n1(3)]
    have mono: "nblk (?n + n1) \<le> nblk (?n + length p)"
      using n1(2) by (auto simp: nblk_def intro!: add_mono div_le_mono)
    have "unat (freeblock s) + newblk ?n \<le> FSSIZE" using less.prems(5) wb(1) n1(1) mono by simp
    from iappend_block_spec [OF less.prems(1-3) lim this] obtain x bs t where
      b: "iappend_block (?n div BSIZE) din s = Inr (x, din\<lparr>di_addrs := bs\<rparr>, t)" "extends s ?as t bs"
      "\<And>k. k < MAXFILE * BSIZE \<Longrightarrow> fbyte (mrd t) bs k = fbyte (mrd s) ?as k" "baddr (mrd t) bs (?n div BSIZE) = x" "x \<noteq> 0"
      "has_blocks (mrd t) bs (Suc ?n)" "unat (freeblock t) = unat (freeblock s) + newblk ?n" by (auto simp: block_spec_def)
    have bt: "base_ok t" "fmap_ok (data_blocks t) (mrd t) bs" using b(2) by (simp_all add: extends_def)
    define d where "d = take r (mrd t x) @ take n1 p @ drop (r + n1) (mrd t x)"
    have lx: "length (mrd t x) = BSIZE" using bt(1) by (simp add: base_ok_def mrd_def)
    have d: "length d = BSIZE" using n1 lx by (simp add: d_def)
    let ?u = "wsect x d t" and ?din = "din\<lparr>di_addrs := bs\<rparr>" and ?off = "off + of_nat n1"
    note W = write_block [OF bt kdiv [OF lim] b(4,5) d]
    have o: "unat ?off = ?n + n1" using unat_add_nat_no_wrap [of off n1] less.prems(4) n1(2) by simp
    have bu: "base_ok ?u" "fmap_ok (data_blocks ?u) (mrd ?u) (di_addrs ?din)" using W(1) by (simp_all add: extends_def)
    have hu: "has_blocks (mrd ?u) (di_addrs ?din) (unat ?off)" using W(4) [OF wb(2) [OF _ b(6)]] n1(1) o by simp
    have len: "unat ?off + length (drop n1 p) = ?n + length p" using o n1(2) by simp
    have sp: "unat (freeblock ?u) + nblk (unat ?off + length (drop n1 p)) \<le> FSSIZE + nblk (unat ?off)"
      unfolding len unfolding o W(2) b(7) using less.prems(5) wb(1) n1(1) by simp
    have l1: "length (drop n1 p) < length p" and l2: "unat ?off + length (drop n1 p) \<le> MAXFILE * BSIZE"
      using n1 False less.prems(4) unfolding len by simp_all
    have dd: "di_addrs ?din = bs" by simp
    from less.hyps [OF l1 bu hu l2 sp, unfolded len dd] obtain cs v where
      v: "iappend_loop (drop n1 p) ?off ?din ?u = Inr (?off + of_nat (length (drop n1 p)), ?din\<lparr>di_addrs := cs\<rparr>, v)" "extends ?u bs v cs"
      "has_blocks (mrd v) cs (?n + length p)" "unat (freeblock v) + nblk (unat ?off) = unat (freeblock ?u) + nblk (?n + length p)"
      "\<And>k. k < MAXFILE * BSIZE \<Longrightarrow> fbyte (mrd v) cs k = (if unat ?off \<le> k \<and> k < ?n + length p then drop n1 p ! (k - unat ?off) else fbyte (mrd ?u) bs k)"
      by blast
    have run: "iappend_loop p off din s = Inr (off + of_nat (length p), din\<lparr>di_addrs := cs\<rparr>, v)"
      using iappend_loop_step [OF False lim b(1) W(3)] v(1) n1(2) by (simp add: d_def r_def n1_def of_nat_diff)
    have "fbyte (mrd v) cs k = (if ?n \<le> k \<and> k < ?n + length p then p ! (k - ?n) else fbyte (mrd s) ?as k)" if k: "k < MAXFILE * BSIZE" for k
    proof (cases "?n + n1 \<le> k \<and> k < ?n + length p")
      case True
      then show ?thesis using v(5) [OF k] o n1(2) by simp
    next
      case F: False
      have "fbyte (mrd ?u) bs k = (if ?n \<le> k \<and> k < ?n + n1 then p ! (k - ?n) else fbyte (mrd t) bs k)"
        unfolding d_def r_def by (rule write_part [OF bt lim b(4,5) n1(1,2) _ k]) (use n1(4) r_def in simp)
      then show ?thesis using v(5) [OF k] o F b(3) [OF k] n1(2) by auto
    qed
    moreover have "extends s ?as v cs" by (rule extends_trans [OF b(2) extends_trans [OF W(1) v(2)]])
    moreover have "unat (freeblock v) + nblk ?n = unat (freeblock s) + nblk (?n + length p)" using v(4) b(7) wb(1) n1(1) by (simp add: W(2) o)
    ultimately show ?thesis using run v(3) by blast
  qed
qed

subsection \<open>Inodes and files on the image\<close>

definition dn :: "mkst \<Rightarrow> nat \<Rightarrow> dinode" where
  "dn s i = get_dinode (img s (32 + i div IPB)) (64 * (i mod IPB))"

lemma iblock:
  assumes "i < 208" and "base_ok s"
  shows "unat (IBLOCK (of_nat i) (m_sb s)) = 32 + i div IPB" and "dioff (of_nat i) = 64 * (i mod IPB)"
proof -
  have u: "unat (of_nat i :: uint) = i" using assms(1) by (simp add: unat_of_nat)
  then show "dioff (of_nat i) = 64 * (i mod IPB)" by (simp add: dioff_def)
  have "unat (of_nat i div 8 :: uint) = i div IPB" using u by (simp add: unat_div)
  moreover have "m_sb s = mk_sb" using assms(2) by (simp add: base_ok_def)
  ultimately show "unat (IBLOCK (of_nat i) (m_sb s)) = 32 + i div IPB"
    using assms(1) unat_add_nat_no_wrap [of "of_nat i div 8 :: uint" 32] by (simp add: IBLOCK_def mk_sb_def Let_def)
qed

lemma rinode_spec: "base_ok s \<Longrightarrow> i < 208 \<Longrightarrow> rinode (of_nat i) s = Inr (dn s i)"
  using base_sect(1) [of s "IBLOCK (of_nat i) (m_sb s)"] iblock [of i s] by (simp add: rinode_def dn_def mrd_def)

lemma winode_spec:
  assumes base: "base_ok s" and i: "i < 208" and d: "length (di_addrs d) = 13"
  shows "\<exists>t. winode (of_nat i) d s = Inr t \<and> base_ok t \<and> (\<forall>j < 208. dn t j = (if j = i then d else dn s j))
    \<and> freeblock t = freeblock s \<and> freeinode t = freeinode s \<and> (\<forall>k. k < 32 \<or> 58 \<le> k \<longrightarrow> img t k = img s k)"
proof -
  let ?b = "IBLOCK (of_nat i) (m_sb s)" and ?k = "64 * (i mod IPB)" let ?n = "32 + i div IPB"
  note I = iblock [OF i base]
  have lt: "unat ?b < FSSIZE" "unat ?b < unat (freeblock s)" using I(1) i base by (auto simp: base_ok_def)
  note S = base_sect [OF base lt(1)]
  let ?d = "put_dinode (img s ?n) ?k d" let ?t = "wsect ?b ?d s"
  have l: "length (img s ?n) = BSIZE" using base by (simp add: base_ok_def)
  have k: "?k + 64 \<le> length (img s ?n)" using l mod_less_divisor [of IPB i] by simp
  have run: "winode (of_nat i) d s = Inr ?t" using S(1) I by (simp add: winode_def mrd_def)
  have "dn ?t j = (if j = i then d else dn s j)" if "j < 208" for j
  proof (cases "j div IPB = i div IPB")
    case True
    then have "j = i \<or> j mod IPB \<noteq> i mod IPB" using mult_div_mod_eq [of IPB i] mult_div_mod_eq [of IPB j] by metis
    then show ?thesis
    proof
      assume "j = i"
      then show ?thesis using S(7) I(1) get_put_dinode [OF k d] by (simp add: dn_def)
    next
      assume ne: "j mod IPB \<noteq> i mod IPB"
      then have "64 * (j mod IPB) + 64 \<le> ?k \<or> ?k + 64 \<le> 64 * (j mod IPB)" by linarith
      then show ?thesis using S(7) I(1) True ne get_dinode_other [OF _ k] by (auto simp: dn_def)
    qed
  next
    case False
    then show ?thesis using S(7) I(1) by (auto simp: dn_def)
  qed
  moreover have "base_ok ?t" by (rule base_wsect [OF base lt(2)]) (use l in simp)
  moreover have "img ?t k = img s k" if "k < 32 \<or> 58 \<le> k" for k using S(7) I(1) i that by auto
  ultimately show ?thesis using run S(5,6) by blast
qed

text \<open>\<open>file_at s i ty c\<close>: inode \<open>i\<close> is a file of the type \<open>ty\<close> with the contents \<open>c\<close>, and zeroes after them.\<close>

definition file_at :: "mkst \<Rightarrow> nat \<Rightarrow> ushort \<Rightarrow> uchar list \<Rightarrow> bool" where
  "file_at s i ty c \<longleftrightarrow> (\<exists>as. dn s i = \<lparr>di_type = ty, di_major = 0, di_minor = 0, di_nlink = 1, di_size = of_nat (length c), di_addrs = as\<rparr>
     \<and> length c \<le> MAXFILE * BSIZE \<and> fmap_ok (data_blocks s) (mrd s) as \<and> has_blocks (mrd s) as (length c)
     \<and> (\<forall>k < MAXFILE * BSIZE. fbyte (mrd s) as k = (if k < length c then c ! k else 0)))"

definition fblks :: "mkst \<Rightarrow> nat \<Rightarrow> uint set" where
  "fblks s i = fblocks (mrd s) (di_addrs (dn s i))"

text \<open>The whole image: \<open>fs\<close> are the types and contents of the inodes 1, 2 and so on.\<close>

definition blocks_of :: "(ushort \<times> uchar list) list \<Rightarrow> nat" where
  "blocks_of fs = 59 + (\<Sum>f \<leftarrow> fs. nblk (length (snd f)))"

definition mk_inv :: "mkst \<Rightarrow> (ushort \<times> uchar list) list \<Rightarrow> bool" where
  "mk_inv s fs \<longleftrightarrow> base_ok s \<and> length fs < 208 \<and> unat (freeinode s) = Suc (length fs) \<and> unat (freeblock s) = blocks_of fs
     \<and> (\<forall>i < length fs. file_at s (Suc i) (fst (fs ! i)) (snd (fs ! i)))
     \<and> (\<forall>i < length fs. \<forall>j < length fs. i \<noteq> j \<longrightarrow> fblks s (Suc i) \<inter> fblks s (Suc j) = {})"

text \<open>A file is the same as long as its inode and its blocks are.\<close>

lemma file_at_same:
  assumes "file_at s i ty c" and "dn t i = dn s i" and "\<And>b. b \<in> fblks s i \<Longrightarrow> mrd t b = mrd s b" and "base_ok t" and "data_blocks s \<subseteq> data_blocks t"
  shows "file_at t i ty c" and "fblks t i = fblks s i"
proof -
  let ?as = "di_addrs (dn s i)"
  note C = file_cong [of "mrd s" ?as "mrd t", OF assms(3) [unfolded fblks_def]]
  show "fblks t i = fblks s i" using C(2) assms(2) by (simp add: fblks_def)
  have len: "length (mrd t b) = BSIZE" for b using assms(4) by (simp add: base_ok_def mrd_def)
  have f: "fmap_ok (data_blocks s) (mrd s) ?as" "has_blocks (mrd s) ?as (length c)" "\<forall>k < MAXFILE * BSIZE. fbyte (mrd s) ?as k = (if k < length c then c ! k else 0)"
    using assms(1) by (auto simp: file_at_def)
  have "fmap_ok (data_blocks t) (mrd t) ?as" by (rule fmap_ok_mono [OF C(4) assms(5)]) (use f(1) len in auto)
  moreover have "has_blocks (mrd t) ?as (length c)" using f(2) C(1) by (simp add: has_blocks_def)
  moreover have "\<forall>k < MAXFILE * BSIZE. fbyte (mrd t) ?as k = (if k < length c then c ! k else 0)" using f(3) C(3) by simp
  ultimately show "file_at t i ty c" using assms(1,2) by (auto simp: file_at_def)
qed

lemma mk_invD:
  assumes "mk_inv s fs"
  shows "base_ok s" and "length fs < 208" and "unat (freeinode s) = Suc (length fs)" and "unat (freeblock s) = blocks_of fs"
    and "i < length fs \<Longrightarrow> file_at s (Suc i) (fst (fs ! i)) (snd (fs ! i))"
    and "i < length fs \<Longrightarrow> j < length fs \<Longrightarrow> i \<noteq> j \<Longrightarrow> fblks s (Suc i) \<inter> fblks s (Suc j) = {}"
    and "i < length fs \<Longrightarrow> fblks s (Suc i) \<subseteq> data_blocks s"
proof -
  show "base_ok s" "length fs < 208" "unat (freeinode s) = Suc (length fs)" "unat (freeblock s) = blocks_of fs" using assms by (simp_all add: mk_inv_def)
  show f: "i < length fs \<Longrightarrow> file_at s (Suc i) (fst (fs ! i)) (snd (fs ! i))" using assms by (simp add: mk_inv_def)
  show "i < length fs \<Longrightarrow> j < length fs \<Longrightarrow> i \<noteq> j \<Longrightarrow> fblks s (Suc i) \<inter> fblks s (Suc j) = {}" using assms unfolding mk_inv_def by blast
  show "fblks s (Suc i) \<subseteq> data_blocks s" if "i < length fs" using f [OF that] fmap_okD(2) by (fastforce simp: file_at_def fblks_def)
qed

lemma data_blocks_img: "mrd s b = mrd t b" if "b \<in> data_blocks u" "\<And>k. 58 \<le> k \<Longrightarrow> img s k = img t k"
  using that by (simp add: data_blocks_def mrd_def)

lemma mk_ialloc_spec:
  assumes inv: "mk_inv s fs" and len: "length fs < 207"
  shows "\<exists>t. mk_ialloc ty s = Inr (of_nat (Suc (length fs)), t) \<and> mk_inv t (fs @ [(ty, [])]) \<and> (\<forall>k < 32. img t k = img s k)"
proof -
  note D = mk_invD [OF inv]
  let ?i = "Suc (length fs)" and ?s = "s\<lparr>freeinode := freeinode s + 1\<rparr>"
  let ?d = "\<lparr>di_type = ty, di_major = 0, di_minor = 0, di_nlink = 1, di_size = 0, di_addrs = replicate 13 0\<rparr>"
  have fi: "freeinode s = of_nat ?i" using D(3) by (metis of_nat_unat ucast_id)
  have fi1: "unat (freeinode ?s) = Suc ?i" using D(2,3) unat_add_nat_no_wrap [of "freeinode s" 1] by simp
  have base: "base_ok ?s" using D(1) by (simp add: base_ok_def)
  obtain t where t: "winode (of_nat ?i) ?d ?s = Inr t" "base_ok t" "\<And>j. j < 208 \<Longrightarrow> dn t j = (if j = ?i then ?d else dn s j)"
    "freeblock t = freeblock s" "freeinode t = freeinode ?s" "\<And>k. 58 \<le> k \<Longrightarrow> img t k = img s k" "\<forall>k < 32. img t k = img s k"
    using winode_spec [OF base, of ?i ?d] len by (auto simp: dn_def)
  have run: "mk_ialloc ty s = Inr (of_nat ?i, t)" using t(1) by (simp add: mk_ialloc_def fi Let_def)
  have db: "data_blocks t = data_blocks s" by (simp add: data_blocks_def t(4))
  have new: "baddr (mrd t) (replicate 13 0) i = 0" for i by (simp add: baddr_def)
  then have nf: "fblocks (mrd t) (replicate 13 0) = {}" by (auto simp: fblocks_def)
  have "fmap_ok (data_blocks t) (mrd t) (replicate 13 0)" using nf new t(2) by (simp add: fmap_ok_def base_ok_def mrd_def)
  then have fn: "file_at t ?i ty []" "fblks t ?i = {}" using t(3) [of ?i] len new nf by (simp_all add: file_at_def fblks_def has_blocks_def fbyte_def)
  have old: "file_at t (Suc j) (fst (fs ! j)) (snd (fs ! j))" "fblks t (Suc j) = fblks s (Suc j)" if j: "j < length fs" for j
    using file_at_same [OF D(5) [OF j], of t] t(3) [of "Suc j"] j len t(2) db data_blocks_img [of _ s t s] D(7) [OF j] t(6) by auto
  have "file_at t (Suc j) (fst ((fs @ [(ty, [])]) ! j)) (snd ((fs @ [(ty, [])]) ! j))" if "j < length (fs @ [(ty, [])])" for j
    using that old(1) fn(1) by (cases "j = length fs") (auto simp: nth_append)
  moreover have "fblks t (Suc i) \<inter> fblks t (Suc j) = {}" if "i < length (fs @ [(ty, [])])" "j < length (fs @ [(ty, [])])" "i \<noteq> j" for i j
    using that old(2) fn(2) D(6) [of i j] by (cases "i = length fs"; cases "j = length fs") auto
  moreover have "blocks_of (fs @ [(ty, [])]) = blocks_of fs" by (simp add: blocks_of_def nblk_def)
  ultimately have "mk_inv t (fs @ [(ty, [])])" using t(2,4,5) fi1 D(4) len unfolding mk_inv_def by simp
  then show ?thesis using run t(7) by blast
qed

lemma blocks_of_update:
  assumes "i < length fs"
  shows "blocks_of (fs[i := (ty, c)]) + nblk (length (snd (fs ! i))) = blocks_of fs + nblk (length c)"
proof -
  let ?f = "\<lambda>f. nblk (length (snd f))"
  have "?f (fs ! i) \<le> sum_list (map ?f fs)" by (rule member_le_sum_list) (use assms in auto)
  moreover have "sum_list (map ?f (fs[i := (ty, c)])) = sum_list (map ?f fs) + nblk (length c) - ?f (fs ! i)"
    using assms by (simp add: map_update sum_list_update)
  ultimately show ?thesis by (simp add: blocks_of_def)
qed

text \<open>What \<open>iappend\<close> does to the file itself.\<close>

lemma iappend_file:
  assumes base: "base_ok s" and i: "i < 208" and f: "file_at s i ty c" and len: "length c + length p \<le> MAXFILE * BSIZE"
    and sp: "unat (freeblock s) + nblk (length c + length p) \<le> FSSIZE + nblk (length c)"
  shows "\<exists>t. iappend (of_nat i) p s = Inr t \<and> base_ok t \<and> file_at t i ty (c @ p) \<and> freeinode t = freeinode s
    \<and> unat (freeblock t) + nblk (length c) = unat (freeblock s) + nblk (length c + length p)
    \<and> (\<forall>b \<in> fblks t i. b \<in> fblks s i \<or> unat (freeblock s) \<le> unat b) \<and> (\<forall>j < 208. j \<noteq> i \<longrightarrow> dn t j = dn s j)
    \<and> (\<forall>b \<in> data_blocks s. b \<notin> fblks s i \<longrightarrow> mrd t b = mrd s b) \<and> (\<forall>k < 32. img t k = img s k)"
proof -
  let ?d = "dn s i" let ?as = "di_addrs ?d"
  have sz: "unat (di_size ?d) = length c" and fm: "fmap_ok (data_blocks s) (mrd s) ?as" "has_blocks (mrd s) ?as (length c)"
    "\<And>k. k < MAXFILE * BSIZE \<Longrightarrow> fbyte (mrd s) ?as k = (if k < length c then c ! k else 0)" using f by (auto simp: file_at_def unat_of_nat)
  obtain bs t where t: "iappend_loop p (di_size ?d) ?d s = Inr (di_size ?d + of_nat (length p), ?d\<lparr>di_addrs := bs\<rparr>, t)" "extends s ?as t bs"
    "has_blocks (mrd t) bs (length c + length p)" "unat (freeblock t) + nblk (length c) = unat (freeblock s) + nblk (length c + length p)"
    "\<And>k. k < MAXFILE * BSIZE \<Longrightarrow> fbyte (mrd t) bs k = (if length c \<le> k \<and> k < length c + length p then p ! (k - length c) else fbyte (mrd s) ?as k)"
    using iappend_loop_spec [of s ?d "di_size ?d" p, unfolded sz, OF base fm(1,2) len sp] by auto
  have bt: "base_ok t" "fmap_ok (data_blocks t) (mrd t) bs" "freeinode t = freeinode s" using t(2) by (simp_all add: extends_def)
  have low: "img t k = img s k" if "k < 59" for k
  proof -
    have u: "unat (of_nat k :: uint) = k" using that by (simp add: unat_of_nat)
    have "(of_nat k :: uint) \<notin> fblocks (mrd s) ?as" using fmap_okD(2) [OF fm(1)] u that by (auto simp: data_blocks_def)
    moreover have "k < unat (freeblock s)" using base that by (simp add: base_ok_def)
    ultimately show ?thesis using t(2) u by (auto simp: extends_def mrd_def dest: spec [of _ "of_nat k"])
  qed
  let ?e = "?d\<lparr>di_addrs := bs, di_size := di_size ?d + of_nat (length p)\<rparr>"
  obtain u where u: "winode (of_nat i) ?e t = Inr u" "base_ok u" "\<And>j. j < 208 \<Longrightarrow> dn u j = (if j = i then ?e else dn t j)"
    "freeblock u = freeblock t" "freeinode u = freeinode t" "\<And>k. k < 32 \<or> 58 \<le> k \<Longrightarrow> img u k = img t k"
    using winode_spec [OF bt(1) i, of ?e] fmap_okD(1) [OF bt(2)] by auto
  have run: "iappend (of_nat i) p s = Inr u" using rinode_spec [OF base i] t(1) u(1) by (simp add: iappend_def)
  have db: "data_blocks u = data_blocks t" by (simp add: data_blocks_def u(4))
  have ut: "mrd u b = mrd t b" if "b \<in> data_blocks t" for b by (rule data_blocks_img [OF that]) (use u(6) in simp)
  note C = file_cong [of "mrd t" bs "mrd u"]
  have fb: "mrd u b = mrd t b" if "b \<in> fblocks (mrd t) bs" for b using ut fmap_okD(2) [OF bt(2)] that by blast
  have "fmap_ok (data_blocks u) (mrd u) bs" unfolding db by (rule C(4) [OF fb bt(2)]) (use u(2) in \<open>simp_all add: base_ok_def mrd_def\<close>)
  moreover have "has_blocks (mrd u) bs (length (c @ p))" using t(3) C(1) [OF fb] by (simp add: has_blocks_def)
  moreover have "fbyte (mrd u) bs k = (if k < length (c @ p) then (c @ p) ! k else 0)" if "k < MAXFILE * BSIZE" for k
    using C(3) [OF fb that] t(5) [OF that] fm(3) [OF that] by (auto simp: nth_append)
  ultimately have "file_at u i ty (c @ p)" using u(3) [OF i] f len by (auto simp: file_at_def)
  moreover have "\<forall>b \<in> fblks u i. b \<in> fblks s i \<or> unat (freeblock s) \<le> unat b"
    using C(2) [OF fb] t(2) u(3) [OF i] by (auto simp: fblks_def extends_def)
  moreover have "dn u j = dn s j" if "j < 208" "j \<noteq> i" for j using u(3) [OF that(1)] that low by (simp add: dn_def)
  moreover have "mrd u b = mrd s b" if "b \<in> data_blocks s" "b \<notin> fblks s i" for b
    using ut [of b] t(2) that by (auto simp: extends_def data_blocks_def fblks_def)
  moreover have "img u k = img s k" if "k < 32" for k using u(6) [of k] low [of k] that by simp
  ultimately show ?thesis using run u(2,4,5) bt(3) t(4) by simp
qed

lemma iappend_spec:
  assumes inv: "mk_inv s fs" and i: "i < length fs" and fi: "fs ! i = (ty, c)" and len: "length c + length p \<le> MAXFILE * BSIZE"
    and sp: "blocks_of (fs[i := (ty, c @ p)]) \<le> FSSIZE"
  shows "\<exists>t. iappend (of_nat (Suc i)) p s = Inr t \<and> mk_inv t (fs[i := (ty, c @ p)]) \<and> (\<forall>k < 32. img t k = img s k)"
proof -
  note D = mk_invD [OF inv]
  let ?gs = "fs[i := (ty, c @ p)]"
  have bl: "blocks_of ?gs + nblk (length c) = blocks_of fs + nblk (length c + length p)" using blocks_of_update [OF i, of ty "c @ p"] fi by simp
  have i': "Suc i < 208" using i D(2) by simp
  obtain t where t: "iappend (of_nat (Suc i)) p s = Inr t" "base_ok t" "file_at t (Suc i) ty (c @ p)" "freeinode t = freeinode s"
    "unat (freeblock t) + nblk (length c) = unat (freeblock s) + nblk (length c + length p)"
    "\<And>b. b \<in> fblks t (Suc i) \<Longrightarrow> b \<in> fblks s (Suc i) \<or> unat (freeblock s) \<le> unat b" "\<And>j. j < 208 \<Longrightarrow> j \<noteq> Suc i \<Longrightarrow> dn t j = dn s j"
    "\<And>b. b \<in> data_blocks s \<Longrightarrow> b \<notin> fblks s (Suc i) \<Longrightarrow> mrd t b = mrd s b" "\<forall>k < 32. img t k = img s k"
    using iappend_file [OF D(1) i', of ty c p] D(5) [OF i] fi len D(4) bl sp by auto
  have fb: "unat (freeblock t) = blocks_of ?gs" using t(5) bl D(4) by simp
  have "blocks_of fs \<le> blocks_of ?gs" using bl by (auto simp: nblk_def intro!: add_mono div_le_mono split: if_splits)
  then have ds: "data_blocks s \<subseteq> data_blocks t" using fb D(4) by (auto simp: data_blocks_def)
  have old: "file_at t (Suc j) (fst (fs ! j)) (snd (fs ! j))" "fblks t (Suc j) = fblks s (Suc j)" if j: "j < length fs" "j \<noteq> i" for j
    using file_at_same [OF D(5) [OF j(1)], of t, OF t(7) _ t(2) ds] j D(2) t(8) D(7) [OF j(1)] D(6) [OF j(1) i j(2)] by auto
  have new: "fblks t (Suc i) \<inter> fblks t (Suc j) = {}" if j: "j < length fs" "j \<noteq> i" for j
    using old(2) [OF j] t(6) D(6) [OF j(1) i j(2)] D(7) [OF j(1)] by (fastforce simp: data_blocks_def)
  have "file_at t (Suc j) (fst (?gs ! j)) (snd (?gs ! j))" if "j < length ?gs" for j
    using that old(1) t(3) by (cases "j = i") simp_all
  moreover have "fblks t (Suc a) \<inter> fblks t (Suc b) = {}" if "a < length ?gs" "b < length ?gs" "a \<noteq> b" for a b
    using that new [of a] new [of b] old(2) D(6) [of a b] by (cases "a = i"; cases "b = i") auto
  ultimately have "mk_inv t ?gs" using t(2,4) D(2,3) fb unfolding mk_inv_def by simp
  then show ?thesis using t(1,9) by blast
qed

subsection \<open>The whole image\<close>

lemma nblk_mono: "m \<le> n \<Longrightarrow> nblk m \<le> nblk n"
  by (auto simp: nblk_def intro!: add_mono div_le_mono)

lemma blocks_mono:
  "length xs \<le> length ys \<Longrightarrow> (\<And>i. i < length xs \<Longrightarrow> length (snd (xs ! i)) \<le> length (snd (ys ! i))) \<Longrightarrow> blocks_of xs \<le> blocks_of ys"
proof (induction xs arbitrary: ys)
  case Nil
  then show ?case by (simp add: blocks_of_def)
next
  case (Cons x xs)
  obtain y ys' where ys: "ys = y # ys'" using Cons.prems(1) by (cases ys) auto
  have "blocks_of xs \<le> blocks_of ys'" by (rule Cons.IH) (use Cons.prems(1) Cons.prems(2) [of "Suc _"] ys in auto)
  moreover have "nblk (length (snd x)) \<le> nblk (length (snd y))" using Cons.prems(2) [of 0] ys by (simp add: nblk_mono)
  ultimately show ?case by (simp add: blocks_of_def ys)
qed

lemma mk_append_all_spec:
  assumes "mk_inv s fs" and "i < length fs" and "fs ! i = (ty, c)" and "length c + length (concat ps) \<le> MAXFILE * BSIZE"
    and "blocks_of (fs[i := (ty, c @ concat ps)]) \<le> FSSIZE"
  shows "\<exists>t. mk_append_all (of_nat (Suc i)) ps s = Inr t \<and> mk_inv t (fs[i := (ty, c @ concat ps)]) \<and> (\<forall>k < 32. img t k = img s k)"
  using assms
proof (induction ps arbitrary: s fs c)
  case Nil
  then have "fs[i := (ty, c)] = fs" by (metis list_update_id)
  then show ?case using Nil by simp
next
  case (Cons p ps)
  let ?fs = "fs[i := (ty, c @ p)]"
  have "blocks_of ?fs \<le> blocks_of (fs[i := (ty, c @ concat (p # ps))])"
    by (rule blocks_mono) (use Cons.prems(2) in \<open>auto simp: nth_list_update\<close>)
  then obtain t where t: "iappend (of_nat (Suc i)) p s = Inr t" "mk_inv t ?fs" "\<forall>k < 32. img t k = img s k"
    using iappend_spec [OF Cons.prems(1-3), of p] Cons.prems(4,5) by auto
  from Cons.IH [OF t(2), of "c @ p"] Cons.prems(2,4,5) t(1,3) show ?case by auto
qed

lemma length_mk_entry [simp]: "length (mk_entry n a) = 16"
proof -
  have "length (strncpy_list n a) = n" for n by (induction n arbitrary: a) simp_all
  then show ?thesis by (simp add: mk_entry_def xshort_def)
qed

fun listing :: "nat \<Rightarrow> uchar list list \<Rightarrow> uchar list" where
  "listing n [] = []"
| "listing n (a # as) = mk_entry (of_nat n) (skip_underscore a) @ listing (Suc n) as"

lemma length_listing [simp]: "length (listing n as) = 16 * length as"
  by (induction as arbitrary: n) simp_all

definition host_file :: "(uchar list \<Rightarrow> uchar list list option) \<Rightarrow> uchar list \<Rightarrow> uchar list" where
  "host_file files a = concat (the (files a))"

lemma mk_files_spec:
  assumes "mk_inv s fs" and "fs \<noteq> []" and "fs ! 0 = (ty, r)" and "length fs + length as < 208" and "length r + 16 * length as \<le> MAXFILE * BSIZE"
    and "\<And>a. a \<in> set as \<Longrightarrow> 47 \<notin> set a \<and> files a \<noteq> None \<and> length (host_file files a) \<le> MAXFILE * BSIZE"
    and "blocks_of (fs[0 := (ty, r @ listing (Suc (length fs)) as)] @ map (\<lambda>a. (T_FILE, host_file files a)) as) \<le> FSSIZE"
  shows "\<exists>t. mk_files files 1 as s = Inr t \<and> mk_inv t (fs[0 := (ty, r @ listing (Suc (length fs)) as)] @ map (\<lambda>a. (T_FILE, host_file files a)) as)
    \<and> (\<forall>k < 32. img t k = img s k)"
  using assms
proof (induction as arbitrary: s fs r)
  case Nil
  then have "fs[0 := (ty, r)] = fs" by (metis list_update_id)
  then show ?case using Nil by simp
next
  case (Cons a as)
  let ?e = "mk_entry (of_nat (Suc (length fs))) (skip_underscore a)"
  obtain ps where ps: "files a = Some ps" "47 \<notin> set a" "length (concat ps) \<le> MAXFILE * BSIZE" "host_file files a = concat ps"
    using Cons.prems(6) [of a] by (auto simp: host_file_def)
  let ?fin = "fs[0 := (ty, r @ listing (Suc (length fs)) (a # as))] @ map (\<lambda>a. (T_FILE, host_file files a)) (a # as)"
  let ?fs1 = "fs @ [(T_FILE, [])]" and ?fs2 = "(fs @ [(T_FILE, [])])[0 := (ty, r @ ?e)]" and ?fs3 = "fs[0 := (ty, r @ ?e)] @ [(T_FILE, concat ps)]"
  have ne: "0 < length fs" using Cons.prems(2) by simp
  obtain s1 where s1: "mk_ialloc T_FILE s = Inr (of_nat (Suc (length fs)), s1)" "mk_inv s1 ?fs1" "\<forall>k < 32. img s1 k = img s k"
    using mk_ialloc_spec [OF Cons.prems(1), of T_FILE] Cons.prems(4) by auto
  have f10: "?fs1 ! 0 = (ty, r)" using Cons.prems(3) ne by (simp add: nth_append)
  have "blocks_of ?fs2 \<le> blocks_of ?fin" by (rule blocks_mono) (use ne in \<open>auto simp: nth_append nth_list_update less_Suc_eq\<close>)
  then have b2: "blocks_of ?fs2 \<le> FSSIZE" using Cons.prems(7) by simp
  have l2: "length r + length ?e \<le> MAXFILE * BSIZE" using Cons.prems(5) by simp
  obtain s2 where s2: "iappend 1 ?e s1 = Inr s2" "mk_inv s2 ?fs2" "\<forall>k < 32. img s2 k = img s1 k"
    using iappend_spec [OF s1(2) _ f10 l2 b2] by auto
  have u: "?fs2[length fs := (T_FILE, [] @ concat ps)] = ?fs3" using ne by (cases fs) simp_all
  have "blocks_of ?fs3 \<le> blocks_of ?fin" by (rule blocks_mono) (use ne ps(4) in \<open>auto simp: nth_append nth_list_update less_Suc_eq\<close>)
  then have b3: "blocks_of (?fs2[length fs := (T_FILE, [] @ concat ps)]) \<le> FSSIZE" unfolding u using Cons.prems(7) by simp
  have f2: "?fs2 ! length fs = (T_FILE, [])" using ne by (cases fs) simp_all
  obtain s3 where s3: "mk_append_all (of_nat (Suc (length fs))) ps s2 = Inr s3" "mk_inv s3 ?fs3" "\<forall>k < 32. img s3 k = img s2 k"
    using mk_append_all_spec [OF s2(2) _ f2 _ b3] ps(3) unfolding u by auto
  have run: "mk_files files 1 (a # as) s = mk_files files 1 as s3" using ps(1,2) s1(1) s2(1) s3(1) by simp
  have f30: "?fs3 ! 0 = (ty, r @ ?e)" using ne by (simp add: nth_append)
  have fin: "?fs3[0 := (ty, (r @ ?e) @ listing (Suc (length ?fs3)) as)] @ map (\<lambda>a. (T_FILE, host_file files a)) as = ?fin"
    using ne ps(4) by (cases fs) simp_all
  have b4: "blocks_of (?fs3[0 := (ty, (r @ ?e) @ listing (Suc (length ?fs3)) as)] @ map (\<lambda>a. (T_FILE, host_file files a)) as) \<le> FSSIZE"
    unfolding fin using Cons.prems(7) .
  obtain t where "mk_files files 1 as s3 = Inr t" "mk_inv t ?fin" "\<forall>k < 32. img t k = img s3 k"
    using Cons.IH [OF s3(2) _ f30 _ _ _ b4, unfolded fin] Cons.prems(4-6) by auto
  then show ?case using run s1(3) s2(3) s3(3) by auto
qed

lemma xint_get32: "get32 (pre @ xint x @ post) (length pre) = x"
  using bytes_of_word32 [of x] by (simp add: get32_def xint_def nth_append)

lemma sb_roundtrip: "sb_of_bytes (sb_bytes sb @ rest) = sb"
proof -
  have g: "get32 (sb_bytes sb @ rest) k = v"
    if "sb_bytes sb @ rest = pre @ xint v @ post" "length pre = k" for k v pre post using xint_get32 [of pre v post] that by simp
  have l: "length (xint x) = 4" for x by (simp add: xint_def)
  note b = sb_bytes_def
  have "get32 (sb_bytes sb @ rest) 0 = sb_size sb" by (rule g [of "[]"]) (simp_all add: b)
  moreover have "get32 (sb_bytes sb @ rest) 4 = sb_nblocks sb" by (rule g [of "xint (sb_size sb)"]) (simp_all add: b l)
  moreover have "get32 (sb_bytes sb @ rest) 8 = sb_ninodes sb" by (rule g [of "xint (sb_size sb) @ xint (sb_nblocks sb)"]) (simp_all add: b l)
  moreover have "get32 (sb_bytes sb @ rest) 12 = sb_nlog sb"
    by (rule g [of "xint (sb_size sb) @ xint (sb_nblocks sb) @ xint (sb_ninodes sb)"]) (simp_all add: b l)
  moreover have "get32 (sb_bytes sb @ rest) 16 = sb_logstart sb"
    by (rule g [of "xint (sb_size sb) @ xint (sb_nblocks sb) @ xint (sb_ninodes sb) @ xint (sb_nlog sb)"]) (simp_all add: b l)
  moreover have "get32 (sb_bytes sb @ rest) 20 = sb_inodestart sb"
    by (rule g [of "xint (sb_size sb) @ xint (sb_nblocks sb) @ xint (sb_ninodes sb) @ xint (sb_nlog sb) @ xint (sb_logstart sb)"]) (simp_all add: b l)
  moreover have "get32 (sb_bytes sb @ rest) 24 = sb_bmapstart sb"
    by (rule g [of "xint (sb_size sb) @ xint (sb_nblocks sb) @ xint (sb_ninodes sb) @ xint (sb_nlog sb) @ xint (sb_logstart sb) @ xint (sb_inodestart sb)"]) (simp_all add: b l)
  ultimately show ?thesis by (simp add: sb_of_bytes_def)
qed

lemma format_zeroes:
  assumes "img s = (\<lambda>_. zeroes)" and "img_len s = 0" and "n \<le> FSSIZE"
  shows "fold (\<lambda>i. wsect (of_nat i) zeroes) [0..<n] s = s\<lparr>img_len := n\<rparr>"
  using assms(3)
proof (induction n)
  case 0
  then show ?case using assms(2) by simp
next
  case (Suc n)
  have "sector (of_nat n) = n" using Suc.prems sector_small [of "of_nat n"] by (simp add: unat_of_nat)
  moreover have "(img s)(n := zeroes) = img s" unfolding assms(1) by (simp add: fun_eq_iff)
  ultimately have "wsect (of_nat n) zeroes (s\<lparr>img_len := n\<rparr>) = s\<lparr>img_len := Suc n\<rparr>" by (simp add: wsect_def)
  then show ?case using Suc by simp
qed

lemma mk_format_spec: "mk_inv (mk_format mkst0) [] \<and> sb_of_bytes (img (mk_format mkst0) 1) = mk_sb"
proof -
  let ?s = "mkst0\<lparr>m_sb := mk_sb, freeblock := 59\<rparr>" and ?b = "sb_bytes mk_sb @ replicate (BSIZE - length (sb_bytes mk_sb)) 0"
  have l: "length (sb_bytes mk_sb) = 28" by (simp add: sb_bytes_def xint_def)
  have "fold (\<lambda>i. wsect (of_nat i) zeroes) [0..<FSSIZE] ?s = ?s\<lparr>img_len := FSSIZE\<rparr>" by (rule format_zeroes) (simp_all add: mkst0_def)
  then have f: "mk_format mkst0 = wsect 1 ?b (?s\<lparr>img_len := FSSIZE\<rparr>)" unfolding mk_format_def Let_def by simp
  have "sector 1 = 1" using sector_small [of 1] by simp
  then show ?thesis unfolding f using l by (auto simp: wsect_def mk_inv_def base_ok_def blocks_of_def mkst0_def sb_roundtrip)
qed

text \<open>The bitmap marks the blocks below \<open>freeblock\<close>.\<close>

lemma bit_used_bit: "bit_used d b \<longleftrightarrow> bit (d ! (b div 8)) (b mod 8)"
  by (simp add: bit_used_def bmask_def bit_iff_and_push_bit_not_eq_0)

lemma set_bit_used:
  assumes "length buf = BSIZE" and "i < 4096"
  shows "bit_used (buf[i div 8 := buf ! (i div 8) OR push_bit (i mod 8) 1]) b \<longleftrightarrow> bit_used buf b \<or> b = i"
proof (cases "b div 8 = i div 8")
  case True
  then have e: "b mod 8 = i mod 8 \<longleftrightarrow> b = i" using mult_div_mod_eq [of 8 b] mult_div_mod_eq [of 8 i] by metis
  have "i div 8 < BSIZE" using assms(2) by simp
  moreover have "bit (buf ! (i div 8) OR push_bit (i mod 8) 1) (b mod 8) \<longleftrightarrow> bit (buf ! (i div 8)) (b mod 8) \<or> b mod 8 = i mod 8"
    by (auto simp: bit_simps)
  ultimately show ?thesis using True assms(1) e by (simp add: bit_used_bit)
qed (auto simp: bit_used_def)

lemma mk_balloc_loop_bits:
  assumes "length buf = BSIZE" and "i + k \<le> 4096" and "b < 4096"
  shows "bit_used (mk_balloc_loop k i buf) b \<longleftrightarrow> bit_used buf b \<or> i \<le> b \<and> b < i + k" and "length (mk_balloc_loop k i buf) = BSIZE"
  using assms(1,2)
proof (induction k arbitrary: i buf)
  case (Suc k)
  {
    case 1
    let ?b = "buf[i div 8 := buf ! (i div 8) OR push_bit (i mod 8) 1]"
    have "bit_used ?b b \<longleftrightarrow> bit_used buf b \<or> b = i" using set_bit_used [of buf i b] 1 by simp
    then show ?case using Suc.IH(1) [of ?b "Suc i"] 1 by auto
  next
    case 2
    then show ?case using Suc.IH(2) [of _ "Suc i"] by simp
  }
qed auto

definition content :: "mkst \<Rightarrow> nat \<Rightarrow> uchar list" where
  "content s i = map (fbyte (mrd s) (di_addrs (dn s i))) [0..<unat (di_size (dn s i))]"

lemma file_content: "file_at s i ty c \<Longrightarrow> content s i = c \<and> di_type (dn s i) = ty"
  by (auto simp: file_at_def content_def unat_of_nat intro!: nth_equalityI)

lemma content_same:
  assumes "di_addrs (dn t i) = di_addrs (dn s i)" and "\<And>b. b \<in> fblks s i \<Longrightarrow> mrd t b = mrd s b"
  shows "fblks t i = fblks s i" and "di_size (dn t i) = di_size (dn s i) \<Longrightarrow> unat (di_size (dn s i)) \<le> MAXFILE * BSIZE \<Longrightarrow> content t i = content s i"
proof -
  note C = file_cong [of "mrd s" "di_addrs (dn s i)" "mrd t", OF assms(2) [unfolded fblks_def]]
  show "fblks t i = fblks s i" using C(2) assms(1) by (simp add: fblks_def)
  show "content t i = content s i" if "di_size (dn t i) = di_size (dn s i)" "unat (di_size (dn s i)) \<le> MAXFILE * BSIZE"
    using C(3) that assms(1) by (auto simp: content_def)
qed

lemma mk_fix_root_spec:
  assumes inv: "mk_inv s fs" and "fs ! 0 = (ty, r)" and ne: "fs \<noteq> []" and r: "length r < 60000"
  shows "\<exists>t. mk_fix_root 1 s = Inr t \<and> base_ok t \<and> freeblock t = freeblock s \<and> (\<forall>j < 208. j \<noteq> 1 \<longrightarrow> dn t j = dn s j) \<and> (\<forall>b \<in> data_blocks s. mrd t b = mrd s b)
    \<and> (\<forall>k < 32. img t k = img s k) \<and> di_addrs (dn t 1) = di_addrs (dn s 1) \<and> di_type (dn t 1) = ty
    \<and> content t 1 = r @ replicate (BSIZE - length r mod BSIZE) 0"
proof -
  note D = mk_invD [OF inv]
  have f: "file_at s 1 ty r" using D(5) [of 0] assms(2) ne by simp
  let ?d = "dn s 1" let ?e = "?d\<lparr>di_size := (di_size ?d div 512 + 1) * 512\<rparr>"
  have as: "length (di_addrs ?e) = 13" and sz: "unat (di_size ?d) = length r"
    using f fmap_okD(1) by (auto simp: file_at_def unat_of_nat)
  obtain t where t: "winode (of_nat 1) ?e s = Inr t" "base_ok t" "\<And>j. j < 208 \<Longrightarrow> dn t j = (if j = 1 then ?e else dn s j)"
    "freeblock t = freeblock s" "\<And>k. k < 32 \<or> 58 \<le> k \<Longrightarrow> img t k = img s k"
    using winode_spec [OF D(1), of 1 ?e] as by auto
  have run: "mk_fix_root 1 s = Inr t" using rinode_spec [OF D(1), of 1] t(1) by (simp add: mk_fix_root_def Let_def)
  have md: "mrd t b = mrd s b" if "b \<in> data_blocks s" for b by (rule data_blocks_img [OF that]) (use t(5) in simp)
  let ?n = "(length r div BSIZE + 1) * BSIZE"
  have le: "length r div BSIZE \<le> length r" by simp
  have q: "length r div BSIZE < 120" by (rule less_mult_imp_div_less) (use r in simp)
  have "unat (di_size ?d div 512) = length r div BSIZE" using sz by (simp add: unat_div)
  then have n: "unat (di_size ?e) = ?n" using q by (simp add: unat_word_ariths)
  have ceil: "(l div BSIZE + 1) * BSIZE = l + (BSIZE - l mod BSIZE)" for l :: nat
  proof -
    define a b where "a = l div BSIZE" and "b = l mod BSIZE"
    have "l = BSIZE * a + b" "b < BSIZE" by (simp_all add: a_def b_def)
    then show ?thesis unfolding a_def [symmetric] b_def [symmetric] by simp
  qed
  note n' = ceil [of "length r"]
  have "fblks s 1 \<subseteq> data_blocks s" using D(7) [of 0] ne by simp
  then have "fbyte (mrd t) (di_addrs ?d) k = fbyte (mrd s) (di_addrs ?d) k" if "k < MAXFILE * BSIZE" for k
    using file_cong(3) [of "mrd s" "di_addrs ?d" "mrd t" k] that md by (auto simp: fblks_def)
  then have bt: "fbyte (mrd t) (di_addrs ?d) k = (if k < length r then r ! k else 0)" if "k < ?n" for k
    using that q f by (auto simp: file_at_def)
  have "content t 1 = map (fbyte (mrd t) (di_addrs ?d)) [0..<?n]" using t(3) [of 1] n by (simp add: content_def)
  also have "\<dots> = r @ replicate (BSIZE - length r mod BSIZE) 0"
    by (rule nth_equalityI) (use n' bt in \<open>auto simp: nth_append\<close>)
  finally show ?thesis using run t md f by (auto simp: file_at_def)
qed

lemma mk_balloc_spec:
  assumes base: "base_ok s"
  shows "\<exists>t. mk_balloc (sint (freeblock s)) s = Inr t \<and> img_len t = FSSIZE \<and> (\<forall>k. k \<noteq> 58 \<longrightarrow> img t k = img s k)
    \<and> (\<forall>b < 4096. bit_used (img t 58) b \<longleftrightarrow> b < unat (freeblock s))"
proof -
  let ?n = "unat (freeblock s)"
  let ?b = "mk_balloc_loop ?n 0 zeroes" let ?t = "wsect (sb_bmapstart (m_sb s)) ?b s"
  have n: "?n \<le> FSSIZE" using base by (simp add: base_ok_def)
  then have "int ?n < 2147483648" by linarith
  then have "sint (freeblock s) = int ?n" using sint_small [of "int ?n"] by simp
  moreover have bm: "unat (sb_bmapstart (m_sb s)) = 58" using base by (simp add: base_ok_def mk_sb_def Let_def)
  moreover have "int ?n < 4096" using n by linarith
  ultimately have "mk_balloc (sint (freeblock s)) s = Inr ?t" by (simp add: mk_balloc_def)
  moreover have "bit_used zeroes b = False" if "b < 4096" for b using that by (simp add: bit_used_bit)
  then have "bit_used ?b b \<longleftrightarrow> b < ?n" if "b < 4096" for b using mk_balloc_loop_bits(1) [of zeroes 0 ?n b] that n by simp
  moreover have "unat (sb_bmapstart (m_sb s)) < FSSIZE" using bm by simp
  ultimately show ?thesis using base_sect(3,7) [OF base, of "sb_bmapstart (m_sb s)"] bm by auto
qed

lemma finish_image:
  assumes inv: "mk_inv s fs" and f0: "fs ! 0 = (ty, r)" and ne: "fs \<noteq> []" and r: "length r < 60000"
  shows "\<exists>u. bindm (mk_fix_root 1 s) (\<lambda>s. mk_balloc (sint (freeblock s)) s) = Inr u \<and> img_len u = FSSIZE \<and> img u 1 = img s 1
    \<and> (\<forall>j < 208. j \<noteq> 1 \<longrightarrow> dn u j = dn s j) \<and> di_addrs (dn u 1) = di_addrs (dn s 1) \<and> di_type (dn u 1) = ty
    \<and> content u 1 = r @ replicate (BSIZE - length r mod BSIZE) 0 \<and> (\<forall>b \<in> data_blocks s. mrd u b = mrd s b)
    \<and> (\<forall>b < 4096. bit_used (img u 58) b \<longleftrightarrow> b < blocks_of fs)"
proof -
  note D = mk_invD [OF inv]
  obtain t where t: "mk_fix_root 1 s = Inr t" "base_ok t" "freeblock t = freeblock s" "\<And>j. j < 208 \<Longrightarrow> j \<noteq> 1 \<Longrightarrow> dn t j = dn s j"
    "\<And>b. b \<in> data_blocks s \<Longrightarrow> mrd t b = mrd s b" "\<forall>k < 32. img t k = img s k" "di_addrs (dn t 1) = di_addrs (dn s 1)" "di_type (dn t 1) = ty"
    "content t 1 = r @ replicate (BSIZE - length r mod BSIZE) 0"
    using mk_fix_root_spec [OF inv f0 ne r] by auto
  obtain u where u: "mk_balloc (sint (freeblock t)) t = Inr u" "img_len u = FSSIZE" "\<And>k. k \<noteq> 58 \<Longrightarrow> img u k = img t k"
    "\<And>b. b < 4096 \<Longrightarrow> bit_used (img u 58) b \<longleftrightarrow> b < unat (freeblock s)"
    using mk_balloc_spec [OF t(2)] t(3) by auto
  have dnu: "dn u j = dn t j" if "j < 208" for j using that u(3) by (auto simp: dn_def)
  have mt: "mrd u b = mrd t b" if "b \<in> data_blocks s" for b using that u(3) by (auto simp: mrd_def data_blocks_def)
  have f: "fblks s 1 \<subseteq> data_blocks s" using D(7) [of 0] ne by simp
  have ft: "fblks t 1 = fblks s 1" by (rule content_same(1) [of t 1 s]) (use t(5,7) f in auto)
  have sz: "unat (di_size (dn t 1)) \<le> MAXFILE * BSIZE" using arg_cong [OF t(9), of length] r by (simp add: content_def)
  have "content u 1 = content t 1" by (rule content_same(2)) (use dnu [of 1] sz mt ft f in auto)
  then have c: "content u 1 = r @ replicate (BSIZE - length r mod BSIZE) 0" using t(9) by simp
  have bits: "bit_used (img u 58) b \<longleftrightarrow> b < blocks_of fs" if "b < 4096" for b using u(4) [OF that] D(4) by simp
  show ?thesis
    by (intro exI [of _ u] conjI) (use t u(1,2,3) dnu mt c bits in auto)
qed

lemma mkfs_run:
  assumes args: "\<And>a. a \<in> set args \<Longrightarrow> 47 \<notin> set a \<and> files a \<noteq> None \<and> length (host_file files a) \<le> MAXFILE * BSIZE" and len: "length args < 199"
    and sp: "blocks_of ((T_DIR, mk_entry 1 [46] @ mk_entry 1 [46, 46] @ listing 2 args) # map (\<lambda>a. (T_FILE, host_file files a)) args) \<le> FSSIZE"
  defines "fs \<equiv> (T_DIR, mk_entry 1 [46] @ mk_entry 1 [46, 46] @ listing 2 args) # map (\<lambda>a. (T_FILE, host_file files a)) args"
  shows "\<exists>s. mk_inv s fs \<and> sb_of_bytes (img s 1) = mk_sb
    \<and> mkfs True files (prog # out # args) = bindm (mk_fix_root 1 s) (\<lambda>s. mk_balloc (sint (freeblock s)) s)"
proof -
  note F = mk_format_spec
  obtain s1 where s1: "mk_ialloc T_DIR (mk_format mkst0) = Inr (1, s1)" "mk_inv s1 [(T_DIR, [])]" "\<forall>k < 32. img s1 k = img (mk_format mkst0) k"
    using mk_ialloc_spec [OF conjunct1 [OF F], of T_DIR] by auto
  have dot: "blocks_of [(T_DIR, mk_entry 1 [46])] \<le> FSSIZE" "blocks_of [(T_DIR, mk_entry 1 [46] @ mk_entry 1 [46, 46])] \<le> FSSIZE"
    by (simp_all add: blocks_of_def nblk_def)
  obtain s2 where s2: "iappend 1 (mk_entry 1 [46]) s1 = Inr s2" "mk_inv s2 [(T_DIR, mk_entry 1 [46])]" "\<forall>k < 32. img s2 k = img s1 k"
    using iappend_spec [OF s1(2), of 0 T_DIR "[]" "mk_entry 1 [46]"] dot by auto
  obtain s3 where s3: "iappend 1 (mk_entry 1 [46, 46]) s2 = Inr s3" "mk_inv s3 [(T_DIR, mk_entry 1 [46] @ mk_entry 1 [46, 46])]" "\<forall>k < 32. img s3 k = img s2 k"
    using iappend_spec [OF s2(2), of 0 T_DIR "mk_entry 1 [46]" "mk_entry 1 [46, 46]"] dot by auto
  obtain s4 where s4: "mk_files files 1 args s3 = Inr s4" "mk_inv s4 fs" "\<forall>k < 32. img s4 k = img s3 k"
    using mk_files_spec [OF s3(2), of T_DIR "mk_entry 1 [46] @ mk_entry 1 [46, 46]" args files] args len sp by (auto simp: fs_def numeral_2_eq_2)
  have "img s4 1 = img (mk_format mkst0) 1" using s1(3) s2(3) s3(3) s4(3) by simp
  then have "sb_of_bytes (img s4 1) = mk_sb" using F by simp
  moreover have "mkfs True files (prog # out # args) = bindm (mk_fix_root 1 s4) (\<lambda>s. mk_balloc (sint (freeblock s)) s)"
    using s1(1) s2(1) s3(1) s4(1) by (simp add: mkfs_def)
  ultimately show ?thesis using s4(2) by blast
qed

subsection \<open>Property\<close>

text \<open>C38: \<open>mkfs\<close> builds the file system it is asked for. Given fewer than 199 files that can be opened, whose names
  have no slash and whose contents are at most a file's maximal size, and which fit on the disk together, it succeeds. The
  image has 1000 blocks and the super block that describes its layout. Inode 1 is a directory that
  lists \<open>.\<close>, \<open>..\<close> and the files under their names without a leading underscore, followed by empty entries. The inodes after it
  are the files, in order, each with the bytes of the host's file. No two of them share a block, and the bitmap
  marks as used exactly the blocks up to the last one in use.\<close>

theorem mkfs_builds_image:
  assumes "\<And>a. a \<in> set args \<Longrightarrow> 47 \<notin> set a \<and> files a \<noteq> None \<and> length (host_file files a) \<le> MAXFILE * BSIZE" and "length args < 199"
    and "59 + nblk (32 + 16 * length args) + (\<Sum>a \<leftarrow> args. nblk (length (host_file files a))) \<le> FSSIZE"
  shows "\<exists>t z. mkfs True files (prog # out # args) = Inr t \<and> img_len t = FSSIZE \<and> sb_of_bytes (img t 1) = mk_sb
    \<and> di_type (dn t 1) = T_DIR \<and> content t 1 = mk_entry 1 [46] @ mk_entry 1 [46, 46] @ listing 2 args @ replicate z 0
    \<and> (\<forall>i < length args. di_type (dn t (i + 2)) = T_FILE \<and> content t (i + 2) = host_file files (args ! i))
    \<and> (\<forall>i \<le> length args. \<forall>j \<le> length args. i \<noteq> j \<longrightarrow> fblks t (Suc i) \<inter> fblks t (Suc j) = {})
    \<and> (\<forall>b < 4096. bit_used (img t 58) b
         \<longleftrightarrow> b < 59 + nblk (32 + 16 * length args) + (\<Sum>a \<leftarrow> args. nblk (length (host_file files a))))
    \<and> (\<forall>i \<le> length args. \<forall>b \<in> fblks t (Suc i). 59 \<le> unat b \<and> bit_used (img t 58) (unat b))"
proof -
  let ?r = "mk_entry 1 [46] @ mk_entry 1 [46, 46] @ listing 2 args"
  let ?fs = "(T_DIR, ?r) # map (\<lambda>a. (T_FILE, host_file files a)) args"
  have bo: "blocks_of ?fs = 59 + nblk (32 + 16 * length args) + (\<Sum>a \<leftarrow> args. nblk (length (host_file files a)))"
    by (simp add: blocks_of_def o_def)
  obtain s where s: "mk_inv s ?fs" "sb_of_bytes (img s 1) = mk_sb"
    "mkfs True files (prog # out # args) = bindm (mk_fix_root 1 s) (\<lambda>s. mk_balloc (sint (freeblock s)) s)"
    using mkfs_run [OF assms(1,2)] assms(3) bo by auto
  note D = mk_invD [OF s(1)]
  obtain u where u: "bindm (mk_fix_root 1 s) (\<lambda>s. mk_balloc (sint (freeblock s)) s) = Inr u" "img_len u = FSSIZE" "img u 1 = img s 1"
    "\<And>j. j < 208 \<Longrightarrow> j \<noteq> 1 \<Longrightarrow> dn u j = dn s j" "di_addrs (dn u 1) = di_addrs (dn s 1)" "di_type (dn u 1) = T_DIR"
    "content u 1 = ?r @ replicate (BSIZE - length ?r mod BSIZE) 0" "\<And>b. b \<in> data_blocks s \<Longrightarrow> mrd u b = mrd s b"
    "\<And>b. b < 4096 \<Longrightarrow> bit_used (img u 58) b \<longleftrightarrow> b < blocks_of ?fs"
    using finish_image [OF s(1), of T_DIR ?r] assms(2) by auto
  have fl: "fblks s (Suc i) \<subseteq> data_blocks s" "Suc i < 208" if "i \<le> length args" for i using D(7) [of i] that assms(2) by auto
  have "di_addrs (dn u j) = di_addrs (dn s j)" if "j < 208" for j using u(4,5) that by (cases "j = 1") auto
  then have fb: "fblks u (Suc i) = fblks s (Suc i)" if "i \<le> length args" for i
    using content_same(1) [of u "Suc i" s] fl [OF that] u(8) by blast
  have files: "di_type (dn u (i + 2)) = T_FILE \<and> content u (i + 2) = host_file files (args ! i)" if i: "i < length args" for i
  proof -
    have f: "file_at s (Suc (Suc i)) T_FILE (host_file files (args ! i))" using D(5) [of "Suc i"] i by simp
    have d: "dn u (Suc (Suc i)) = dn s (Suc (Suc i))" using u(4) i assms(2) by simp
    have "unat (di_size (dn s (Suc (Suc i)))) \<le> MAXFILE * BSIZE" using f by (auto simp: file_at_def unat_of_nat)
    then have "content u (Suc (Suc i)) = content s (Suc (Suc i))" using content_same(2) [of u "Suc (Suc i)" s] d fl(1) [of "Suc i"] i u(8) by auto
    then show ?thesis using file_content [OF f] d by simp
  qed
  have "blocks_of ?fs \<le> FSSIZE" using assms(3) bo by simp
  then have used: "59 \<le> unat b \<and> bit_used (img u 58) (unat b)" if "i \<le> length args" "b \<in> fblks u (Suc i)" for i b
    using that fb [OF that(1)] fl(1) [OF that(1)] u(9) [of "unat b"] D(4) by (auto simp: data_blocks_def)
  have dis: "fblks u (Suc i) \<inter> fblks u (Suc j) = {}" if "i \<le> length args" "j \<le> length args" "i \<noteq> j" for i j
    using D(6) [of i j] that fb by simp
  have c: "content u 1 = mk_entry 1 [46] @ mk_entry 1 [46, 46] @ listing 2 args @ replicate (BSIZE - length ?r mod BSIZE) 0" using u(7) by simp
  have run: "mkfs True files (prog # out # args) = Inr u" and sb: "sb_of_bytes (img u 1) = mk_sb" using s(2,3) u(1,3) by simp_all
  show ?thesis using run u(2) sb u(6) c files dis u(9) [unfolded bo] used by blast
qed

theorem mkfs_builds_image_witness:
  "\<exists>t. mkfs True (\<lambda>_. Some [[1, 2], [3]]) [[], [], [95, 108, 115], [99]] = Inr t \<and> content t 2 = [1, 2, 3] \<and> content t 3 = [1, 2, 3]"
proof -
  let ?f = "\<lambda>_. Some [[1, 2], [3]] :: uchar list list option" and ?args = "[[95, 108, 115], [99]] :: uchar list list"
  have h: "host_file ?f a = [1, 2, 3]" for a by (simp add: host_file_def)
  have a: "47 \<notin> set a \<and> ?f a \<noteq> None \<and> length (host_file ?f a) \<le> MAXFILE * BSIZE" if "a \<in> set ?args" for a using that by (auto simp: h)
  obtain t where t: "mkfs True ?f ([] # [] # ?args) = Inr t" "\<And>i. i < length ?args \<Longrightarrow> content t (i + 2) = host_file ?f (?args ! i)"
    using mkfs_builds_image [of ?args ?f "[]" "[]", OF a] by (auto simp: h nblk_def)
  have "content t 2 = [1, 2, 3]" "content t 3 = [1, 2, 3]" using t(2) [of 0] t(2) [of 1] by (simp_all add: h eval_nat_numeral)
  then show ?thesis using t(1) by blast
qed

end
