(* ===== verification/Spec2Isabelle.thy ===== *)
theory Spec2Isabelle
  imports Cstring Spinlock Kalloc Log_Crash Pipe Sysfile Console Kbd Grep Umalloc Shell Uprogs Segs Trap Ide Mp Boot Startup Vm_Space Mkfs
begin

text \<open>
  The program is xv6, a teaching operating system for x86 in C: a kernel with processes, virtual
  memory, a logged file system, pipes and device drivers, the user programs that run on it (a shell,
  small commands, a C library), the boot loader and the tool that builds the file-system image. Each
  theory models one part of it and proves what makes that part correct.

  \<^bold>\<open>Conventions.\<close> A C function is a HOL function on an explicit state; its early returns and
  panics are the branches of its result. \<open>'a res\<close> (theory \<open>Prelude\<close>) has the outcomes \<open>Ret\<close>, \<open>Panic\<close>
  (the kernel's \<open>panic\<close>), \<open>Sleep\<close> (the call has to wait on a channel), \<open>Fault\<close> (an access that C leaves
  undefined) and \<open>Diverge\<close> (a loop without end, such as a spin on a lock nobody releases). Integers have the
  width of the C type (\<open>uint\<close> is \<open>32 word\<close>); memory is a function from addresses to bytes. A loop is
  structural recursion where its count is known before it starts, a \<open>function\<close> with a termination proof,
  or a \<open>partial_function (option)\<close> where the code can run forever. Code that several processes or
  processors run is a step relation, its atomic steps being the parts between the acquisition and the
  release of the lock that protects them; invariants are proved through the locale \<open>step_invariant\<close>.

  \<^bold>\<open>Machine and kernel services.\<close>
  \<^item> \<open>Spinlock\<close> (spinlock.c, struct cpu of proc.h): locks and the nesting of \<open>pushcli\<close>; mutual exclusion of a
    contended lock on any number of processors.
  \<^item> \<open>Cstring\<close> (string.c): the string functions over byte memory, against list specifications.
  \<^item> \<open>Kalloc\<close> (kalloc.c): the free list threaded through the free pages; no page is handed out twice, and
    after both stages of initialisation each page above the kernel is free or with the caller that took it
    in between.
  \<^item> \<open>Vm\<close>, \<open>Vm_Map\<close>, \<open>Vm_Space\<close> (vm.c): page tables in memory; \<open>mappages\<close> keeps directories well formed and maps
    its range only, and \<open>copyuvm\<close> gives a forked child an equal and separate memory.
  \<^item> \<open>Segs\<close> (mmu.h, \<open>seginit\<close>, \<open>tvinit\<close>): segment and gate descriptors with the privilege checks the processor
    makes on them.
  \<^item> \<open>Ptable\<close>, \<open>Proc\<close> (proc.c): the process table as a step relation (fork, exit, wait, kill, sleep and
    wakeup) and the full functions on the state of the kernel.
  \<^item> \<open>Sysarg\<close>, \<open>Sysfile\<close>, \<open>Exec\<close> (syscall.c, sysfile.c, sysproc.c, exec.c): all system calls with the
    fetching of their arguments through the page table, and their dispatch.
  \<^item> \<open>Trap\<close> (trap.c): the trap handler on the whole state, with the interrupts of the console devices.

  \<^bold>\<open>Storage.\<close>
  \<^item> \<open>Memide\<close> (memide.c, buf.h) and \<open>Ide\<close> (ide.c): the two disk drivers. The contract of a driver that the
    buffer cache relies on is the locale \<open>disk_driver\<close>; of the IDE driver the queue and the commands
    the controller gets are proved first in, first out.
  \<^item> \<open>Bio\<close> (bio.c): the buffer cache as a linked list with any number of processes using it; it is coherent
    and exclusive.
  \<^item> \<open>Log\<close>, \<open>Log_Crash\<close> (log.c): the log; a crash after any of the disk writes of a commit, followed by
    recovery, leaves all of the transaction or nothing of it.
  \<^item> \<open>Fs_Block\<close>, \<open>Fs_Inode\<close>, \<open>Fs_Dir\<close>, \<open>File\<close> (fs.c, file.c): blocks, inodes, directories and paths, open files.
  \<^item> \<open>Fifo\<close>, \<open>Pipe\<close> (pipe.c): a ring buffer, shared with the console, and pipes as a step relation.

  \<^bold>\<open>Devices and start-up.\<close>
  \<^item> \<open>Console\<close>, \<open>Printf\<close>, \<open>Kbd\<close> (console.c, uart.c, printf.c, kbd.c): output, the line editor of the
    console, which refines an abstract one, and the keyboard's modifier keys.
  \<^item> \<open>Mp\<close>, \<open>Apic\<close> (mp.c, lapic.c, ioapic.c, picirq.c, timer.c): the multiprocessor tables, the interrupt
    controllers and the clock.
  \<^item> \<open>Boot\<close> (bootmain.c), \<open>Startup\<close> (main.c): loading the kernel from the disk, the first page directory and the
    start of the other processors, each with a stack page of its own.
  \<^item> \<open>Fmap\<close>, \<open>Mkfs\<close> (mkfs.c): the blocks and contents of a file, and the builder of the disk image, which is proved to
    hold the files it is given.

  \<^bold>\<open>User programs.\<close>
  \<^item> \<open>Ulib\<close>, \<open>Umalloc\<close> (ulib.c, umalloc.c): the library and the allocator, whose blocks are proved to stay apart;
    requests too large for \<open>sbrk\<close> are shown to be answered wrongly.
  \<^item> \<open>Shell\<close>, \<open>Grep\<close>, \<open>Uprogs\<close> (sh.c, grep.c and the small commands): parser and execution of command lines, the
    pattern matcher against the language of its patterns, the counters of \<open>wc\<close>.

  \<^bold>\<open>Bounds.\<close> The parser of the shell recurses at most \<open>4 * n + 4\<close> times on a line of \<open>n\<close> bytes, which is proved
  to be enough (\<open>shell_parser_returns\<close>); printing a number takes at most 32 digits, the length for base
  2. The searches of the buffer cache go round the list at most once for its 30 buffers. Counters the code lets
  overflow keep their 32 bits, and a theorem that needs them not to says so: the nesting depth of \<open>pushcli\<close>
  below \<open>2^31\<close>, \<open>nextpid\<close> a positive \<open>int\<close> where process numbers are unique (\<open>bounded_step\<close>), requests to \<open>malloc\<close> of
  at most 0x7FFFFFF0 bytes.

  \<^bold>\<open>Not modelled.\<close> The assembly (bootasm.S, entry.S, entryother.S, initcode.S, swtch.S, trapasm.S, usys.S and the
  vectors a script generates) has no C semantics; a context switch is the boundary between two
  definitions. The test programs (usertests.c, stressfs.c, forktest.c) exercise the system and are not
  part of it. Timing, caches and the order in which processors see memory are outside the model: the
  steps are sequentially consistent.
\<close>

end
